(* ===== verification/Prelude.thy ===== *)
theory Prelude
  imports Main "HOL-Library.Word" "HOL-Library.Multiset"
begin

unbundle bit_operations_syntax

text \<open>
  What every component of the development shares: the outcome of a kernel operation
  (\<open>run\<close>: it returns, or an \<^verbatim>\<open>ASSERT\<close>, a \<^verbatim>\<open>panic\<close> or a \<^verbatim>\<open>MUST\<close> stops the machine),
  the error numbers that the modelled code returns in a \<^verbatim>\<open>BAN::ErrorOr\<close>, the collections
  of simplification rules, and generic lemmas on lists, words and 64-bit arithmetic.
\<close>

section \<open>Outcomes\<close>

text \<open>
  \<open>Done x\<close>: the operation returned \<open>x\<close>.
  \<open>Halt\<close>: an \<^verbatim>\<open>ASSERT\<close> failed, \<^verbatim>\<open>panic\<close> was called, or storage was used that holds no
  object. A theorem that an operation is \<open>Done\<close> is therefore a theorem that none of the
  assertions of the source can fire.
\<close>

datatype 'a run = Done 'a | Halt

definition rbind :: "'a run \<Rightarrow> ('a \<Rightarrow> 'b run) \<Rightarrow> 'b run" where
  "rbind m f = (case m of Done x \<Rightarrow> f x | Halt \<Rightarrow> Halt)"

definition asserting :: "bool \<Rightarrow> 'a run \<Rightarrow> 'a run" where
  "asserting c m = (if c then m else Halt)"

definition is_done :: "'a run \<Rightarrow> bool" where
  "is_done m = (case m of Done _ \<Rightarrow> True | Halt \<Rightarrow> False)"

lemma rbind_simps [simp]:
  "rbind (Done x) f = f x"
  "rbind Halt f = Halt"
  by (simp_all add: rbind_def)

lemma asserting_simps [simp]:
  "asserting True m = m"
  "asserting False m = Halt"
  by (simp_all add: asserting_def)

lemma is_done_simps [simp]:
  "is_done (Done x)"
  "\<not> is_done Halt"
  by (simp_all add: is_done_def)

lemma rbind_eq_Done_iff:
  "rbind m f = Done y \<longleftrightarrow> (\<exists>x. m = Done x \<and> f x = Done y)"
  by (cases m) auto

lemma asserting_eq_Done_iff:
  "asserting c m = Done y \<longleftrightarrow> c \<and> m = Done y"
  by (simp add: asserting_def)

lemma asserting_eq_Halt_iff:
  "asserting c m = Halt \<longleftrightarrow> \<not> c \<or> m = Halt"
  by (simp add: asserting_def)

lemma rbind_cong [fundef_cong]:
  "m = m' \<Longrightarrow> (\<And>x. m' = Done x \<Longrightarrow> f x = f' x) \<Longrightarrow> rbind m f = rbind m' f'"
  by (cases m') auto

lemma asserting_cong [fundef_cong]:
  "c = c' \<Longrightarrow> (c' \<Longrightarrow> m = m') \<Longrightarrow> asserting c m = asserting c' m'"
  by (auto simp: asserting_def)

lemmas run_iffs = rbind_eq_Done_iff asserting_eq_Done_iff asserting_eq_Halt_iff

text \<open>The error numbers of \<^verbatim>\<open>BAN::Error::from_errno\<close> that the modelled code returns.\<close>

datatype errno = ENOMEM | EINVAL | EPIPE | EINTR | ENXIO | ENODEV | ENOBUFS | ENOENT | EEXIST | EBADF | EMFILE | ENOTSUP | EPERM | EAGAIN | ETIMEDOUT

type_synonym 'a error_or = "errno + 'a"

text \<open>
  A call that returns a \<^verbatim>\<open>BAN::ErrorOr\<close> and contains assertions: \<open>tbind\<close> is the macro \<^verbatim>\<open>TRY\<close>, which
  returns the error to the caller, and \<open>must\<close> the macro \<^verbatim>\<open>MUST\<close>, which panics on it.
\<close>

definition tbind :: "'a error_or run \<Rightarrow> ('a \<Rightarrow> 'b error_or run) \<Rightarrow> 'b error_or run" where
  "tbind m f = rbind m (\<lambda>r. case r of Inl e \<Rightarrow> Done (Inl e) | Inr x \<Rightarrow> f x)"

definition must :: "'a error_or run \<Rightarrow> ('a \<Rightarrow> 'b run) \<Rightarrow> 'b run" where
  "must m f = rbind m (\<lambda>r. case r of Inl e \<Rightarrow> Halt | Inr x \<Rightarrow> f x)"

lemma tbind_simps [simp]:
  "tbind (Done (Inr x)) f = f x"
  "tbind (Done (Inl e)) f = Done (Inl e)"
  "tbind Halt f = Halt"
  by (simp_all add: tbind_def)

lemma must_simps [simp]:
  "must (Done (Inr x)) g = g x"
  "must (Done (Inl e)) g = Halt"
  "must Halt g = Halt"
  by (simp_all add: must_def)

lemma tbind_cong [fundef_cong]:
  "m = m' \<Longrightarrow> (\<And>x. m' = Done (Inr x) \<Longrightarrow> f x = f' x) \<Longrightarrow> tbind m f = tbind m' f'"
  by (auto simp: tbind_def intro!: rbind_cong split: sum.splits)

lemma tbind_eq_InrD:
  assumes "tbind m f = Done (Inr y)"
  obtains x where "m = Done (Inr x)" "f x = Done (Inr y)"
  using assms by (cases m) (auto simp: tbind_def split: sum.splits)

section \<open>Blocking calls\<close>

text \<open>
  One attempt of a call that may have to wait: \<open>Returns x\<close>, or \<open>Blocks\<close>: the thread goes to sleep with
  the state unchanged and the mutex released, and tries again after it has been woken. The
  notices record what the call tells the rest of the kernel: an event for \<^verbatim>\<open>epoll\<close>, or the
  wake-up of the sleeping threads.
\<close>

datatype 'a attempt = Returns 'a | Blocks

datatype notice = EPOLLIN | EPOLLOUT | EPOLLERR | EPOLLHUP | Unblock

section \<open>Collections\<close>

named_theorems word_bits \<open>bit-wise facts of the words the components use\<close>
named_theorems abs_simps \<open>how an operation changes the abstract value of its component\<close>

section \<open>64-bit unsigned arithmetic on natural numbers\<close>

text \<open>
  Physical addresses and byte counts are natural numbers below \<open>2 ^ 64\<close>; where the source
  can wrap around, its operators are written \<open>u64_add\<close> and \<open>u64_sub\<close>.
\<close>

definition u64_add :: "nat \<Rightarrow> nat \<Rightarrow> nat" where
  "u64_add a b = (a + b) mod 2 ^ 64"

definition u64_sub :: "nat \<Rightarrow> nat \<Rightarrow> nat" where
  "u64_sub a b = (a + 2 ^ 64 - b) mod 2 ^ 64"

lemma u64_add_no_wrap: "a + b < 2 ^ 64 \<Longrightarrow> u64_add a b = a + b"
  by (simp add: u64_add_def)

lemma u64_sub_no_wrap:
  assumes "b \<le> a" "a < 2 ^ 64"
  shows "u64_sub a b = a - b"
proof -
  have "a + 2 ^ 64 - b = (a - b) + 2 ^ 64" using assms by simp
  then have "u64_sub a b = (a - b) mod 2 ^ 64" by (simp only: u64_sub_def mod_add_self2)
  then show ?thesis using assms by simp
qed

lemma u64_sub_wraps:
  assumes "a < b" "b \<le> 2 ^ 64"
  shows "u64_sub a b = 2 ^ 64 - (b - a)"
proof -
  have "a + 2 ^ 64 - b = 2 ^ 64 - (b - a)" "2 ^ 64 - (b - a) < (2 ^ 64 :: nat)"
    using assms by simp_all
  then show ?thesis by (simp add: u64_sub_def)
qed

section \<open>Lists\<close>

lemma nth_list_update_if:
  "i < length xs \<Longrightarrow> xs[j := x] ! i = (if i = j then x else xs ! i)"
  by (simp add: nth_list_update)

lemma takeWhile_upt_first:
  assumes "P k" "k < n" "\<And>i. i < k \<Longrightarrow> \<not> P i"
  shows "takeWhile (\<lambda>i. \<not> P i) [0..<n] = [0..<k]"
proof -
  have "[0..<n] = [0..<k] @ k # [Suc k..<n]"
    using assms(2) by (metis upt_add_eq_append upt_conv_Cons le_add_diff_inverse less_imp_le zero_le)
  then show ?thesis using assms(1,3) by (simp add: takeWhile_append)
qed

lemma of_nat_32_eq_0: "m < 2 ^ 32 \<Longrightarrow> (of_nat m :: 32 word) = 0 \<longleftrightarrow> m = 0"
  by (auto simp: word_of_nat_eq_0_iff dest: dvd_imp_le)

end
