(* ===== verification/BAN_Math.thy ===== *)
theory BAN_Math
  imports Prelude
begin

unbundle bit_operations_syntax

text \<open>
  \<^verbatim>\<open>BAN/include/BAN/Math.h\<close>, the integer part (lines 25 to 130).
  The templates are modelled at unsigned types (\<open>'a word\<close>; the loop of \<open>gcd\<close> on \<open>nat\<close>).
\<close>

section \<open>Definitions\<close>

definition math_min :: "'a::linorder \<Rightarrow> 'a \<Rightarrow> 'a" where
  "math_min a b = (if a < b then a else b)"

definition math_max :: "'a::linorder \<Rightarrow> 'a \<Rightarrow> 'a" where
  "math_max a b = (if b < a then a else b)"

definition math_clamp :: "'a::linorder \<Rightarrow> 'a \<Rightarrow> 'a \<Rightarrow> 'a" where
  "math_clamp x lo hi = (if x < lo then lo else if hi < x then hi else x)"

fun math_gcd :: "nat \<Rightarrow> nat \<Rightarrow> nat" where
  "math_gcd a b = (if b = 0 then a else math_gcd b (a mod b))"

declare math_gcd.simps [simp del]

definition math_lcm :: "nat \<Rightarrow> nat \<Rightarrow> nat" where
  "math_lcm a b = a div math_gcd a b * b"

definition div_round_up :: "'a::len word \<Rightarrow> 'a word \<Rightarrow> 'a word" where
  "div_round_up a b = (a + b - 1) div b"

definition is_power_of_two :: "'a::len word \<Rightarrow> bool" where
  "is_power_of_two x = (if x = 0 then False else x AND (x - 1) = 0)"

definition round_up_to_power_of_two :: "64 word \<Rightarrow> 64 word" where
  "round_up_to_power_of_two x =
     (let x = x - 1;
          x = x OR drop_bit 1 x;
          x = x OR drop_bit 2 x;
          x = x OR drop_bit 4 x;
          x = x OR drop_bit 8 x;
          x = x OR drop_bit 16 x;
          x = x OR drop_bit 32 x
      in x + 1)"

text \<open>
  \<open>clz\<close>, \<open>ctz\<close> and \<open>popcount\<close> are the compiler's \<^verbatim>\<open>__builtin_clzg\<close>, \<^verbatim>\<open>__builtin_ctzg\<close>
  and \<^verbatim>\<open>__builtin_popcountg\<close> (the first two are undefined at 0; the model gives the width).
\<close>

definition ctz :: "'a::len word \<Rightarrow> nat" where
  "ctz x = length (takeWhile (\<lambda>i. \<not> bit x i) [0..<LENGTH('a)])"

definition clz :: "'a::len word \<Rightarrow> nat" where
  "clz x = length (takeWhile (\<lambda>i. \<not> bit x (LENGTH('a) - 1 - i)) [0..<LENGTH('a)])"

definition popcount :: "'a::len word \<Rightarrow> nat" where
  "popcount x = length (filter (bit x) [0..<LENGTH('a)])"

definition will_multiplication_overflow :: "'a::len word \<Rightarrow> 'a word \<Rightarrow> bool" where
  "will_multiplication_overflow a b = (2 ^ LENGTH('a) \<le> unat a * unat b)"

definition will_addition_overflow :: "'a::len word \<Rightarrow> 'a word \<Rightarrow> bool" where
  "will_addition_overflow a b = (2 ^ LENGTH('a) \<le> unat a + unat b)"

definition ilog2 :: "'a::len word \<Rightarrow> nat" where
  "ilog2 x = LENGTH('a) - clz x - 1"

section \<open>Minimum, maximum, greatest common divisor\<close>

lemma math_min_eq [simp]: "math_min a b = min a b"
  by (auto simp: math_min_def min_def)

lemma math_max_eq [simp]: "math_max a b = max a b"
  by (auto simp: math_max_def max_def)

lemma math_gcd_eq: "math_gcd a b = gcd a b"
proof (induction a b rule: math_gcd.induct)
  case (1 a b)
  then show ?case
    by (simp add: math_gcd.simps [of a b] gcd_red_nat [of a b])
qed

section \<open>Bits\<close>

lemma ctz_first:
  fixes x :: "'a::len word"
  assumes "bit x k" "\<And>i. i < k \<Longrightarrow> \<not> bit x i"
  shows "ctz x = k"
proof -
  have "k < LENGTH('a)" using assms(1) by (rule bit_imp_le_length)
  then show ?thesis
    using takeWhile_upt_first [of "bit x" k "LENGTH('a)"] assms by (simp add: ctz_def)
qed

lemma word_lowest_bit:
  fixes x :: "'a::len word"
  assumes "x \<noteq> 0"
  obtains k where "bit x k" "\<And>i. i < k \<Longrightarrow> \<not> bit x i"
proof -
  from assms have ex: "\<exists>n. bit x n"
    by (metis bit_0_eq bit_word_eqI bot_apply bot_bool_def)
  then show ?thesis
    using that [of "LEAST n. bit x n"] LeastI_ex not_less_Least by metis
qed

lemma ctz_bit: "x \<noteq> 0 \<Longrightarrow> bit x (ctz x)"
  by (metis ctz_first word_lowest_bit)

lemma ctz_least: "x \<noteq> 0 \<Longrightarrow> i < ctz x \<Longrightarrow> \<not> bit x i"
  by (metis ctz_first word_lowest_bit)

lemma ctz_less: "x \<noteq> 0 \<Longrightarrow> ctz (x :: 'a::len word) < LENGTH('a)"
  using ctz_bit bit_imp_le_length by blast

section \<open>Powers of two\<close>

text \<open>Clearing the lowest set bit, and what subtracting one does to a word.\<close>

lemma word_minus_one_lowest_bit:
  fixes x :: "'a::len word"
  assumes "bit x k" "\<And>i. i < k \<Longrightarrow> \<not> bit x i"
  shows "x - 1 = unset_bit k x OR mask k"
proof -
  have k: "k < LENGTH('a)" using assms(1) by (rule bit_imp_le_length)
  have "x = unset_bit k x OR 2 ^ k"
    by (rule bit_word_eqI) (use assms(1) k in \<open>auto simp: bit_simps\<close>)
  also have "\<dots> = unset_bit k x + 2 ^ k"
    by (rule disjunctive_add [symmetric]) (auto simp: bit_simps)
  finally have "x - 1 = unset_bit k x + mask k"
    by (simp add: mask_eq_exp_minus_1 algebra_simps)
  also have "\<dots> = unset_bit k x OR mask k"
    by (rule disjunctive_add) (use assms(2) in \<open>auto simp: bit_simps\<close>)
  finally show ?thesis .
qed

lemma is_power_of_two_iff:
  fixes x :: "'a::len word"
  shows "is_power_of_two x \<longleftrightarrow> (\<exists>k < LENGTH('a). x = 2 ^ k)"
proof (cases "x = 0")
  case True
  then show ?thesis by (auto simp: is_power_of_two_def)
next
  case False
  then obtain k where k: "bit x k" "\<And>i. i < k \<Longrightarrow> \<not> bit x i"
    using word_lowest_bit by blast
  have kl: "k < LENGTH('a)" using k(1) by (rule bit_imp_le_length)
  have "x AND (x - 1) = unset_bit k x"
    by (rule bit_word_eqI)
      (use k in \<open>auto simp: word_minus_one_lowest_bit [OF k] bit_simps\<close>)
  then have *: "is_power_of_two x \<longleftrightarrow> unset_bit k x = 0"
    using False by (simp add: is_power_of_two_def)
  have "unset_bit k x = 0 \<longleftrightarrow> x = 2 ^ k"
  proof
    assume "unset_bit k x = 0"
    then have z: "\<not> bit (unset_bit k x) i" for i by simp
    show "x = 2 ^ k"
    proof (rule bit_word_eqI)
      fix i show "bit x i = bit (2 ^ k :: 'a word) i"
        using z [of i] k(1) kl by (auto simp: bit_simps)
    qed
  next
    assume "x = 2 ^ k"
    then show "unset_bit k x = 0"
      by (auto intro: bit_word_eqI simp: bit_simps)
  qed
  moreover have "x = 2 ^ j \<Longrightarrow> j < LENGTH('a) \<Longrightarrow> j = k" for j
    using k(1) by (auto simp: bit_simps)
  ultimately show ?thesis using * kl by auto
qed

text \<open>
  One round of the smearing in \<open>round_up_to_power_of_two\<close> doubles the window of higher
  bits that each bit collects.
\<close>

definition smeared :: "nat \<Rightarrow> 'a::len word \<Rightarrow> 'a word \<Rightarrow> bool" where
  "smeared d x y \<longleftrightarrow> (\<forall>i. bit y i \<longleftrightarrow> (\<exists>j. i \<le> j \<and> j < i + d \<and> bit x j))"

lemma smeared_self: "smeared 1 x x"
  unfolding smeared_def by (metis less_Suc_eq_le Suc_eq_plus1 le_antisym order_refl)

lemma smeared_step:
  assumes "smeared d x y"
  shows "smeared (d + d) x (y OR drop_bit d y)"
  unfolding smeared_def
proof
  fix i
  have "bit (y OR drop_bit d y) i \<longleftrightarrow> bit y i \<or> bit y (i + d)"
    by (simp add: bit_simps add.commute)
  also have "\<dots> \<longleftrightarrow> (\<exists>j. i \<le> j \<and> j < i + d \<and> bit x j) \<or> (\<exists>j. i + d \<le> j \<and> j < i + d + d \<and> bit x j)"
    using assms unfolding smeared_def by blast
  also have "\<dots> \<longleftrightarrow> (\<exists>j. i \<le> j \<and> j < i + (d + d) \<and> bit x j)"
  proof
    assume "\<exists>j. i \<le> j \<and> j < i + (d + d) \<and> bit x j"
    then obtain j where "i \<le> j" "j < i + (d + d)" "bit x j" by blast
    then show "(\<exists>j. i \<le> j \<and> j < i + d \<and> bit x j) \<or> (\<exists>j. i + d \<le> j \<and> j < i + d + d \<and> bit x j)"
      by (cases "j < i + d") auto
  qed (auto intro: le_trans [OF le_add1])
  finally show "bit (y OR drop_bit d y) i \<longleftrightarrow> (\<exists>j. i \<le> j \<and> j < i + (d + d) \<and> bit x j)" .
qed

lemma word_highest_bit:
  fixes x :: "'a::len word"
  assumes "x \<noteq> 0"
  obtains k where "bit x k" "\<And>i. k < i \<Longrightarrow> \<not> bit x i"
proof -
  let ?S = "{n. bit x n}"
  have "?S \<subseteq> {..<LENGTH('a)}" using bit_imp_le_length by auto
  then have fin: "finite ?S" using finite_subset by blast
  have ne: "?S \<noteq> {}" using assms by (metis bit_word_eqI bit_0_eq bot_apply bot_bool_def empty_Collect_eq)
  show ?thesis
    using that [of "Max ?S"] Max_in [OF fin ne] Max_ge [OF fin] by (metis mem_Collect_eq not_less)
qed

lemma smeared_mask:
  fixes x :: "'a::len word"
  assumes "smeared LENGTH('a) x y" "bit x k" "\<And>i. k < i \<Longrightarrow> \<not> bit x i"
  shows "y = mask (Suc k)"
proof (rule bit_word_eqI)
  fix i assume i: "i < LENGTH('a)"
  have "k < LENGTH('a)" using assms(2) by (rule bit_imp_le_length)
  then have "bit y i \<longleftrightarrow> i \<le> k"
    using assms unfolding smeared_def by (metis linorder_not_less trans_less_add2 order_trans)
  then show "bit y i = bit (mask (Suc k) :: 'a word) i"
    using i by (auto simp: bit_simps)
qed

lemma highest_bit_bounds:
  fixes x :: "'a::len word"
  assumes "bit x k" "\<And>i. k < i \<Longrightarrow> \<not> bit x i"
  shows "2 ^ k \<le> unat x" "unat x < 2 ^ Suc k"
proof -
  have "bit (unat x) k" using assms(1) by (simp add: bit_unsigned_iff)
  then have "unat x div 2 ^ k \<noteq> 0" by (metis bit_iff_odd even_zero)
  then show "2 ^ k \<le> unat x" by (meson div_less not_less)
  have "take_bit (Suc k) x = x"
    by (rule bit_word_eqI) (use assms(2) in \<open>force simp: bit_simps less_Suc_eq_le not_less [symmetric]\<close>)
  then have "unat x = take_bit (Suc k) (unat x)"
    by (metis unsigned_take_bit_eq)
  then show "unat x < 2 ^ Suc k" by (metis take_bit_nat_less_exp)
qed

lemma clz_highest:
  fixes x :: "'a::len word"
  assumes "bit x k" "\<And>i. k < i \<Longrightarrow> \<not> bit x i"
  shows "clz x = LENGTH('a) - 1 - k"
proof -
  have k: "k < LENGTH('a)" using assms(1) by (rule bit_imp_le_length)
  have "takeWhile (\<lambda>i. \<not> bit x (LENGTH('a) - 1 - i)) [0..<LENGTH('a)] = [0..<LENGTH('a) - 1 - k]"
    by (rule takeWhile_upt_first) (use assms k in auto)
  then show ?thesis by (simp add: clz_def)
qed

lemma ilog2_bounds:
  fixes x :: "'a::len word"
  assumes "x \<noteq> 0"
  shows "2 ^ ilog2 x \<le> unat x" "unat x < 2 ^ Suc (ilog2 x)"
proof -
  from assms obtain k where k: "bit x k" "\<And>i. k < i \<Longrightarrow> \<not> bit x i"
    using word_highest_bit by blast
  have "k < LENGTH('a)" using k(1) by (rule bit_imp_le_length)
  then have "ilog2 x = k" by (simp add: ilog2_def clz_highest [OF k])
  then show "2 ^ ilog2 x \<le> unat x" "unat x < 2 ^ Suc (ilog2 x)"
    using highest_bit_bounds [OF k] by simp_all
qed

lemma round_up_to_power_of_two_smeared:
  "\<exists>y. smeared 64 (x - 1) y \<and> round_up_to_power_of_two x = y + 1"
proof -
  define a where "a = x - 1"
  define b where "b = a OR drop_bit 1 a"
  define c where "c = b OR drop_bit 2 b"
  define d where "d = c OR drop_bit 4 c"
  define e where "e = d OR drop_bit 8 d"
  define f where "f = e OR drop_bit 16 e"
  define g where "g = f OR drop_bit 32 f"
  have "smeared (1 + 1) a b" unfolding b_def by (intro smeared_step smeared_self)
  then have "smeared (2 + 2) a c" unfolding c_def by (intro smeared_step) (simp only: one_add_one)
  then have "smeared (4 + 4) a d" unfolding d_def by (intro smeared_step) simp
  then have "smeared (8 + 8) a e" unfolding e_def by (intro smeared_step) simp
  then have "smeared (16 + 16) a f" unfolding f_def by (intro smeared_step) simp
  then have "smeared (32 + 32) a g" unfolding g_def by (intro smeared_step) simp
  then have "smeared 64 (x - 1) g" by (simp add: a_def)
  moreover have "round_up_to_power_of_two x = g + 1"
    by (simp only: round_up_to_power_of_two_def Let_def a_def b_def c_def d_def e_def f_def g_def)
  ultimately show ?thesis by blast
qed

lemma smeared_zero: "smeared d 0 y \<Longrightarrow> y = (0::'a::len word)"
  by (auto simp: smeared_def intro!: bit_word_eqI)

lemma round_up_to_power_of_two_bounds:
  assumes "x \<noteq> 0" "x \<le> 2 ^ 63"
  shows "\<exists>k < 64. round_up_to_power_of_two x = 2 ^ k \<and> unat x \<le> 2 ^ k \<and> 2 ^ k < 2 * unat x"
proof -
  obtain y where y: "smeared 64 (x - 1) y" "round_up_to_power_of_two x = y + 1"
    using round_up_to_power_of_two_smeared by blast
  have u: "unat (x - 1) = unat x - 1" "0 < unat x"
    using assms(1) by (simp_all add: unat_minus_one unat_gt_0)
  show ?thesis
  proof (cases "x = 1")
    case True
    then show ?thesis using y smeared_zero by (intro exI [of _ 0]) simp
  next
    case False
    then have "x - 1 \<noteq> 0" by (metis add.commute diff_add_cancel add_0)
    then obtain k where k: "bit (x - 1) k" "\<And>i. k < i \<Longrightarrow> \<not> bit (x - 1) i"
      using word_highest_bit by blast
    note b = highest_bit_bounds [OF k]
    have "unat x \<le> 2 ^ 63" using assms(2) by (simp add: word_le_nat_alt)
    then have "2 ^ k < (2::nat) ^ 63" using b(1) u by linarith
    then have "k < 63" by (simp only: power_strict_increasing_iff)
    have "y = mask (Suc k)" using smeared_mask [OF _ k] y(1) by simp
    then have "round_up_to_power_of_two x = 2 ^ Suc k" using y(2) by (simp add: mask_eq_decr_exp)
    then show ?thesis using b u \<open>k < 63\<close> by (intro exI [of _ "Suc k"]) auto
  qed
qed

section \<open>Properties\<close>

text \<open>
  For every non-zero \<open>x\<close> up to \<open>2 ^ 63\<close> the bit-smearing \<open>round_up_to_power_of_two\<close> returns the
  least power of two that is not below \<open>x\<close>: a power of two, at least \<open>x\<close>, less than twice \<open>x\<close>.
\<close>

theorem round_up_to_power_of_two_correct:
  assumes "x \<noteq> 0" "x \<le> 2 ^ 63"
  shows "\<exists>k < 64. round_up_to_power_of_two x = 2 ^ k \<and> unat x \<le> 2 ^ k \<and> 2 ^ k < 2 * unat x"
  by (rule round_up_to_power_of_two_bounds [OF assms])

theorem round_up_to_power_of_two_correct_witness:
  "\<exists>k < 64. round_up_to_power_of_two 100 = 2 ^ k \<and> unat (100::64 word) \<le> 2 ^ k \<and> 2 ^ k < 2 * unat (100::64 word)"
  by (rule round_up_to_power_of_two_correct) simp_all

end
