(* ===== verification/PhysicalRange.thy ===== *)
theory PhysicalRange
  imports BAN_Math
begin

unbundle bit_operations_syntax

text \<open>
  \<^verbatim>\<open>kernel/include/kernel/Memory/PhysicalRange.h\<close> and
  \<^verbatim>\<open>kernel/kernel/Memory/PhysicalRange.cpp\<close>: a run of physical pages whose first page holds
  the allocation bitmap of the run (one bit per page, 512 words of 64 bits).
  \<open>pr_bitmap\<close> is the content of that page, which the source reaches through
  \<^verbatim>\<open>PageTable::with_per_cpu_fast_page\<close>. Addresses are natural numbers; \<open>pr_wf\<close> keeps every
  range below \<open>2 ^ 64\<close>, so that no address computation of this file wraps.
\<close>

section \<open>Model\<close>

definition PAGE_SIZE :: nat where
  "PAGE_SIZE = 4096"

record phys_range =
  pr_paddr :: nat
  pr_page_count :: nat
  pr_free_pages :: nat
  pr_bitmap :: "64 word list"

definition pr_max_bytes :: nat where
  "pr_max_bytes = (PAGE_SIZE * 8) * PAGE_SIZE"

definition pr_start :: "phys_range \<Rightarrow> nat" where
  "pr_start r = pr_paddr r"

definition pr_end :: "phys_range \<Rightarrow> nat" where
  "pr_end r = pr_paddr r + pr_page_count r * PAGE_SIZE"

definition pr_contains :: "phys_range \<Rightarrow> nat \<Rightarrow> bool" where
  "pr_contains r addr = (pr_start r \<le> addr \<and> addr < pr_end r)"

definition pr_usable_memory :: "phys_range \<Rightarrow> nat" where
  "pr_usable_memory r = pr_page_count r * PAGE_SIZE"

definition pr_used_pages :: "phys_range \<Rightarrow> nat" where
  "pr_used_pages r = pr_page_count r - pr_free_pages r"

text \<open>\<open>qwords[j / 64] & (1ull << (j % 64))\<close> and the two updates of such a bit.\<close>

definition bitmap_test :: "64 word list \<Rightarrow> nat \<Rightarrow> bool" where
  "bitmap_test qwords j = ((qwords ! (j div 64)) AND push_bit (j mod 64) 1 \<noteq> 0)"

definition bitmap_set :: "64 word list \<Rightarrow> nat \<Rightarrow> 64 word list" where
  "bitmap_set qwords j = qwords[j div 64 := (qwords ! (j div 64)) OR push_bit (j mod 64) 1]"

definition bitmap_clear :: "64 word list \<Rightarrow> nat \<Rightarrow> 64 word list" where
  "bitmap_clear qwords j = qwords[j div 64 := (qwords ! (j div 64)) AND NOT (push_bit (j mod 64) 1)]"

text \<open>The loop of \<open>reserve_page\<close>; \<open>None\<close> is its \<^verbatim>\<open>ASSERT_NOT_REACHED\<close>.\<close>

function reserve_scan :: "64 word list \<Rightarrow> nat \<Rightarrow> (nat \<times> 64 word list) option" where
  "reserve_scan qwords i =
     (if i < PAGE_SIZE div 8 then
        (if qwords ! i = - 1 then reserve_scan qwords (Suc i)
         else let b = ctz (NOT (qwords ! i))
              in Some (i * 64 + b, qwords[i := (qwords ! i) OR push_bit b 1]))
      else None)"
  by pat_completeness auto
termination
  by (relation "measure (\<lambda>(q, i). PAGE_SIZE div 8 - i)") auto

declare reserve_scan.simps [simp del]

definition reserve_page :: "phys_range \<Rightarrow> (phys_range \<times> nat) run" where
  "reserve_page r =
     asserting (0 < pr_free_pages r)
       (case reserve_scan (pr_bitmap r) 0 of
          None \<Rightarrow> Halt
        | Some (matched, qwords) \<Rightarrow>
            asserting (matched < pr_page_count r)
              (Done (r\<lparr>pr_bitmap := qwords, pr_free_pages := pr_free_pages r - 1\<rparr>,
                     pr_paddr r + matched * PAGE_SIZE)))"

text \<open>The constructor: the bitmap page is zeroed and then reserved as the first page.\<close>

definition phys_range_create :: "nat \<Rightarrow> nat \<Rightarrow> phys_range run" where
  "phys_range_create paddr bytes =
     asserting (paddr mod PAGE_SIZE = 0) (
     asserting (bytes mod PAGE_SIZE = 0) (
     asserting (bytes div PAGE_SIZE \<noteq> 0) (
     asserting (bytes div PAGE_SIZE \<le> PAGE_SIZE * 8) (
       rbind (reserve_page \<lparr>pr_paddr = paddr, pr_page_count = bytes div PAGE_SIZE,
                            pr_free_pages = bytes div PAGE_SIZE,
                            pr_bitmap = replicate (PAGE_SIZE div 8) 0\<rparr>)
         (\<lambda>(r, reserved). asserting (reserved = paddr) (Done r))))))"

definition release_page :: "phys_range \<Rightarrow> nat \<Rightarrow> phys_range run" where
  "release_page r paddr =
     asserting (paddr mod PAGE_SIZE = 0) (
     asserting (paddr \<noteq> pr_paddr r) (
     asserting (pr_contains r paddr) (
       let index = (paddr - pr_paddr r) div PAGE_SIZE
       in asserting (bitmap_test (pr_bitmap r) index)
            (Done (r\<lparr>pr_bitmap := bitmap_clear (pr_bitmap r) index,
                     pr_free_pages := pr_free_pages r + 1\<rparr>)))))"

text \<open>The search loop of \<open>reserve_contiguous_pages\<close>; \<open>None\<close> is \<open>matched == SIZE_MAX\<close>.\<close>

function contiguous_scan :: "64 word list \<Rightarrow> nat \<Rightarrow> nat \<Rightarrow> nat \<Rightarrow> (nat \<times> 64 word list) option" where
  "contiguous_scan qwords page_count pages i =
     (if i < page_count - pages then
        (if list_all (\<lambda>j. \<not> bitmap_test qwords j) [i..<i + pages]
         then Some (i, fold (\<lambda>j q. bitmap_set q j) [i..<i + pages] qwords)
         else contiguous_scan qwords page_count pages (Suc i))
      else None)"
  by pat_completeness auto
termination
  by (relation "measure (\<lambda>(q, c, p, i). c - p - i)") auto

declare contiguous_scan.simps [simp del]

text \<open>The result 0 is the source's \<open>return 0\<close>: no run of free pages was found.\<close>

definition reserve_contiguous_pages :: "phys_range \<Rightarrow> nat \<Rightarrow> (phys_range \<times> nat) run" where
  "reserve_contiguous_pages r pages =
     asserting (0 < pages) (
     asserting (pages \<le> pr_free_pages r)
       (case contiguous_scan (pr_bitmap r) (pr_page_count r) pages 0 of
          None \<Rightarrow> Done (r, 0)
        | Some (matched, qwords) \<Rightarrow>
            Done (r\<lparr>pr_bitmap := qwords, pr_free_pages := pr_free_pages r - pages\<rparr>,
                  pr_paddr r + matched * PAGE_SIZE)))"

fun release_loop :: "64 word list \<Rightarrow> nat list \<Rightarrow> 64 word list run" where
  "release_loop qwords [] = Done qwords"
| "release_loop qwords (i # is) =
     asserting (bitmap_test qwords i) (release_loop (bitmap_clear qwords i) is)"

text \<open>The last address that is checked is not wrapped at 64 bits: the model is that of page counts whose bytes fit in an address.\<close>

definition release_contiguous_pages :: "phys_range \<Rightarrow> nat \<Rightarrow> nat \<Rightarrow> phys_range run" where
  "release_contiguous_pages r paddr pages =
     asserting (0 < pages) (
     asserting (paddr \<noteq> pr_paddr r) (
     asserting (pr_contains r paddr) (
     asserting (pr_contains r (paddr + (pages - 1) * PAGE_SIZE)) (
       let index = (paddr - pr_paddr r) div PAGE_SIZE
       in rbind (release_loop (pr_bitmap r) [index..<index + pages])
            (\<lambda>qwords. Done (r\<lparr>pr_bitmap := qwords, pr_free_pages := pr_free_pages r + pages\<rparr>))))))"

section \<open>The bitmap as a set\<close>

definition bitmap_ok :: "64 word list \<Rightarrow> bool" where
  "bitmap_ok qwords \<longleftrightarrow> length qwords = PAGE_SIZE div 8"

lemma bitmap_test_bit: "bitmap_test qwords j \<longleftrightarrow> bit (qwords ! (j div 64)) (j mod 64)"
  by (simp add: bitmap_test_def bit_iff_and_push_bit_not_eq_0)

lemma bitmap_set_ok [simp]: "bitmap_ok (bitmap_set qwords j) = bitmap_ok qwords"
  by (simp add: bitmap_ok_def bitmap_set_def)

lemma bitmap_clear_ok [simp]: "bitmap_ok (bitmap_clear qwords j) = bitmap_ok qwords"
  by (simp add: bitmap_ok_def bitmap_clear_def)

lemma div_mod_64_eq_iff: "(j :: nat) div 64 = k div 64 \<Longrightarrow> j mod 64 = k mod 64 \<longleftrightarrow> j = k"
  by (metis div_mult_mod_eq)

lemma bitmap_test_set:
  assumes "bitmap_ok qwords" "k < PAGE_SIZE * 8"
  shows "bitmap_test (bitmap_set qwords k) j \<longleftrightarrow> j = k \<or> bitmap_test qwords j"
proof -
  have "k div 64 < length qwords" using assms by (simp add: bitmap_ok_def PAGE_SIZE_def)
  then show ?thesis
    by (cases "j div 64 = k div 64")
      (auto simp: bitmap_test_bit bitmap_set_def bit_simps div_mod_64_eq_iff)
qed

lemma bitmap_test_clear:
  assumes "bitmap_ok qwords" "k < PAGE_SIZE * 8"
  shows "bitmap_test (bitmap_clear qwords k) j \<longleftrightarrow> j \<noteq> k \<and> bitmap_test qwords j"
proof -
  have "k div 64 < length qwords" using assms by (simp add: bitmap_ok_def PAGE_SIZE_def)
  moreover have "j mod 64 < 64" by simp
  ultimately show ?thesis
    by (cases "j div 64 = k div 64")
      (auto simp: bitmap_test_bit bitmap_clear_def bit_simps div_mod_64_eq_iff)
qed

lemma reserve_scan_first:
  assumes "bitmap_ok qwords" "i * 64 \<le> k" "k < PAGE_SIZE * 8" "\<not> bitmap_test qwords k"
    and "\<And>j. i * 64 \<le> j \<Longrightarrow> j < k \<Longrightarrow> bitmap_test qwords j"
  shows "reserve_scan qwords i = Some (k, bitmap_set qwords k)"
  using assms
proof (induction qwords i rule: reserve_scan.induct)
  case (1 qwords i)
  have i: "i < PAGE_SIZE div 8" using "1.prems"(2,3) by (simp add: PAGE_SIZE_def)
  show ?case
  proof (cases "k div 64 = i")
    case True
    have nbit: "\<not> bit (qwords ! i) (k mod 64)"
      using "1.prems"(4) True by (simp add: bitmap_test_bit)
    have "bit (qwords ! i) j" if "j < k mod 64" for j
    proof -
      have "(i * 64 + j) div 64 = i" "(i * 64 + j) mod 64 = j" using that by simp_all
      moreover have "i * 64 + j < k" using that True by (metis div_mult_mod_eq nat_add_left_cancel_less)
      ultimately show ?thesis using "1.prems"(5) [of "i * 64 + j"] by (simp add: bitmap_test_bit)
    qed
    then have "ctz (NOT (qwords ! i)) = k mod 64"
      using nbit by (intro ctz_first) (auto simp: bit_simps)
    moreover have "qwords ! i \<noteq> - 1" using nbit by auto
    moreover have "i * 64 + k mod 64 = k" using True by auto
    ultimately show ?thesis
      using i True by (simp add: reserve_scan.simps [of qwords i] bitmap_set_def)
  next
    case False
    then have lt: "Suc i * 64 \<le> k" using "1.prems"(2) by auto
    have "bit (qwords ! i) j" if "j < 64" for j
    proof -
      have "(i * 64 + j) div 64 = i" "(i * 64 + j) mod 64 = j" using that by simp_all
      moreover have "i * 64 + j < k" using that lt by simp
      ultimately show ?thesis using "1.prems"(5) [of "i * 64 + j"] by (simp add: bitmap_test_bit)
    qed
    then have full: "qwords ! i = - 1" by (intro bit_word_eqI) (simp add: bit_simps)
    have "reserve_scan qwords (Suc i) = Some (k, bitmap_set qwords k)"
      by (rule "1.IH" [OF i full]) (use "1.prems" lt in auto)
    then show ?thesis using i full by (simp add: reserve_scan.simps [of qwords i])
  qed
qed

section \<open>The invariant\<close>

text \<open>
  \<open>pr_used r\<close> is the set of page indices that are handed out. The invariant: the free
  counter is exact, no bit beyond the last page is set, and the bitmap page is in use
  (\<open>pr_wf\<close>; \<open>pr_wf0\<close> is what holds while the constructor reserves that page).
\<close>

definition pr_used :: "phys_range \<Rightarrow> nat set" where
  "pr_used r = {k. k < pr_page_count r \<and> bitmap_test (pr_bitmap r) k}"

definition pr_wf0 :: "phys_range \<Rightarrow> bool" where
  "pr_wf0 r \<longleftrightarrow>
     bitmap_ok (pr_bitmap r) \<and>
     0 < pr_page_count r \<and> pr_page_count r \<le> PAGE_SIZE * 8 \<and>
     pr_paddr r mod PAGE_SIZE = 0 \<and> pr_end r \<le> 2 ^ 64 \<and>
     (\<forall>k < PAGE_SIZE * 8. bitmap_test (pr_bitmap r) k \<longrightarrow> k < pr_page_count r) \<and>
     pr_free_pages r + card (pr_used r) = pr_page_count r"

definition pr_wf :: "phys_range \<Rightarrow> bool" where
  "pr_wf r \<longleftrightarrow> pr_wf0 r \<and> 0 \<in> pr_used r"

definition page_addr :: "phys_range \<Rightarrow> nat \<Rightarrow> nat" where
  "page_addr r k = pr_paddr r + k * PAGE_SIZE"

lemma pr_used_bounded: "pr_used r \<subseteq> {..<pr_page_count r}"
  by (auto simp: pr_used_def)

lemma finite_pr_used [simp]: "finite (pr_used r)"
  using pr_used_bounded finite_subset by blast

lemma page_addr_contains:
  "k < pr_page_count r \<Longrightarrow> pr_contains r (page_addr r k)"
  by (simp add: pr_contains_def pr_start_def pr_end_def page_addr_def PAGE_SIZE_def)

lemma page_addr_index [simp]: "(page_addr r k - pr_paddr r) div PAGE_SIZE = k"
  by (simp add: page_addr_def PAGE_SIZE_def)

lemma page_addr_aligned: "pr_wf0 r \<Longrightarrow> page_addr r k mod PAGE_SIZE = 0"
  by (simp add: pr_wf0_def page_addr_def)

lemma contains_aligned_page_addr:
  assumes "pr_wf0 r" "pr_contains r p" "p mod PAGE_SIZE = 0"
  obtains k where "k < pr_page_count r" "p = page_addr r k"
proof -
  let ?k = "(p - pr_paddr r) div PAGE_SIZE"
  have le: "pr_paddr r \<le> p" using assms(2) by (simp add: pr_contains_def pr_start_def)
  have "(p - pr_paddr r) mod PAGE_SIZE = 0"
    using assms(1,3) le by (simp add: pr_wf0_def mod_eq_0_iff_dvd dvd_diff_nat)
  then have "?k * PAGE_SIZE = p - pr_paddr r" by (metis add_0_right div_mult_mod_eq)
  then have eq: "p = page_addr r ?k"
    using le by (simp add: page_addr_def)
  moreover have "?k < pr_page_count r"
  proof -
    have "page_addr r ?k < pr_end r" using assms(2) eq by (simp add: pr_contains_def)
    then show ?thesis by (simp add: pr_end_def page_addr_def PAGE_SIZE_def)
  qed
  ultimately show ?thesis using that by blast
qed

text \<open>One page taken, one page given back: what happens to the set and to the invariant.\<close>

definition pr_take :: "phys_range \<Rightarrow> nat \<Rightarrow> phys_range" where
  "pr_take r k = r\<lparr>pr_bitmap := bitmap_set (pr_bitmap r) k, pr_free_pages := pr_free_pages r - 1\<rparr>"

definition pr_give :: "phys_range \<Rightarrow> nat \<Rightarrow> phys_range" where
  "pr_give r k = r\<lparr>pr_bitmap := bitmap_clear (pr_bitmap r) k, pr_free_pages := pr_free_pages r + 1\<rparr>"

lemma pr_take_sel [simp]:
  "pr_paddr (pr_take r k) = pr_paddr r"
  "pr_page_count (pr_take r k) = pr_page_count r"
  "pr_free_pages (pr_take r k) = pr_free_pages r - 1"
  "pr_bitmap (pr_take r k) = bitmap_set (pr_bitmap r) k"
  by (simp_all add: pr_take_def)

lemma pr_give_sel [simp]:
  "pr_paddr (pr_give r k) = pr_paddr r"
  "pr_page_count (pr_give r k) = pr_page_count r"
  "pr_free_pages (pr_give r k) = pr_free_pages r + 1"
  "pr_bitmap (pr_give r k) = bitmap_clear (pr_bitmap r) k"
  by (simp_all add: pr_give_def)

lemma pr_used_take [abs_simps]:
  assumes "pr_wf0 r" "k < pr_page_count r"
  shows "pr_used (pr_take r k) = insert k (pr_used r)"
  using assms by (auto simp: pr_used_def pr_wf0_def bitmap_test_set)

lemma pr_used_give [abs_simps]:
  assumes "pr_wf0 r" "k < pr_page_count r"
  shows "pr_used (pr_give r k) = pr_used r - {k}"
  using assms by (auto simp: pr_used_def pr_wf0_def bitmap_test_clear)

lemma pr_end_take_give [simp]:
  "pr_end (pr_take r k) = pr_end r" "pr_end (pr_give r k) = pr_end r"
  by (simp_all add: pr_end_def)

lemma pr_wf0_take:
  assumes "pr_wf0 r" "k < pr_page_count r" "k \<notin> pr_used r"
  shows "pr_wf0 (pr_take r k)"
proof -
  have "Suc (card (pr_used r)) = card (insert k (pr_used r))" using assms(3) by simp
  also have "\<dots> \<le> card {..<pr_page_count r}"
    by (rule card_mono) (use assms(2) pr_used_bounded in auto)
  finally have "card (pr_used r) < pr_page_count r" by simp
  then show ?thesis
    using assms pr_used_take [OF assms(1,2)]
    by (auto simp: pr_wf0_def bitmap_test_set)
qed

lemma pr_wf0_give:
  assumes "pr_wf0 r" "k \<in> pr_used r"
  shows "pr_wf0 (pr_give r k)"
proof -
  have k: "k < pr_page_count r" using assms(2) by (simp add: pr_used_def)
  have "card (pr_used r - {k}) + 1 = card (pr_used r)"
    using assms(2) card_Suc_Diff1 [OF finite_pr_used assms(2)] by simp
  then show ?thesis
    using assms k pr_used_give [OF assms(1) k] by (auto simp: pr_wf0_def bitmap_test_clear)
qed

lemma free_pages_pos_iff:
  assumes "pr_wf0 r"
  shows "0 < pr_free_pages r \<longleftrightarrow> (\<exists>k < pr_page_count r. k \<notin> pr_used r)"
proof
  assume "0 < pr_free_pages r"
  then have "card (pr_used r) \<noteq> card {..<pr_page_count r}" using assms by (auto simp: pr_wf0_def)
  then have "pr_used r \<noteq> {..<pr_page_count r}" by metis
  then show "\<exists>k < pr_page_count r. k \<notin> pr_used r" using pr_used_bounded by blast
next
  assume "\<exists>k < pr_page_count r. k \<notin> pr_used r"
  then have "pr_used r \<subset> {..<pr_page_count r}" using pr_used_bounded by blast
  then have "card (pr_used r) < card {..<pr_page_count r}" by (intro psubset_card_mono) auto
  then show "0 < pr_free_pages r" using assms by (auto simp: pr_wf0_def)
qed

section \<open>Single pages\<close>

lemma reserve_page_wf0:
  assumes "pr_wf0 r" "0 < pr_free_pages r"
  obtains k where "k < pr_page_count r" "k \<notin> pr_used r" "\<And>j. j < k \<Longrightarrow> j \<in> pr_used r"
    "reserve_page r = Done (pr_take r k, page_addr r k)"
proof -
  let ?P = "\<lambda>k. k < pr_page_count r \<and> k \<notin> pr_used r"
  define k where "k = (LEAST k. ?P k)"
  have k: "k < pr_page_count r" "k \<notin> pr_used r"
    using free_pages_pos_iff [OF assms(1)] assms(2) LeastI_ex [of ?P] unfolding k_def by auto
  have below: "j \<in> pr_used r" if "j < k" for j
    using not_less_Least [of j ?P] that k(1) unfolding k_def by fastforce
  have "reserve_scan (pr_bitmap r) 0 = Some (k, bitmap_set (pr_bitmap r) k)"
    by (rule reserve_scan_first) (use assms(1) k below in \<open>auto simp: pr_wf0_def pr_used_def\<close>)
  then have "reserve_page r = Done (pr_take r k, page_addr r k)"
    using assms(2) k(1) by (simp add: reserve_page_def pr_take_def page_addr_def)
  with k below show ?thesis by (rule that)
qed

lemma phys_range_create_wf:
  assumes "paddr mod PAGE_SIZE = 0" "bytes mod PAGE_SIZE = 0" "0 < bytes" "bytes \<le> pr_max_bytes"
    "paddr + bytes \<le> 2 ^ 64"
  obtains r where "phys_range_create paddr bytes = Done r" "pr_wf r" "pr_used r = {0}"
    "pr_paddr r = paddr" "pr_page_count r = bytes div PAGE_SIZE"
proof -
  define r0 where "r0 = \<lparr>pr_paddr = paddr, pr_page_count = bytes div PAGE_SIZE,
      pr_free_pages = bytes div PAGE_SIZE, pr_bitmap = replicate (PAGE_SIZE div 8) 0\<rparr>"
  have pc: "0 < bytes div PAGE_SIZE" "bytes div PAGE_SIZE \<le> PAGE_SIZE * 8"
    using assms(2-4) by (auto simp: PAGE_SIZE_def pr_max_bytes_def)
  have empty: "\<not> bitmap_test (pr_bitmap r0) k" if "k < PAGE_SIZE * 8" for k
  proof -
    have "k div 64 < PAGE_SIZE div 8" using that by (simp add: PAGE_SIZE_def)
    then show ?thesis by (simp add: r0_def bitmap_test_bit)
  qed
  then have used0: "pr_used r0 = {}"
    using pc(2) by (auto simp: pr_used_def r0_def)
  have "bytes div PAGE_SIZE * PAGE_SIZE = bytes"
    using assms(2) by (metis add_0_right div_mult_mod_eq)
  then have wf0: "pr_wf0 r0"
    using assms pc empty used0 by (simp add: pr_wf0_def bitmap_ok_def r0_def pr_end_def)
  have free: "0 < pr_free_pages r0" using pc(1) by (simp add: r0_def)
  obtain k where k: "\<And>j. j < k \<Longrightarrow> j \<in> pr_used r0"
      "reserve_page r0 = Done (pr_take r0 k, page_addr r0 k)"
    using reserve_page_wf0 [OF wf0 free] by metis
  from k(1) used0 have k0: "k = 0" by blast
  have "phys_range_create paddr bytes = Done (pr_take r0 0)"
    using assms pc k(2) by (simp add: phys_range_create_def k0 page_addr_def flip: r0_def) (simp add: r0_def)
  moreover have "pr_used (pr_take r0 0) = {0}"
    using pr_used_take [OF wf0] used0 pc(1) by (simp add: r0_def)
  moreover have "pr_wf0 (pr_take r0 0)"
    by (rule pr_wf0_take [OF wf0]) (use used0 pc(1) in \<open>auto simp: r0_def\<close>)
  ultimately show ?thesis
    by (intro that [of "pr_take r0 0"]) (auto simp: pr_wf_def r0_def)
qed

section \<open>Runs of pages\<close>

lemma fold_pr_take:
  "fold (\<lambda>j r. pr_take r j) js r =
     r\<lparr>pr_bitmap := fold (\<lambda>j q. bitmap_set q j) js (pr_bitmap r),
       pr_free_pages := pr_free_pages r - length js\<rparr>"
  by (induction js arbitrary: r) (simp_all add: pr_take_def)

lemma fold_pr_give:
  "fold (\<lambda>j r. pr_give r j) js r =
     r\<lparr>pr_bitmap := fold (\<lambda>j q. bitmap_clear q j) js (pr_bitmap r),
       pr_free_pages := pr_free_pages r + length js\<rparr>"
  by (induction js arbitrary: r) (simp_all add: pr_give_def)

lemma pr_take_list:
  assumes "pr_wf0 r" "distinct js" "\<forall>j \<in> set js. j < pr_page_count r \<and> j \<notin> pr_used r"
  shows "pr_wf0 (fold (\<lambda>j r. pr_take r j) js r) \<and>
    pr_used (fold (\<lambda>j r. pr_take r j) js r) = pr_used r \<union> set js"
  using assms
proof (induction js arbitrary: r)
  case (Cons j js)
  have "pr_wf0 (pr_take r j)" "pr_used (pr_take r j) = insert j (pr_used r)"
    using Cons.prems by (simp_all add: pr_wf0_take pr_used_take)
  with Cons.IH [of "pr_take r j"] Cons.prems show ?case by auto
qed simp

lemma pr_give_list:
  assumes "pr_wf0 r" "distinct js" "set js \<subseteq> pr_used r"
  shows "pr_wf0 (fold (\<lambda>j r. pr_give r j) js r) \<and>
    pr_used (fold (\<lambda>j r. pr_give r j) js r) = pr_used r - set js"
  using assms
proof (induction js arbitrary: r)
  case (Cons j js)
  have j: "j \<in> pr_used r" "j < pr_page_count r" using Cons.prems(3) pr_used_bounded by auto
  have "pr_wf0 (pr_give r j)" "pr_used (pr_give r j) = pr_used r - {j}"
    using Cons.prems(1) j by (simp_all add: pr_wf0_give pr_used_give)
  with Cons.IH [of "pr_give r j"] Cons.prems show ?case by auto
qed simp

lemma release_loop_eq:
  assumes "bitmap_ok q" "distinct js" "\<forall>j \<in> set js. j < PAGE_SIZE * 8"
  shows "release_loop q js =
    (if \<forall>j \<in> set js. bitmap_test q j then Done (fold (\<lambda>j q. bitmap_clear q j) js q) else Halt)"
  using assms
proof (induction js arbitrary: q)
  case (Cons j js)
  have "bitmap_test (bitmap_clear q j) i = bitmap_test q i" if "i \<in> set js" for i
    using Cons.prems that by (auto simp: bitmap_test_clear)
  with Cons show ?case by (simp add: asserting_def)
qed simp

text \<open>The pages \<open>i, \<dots>, i + pages - 1\<close> are all free.\<close>

definition free_run :: "phys_range \<Rightarrow> nat \<Rightarrow> nat \<Rightarrow> bool" where
  "free_run r pages i \<longleftrightarrow> {i..<i + pages} \<inter> pr_used r = {}"

lemma free_run_scan:
  assumes "i + pages \<le> pr_page_count r"
  shows "list_all (\<lambda>j. \<not> bitmap_test (pr_bitmap r) j) [i..<i + pages] \<longleftrightarrow> free_run r pages i"
  using assms by (auto simp: list_all_iff free_run_def pr_used_def)

lemma contiguous_scan_step:
  assumes "i < pr_page_count r - pages"
  shows "contiguous_scan (pr_bitmap r) (pr_page_count r) pages i =
    (if free_run r pages i then Some (i, fold (\<lambda>j q. bitmap_set q j) [i..<i + pages] (pr_bitmap r))
     else contiguous_scan (pr_bitmap r) (pr_page_count r) pages (Suc i))"
  using assms free_run_scan [of i pages r]
  by (subst contiguous_scan.simps) simp

lemma contiguous_scan_stop:
  "\<not> i < pr_page_count r - pages \<Longrightarrow> contiguous_scan (pr_bitmap r) (pr_page_count r) pages i = None"
  by (subst contiguous_scan.simps) simp

lemma contiguous_scan_None:
  assumes "contiguous_scan (pr_bitmap r) (pr_page_count r) pages i = None"
    and "i \<le> j" "j < pr_page_count r - pages"
  shows "\<not> free_run r pages j"
  using assms
proof (induction "pr_page_count r - pages - i" arbitrary: i)
  case (Suc d)
  then have i: "i < pr_page_count r - pages" by simp
  with Suc.prems(1) have not_i: "\<not> free_run r pages i"
    and next_i: "contiguous_scan (pr_bitmap r) (pr_page_count r) pages (Suc i) = None"
    by (auto simp: contiguous_scan_step split: if_splits)
  show ?case
  proof (cases "j = i")
    case False
    have "d = pr_page_count r - pages - Suc i" using Suc.hyps(2) by simp
    then show ?thesis using Suc.hyps(1) [OF _ next_i] False Suc.prems by simp
  qed (use not_i in simp)
qed simp

lemma contiguous_scan_Some:
  assumes "contiguous_scan (pr_bitmap r) (pr_page_count r) pages i = Some (j, q)"
  shows "i \<le> j \<and> j < pr_page_count r - pages \<and> free_run r pages j \<and>
    q = fold (\<lambda>j q. bitmap_set q j) [j..<j + pages] (pr_bitmap r)"
  using assms
proof (induction "pr_page_count r - pages - i" arbitrary: i)
  case 0
  then show ?case by (simp add: contiguous_scan_stop)
next
  case (Suc d)
  then have i: "i < pr_page_count r - pages" by simp
  show ?case
  proof (cases "free_run r pages i")
    case True
    with Suc.prems i show ?thesis by (auto simp: contiguous_scan_step)
  next
    case False
    have "d = pr_page_count r - pages - Suc i" using Suc.hyps(2) by simp
    moreover have "contiguous_scan (pr_bitmap r) (pr_page_count r) pages (Suc i) = Some (j, q)"
      using Suc.prems i False by (simp add: contiguous_scan_step)
    ultimately show ?thesis using Suc.hyps(1) by fastforce
  qed
qed

section \<open>What the operations do\<close>

lemma page_addr_pos: "0 < k \<Longrightarrow> 0 < page_addr r k"
  by (simp add: page_addr_def PAGE_SIZE_def)

lemma page_addr_inj: "page_addr r j = page_addr r k \<longleftrightarrow> j = k"
  by (simp add: page_addr_def PAGE_SIZE_def)

lemma reserve_page_Done:
  assumes "pr_wf r" "0 < pr_free_pages r"
  obtains k where "0 < k" "k < pr_page_count r" "k \<notin> pr_used r" "pr_wf (pr_take r k)"
    "pr_used (pr_take r k) = insert k (pr_used r)"
    "reserve_page r = Done (pr_take r k, page_addr r k)"
proof -
  have wf0: "pr_wf0 r" and zero: "0 \<in> pr_used r" using assms(1) by (auto simp: pr_wf_def)
  obtain k where k: "k < pr_page_count r" "k \<notin> pr_used r"
      "reserve_page r = Done (pr_take r k, page_addr r k)"
    using reserve_page_wf0 [OF wf0 assms(2)] by metis
  moreover have "0 < k" using k(2) zero by (cases k) auto
  moreover have "pr_wf (pr_take r k)"
    using wf0 zero k by (simp add: pr_wf_def pr_wf0_take pr_used_take)
  ultimately show ?thesis using that wf0 by (simp add: pr_used_take)
qed

lemma release_page_Done:
  assumes "pr_wf r" "k \<in> pr_used r" "k \<noteq> 0"
  shows "release_page r (page_addr r k) = Done (pr_give r k)" "pr_wf (pr_give r k)"
    "pr_used (pr_give r k) = pr_used r - {k}"
proof -
  have wf0: "pr_wf0 r" and zero: "0 \<in> pr_used r" using assms(1) by (auto simp: pr_wf_def)
  have k: "k < pr_page_count r" "bitmap_test (pr_bitmap r) k"
    using assms(2) by (auto simp: pr_used_def)
  show "release_page r (page_addr r k) = Done (pr_give r k)"
    using k page_addr_contains [OF k(1)] page_addr_aligned [OF wf0, of k] assms(3)
    by (auto simp: release_page_def pr_give_def Let_def) (simp add: page_addr_def PAGE_SIZE_def)
  show used: "pr_used (pr_give r k) = pr_used r - {k}"
    by (rule pr_used_give [OF wf0 k(1)])
  show "pr_wf (pr_give r k)"
    using pr_wf0_give [OF wf0 assms(2)] zero assms(3) used by (simp add: pr_wf_def)
qed

lemma release_page_Halt:
  assumes "pr_wf r" "\<not> (\<exists>k \<in> pr_used r - {0}. p = page_addr r k)"
  shows "release_page r p = Halt"
proof (rule ccontr)
  assume "release_page r p \<noteq> Halt"
  then have p: "p mod PAGE_SIZE = 0" "p \<noteq> pr_paddr r" "pr_contains r p"
      "bitmap_test (pr_bitmap r) ((p - pr_paddr r) div PAGE_SIZE)"
    by (auto simp: release_page_def asserting_def Let_def split: if_splits)
  obtain k where k: "k < pr_page_count r" "p = page_addr r k"
    using contains_aligned_page_addr [OF _ p(3,1)] assms(1) by (auto simp: pr_wf_def)
  with p have "k \<in> pr_used r" by (simp add: pr_used_def)
  moreover have "k \<noteq> 0" using p(2) k(2) by (auto simp: page_addr_def)
  ultimately show False using assms(2) k(2) by blast
qed

text \<open>
  \<open>PhysicalRange::reserve_page\<close> on a well-formed range with a free page never fails an
  assertion; it hands out a page that is page-aligned, lies inside the range, is not the
  bitmap page and was not handed out before, marks exactly that page as used, and keeps the
  invariant (in particular the free counter stays exact).
\<close>

theorem reserve_page_correct:
  assumes "pr_wf r" "0 < pr_free_pages r"
  shows "\<exists>k r'. reserve_page r = Done (r', page_addr r k) \<and> pr_wf r' \<and>
    0 < k \<and> k \<notin> pr_used r \<and> pr_used r' = insert k (pr_used r) \<and>
    pr_contains r (page_addr r k) \<and> page_addr r k mod PAGE_SIZE = 0 \<and>
    pr_free_pages r' = pr_free_pages r - 1"
proof -
  have "pr_wf0 r" using assms(1) by (simp add: pr_wf_def)
  with reserve_page_Done [OF assms] show ?thesis
    by (metis page_addr_contains page_addr_aligned pr_take_sel(3))
qed

text \<open>
  \<open>PhysicalRange::release_page\<close> on a well-formed range succeeds exactly on the pages
  that are handed out: it clears that page and keeps the invariant. On everything else (a
  misaligned or foreign address, the bitmap page, a page that is already free, so also a
  second release) an assertion stops the kernel.
\<close>

theorem release_page_correct:
  assumes "pr_wf r"
  shows "case release_page r p of
      Done r' \<Rightarrow> \<exists>k \<in> pr_used r - {0}. p = page_addr r k \<and> pr_wf r' \<and>
        pr_used r' = pr_used r - {k} \<and> pr_free_pages r' = pr_free_pages r + 1
    | Halt \<Rightarrow> \<forall>k \<in> pr_used r - {0}. p \<noteq> page_addr r k"
proof (cases "\<exists>k \<in> pr_used r - {0}. p = page_addr r k")
  case True
  then obtain k where k: "k \<in> pr_used r" "k \<noteq> 0" "p = page_addr r k" by blast
  then show ?thesis using release_page_Done [OF assms k(1,2)] by auto
next
  case False
  then show ?thesis using release_page_Halt [OF assms False] by auto
qed

lemma pr_wf_take_run:
  assumes "pr_wf r" "i + pages \<le> pr_page_count r" "free_run r pages i"
  defines "r' \<equiv> fold (\<lambda>j r. pr_take r j) [i..<i + pages] r"
  shows "pr_wf r'" "pr_used r' = pr_used r \<union> {i..<i + pages}"
proof -
  have "pr_wf0 r' \<and> pr_used r' = pr_used r \<union> set [i..<i + pages]"
    unfolding r'_def by (rule pr_take_list) (use assms(1-3) in \<open>auto simp: pr_wf_def free_run_def\<close>)
  then show "pr_wf r'" "pr_used r' = pr_used r \<union> {i..<i + pages}"
    using assms(1) by (auto simp: pr_wf_def)
qed

definition pr_take_run :: "phys_range \<Rightarrow> nat \<Rightarrow> nat \<Rightarrow> phys_range" where
  "pr_take_run r pages i = fold (\<lambda>j r. pr_take r j) [i..<i + pages] r"

lemma page_addr_take_run [simp]: "page_addr (pr_take_run r pages i) k = page_addr r k"
  by (simp add: page_addr_def pr_take_run_def fold_pr_take)

lemma reserve_contiguous_pages_Done:
  assumes "pr_wf r" "0 < pages" "pages \<le> pr_free_pages r"
    and "\<exists>i < pr_page_count r - pages. free_run r pages i"
  obtains i where "0 < i" "i + pages < pr_page_count r" "free_run r pages i"
    "reserve_contiguous_pages r pages = Done (pr_take_run r pages i, page_addr r i)"
    "pr_wf (pr_take_run r pages i)" "pr_used (pr_take_run r pages i) = pr_used r \<union> {i..<i + pages}"
proof (cases "contiguous_scan (pr_bitmap r) (pr_page_count r) pages 0")
  case None
  then show ?thesis using contiguous_scan_None assms(4) by blast
next
  case (Some iq)
  obtain i q where iq: "iq = (i, q)" by (cases iq)
  have i: "i < pr_page_count r - pages" "free_run r pages i"
      "q = fold (\<lambda>j q. bitmap_set q j) [i..<i + pages] (pr_bitmap r)"
    using contiguous_scan_Some [OF Some [unfolded iq]] by auto
  have pos: "0 < i"
  proof (rule ccontr)
    assume "\<not> 0 < i"
    then have "0 \<in> {i..<i + pages} \<inter> pr_used r" using assms(1,2) by (simp add: pr_wf_def)
    then show False using i(2) unfolding free_run_def by blast
  qed
  have "reserve_contiguous_pages r pages = Done (pr_take_run r pages i, page_addr r i)"
    using Some iq i(3) assms(2,3)
    by (simp add: reserve_contiguous_pages_def pr_take_run_def fold_pr_take page_addr_def)
  then show ?thesis
    using that [OF pos _ i(2)] pr_wf_take_run [OF assms(1) _ i(2)] i(1) by (simp add: pr_take_run_def)
qed

lemma reserve_contiguous_pages_none:
  assumes "0 < pages" "pages \<le> pr_free_pages r"
    and "\<not> (\<exists>i < pr_page_count r - pages. free_run r pages i)"
  shows "reserve_contiguous_pages r pages = Done (r, 0)"
proof -
  have "contiguous_scan (pr_bitmap r) (pr_page_count r) pages 0 = None"
    using contiguous_scan_Some [of r pages 0] assms(3) by (metis not_None_eq prod.collapse)
  then show ?thesis using assms(1,2) by (simp add: reserve_contiguous_pages_def)
qed

text \<open>
  \<open>PhysicalRange::reserve_contiguous_pages\<close> (called with at least one page and no more
  than are free, as its assertions demand) never halts. It returns 0 and changes nothing
  exactly when no run of free pages starts below \<open>page_count - pages\<close>; otherwise it returns
  the address of such a run, marks exactly its pages as used and keeps the invariant.
\<close>

theorem reserve_contiguous_pages_correct:
  assumes "pr_wf r" "0 < pages" "pages \<le> pr_free_pages r"
  shows "\<exists>r' p. reserve_contiguous_pages r pages = Done (r', p) \<and> pr_wf r' \<and>
    (if \<exists>i < pr_page_count r - pages. free_run r pages i
     then \<exists>i. p = page_addr r i \<and> 0 < i \<and> i + pages < pr_page_count r \<and> free_run r pages i \<and>
            pr_used r' = pr_used r \<union> {i..<i + pages} \<and>
            pr_free_pages r' = pr_free_pages r - pages
     else p = 0 \<and> r' = r)"
proof (cases "\<exists>i < pr_page_count r - pages. free_run r pages i")
  case True
  obtain i where i: "0 < i" "i + pages < pr_page_count r" "free_run r pages i"
      "reserve_contiguous_pages r pages = Done (pr_take_run r pages i, page_addr r i)"
      "pr_wf (pr_take_run r pages i)" "pr_used (pr_take_run r pages i) = pr_used r \<union> {i..<i + pages}"
    using reserve_contiguous_pages_Done [OF assms True] by metis
  moreover have "pr_free_pages (pr_take_run r pages i) = pr_free_pages r - pages"
    by (simp add: pr_take_run_def fold_pr_take)
  ultimately show ?thesis using True by auto
next
  case False
  then show ?thesis using reserve_contiguous_pages_none [OF assms(2,3) False] assms(1) by auto
qed

text \<open>
  C33: the search bound of \<open>reserve_contiguous_pages\<close> leaves out the last possible start:
  in a range where everything but the bitmap page is free, a request for all the free pages
  passes both assertions, and the pages form one free run, yet the answer is 0.
\<close>

theorem reserve_contiguous_pages_misses_last_run:
  assumes "pr_wf r" "pr_used r = {0}" "2 \<le> pr_page_count r"
  shows "pr_free_pages r = pr_page_count r - 1 \<and> free_run r (pr_free_pages r) 1 \<and>
    1 + pr_free_pages r = pr_page_count r \<and>
    reserve_contiguous_pages r (pr_free_pages r) = Done (r, 0)"
proof -
  have free: "pr_free_pages r = pr_page_count r - 1"
    using assms by (auto simp: pr_wf_def pr_wf0_def)
  have "\<not> (\<exists>i < pr_page_count r - pr_free_pages r. free_run r (pr_free_pages r) i)"
    using assms free by (auto simp: free_run_def)
  then have "reserve_contiguous_pages r (pr_free_pages r) = Done (r, 0)"
    using assms(3) free by (intro reserve_contiguous_pages_none) auto
  then show ?thesis using assms free by (auto simp: free_run_def)
qed

definition pr_give_run :: "phys_range \<Rightarrow> nat \<Rightarrow> nat \<Rightarrow> phys_range" where
  "pr_give_run r pages i = fold (\<lambda>j r. pr_give r j) [i..<i + pages] r"

lemma pr_run_sel [simp]:
  "pr_paddr (pr_take_run r pages i) = pr_paddr r" "pr_paddr (pr_give_run r pages i) = pr_paddr r"
  "pr_page_count (pr_take_run r pages i) = pr_page_count r"
  "pr_page_count (pr_give_run r pages i) = pr_page_count r"
  "pr_free_pages (pr_take_run r pages i) = pr_free_pages r - pages"
  "pr_free_pages (pr_give_run r pages i) = pr_free_pages r + pages"
  by (simp_all add: pr_take_run_def pr_give_run_def fold_pr_take fold_pr_give)

lemma release_contiguous_pages_Done:
  assumes "pr_wf r" "0 < i" "0 < pages" "{i..<i + pages} \<subseteq> pr_used r"
  shows "release_contiguous_pages r (page_addr r i) pages = Done (pr_give_run r pages i)"
    "pr_wf (pr_give_run r pages i)" "pr_used (pr_give_run r pages i) = pr_used r - {i..<i + pages}"
proof -
  let ?r' = "pr_give_run r pages i"
  have last: "i + pages - 1 \<in> pr_used r" "i \<in> pr_used r" using assms(3,4) by auto
  then have bound: "i + pages \<le> pr_page_count r" "i < pr_page_count r"
    using pr_used_bounded by fastforce+
  have wf: "pr_wf0 ?r' \<and> pr_used ?r' = pr_used r - set [i..<i + pages]"
    unfolding pr_give_run_def by (rule pr_give_list) (use assms in \<open>auto simp: pr_wf_def\<close>)
  have loop: "release_loop (pr_bitmap r) [i..<i + pages] =
      Done (fold (\<lambda>j q. bitmap_clear q j) [i..<i + pages] (pr_bitmap r))"
    using assms bound by (subst release_loop_eq) (auto simp: pr_wf_def pr_wf0_def pr_used_def)
  have addr: "page_addr r i \<noteq> pr_paddr r" "pr_contains r (page_addr r i)"
      "pr_contains r (page_addr r i + (pages - 1) * PAGE_SIZE)"
    using assms(2,3) bound page_addr_contains [of i r] page_addr_contains [of "i + pages - 1" r]
    by (auto simp: page_addr_def PAGE_SIZE_def algebra_simps)
  show "release_contiguous_pages r (page_addr r i) pages = Done ?r'"
    using addr loop assms(3) by (simp add: release_contiguous_pages_def pr_give_run_def fold_pr_give)
  show "pr_wf ?r'" "pr_used ?r' = pr_used r - {i..<i + pages}"
    using wf assms(1,2) by (auto simp: pr_wf_def)
qed

lemma release_contiguous_pages_Halt:
  assumes "pr_wf r" "p mod PAGE_SIZE = 0"
    and "\<not> (0 < pages \<and> (\<exists>i > 0. p = page_addr r i \<and> {i..<i + pages} \<subseteq> pr_used r))"
  shows "release_contiguous_pages r p pages = Halt"
proof (rule ccontr)
  assume "release_contiguous_pages r p pages \<noteq> Halt"
  then have p: "0 < pages" "p \<noteq> pr_paddr r" "pr_contains r p"
      "pr_contains r (p + (pages - 1) * PAGE_SIZE)"
      "release_loop (pr_bitmap r)
         [(p - pr_paddr r) div PAGE_SIZE..<(p - pr_paddr r) div PAGE_SIZE + pages] \<noteq> Halt"
    by (auto simp: release_contiguous_pages_def asserting_def Let_def split: if_splits)
  have wf0: "pr_wf0 r" using assms(1) by (simp add: pr_wf_def)
  obtain i where i: "i < pr_page_count r" "p = page_addr r i"
    using contains_aligned_page_addr [OF wf0 p(3) assms(2)] by metis
  have "0 < i" using p(2) i(2) by (cases i) (auto simp: page_addr_def)
  have "page_addr r (i + pages - 1) = p + (pages - 1) * PAGE_SIZE"
    using p(1) i(2) by (simp add: page_addr_def algebra_simps flip: add_diff_assoc)
  then have "page_addr r (i + pages - 1) < pr_end r" using p(4) by (simp add: pr_contains_def)
  then have bound: "i + pages \<le> pr_page_count r"
    using p(1) by (simp add: page_addr_def pr_end_def PAGE_SIZE_def)
  have "\<forall>j \<in> set [i..<i + pages]. bitmap_test (pr_bitmap r) j"
    using p(5) i(2) wf0 bound by (subst (asm) release_loop_eq) (auto simp: pr_wf0_def split: if_splits)
  then have "{i..<i + pages} \<subseteq> pr_used r" using bound by (auto simp: pr_used_def)
  then show False using assms(3) p(1) i(2) \<open>0 < i\<close> by blast
qed

text \<open>
  \<open>PhysicalRange::release_contiguous_pages\<close> of a page-aligned address undoes a reservation and
  nothing else: it returns exactly when the address starts a non-empty run of pages that are all
  handed out and do not include the bitmap page, and then exactly these pages become free, the
  free counter grows by their number and the invariant is kept. Every other call trips an
  assertion.
\<close>

theorem release_contiguous_pages_correct:
  assumes "pr_wf r" "p mod PAGE_SIZE = 0"
  shows "case release_contiguous_pages r p pages of
      Done r' \<Rightarrow> 0 < pages \<and> (\<exists>i > 0. p = page_addr r i \<and> {i..<i + pages} \<subseteq> pr_used r \<and> pr_wf r' \<and>
        pr_used r' = pr_used r - {i..<i + pages} \<and> pr_free_pages r' = pr_free_pages r + pages)
    | Halt \<Rightarrow> pages = 0 \<or> (\<forall>i > 0. p = page_addr r i \<longrightarrow> \<not> {i..<i + pages} \<subseteq> pr_used r)"
proof (cases "0 < pages \<and> (\<exists>i > 0. p = page_addr r i \<and> {i..<i + pages} \<subseteq> pr_used r)")
  case True
  then obtain i where i: "0 < i" "0 < pages" "{i..<i + pages} \<subseteq> pr_used r" "p = page_addr r i" by blast
  then show ?thesis using release_contiguous_pages_Done [OF assms(1) i(1-3)] by auto
next
  case False
  then show ?thesis using release_contiguous_pages_Halt [OF assms False] by auto
qed

section \<open>A concrete range\<close>

lemma example_range:
  obtains r where "phys_range_create 0x100000 0x4000 = Done r" "pr_wf r" "pr_used r = {0}"
    "pr_page_count r = 4" "pr_free_pages r = 3"
proof -
  obtain r where r: "phys_range_create 0x100000 0x4000 = Done r" "pr_wf r" "pr_used r = {0}"
      "pr_page_count r = 0x4000 div PAGE_SIZE"
    by (rule phys_range_create_wf [of "0x100000" "0x4000"]) (auto simp: PAGE_SIZE_def pr_max_bytes_def)
  then have "pr_page_count r = 4" "pr_free_pages r = 3"
    by (auto simp: pr_wf_def pr_wf0_def PAGE_SIZE_def)
  with r show ?thesis using that by blast
qed

theorem reserve_page_correct_witness:
  "case phys_range_create 0x100000 0x4000 of Halt \<Rightarrow> False
   | Done r \<Rightarrow> \<exists>k r'. reserve_page r = Done (r', page_addr r k) \<and> pr_wf r' \<and> k \<notin> pr_used r"
proof -
  obtain r where r: "phys_range_create 0x100000 0x4000 = Done r" "pr_wf r" "0 < pr_free_pages r"
    using example_range by (metis zero_less_numeral)
  show ?thesis using r(1) reserve_page_correct [OF r(2,3)] by auto
qed

theorem release_page_correct_witness:
  "case phys_range_create 0x100000 0x4000 of Halt \<Rightarrow> False
   | Done r \<Rightarrow> release_page r 0x100000 = Halt \<and> (case reserve_page r of Halt \<Rightarrow> False
       | Done (r1, p) \<Rightarrow> \<exists>r2. release_page r1 p = Done r2 \<and> pr_wf r2 \<and> pr_used r2 = pr_used r)"
proof -
  obtain r where r: "phys_range_create 0x100000 0x4000 = Done r" "pr_wf r" "pr_used r = {0}"
      "0 < pr_free_pages r"
    using example_range by (metis zero_less_numeral)
  have halt: "release_page r 0x100000 = Halt"
    using release_page_correct [OF r(2), of "0x100000"] r(3) by (cases "release_page r 0x100000") auto
  obtain k where k: "0 < k" "k \<notin> pr_used r" "pr_wf (pr_take r k)"
      "pr_used (pr_take r k) = insert k (pr_used r)"
      "reserve_page r = Done (pr_take r k, page_addr r k)"
    using reserve_page_Done [OF r(2,4)] by metis
  have "page_addr r k = page_addr (pr_take r k) k" by (simp add: page_addr_def)
  then have "\<exists>r2. release_page (pr_take r k) (page_addr r k) = Done r2 \<and> pr_wf r2 \<and> pr_used r2 = pr_used r"
    using release_page_correct [OF k(3), of "page_addr r k"] k(1,2,4)
    by (cases "release_page (pr_take r k) (page_addr r k)") (auto simp: page_addr_inj)
  then show ?thesis using r(1) k(5) halt by simp
qed

theorem reserve_contiguous_pages_correct_witness:
  "case phys_range_create 0x100000 0x4000 of Halt \<Rightarrow> False
   | Done r \<Rightarrow> \<exists>r' p. reserve_contiguous_pages r 2 = Done (r', p) \<and> p \<noteq> 0 \<and> pr_wf r'"
proof -
  obtain r where r: "phys_range_create 0x100000 0x4000 = Done r" "pr_wf r" "pr_used r = {0}"
      "pr_page_count r = 4" "pr_free_pages r = 3"
    using example_range by metis
  have free: "2 \<le> pr_free_pages r" using r(5) by simp
  have run: "\<exists>i < pr_page_count r - 2. free_run r 2 i"
    using r(3,4) by (intro exI [of _ 1]) (simp add: free_run_def)
  obtain r' p where "reserve_contiguous_pages r 2 = Done (r', p)" "pr_wf r'"
      "\<exists>i. p = page_addr r i \<and> 0 < i"
    using reserve_contiguous_pages_correct [OF r(2) _ free] run by auto
  then show ?thesis using r(1) page_addr_pos by fastforce
qed

theorem reserve_contiguous_pages_misses_last_run_witness:
  "case phys_range_create 0x100000 0x4000 of Halt \<Rightarrow> False
   | Done r \<Rightarrow> pr_free_pages r = 3 \<and> reserve_contiguous_pages r 3 = Done (r, 0)"
proof -
  obtain r where r: "phys_range_create 0x100000 0x4000 = Done r" "pr_wf r" "pr_used r = {0}"
      "pr_page_count r = 4" "pr_free_pages r = 3"
    using example_range by metis
  have "reserve_contiguous_pages r (pr_free_pages r) = Done (r, 0)"
    using reserve_contiguous_pages_misses_last_run [OF r(2,3)] r(4) by auto
  then show ?thesis using r(1,5) by simp
qed

theorem release_contiguous_pages_correct_witness:
  "case phys_range_create 0x100000 0x4000 of Halt \<Rightarrow> False
   | Done r \<Rightarrow> (case reserve_contiguous_pages r 2 of Halt \<Rightarrow> False
       | Done (r1, p) \<Rightarrow> \<exists>r2. release_contiguous_pages r1 p 2 = Done r2 \<and> pr_used r2 = pr_used r)"
proof -
  obtain r where r: "phys_range_create 0x100000 0x4000 = Done r" "pr_wf r" "pr_used r = {0}"
      "pr_page_count r = 4" "pr_free_pages r = 3"
    using example_range by metis
  have run: "\<exists>i < pr_page_count r - 2. free_run r 2 i"
    using r(3,4) by (intro exI [of _ 1]) (simp add: free_run_def)
  have two: "0 < (2 :: nat)" "2 \<le> pr_free_pages r" using r(5) by simp_all
  obtain i where i: "0 < i" "free_run r 2 i"
      "reserve_contiguous_pages r 2 = Done (pr_take_run r 2 i, page_addr r i)"
      "pr_wf (pr_take_run r 2 i)" "pr_used (pr_take_run r 2 i) = pr_used r \<union> {i..<i + 2}"
    using reserve_contiguous_pages_Done [OF r(2) two run] by metis
  have sub: "{i..<i + 2} \<subseteq> pr_used (pr_take_run r 2 i)" using i(5) by blast
  have al: "page_addr r i mod PAGE_SIZE = 0" using r(2) by (simp add: page_addr_aligned pr_wf_def)
  obtain r2 where r2: "release_contiguous_pages (pr_take_run r 2 i) (page_addr r i) 2 = Done r2"
      "pr_used r2 = pr_used (pr_take_run r 2 i) - {i..<i + 2}"
    using release_contiguous_pages_correct [OF i(4) al, of 2] i(1) sub
    by (auto simp: page_addr_inj split: run.splits)
  moreover have "pr_used r \<union> {i..<i + 2} - {i..<i + 2} = pr_used r"
    using i(2) unfolding free_run_def by blast
  ultimately show ?thesis using r(1) i(3,5) by simp
qed

end
