(* ===== verification/BAN_Sort.thy ===== *)
theory BAN_Sort
  imports BAN_Math
begin

text \<open>
  \<^verbatim>\<open>BAN/include/BAN/Sort.h\<close>, \<^verbatim>\<open>Heap.h\<close> and \<^verbatim>\<open>PriorityQueue.h\<close>.
  The elements an iterator range runs over are a list, an iterator is an index into it, and
  a routine returns the list after its swaps and moves. \<open>cmp\<close> is the comparison object.
\<close>

section \<open>Model: the simple sorts\<close>

definition swap_at :: "'a list \<Rightarrow> nat \<Rightarrow> nat \<Rightarrow> 'a list" where
  "swap_at xs i j = xs[i := xs ! j, j := xs ! i]"

function exchange_inner :: "('a \<Rightarrow> 'a \<Rightarrow> bool) \<Rightarrow> 'a list \<Rightarrow> nat \<Rightarrow> nat \<Rightarrow> nat \<Rightarrow> 'a list" where
  "exchange_inner cmp xs lhs rhs e =
     (if rhs < e then
        exchange_inner cmp
          (if \<not> cmp (xs ! lhs) (xs ! rhs) then swap_at xs lhs rhs else xs) lhs (Suc rhs) e
      else xs)"
  by pat_completeness auto
termination
  by (relation "measure (\<lambda>(c, xs, l, r, e). e - r)") auto

function exchange_outer :: "('a \<Rightarrow> 'a \<Rightarrow> bool) \<Rightarrow> 'a list \<Rightarrow> nat \<Rightarrow> nat \<Rightarrow> 'a list" where
  "exchange_outer cmp xs lhs e =
     (if lhs < e then exchange_outer cmp (exchange_inner cmp xs lhs (Suc lhs) e) (Suc lhs) e
      else xs)"
  by pat_completeness auto
termination
  by (relation "measure (\<lambda>(c, xs, l, e). e - l)") auto

definition exchange_sort :: "('a \<Rightarrow> 'a \<Rightarrow> bool) \<Rightarrow> 'a list \<Rightarrow> nat \<Rightarrow> nat \<Rightarrow> 'a list" where
  "exchange_sort cmp xs b e = exchange_outer cmp xs b e"

text \<open>The inner loop of \<open>insertion_sort\<close>: shift larger elements up, then store \<open>x\<close>.\<close>

fun insertion_shift :: "('a \<Rightarrow> 'a \<Rightarrow> bool) \<Rightarrow> 'a list \<Rightarrow> 'a \<Rightarrow> nat \<Rightarrow> nat \<Rightarrow> 'a list" where
  "insertion_shift cmp xs x b it2 =
     (if b < it2 \<and> cmp x (xs ! (it2 - 1))
      then insertion_shift cmp (xs[it2 := xs ! (it2 - 1)]) x b (it2 - 1)
      else xs[it2 := x])"

function insertion_outer :: "('a \<Rightarrow> 'a \<Rightarrow> bool) \<Rightarrow> 'a list \<Rightarrow> nat \<Rightarrow> nat \<Rightarrow> nat \<Rightarrow> 'a list" where
  "insertion_outer cmp xs b it1 e =
     (if it1 < e then insertion_outer cmp (insertion_shift cmp xs (xs ! it1) b it1) b (Suc it1) e
      else xs)"
  by pat_completeness auto
termination
  by (relation "measure (\<lambda>(c, xs, b, i, e). e - i)") auto

definition insertion_sort :: "('a \<Rightarrow> 'a \<Rightarrow> bool) \<Rightarrow> 'a list \<Rightarrow> nat \<Rightarrow> nat \<Rightarrow> 'a list" where
  "insertion_sort cmp xs b e = (if e - b \<le> 1 then xs else insertion_outer cmp xs b (Suc b) e)"

declare exchange_inner.simps [simp del] exchange_outer.simps [simp del]
  insertion_shift.simps [simp del] insertion_outer.simps [simp del]

section \<open>Model: partition and the quick sorts\<close>

text \<open>
  The loop of \<open>detail::partition\<close>. Its condition \<open>eq != gt\<close> is \<open>eq < gt\<close> here: the
  distance starts non-negative and shrinks by one in every iteration.
\<close>

function partition_loop ::
  "('a \<Rightarrow> 'a \<Rightarrow> bool) \<Rightarrow> 'a list \<Rightarrow> nat \<Rightarrow> nat \<Rightarrow> nat \<Rightarrow> nat \<Rightarrow> 'a list \<times> nat \<times> nat" where
  "partition_loop cmp xs pivot lt eq gt =
     (if eq < gt then
        if cmp (xs ! eq) (xs ! pivot) then
          partition_loop cmp (swap_at xs eq lt) (if pivot = lt then eq else pivot) (Suc lt) (Suc eq) gt
        else if cmp (xs ! pivot) (xs ! eq) then
          partition_loop cmp (swap_at xs eq (gt - 1)) (if pivot = gt - 1 then eq else pivot) lt eq (gt - 1)
        else partition_loop cmp xs pivot lt (Suc eq) gt
      else (xs, lt, gt))"
  by pat_completeness auto
termination
  by (relation "measure (\<lambda>(c, xs, p, lt, eq, gt). gt - eq)") auto

declare partition_loop.simps [simp del]

definition partition_range ::
  "('a \<Rightarrow> 'a \<Rightarrow> bool) \<Rightarrow> 'a list \<Rightarrow> nat \<Rightarrow> nat \<Rightarrow> 'a list \<times> nat \<times> nat" where
  "partition_range cmp xs b e = partition_loop cmp xs (b + (e - b) div 2) b b e"

text \<open>
  \<open>quick_sort\<close>: the two recursive calls of the source pass no comparison object, so they
  use the default one, \<open>dflt\<close> (\<^verbatim>\<open>BAN::less\<close>). Whether the loop ends depends on \<open>cmp\<close>;
  \<open>None\<close> means that it does not.
\<close>

partial_function (option) quick_sort ::
  "('a \<Rightarrow> 'a \<Rightarrow> bool) \<Rightarrow> ('a \<Rightarrow> 'a \<Rightarrow> bool) \<Rightarrow> 'a list \<Rightarrow> nat \<Rightarrow> nat \<Rightarrow> 'a list option" where
  "quick_sort dflt cmp xs b e =
     (if 1 < e - b then
        (case partition_range cmp xs b e of (ys, lt, gt) \<Rightarrow>
           if lt - b < e - gt
           then Option.bind (quick_sort dflt dflt ys b lt) (\<lambda>zs. quick_sort dflt cmp zs gt e)
           else Option.bind (quick_sort dflt dflt ys gt e) (\<lambda>zs. quick_sort dflt cmp zs b lt))
      else Some xs)"

section \<open>Model: heaps\<close>

text \<open>
  \<open>heapify_up\<close> with \<open>parent = (index - 1) / 2\<close>: at index 0 the subtraction wraps, the parent
  is huge and the loop ends, which is the test \<open>index = 0\<close> here.
\<close>

fun heapify_up :: "('a \<Rightarrow> 'a \<Rightarrow> bool) \<Rightarrow> 'a list \<Rightarrow> nat \<Rightarrow> nat \<Rightarrow> 'a list" where
  "heapify_up cmp xs b index =
     (if index = 0 then xs
      else let parent = (index - 1) div 2
           in if cmp (xs ! (b + index)) (xs ! (b + parent)) then xs
              else heapify_up cmp (swap_at xs (b + parent) (b + index)) b parent)"

text \<open>The child that \<open>heapify_down\<close> swaps with, if it does not stop.\<close>

definition heap_child :: "('a \<Rightarrow> 'a \<Rightarrow> bool) \<Rightarrow> 'a list \<Rightarrow> nat \<Rightarrow> nat \<Rightarrow> nat \<Rightarrow> nat option" where
  "heap_child cmp xs b index len =
     (let lchild = 2 * index + 1; rchild = 2 * index + 2
      in if lchild < len \<and> \<not> cmp (xs ! (b + lchild)) (xs ! (b + index)) then
           (if rchild < len \<and> \<not> cmp (xs ! (b + rchild)) (xs ! (b + lchild))
            then Some rchild else Some lchild)
         else if rchild < len \<and> \<not> cmp (xs ! (b + rchild)) (xs ! (b + index)) then Some rchild
         else None)"

lemma heap_child_bounds:
  "heap_child cmp xs b index len = Some c \<Longrightarrow> (c = 2 * index + 1 \<or> c = 2 * index + 2) \<and> c < len"
  by (auto simp: heap_child_def Let_def split: if_splits)

function heapify_down :: "('a \<Rightarrow> 'a \<Rightarrow> bool) \<Rightarrow> 'a list \<Rightarrow> nat \<Rightarrow> nat \<Rightarrow> nat \<Rightarrow> 'a list" where
  "heapify_down cmp xs b index len =
     (case heap_child cmp xs b index len of
        None \<Rightarrow> xs
      | Some child \<Rightarrow> heapify_down cmp (swap_at xs (b + child) (b + index)) b child len)"
  by pat_completeness auto
termination
  by (relation "measure (\<lambda>(c, xs, b, i, len). len - i)") (auto dest: heap_child_bounds)

declare heapify_up.simps [simp del] heapify_down.simps [simp del]

text \<open>
  The loop of \<open>make_heap\<close> counts an unsigned index down to 0; decrementing 0 wraps and ends it.
\<close>

fun make_heap_loop :: "('a \<Rightarrow> 'a \<Rightarrow> bool) \<Rightarrow> 'a list \<Rightarrow> nat \<Rightarrow> nat \<Rightarrow> nat \<Rightarrow> 'a list" where
  "make_heap_loop cmp xs b 0 len = heapify_down cmp xs b 0 len"
| "make_heap_loop cmp xs b (Suc i) len = make_heap_loop cmp (heapify_down cmp xs b (Suc i) len) b i len"

definition make_heap :: "('a \<Rightarrow> 'a \<Rightarrow> bool) \<Rightarrow> 'a list \<Rightarrow> nat \<Rightarrow> nat \<Rightarrow> 'a list" where
  "make_heap cmp xs b e =
     (let len = e - b in if len \<le> 1 then xs else make_heap_loop cmp xs b ((len - 2) div 2) len)"

definition push_heap :: "('a \<Rightarrow> 'a \<Rightarrow> bool) \<Rightarrow> 'a list \<Rightarrow> nat \<Rightarrow> nat \<Rightarrow> 'a list" where
  "push_heap cmp xs b e = heapify_up cmp xs b (e - b - 1)"

definition pop_heap :: "('a \<Rightarrow> 'a \<Rightarrow> bool) \<Rightarrow> 'a list \<Rightarrow> nat \<Rightarrow> nat \<Rightarrow> 'a list" where
  "pop_heap cmp xs b e =
     (let len = e - b in heapify_down cmp (swap_at xs b (b + len - 1)) b 0 (len - 1))"

fun sort_heap :: "('a \<Rightarrow> 'a \<Rightarrow> bool) \<Rightarrow> 'a list \<Rightarrow> nat \<Rightarrow> nat \<Rightarrow> 'a list" where
  "sort_heap cmp xs b e = (if b < e then sort_heap cmp (pop_heap cmp xs b e) b (e - 1) else xs)"

declare sort_heap.simps [simp del]

definition heap_sort :: "('a \<Rightarrow> 'a \<Rightarrow> bool) \<Rightarrow> 'a list \<Rightarrow> nat \<Rightarrow> nat \<Rightarrow> 'a list" where
  "heap_sort cmp xs b e = sort_heap cmp (make_heap cmp xs b e) b e"

section \<open>Model: introsort\<close>

text \<open>
  \<open>intro_sort_impl begin end max_depth\<close> is a loop of at most \<open>max_depth\<close> rounds (\<open>left\<close> of them
  are left); its recursive calls get \<open>max_depth - 1\<close>.
\<close>

function intro_sort_loop ::
  "('a \<Rightarrow> 'a \<Rightarrow> bool) \<Rightarrow> 'a list \<Rightarrow> nat \<Rightarrow> nat \<Rightarrow> nat \<Rightarrow> nat \<Rightarrow> 'a list" where
  "intro_sort_loop cmp xs b e max_depth left =
     (if left = 0 \<or> max_depth = 0 then heap_sort cmp xs b e
      else if e - b \<le> 1 then xs
      else if e - b \<le> 16 then insertion_sort cmp xs b e
      else case partition_range cmp xs b e of (ys, lt, gt) \<Rightarrow>
        if lt - b < e - gt
        then intro_sort_loop cmp
               (intro_sort_loop cmp ys b lt (max_depth - 1) (max_depth - 1)) gt e max_depth (left - 1)
        else intro_sort_loop cmp
               (intro_sort_loop cmp ys gt e (max_depth - 1) (max_depth - 1)) b lt max_depth (left - 1))"
  by pat_completeness auto
termination
  by (relation "measures [\<lambda>(c, xs, b, e, d, l). d, \<lambda>(c, xs, b, e, d, l). l]") auto

declare intro_sort_loop.simps [simp del]

definition intro_sort_impl ::
  "('a \<Rightarrow> 'a \<Rightarrow> bool) \<Rightarrow> 'a list \<Rightarrow> nat \<Rightarrow> nat \<Rightarrow> nat \<Rightarrow> 'a list" where
  "intro_sort_impl cmp xs b e max_depth = intro_sort_loop cmp xs b e max_depth max_depth"

definition intro_sort :: "('a \<Rightarrow> 'a \<Rightarrow> bool) \<Rightarrow> 'a list \<Rightarrow> nat \<Rightarrow> nat \<Rightarrow> 'a list" where
  "intro_sort cmp xs b e =
     (if e - b \<le> 1 then xs
      else intro_sort_impl cmp xs b e (2 * ilog2 (word_of_nat (e - b) :: 64 word)))"

definition ban_sort :: "('a \<Rightarrow> 'a \<Rightarrow> bool) \<Rightarrow> 'a list \<Rightarrow> nat \<Rightarrow> nat \<Rightarrow> 'a list" where
  "ban_sort cmp xs b e = intro_sort cmp xs b e"

section \<open>Model: the priority queue\<close>

text \<open>
  \<open>PriorityQueue\<close> keeps a comparison object \<open>pq_comp\<close>, but its calls of \<open>push_heap\<close> and
  \<open>pop_heap\<close> do not pass it: they run with the default \<^verbatim>\<open>BAN::less\<close> (\<open>dflt\<close>). \<open>grow_ok\<close> says
  whether the vector can allocate the slot it needs. Popping or reading the top of an empty
  queue fails the assertion of the vector.
\<close>

record 'a priority_queue =
  pq_comp :: "'a \<Rightarrow> 'a \<Rightarrow> bool"
  pq_data :: "'a list"

definition pq_push ::
  "('a \<Rightarrow> 'a \<Rightarrow> bool) \<Rightarrow> bool \<Rightarrow> 'a priority_queue \<Rightarrow> 'a \<Rightarrow> 'a priority_queue \<times> unit error_or" where
  "pq_push dflt grow_ok q v =
     (if \<not> grow_ok then (q, Inl ENOMEM)
      else let xs = pq_data q @ [v]
           in (q\<lparr>pq_data := push_heap dflt xs 0 (length xs)\<rparr>, Inr ()))"

definition pq_pop :: "('a \<Rightarrow> 'a \<Rightarrow> bool) \<Rightarrow> 'a priority_queue \<Rightarrow> 'a priority_queue run" where
  "pq_pop dflt q =
     asserting (pq_data q \<noteq> [])
       (Done (q\<lparr>pq_data := butlast (pop_heap dflt (pq_data q) 0 (length (pq_data q)))\<rparr>))"

definition pq_top :: "'a priority_queue \<Rightarrow> 'a run" where
  "pq_top q = asserting (pq_data q \<noteq> []) (Done (pq_data q ! 0))"

section \<open>Rearranging a range\<close>

text \<open>\<open>perm_on b e xs ys\<close>: \<open>ys\<close> is \<open>xs\<close> with the elements at \<open>b, \<dots>, e - 1\<close> rearranged.\<close>

definition perm_on :: "nat \<Rightarrow> nat \<Rightarrow> 'a list \<Rightarrow> 'a list \<Rightarrow> bool" where
  "perm_on b e xs ys \<longleftrightarrow> length ys = length xs \<and> mset ys = mset xs \<and>
     (\<forall>i < length xs. i < b \<or> e \<le> i \<longrightarrow> ys ! i = xs ! i)"

lemma perm_on_refl [simp]: "perm_on b e xs xs"
  by (simp add: perm_on_def)

lemma perm_on_trans [trans]: "perm_on b e xs ys \<Longrightarrow> perm_on b e ys zs \<Longrightarrow> perm_on b e xs zs"
  by (simp add: perm_on_def)

lemma perm_on_mono: "perm_on b e xs ys \<Longrightarrow> b' \<le> b \<Longrightarrow> e \<le> e' \<Longrightarrow> perm_on b' e' xs ys"
  by (simp add: perm_on_def)

lemma perm_on_length: "perm_on b e xs ys \<Longrightarrow> length ys = length xs"
  by (simp add: perm_on_def)

lemma perm_on_outside:
  "perm_on b e xs ys \<Longrightarrow> i < length xs \<Longrightarrow> i < b \<or> e \<le> i \<Longrightarrow> ys ! i = xs ! i"
  by (auto simp: perm_on_def)

lemma length_swap_at [simp]: "length (swap_at xs i j) = length xs"
  by (simp add: swap_at_def)

lemma nth_swap_at:
  "i < length xs \<Longrightarrow> j < length xs \<Longrightarrow> k < length xs \<Longrightarrow>
   swap_at xs i j ! k = (if k = j then xs ! i else if k = i then xs ! j else xs ! k)"
  by (auto simp: swap_at_def nth_list_update)

lemma perm_on_swap_at:
  assumes "b \<le> i" "i < e" "b \<le> j" "j < e" "e \<le> length xs"
  shows "perm_on b e xs (swap_at xs i j)"
proof -
  have "mset (swap_at xs i j) = mset xs"
    using assms unfolding swap_at_def by (intro mset_swap) auto
  then show ?thesis using assms by (auto simp: perm_on_def nth_swap_at)
qed

lemma perm_on_segment:
  assumes "perm_on b e xs ys" "b \<le> e" "e \<le> length xs"
  shows "mset (take (e - b) (drop b ys)) = mset (take (e - b) (drop b xs))"
proof -
  have len: "length ys = length xs" using assms(1) by (rule perm_on_length)
  have split: "mset zs = mset (take b zs) + mset (take (e - b) (drop b zs)) + mset (drop e zs)" for zs :: "'a list"
    by (metis append_take_drop_id assms(2) drop_drop le_add_diff_inverse2 mset_append union_assoc)
  have "take b ys = take b xs"
    by (rule nth_equalityI) (use assms len in \<open>auto simp: perm_on_def\<close>)
  moreover have "drop e ys = drop e xs"
    by (rule nth_equalityI) (use assms len in \<open>auto simp: perm_on_def\<close>)
  ultimately show ?thesis using split [of xs] split [of ys] assms(1) by (simp add: perm_on_def)
qed

text \<open>What holds for every element of the range still does after rearranging it.\<close>

lemma perm_on_ball:
  assumes "perm_on b e xs ys" "e \<le> length xs" "\<And>i. b \<le> i \<Longrightarrow> i < e \<Longrightarrow> P (xs ! i)"
    and "b \<le> i" "i < e"
  shows "P (ys ! i)"
proof -
  have be: "b \<le> e" using assms(4,5) by simp
  have len: "length ys = length xs" using assms(1) by (rule perm_on_length)
  have nth: "take (e - b) (drop b ys) ! (i - b) = ys ! i" "i - b < length (take (e - b) (drop b ys))"
    using assms len by simp_all
  then have "ys ! i \<in> set (take (e - b) (drop b ys))" by (metis nth_mem)
  also have "\<dots> = set (take (e - b) (drop b xs))"
    using perm_on_segment [OF assms(1) be assms(2)] by (metis set_mset_mset)
  finally obtain k where "k < length (take (e - b) (drop b xs))" "take (e - b) (drop b xs) ! k = ys ! i"
    by (metis in_set_conv_nth)
  then have "b \<le> b + k" "b + k < e" "xs ! (b + k) = ys ! i" using assms(2) by simp_all
  then show ?thesis using assms(3) [of "b + k"] by simp
qed

section \<open>Comparison objects\<close>

text \<open>
  What the sorts ask of a comparison object: a strict weak order. \<open>cle x y\<close> says that \<open>y\<close>
  does not come before \<open>x\<close>.
\<close>

locale strict_weak_order =
  fixes cmp :: "'a \<Rightarrow> 'a \<Rightarrow> bool"
  assumes asym: "cmp x y \<Longrightarrow> \<not> cmp y x"
    and neg_trans: "\<not> cmp x y \<Longrightarrow> \<not> cmp y z \<Longrightarrow> \<not> cmp x z"
begin

lemma irrefl [simp]: "\<not> cmp x x"
  using asym by blast

lemma trans: "cmp x y \<Longrightarrow> cmp y z \<Longrightarrow> cmp x z"
  using asym neg_trans by blast

lemma less_le_trans: "cmp x y \<Longrightarrow> \<not> cmp z y \<Longrightarrow> cmp x z"
  using neg_trans by blast

lemma le_less_trans: "\<not> cmp y x \<Longrightarrow> cmp y z \<Longrightarrow> cmp x z"
  using neg_trans by blast

end

text \<open>\<open>sorted_on cmp b e xs\<close>: no element of the range comes before an earlier one.\<close>

definition sorted_on :: "('a \<Rightarrow> 'a \<Rightarrow> bool) \<Rightarrow> nat \<Rightarrow> nat \<Rightarrow> 'a list \<Rightarrow> bool" where
  "sorted_on cmp b e xs \<longleftrightarrow> (\<forall>i j. b \<le> i \<longrightarrow> i < j \<longrightarrow> j < e \<longrightarrow> \<not> cmp (xs ! j) (xs ! i))"

text \<open>A routine sorts if on every range it rearranges that range and leaves it sorted.\<close>

definition sorts_range :: "('a \<Rightarrow> 'a \<Rightarrow> bool) \<Rightarrow> 'a list \<Rightarrow> nat \<Rightarrow> nat \<Rightarrow> 'a list \<Rightarrow> bool" where
  "sorts_range cmp xs b e ys \<longleftrightarrow> perm_on b e xs ys \<and> sorted_on cmp b e ys"

lemma sorts_range_length: "sorts_range cmp xs b e ys \<Longrightarrow> length ys = length xs"
  by (auto simp: sorts_range_def perm_on_def)

lemma sorted_on_trivial: "e - b \<le> 1 \<Longrightarrow> sorted_on cmp b e xs"
  by (auto simp: sorted_on_def)

lemma sorted_on_cong:
  assumes "sorted_on cmp b e xs" "\<And>i. b \<le> i \<Longrightarrow> i < e \<Longrightarrow> ys ! i = xs ! i"
  shows "sorted_on cmp b e ys"
  using assms unfolding sorted_on_def by (metis le_less_trans less_le_trans less_imp_le)

text \<open>
  Gluing: three adjacent pieces, the outer two sorted, the middle one of mutually
  incomparable elements, and the pieces in order.
\<close>

definition three_way :: "('a \<Rightarrow> 'a \<Rightarrow> bool) \<Rightarrow> 'a \<Rightarrow> 'a list \<Rightarrow> nat \<Rightarrow> nat \<Rightarrow> nat \<Rightarrow> nat \<Rightarrow> bool" where
  "three_way cmp p xs b lt gt e \<longleftrightarrow>
     (\<forall>i. b \<le> i \<longrightarrow> i < lt \<longrightarrow> cmp (xs ! i) p) \<and>
     (\<forall>i. lt \<le> i \<longrightarrow> i < gt \<longrightarrow> \<not> cmp (xs ! i) p \<and> \<not> cmp p (xs ! i)) \<and>
     (\<forall>i. gt \<le> i \<longrightarrow> i < e \<longrightarrow> cmp p (xs ! i))"

section \<open>Partition\<close>

text \<open>The loop invariant: \<open>[b, lt)\<close> below the pivot, \<open>[lt, eq)\<close> like it, \<open>[gt, e)\<close> above it.\<close>

definition partition_inv ::
  "('a \<Rightarrow> 'a \<Rightarrow> bool) \<Rightarrow> 'a \<Rightarrow> nat \<Rightarrow> nat \<Rightarrow> 'a list \<Rightarrow> nat \<Rightarrow> nat \<Rightarrow> nat \<Rightarrow> nat \<Rightarrow> bool" where
  "partition_inv cmp p b e xs pivot lt eq gt \<longleftrightarrow>
     b \<le> lt \<and> lt \<le> eq \<and> eq \<le> gt \<and> gt \<le> e \<and> e \<le> length xs \<and>
     lt \<le> pivot \<and> pivot < gt \<and> xs ! pivot = p \<and>
     (\<forall>i. b \<le> i \<longrightarrow> i < lt \<longrightarrow> cmp (xs ! i) p) \<and>
     (\<forall>i. lt \<le> i \<longrightarrow> i < eq \<longrightarrow> \<not> cmp (xs ! i) p \<and> \<not> cmp p (xs ! i)) \<and>
     (\<forall>i. gt \<le> i \<longrightarrow> i < e \<longrightarrow> cmp p (xs ! i))"

lemma partition_inv_step:
  "partition_inv cmp p b e xs pivot lt eq gt \<Longrightarrow> eq < gt \<Longrightarrow>
   \<not> cmp (xs ! eq) p \<Longrightarrow> \<not> cmp p (xs ! eq) \<Longrightarrow> partition_inv cmp p b e xs pivot lt (Suc eq) gt"
  by (auto simp: partition_inv_def less_Suc_eq)

context strict_weak_order
begin

lemma partition_inv_less:
  assumes inv: "partition_inv cmp p b e xs pivot lt eq gt" and eq: "eq < gt" and less: "cmp (xs ! eq) p"
  shows "partition_inv cmp p b e (swap_at xs eq lt) (if pivot = lt then eq else pivot) (Suc lt) (Suc eq) gt"
proof -
  have ord: "b \<le> lt" "lt \<le> eq" "gt \<le> e" "e \<le> length xs" "lt \<le> pivot" "pivot < gt"
    and piv: "xs ! pivot = p"
    and lo: "\<And>i. b \<le> i \<Longrightarrow> i < lt \<Longrightarrow> cmp (xs ! i) p"
    and mid: "\<And>i. lt \<le> i \<Longrightarrow> i < eq \<Longrightarrow> \<not> cmp (xs ! i) p \<and> \<not> cmp p (xs ! i)"
    and hi: "\<And>i. gt \<le> i \<Longrightarrow> i < e \<Longrightarrow> cmp p (xs ! i)"
    using inv unfolding partition_inv_def by blast+
  have neq: "pivot \<noteq> eq" using piv less by auto
  have nth: "swap_at xs eq lt ! k = (if k = lt then xs ! eq else if k = eq then xs ! lt else xs ! k)"
    if "k < e" for k
    using ord eq that by (intro nth_swap_at) auto
  have "swap_at xs eq lt ! (if pivot = lt then eq else pivot) = p"
    using neq piv ord eq by (auto simp: nth)
  moreover have "cmp (swap_at xs eq lt ! i) p" if "b \<le> i" "i < Suc lt" for i
    using that ord eq less lo [of i] by (auto simp: nth less_Suc_eq)
  moreover have "\<not> cmp (swap_at xs eq lt ! i) p \<and> \<not> cmp p (swap_at xs eq lt ! i)"
    if "Suc lt \<le> i" "i < Suc eq" for i
  proof (cases "i = eq")
    case True
    then show ?thesis using that mid [of lt] ord eq by (simp add: nth)
  next
    case False
    then show ?thesis using that mid [of i] ord eq by (simp add: nth)
  qed
  moreover have "cmp p (swap_at xs eq lt ! i)" if "gt \<le> i" "i < e" for i
    using that ord eq hi [of i] by (simp add: nth)
  ultimately show ?thesis using ord eq neq unfolding partition_inv_def by auto
qed

lemma partition_inv_greater:
  assumes inv: "partition_inv cmp p b e xs pivot lt eq gt" and eq: "eq < gt" and gr: "cmp p (xs ! eq)"
  shows "partition_inv cmp p b e (swap_at xs eq (gt - 1)) (if pivot = gt - 1 then eq else pivot) lt eq (gt - 1)"
proof -
  have ord: "b \<le> lt" "lt \<le> eq" "gt \<le> e" "e \<le> length xs" "lt \<le> pivot" "pivot < gt"
    and piv: "xs ! pivot = p"
    and lo: "\<And>i. b \<le> i \<Longrightarrow> i < lt \<Longrightarrow> cmp (xs ! i) p"
    and mid: "\<And>i. lt \<le> i \<Longrightarrow> i < eq \<Longrightarrow> \<not> cmp (xs ! i) p \<and> \<not> cmp p (xs ! i)"
    and hi: "\<And>i. gt \<le> i \<Longrightarrow> i < e \<Longrightarrow> cmp p (xs ! i)"
    using inv unfolding partition_inv_def by blast+
  have neq: "pivot \<noteq> eq" using piv gr by auto
  have nth: "swap_at xs eq (gt - 1) ! k =
      (if k = gt - 1 then xs ! eq else if k = eq then xs ! (gt - 1) else xs ! k)" if "k < e" for k
    using ord eq that by (intro nth_swap_at) auto
  have "swap_at xs eq (gt - 1) ! (if pivot = gt - 1 then eq else pivot) = p"
    using neq piv ord eq by (auto simp: nth simp del: One_nat_def)
  moreover have "cmp (swap_at xs eq (gt - 1) ! i) p" if "b \<le> i" "i < lt" for i
    using that ord eq lo [of i] by (auto simp: nth simp del: One_nat_def)
  moreover have "\<not> cmp (swap_at xs eq (gt - 1) ! i) p \<and> \<not> cmp p (swap_at xs eq (gt - 1) ! i)"
    if "lt \<le> i" "i < eq" for i
    using that ord eq mid [of i] by (auto simp: nth simp del: One_nat_def)
  moreover have "cmp p (swap_at xs eq (gt - 1) ! i)" if "gt - 1 \<le> i" "i < e" for i
    using that ord eq gr hi [of i] by (cases "i = gt - 1") (auto simp: nth simp del: One_nat_def)
  ultimately show ?thesis using ord eq neq unfolding partition_inv_def by auto
qed

lemma partition_loop_correct:
  assumes "partition_inv cmp p b e xs pivot lt eq gt"
    and "partition_loop cmp xs pivot lt eq gt = (ys, lt', gt')"
  shows "perm_on b e xs ys \<and> b \<le> lt' \<and> lt' < gt' \<and> gt' \<le> e \<and> three_way cmp p ys b lt' gt' e"
  using assms
proof (induction "gt - eq" arbitrary: xs pivot lt eq gt)
  case 0
  have "partition_loop cmp xs pivot lt eq gt = (xs, lt, gt)"
    using 0(1) by (simp add: partition_loop.simps [of _ xs pivot lt eq gt])
  moreover have "eq = gt" using 0 by (simp add: partition_inv_def)
  ultimately show ?case using 0 unfolding partition_inv_def three_way_def by auto
next
  case (Suc d)
  then have lt: "eq < gt" by simp
  note inv = Suc.prems(1)
  have piv: "xs ! pivot = p" and ord: "b \<le> lt" "lt \<le> eq" "gt \<le> e" "e \<le> length xs"
    using inv by (simp_all add: partition_inv_def)
  consider (less) "cmp (xs ! eq) p" | (greater) "\<not> cmp (xs ! eq) p" "cmp p (xs ! eq)"
    | (equal) "\<not> cmp (xs ! eq) p" "\<not> cmp p (xs ! eq)" by blast
  then show ?case
  proof cases
    case less
    have "perm_on b e xs (swap_at xs eq lt)" using ord lt by (intro perm_on_swap_at) auto
    moreover have "partition_loop cmp (swap_at xs eq lt) (if pivot = lt then eq else pivot) (Suc lt) (Suc eq) gt = (ys, lt', gt')"
      using Suc.prems(2) lt less piv by (simp add: partition_loop.simps [of _ xs pivot lt eq gt])
    ultimately show ?thesis
      using Suc.hyps(1) [OF _ partition_inv_less [OF inv lt less]] Suc.hyps(2) perm_on_trans by fastforce
  next
    case greater
    have "perm_on b e xs (swap_at xs eq (gt - 1))" using ord lt by (intro perm_on_swap_at) auto
    moreover have "partition_loop cmp (swap_at xs eq (gt - 1)) (if pivot = gt - 1 then eq else pivot) lt eq (gt - 1) = (ys, lt', gt')"
      using Suc.prems(2) lt greater piv by (simp add: partition_loop.simps [of _ xs pivot lt eq gt])
    ultimately show ?thesis
      using Suc.hyps(1) [OF _ partition_inv_greater [OF inv lt greater(2)]] Suc.hyps(2) perm_on_trans by fastforce
  next
    case equal
    have "partition_loop cmp xs pivot lt (Suc eq) gt = (ys, lt', gt')"
      using Suc.prems(2) lt equal piv by (simp add: partition_loop.simps [of _ xs pivot lt eq gt])
    then show ?thesis
      using Suc.hyps(1) [OF _ partition_inv_step [OF inv lt equal]] Suc.hyps(2) by simp
  qed
qed

lemma partition_range_correct:
  assumes "b < e" "e \<le> length xs" "partition_range cmp xs b e = (ys, lt, gt)"
  shows "perm_on b e xs ys \<and> b \<le> lt \<and> lt < gt \<and> gt \<le> e \<and> (\<exists>p. three_way cmp p ys b lt gt e)"
proof -
  have "partition_inv cmp (xs ! (b + (e - b) div 2)) b e xs (b + (e - b) div 2) b b e"
    using assms(1,2) by (auto simp: partition_inv_def)
  from partition_loop_correct [OF this] show ?thesis
    using assms(3) unfolding partition_range_def by blast
qed

lemma three_way_sorted:
  assumes "three_way cmp p xs b lt gt e" "b \<le> lt" "lt \<le> gt" "gt \<le> e"
    and "sorted_on cmp b lt xs" "sorted_on cmp gt e xs"
  shows "sorted_on cmp b e xs"
  unfolding sorted_on_def
proof (intro allI impI)
  fix i j assume ij: "b \<le> i" "i < j" "j < e"
  have lo: "\<And>k. b \<le> k \<Longrightarrow> k < lt \<Longrightarrow> cmp (xs ! k) p"
    and mid: "\<And>k. lt \<le> k \<Longrightarrow> k < gt \<Longrightarrow> \<not> cmp (xs ! k) p \<and> \<not> cmp p (xs ! k)"
    and hi: "\<And>k. gt \<le> k \<Longrightarrow> k < e \<Longrightarrow> cmp p (xs ! k)"
    using assms(1) by (auto simp: three_way_def)
  consider "j < lt" | "gt \<le> i" | "i < lt" "lt \<le> j" | "lt \<le> i" "i < gt" by linarith
  then show "\<not> cmp (xs ! j) (xs ! i)"
  proof cases
    case 1
    then show ?thesis using assms(5) ij by (simp add: sorted_on_def)
  next
    case 2
    then show ?thesis using assms(6) ij by (simp add: sorted_on_def)
  next
    case 3
    then have "cmp (xs ! i) p" "\<not> cmp (xs ! j) p"
      using lo [of i] mid [of j] hi [of j] ij asym by (auto simp: not_less [symmetric])
    then show ?thesis using trans by blast
  next
    case 4
    then have "\<not> cmp p (xs ! i)" "\<not> cmp (xs ! j) p"
      using mid [of i] mid [of j] hi [of j] ij asym by (auto simp: not_less [symmetric])
    then show ?thesis using neg_trans by blast
  qed
qed

lemma three_way_perm:
  assumes "three_way cmp p xs b lt gt e" "perm_on b lt xs ys \<or> perm_on gt e xs ys"
    and "b \<le> lt" "lt \<le> gt" "gt \<le> e" "e \<le> length xs"
  shows "three_way cmp p ys b lt gt e"
proof -
  have lo: "\<And>k. b \<le> k \<Longrightarrow> k < lt \<Longrightarrow> cmp (xs ! k) p"
    and mid: "\<And>k. lt \<le> k \<Longrightarrow> k < gt \<Longrightarrow> \<not> cmp (xs ! k) p \<and> \<not> cmp p (xs ! k)"
    and hi: "\<And>k. gt \<le> k \<Longrightarrow> k < e \<Longrightarrow> cmp p (xs ! k)"
    using assms(1) by (auto simp: three_way_def)
  from assms(2) show ?thesis
  proof
    assume perm: "perm_on b lt xs ys"
    have "cmp (ys ! k) p" if "b \<le> k" "k < lt" for k
      using perm_on_ball [OF perm, of "\<lambda>x. cmp x p" k] lo that assms by simp
    moreover have "ys ! k = xs ! k" if "lt \<le> k" "k < e" for k
      using perm_on_outside [OF perm, of k] that assms by simp
    ultimately show ?thesis using mid hi assms by (simp add: three_way_def)
  next
    assume perm: "perm_on gt e xs ys"
    have "cmp p (ys ! k)" if "gt \<le> k" "k < e" for k
      using perm_on_ball [OF perm, of "cmp p" k] hi that assms by simp
    moreover have "ys ! k = xs ! k" if "b \<le> k" "k < gt" for k
      using perm_on_outside [OF perm, of k] that assms by simp
    ultimately show ?thesis using lo mid assms by (simp add: three_way_def)
  qed
qed

text \<open>
  The step of every quick sort: partition, then sort the two outer pieces in either order.
\<close>

lemma partition_then_sort:
  assumes "b < e" "e \<le> length xs" "partition_range cmp xs b e = (ys, lt, gt)"
    and "sorts_range cmp ys b lt zs \<and> sorts_range cmp zs gt e ws \<or>
         sorts_range cmp ys gt e zs \<and> sorts_range cmp zs b lt ws"
  shows "sorts_range cmp xs b e ws"
proof -
  obtain p where p: "perm_on b e xs ys" "b \<le> lt" "lt < gt" "gt \<le> e" "three_way cmp p ys b lt gt e"
    using partition_range_correct [OF assms(1-3)] by blast
  have len: "length ys = length xs" using p(1) by (rule perm_on_length)
  have zs: "perm_on b lt ys zs \<or> perm_on gt e ys zs" and ws: "perm_on b lt zs ws \<or> perm_on gt e zs ws"
    using assms(4) by (auto simp: sorts_range_def)
  have lz: "length zs = length xs" using zs len by (metis perm_on_length)
  have "three_way cmp p ws b lt gt e"
    using three_way_perm [OF three_way_perm [OF p(5) zs] ws] p lz len assms(2) by simp
  moreover have "sorted_on cmp b lt ws \<and> sorted_on cmp gt e ws"
    using assms(4)
  proof
    assume s: "sorts_range cmp ys b lt zs \<and> sorts_range cmp zs gt e ws"
    then have "ws ! i = zs ! i" if "i < lt" for i
      using that p lz assms(2) by (auto simp: sorts_range_def intro!: perm_on_outside)
    then show ?thesis using s sorted_on_cong [of cmp b lt zs ws] by (auto simp: sorts_range_def)
  next
    assume s: "sorts_range cmp ys gt e zs \<and> sorts_range cmp zs b lt ws"
    then have "ws ! i = zs ! i" if "gt \<le> i" "i < e" for i
      using that p lz assms(2) by (auto simp: sorts_range_def intro!: perm_on_outside)
    then show ?thesis using s sorted_on_cong [of cmp gt e zs ws] by (auto simp: sorts_range_def)
  qed
  ultimately have "sorted_on cmp b e ws"
    using three_way_sorted [of p ws b lt gt e] p by simp
  moreover have "perm_on b e xs ws"
  proof -
    have "perm_on b e ys zs" "perm_on b e zs ws"
      using zs ws p by (auto elim!: perm_on_mono)
    with p(1) show ?thesis by (blast intro: perm_on_trans)
  qed
  ultimately show ?thesis by (simp add: sorts_range_def)
qed

lemmas partition_then_sort_low = partition_then_sort [OF _ _ _ disjI1, OF _ _ _ conjI]
lemmas partition_then_sort_high = partition_then_sort [OF _ _ _ disjI2, OF _ _ _ conjI]

end

section \<open>Insertion sort\<close>

lemma insertion_shift_perm:
  assumes "b \<le> it2" "it2 < length xs"
  shows "perm_on b (Suc it2) (xs[it2 := x]) (insertion_shift cmp xs x b it2)"
  using assms
proof (induction cmp xs x b it2 rule: insertion_shift.induct)
  case (1 cmp xs x b it2)
  show ?case
  proof (cases "b < it2 \<and> cmp x (xs ! (it2 - 1))")
    case True
    let ?ys = "xs[it2 := xs ! (it2 - 1)]"
    have "?ys[it2 - 1 := x] = swap_at (xs[it2 := x]) (it2 - 1) it2"
      using True "1.prems" by (auto simp: swap_at_def list_eq_iff_nth_eq nth_list_update)
    moreover have "perm_on b (Suc it2) (xs[it2 := x]) (swap_at (xs[it2 := x]) (it2 - 1) it2)"
      using True "1.prems" by (intro perm_on_swap_at) auto
    moreover have "perm_on b (Suc it2) (?ys[it2 - 1 := x]) (insertion_shift cmp ?ys x b (it2 - 1))"
    proof (rule perm_on_mono [OF "1.IH" [OF True]])
      show "b \<le> it2 - 1" "it2 - 1 < length ?ys" using True "1.prems" by auto
    qed auto
    ultimately have "perm_on b (Suc it2) (xs[it2 := x]) (insertion_shift cmp ?ys x b (it2 - 1))"
      using perm_on_trans by metis
    then show ?thesis using True by (simp add: insertion_shift.simps [of cmp xs])
  next
    case False
    then show ?thesis by (auto simp: insertion_shift.simps [of cmp xs])
  qed
qed

context strict_weak_order
begin

lemma insertion_shift_sorted:
  assumes "b \<le> it2" "it2 \<le> it1" "it1 < length xs"
    and "\<And>i j. b \<le> i \<Longrightarrow> i < j \<Longrightarrow> j \<le> it1 \<Longrightarrow> i \<noteq> it2 \<Longrightarrow> j \<noteq> it2 \<Longrightarrow> \<not> cmp (xs ! j) (xs ! i)"
    and "\<And>j. it2 < j \<Longrightarrow> j \<le> it1 \<Longrightarrow> cmp x (xs ! j)"
  shows "sorted_on cmp b (Suc it1) (insertion_shift cmp xs x b it2)"
  using assms
proof (induction it2 arbitrary: xs rule: less_induct)
  case (less it2)
  show ?case
  proof (cases "b < it2 \<and> cmp x (xs ! (it2 - 1))")
    case True
    let ?ys = "xs[it2 := xs ! (it2 - 1)]"
    have "sorted_on cmp b (Suc it1) (insertion_shift cmp ?ys x b (it2 - 1))"
    proof (rule less.IH)
      fix i j assume ij: "b \<le> i" "i < j" "j \<le> it1" "i \<noteq> it2 - 1" "j \<noteq> it2 - 1"
      from True obtain k where k: "it2 = Suc k" "b \<le> k" by (cases it2) auto
      have len: "i < length xs" "j < length xs" using ij less.prems(3) by auto
      consider "j = it2" | "i = it2" "j \<noteq> it2" | "i \<noteq> it2" "j \<noteq> it2" by blast
      then show "\<not> cmp (?ys ! j) (?ys ! i)"
      proof cases
        case 1
        then show ?thesis using ij k len less.prems(2) less.prems(4) [of i k] by simp
      next
        case 2
        then show ?thesis using ij k len less.prems(2) less.prems(4) [of k j] by simp
      next
        case 3
        then show ?thesis using ij less.prems(4) [of i j] by simp
      qed
    next
      fix j assume "it2 - 1 < j" "j \<le> it1"
      then show "cmp x (?ys ! j)"
        using True less.prems(3) less.prems(5) [of j] by (auto simp: nth_list_update)
    qed (use True less.prems(1-3) in auto)
    then show ?thesis using True by (simp add: insertion_shift.simps [of cmp xs])
  next
    case False
    have below: "\<not> cmp x (xs ! i)" if "b \<le> i" "i < it2" for i
    proof (cases "i = it2 - 1")
      case False
      then have "\<not> cmp (xs ! (it2 - 1)) (xs ! i)" using less.prems(2) less.prems(4) [of i "it2 - 1"] that by auto
      moreover have "\<not> cmp x (xs ! (it2 - 1))" using \<open>\<not> (b < it2 \<and> _)\<close> that by auto
      ultimately show ?thesis using neg_trans by blast
    qed (use False that in auto)
    have "sorted_on cmp b (Suc it1) (xs[it2 := x])"
      unfolding sorted_on_def
    proof (intro allI impI)
      fix i j assume ij: "b \<le> i" "i < j" "j < Suc it1"
      have len: "i < length xs" "j < length xs" using ij less.prems(3) by auto
      consider "j = it2" | "i = it2" "j \<noteq> it2" | "i \<noteq> it2" "j \<noteq> it2" by blast
      then show "\<not> cmp (xs[it2 := x] ! j) (xs[it2 := x] ! i)"
      proof cases
        case 1
        then show ?thesis using ij len below [of i] by simp
      next
        case 2
        then show ?thesis using ij len less.prems(5) [of j] asym by simp
      next
        case 3
        then show ?thesis using ij less.prems(4) [of i j] by simp
      qed
    qed
    then show ?thesis using False by (auto simp: insertion_shift.simps [of cmp xs])
  qed
qed

lemma insertion_outer_sorts:
  assumes "b < it1" "it1 \<le> e" "e \<le> length xs" "sorted_on cmp b it1 xs"
  shows "sorts_range cmp xs b e (insertion_outer cmp xs b it1 e)"
  using assms
proof (induction "e - it1" arbitrary: xs it1)
  case 0
  then have "it1 = e" by simp
  then show ?case using 0 by (simp add: insertion_outer.simps [of _ xs] sorts_range_def)
next
  case (Suc d)
  let ?ys = "insertion_shift cmp xs (xs ! it1) b it1"
  have lt: "it1 < e" using Suc.hyps(2) by simp
  have perm: "perm_on b (Suc it1) xs ?ys"
    using insertion_shift_perm [of b it1 xs "xs ! it1" cmp] Suc.prems lt by simp
  have "sorted_on cmp b (Suc it1) ?ys"
    using Suc.prems lt by (intro insertion_shift_sorted) (auto simp: sorted_on_def)
  then have "sorts_range cmp ?ys b e (insertion_outer cmp ?ys b (Suc it1) e)"
    using Suc.hyps Suc.prems lt perm_on_length [OF perm] by simp
  moreover have "perm_on b e xs ?ys" using perm lt by (auto intro: perm_on_mono)
  ultimately show ?case
    using lt by (auto simp: insertion_outer.simps [of _ xs] sorts_range_def intro: perm_on_trans)
qed

lemma insertion_sort_sorts:
  assumes "e \<le> length xs"
  shows "sorts_range cmp xs b e (insertion_sort cmp xs b e)"
proof (cases "e - b \<le> 1")
  case True
  then show ?thesis by (simp add: insertion_sort_def sorts_range_def sorted_on_trivial)
next
  case False
  then show ?thesis
    using insertion_outer_sorts [of b "Suc b" e xs] assms
    by (simp add: insertion_sort_def sorted_on_trivial)
qed

end

section \<open>Heaps\<close>

text \<open>
  \<open>heap_from s\<close>: the nodes whose parent has index at least \<open>s\<close> do not come after their
  parent's place in the order; \<open>heap_from 0\<close> is the heap that \<open>make_heap\<close> builds (largest first).
\<close>

abbreviation hpar :: "nat \<Rightarrow> nat" where
  "hpar i \<equiv> (i - 1) div 2"

definition heap_from :: "('a \<Rightarrow> 'a \<Rightarrow> bool) \<Rightarrow> 'a list \<Rightarrow> nat \<Rightarrow> nat \<Rightarrow> nat \<Rightarrow> bool" where
  "heap_from cmp xs b len s \<longleftrightarrow>
     (\<forall>i. 0 < i \<longrightarrow> i < len \<longrightarrow> s \<le> hpar i \<longrightarrow> \<not> cmp (xs ! (b + hpar i)) (xs ! (b + i)))"

lemma hpar_child: "hpar i = c \<Longrightarrow> 0 < i \<Longrightarrow> i = 2 * c + 1 \<or> i = 2 * c + 2"
  by linarith

lemma child_hpar: "c = 2 * i + 1 \<or> c = 2 * i + 2 \<Longrightarrow> hpar c = i"
  by auto

lemma hpar_less: "0 < i \<Longrightarrow> hpar i < i"
  by linarith

text \<open>\<open>heapify_down\<close> at node \<open>c\<close>: only \<open>c\<close> may be smaller than its children.\<close>

definition down_inv ::
  "('a \<Rightarrow> 'a \<Rightarrow> bool) \<Rightarrow> 'a list \<Rightarrow> nat \<Rightarrow> nat \<Rightarrow> nat \<Rightarrow> nat \<Rightarrow> bool" where
  "down_inv cmp xs b len s c \<longleftrightarrow> s \<le> c \<and> b + len \<le> length xs \<and>
     (\<forall>i. 0 < i \<longrightarrow> i < len \<longrightarrow> s \<le> hpar i \<longrightarrow> hpar i \<noteq> c \<longrightarrow> \<not> cmp (xs ! (b + hpar i)) (xs ! (b + i))) \<and>
     (\<forall>i. 0 < i \<longrightarrow> i < len \<longrightarrow> hpar i = c \<longrightarrow> 0 < c \<longrightarrow> s \<le> hpar c \<longrightarrow>
        \<not> cmp (xs ! (b + hpar c)) (xs ! (b + i)))"

context strict_weak_order
begin

lemma heap_child_None:
  assumes "heap_child cmp xs b c len = None" "hpar i = c" "0 < i" "i < len"
  shows "\<not> cmp (xs ! (b + c)) (xs ! (b + i))"
  using hpar_child [OF assms(2,3)]
proof
  assume "i = 2 * c + 1"
  then show ?thesis using assms(1,4) asym by (auto simp: heap_child_def Let_def split: if_splits)
next
  assume "i = 2 * c + 2"
  then show ?thesis using assms(1,4) asym by (auto simp: heap_child_def Let_def split: if_splits)
qed

lemma heap_child_Some:
  assumes "heap_child cmp xs b c len = Some ch"
  shows "\<not> cmp (xs ! (b + ch)) (xs ! (b + c))"
    and "hpar i = c \<Longrightarrow> 0 < i \<Longrightarrow> i < len \<Longrightarrow> i \<noteq> ch \<Longrightarrow> \<not> cmp (xs ! (b + ch)) (xs ! (b + i))"
proof -
  show *: "\<not> cmp (xs ! (b + ch)) (xs ! (b + c))"
    using assms neg_trans [of "xs ! (b + (2 * c + 2))" "xs ! (b + (2 * c + 1))" "xs ! (b + c)"]
    by (auto simp: heap_child_def Let_def split: if_splits)
  assume i: "hpar i = c" "0 < i" "i < len" "i \<noteq> ch"
  have ic: "i = 2 * c + 1 \<or> i = 2 * c + 2" using hpar_child [OF i(1,2)] .
  show "\<not> cmp (xs ! (b + ch)) (xs ! (b + i))"
    using assms i(3,4) ic asym
    by (auto simp: heap_child_def Let_def split: if_splits dest: le_less_trans)
qed

text \<open>Any child that is not exceeded by its parent and its sibling may take the place of the node.\<close>

lemma down_inv_swap:
  assumes inv: "down_inv cmp xs b len s c" and chb: "ch = 2 * c + 1 \<or> ch = 2 * c + 2" "ch < len"
    and up: "\<not> cmp (xs ! (b + ch)) (xs ! (b + c))"
    and sib: "\<And>i. hpar i = c \<Longrightarrow> 0 < i \<Longrightarrow> i < len \<Longrightarrow> i \<noteq> ch \<Longrightarrow> \<not> cmp (xs ! (b + ch)) (xs ! (b + i))"
  shows "down_inv cmp (swap_at xs (b + ch) (b + c)) b len s ch"
proof -
  let ?ys = "swap_at xs (b + ch) (b + c)"
  have sc: "s \<le> c" and len: "b + len \<le> length xs"
    and A: "\<And>i. 0 < i \<Longrightarrow> i < len \<Longrightarrow> s \<le> hpar i \<Longrightarrow> hpar i \<noteq> c \<Longrightarrow> \<not> cmp (xs ! (b + hpar i)) (xs ! (b + i))"
    and B: "\<And>i. 0 < i \<Longrightarrow> i < len \<Longrightarrow> hpar i = c \<Longrightarrow> 0 < c \<Longrightarrow> s \<le> hpar c \<Longrightarrow> \<not> cmp (xs ! (b + hpar c)) (xs ! (b + i))"
    using inv unfolding down_inv_def by blast+
  have par: "hpar ch = c" "c < ch" "0 < ch" using chb child_hpar by auto
  have nth: "?ys ! (b + k) = (if k = c then xs ! (b + ch) else if k = ch then xs ! (b + c) else xs ! (b + k))"
    if "k < len" for k
    using that chb(2) par(2) len by (subst nth_swap_at) auto
  have "\<not> cmp (?ys ! (b + hpar i)) (?ys ! (b + i))"
    if i: "0 < i" "i < len" "s \<le> hpar i" "hpar i \<noteq> ch" for i
  proof -
    have pl: "hpar i < len" "hpar i \<noteq> i" using i(1,2) hpar_less [of i] by auto
    consider "i = ch" | "hpar i = c" "i \<noteq> ch" | "i = c" | "hpar i \<noteq> c" "i \<noteq> c" "i \<noteq> ch" by blast
    then show ?thesis
    proof cases
      case 1
      then show ?thesis using up par nth [OF pl(1)] nth [OF i(2)] by simp
    next
      case 2
      then have "i \<noteq> c" using pl(2) by blast
      then show ?thesis using 2 sib [OF 2(1) i(1,2) 2(2)] nth [OF pl(1)] nth [OF i(2)] by simp
    next
      case 3
      then have "\<not> cmp (xs ! (b + hpar c)) (xs ! (b + ch))" using B [OF par(3) chb(2) par(1)] i by simp
      then show ?thesis using 3 i(4) pl nth [OF pl(1)] nth [OF i(2)] by simp
    next
      case 4
      then show ?thesis using A [OF i(1-3)] i(4) nth [OF pl(1)] nth [OF i(2)] by simp
    qed
  qed
  moreover have "\<not> cmp (?ys ! (b + hpar ch)) (?ys ! (b + i))" if i: "0 < i" "i < len" "hpar i = ch" for i
  proof -
    have "i \<noteq> c" "i \<noteq> ch" using i par hpar_less [OF i(1)] by auto
    then show ?thesis
      using A [OF i(1,2)] i(3) sc par nth [of c] nth [OF i(2)] chb(2) by simp
  qed
  ultimately show ?thesis using sc len par unfolding down_inv_def by auto
qed

lemma down_inv_step:
  assumes "down_inv cmp xs b len s c" and ch: "heap_child cmp xs b c len = Some ch"
  shows "down_inv cmp (swap_at xs (b + ch) (b + c)) b len s ch"
  using down_inv_swap [OF assms(1)] heap_child_bounds [OF ch] heap_child_Some [OF ch] by simp

lemma heapify_down_correct:
  assumes "down_inv cmp xs b len s c" "c < len \<or> len = 0"
  shows "heap_from cmp (heapify_down cmp xs b c len) b len s \<and>
    perm_on b (b + len) xs (heapify_down cmp xs b c len)"
  using assms
proof (induction "len - c" arbitrary: xs c rule: less_induct)
  case less
  show ?case
  proof (cases "heap_child cmp xs b c len")
    case None
    have "heap_from cmp xs b len s"
      using less.prems(1) heap_child_None [OF None] unfolding down_inv_def heap_from_def by blast
    then show ?thesis using None by (simp add: heapify_down.simps [of _ xs])
  next
    case (Some ch)
    let ?ys = "swap_at xs (b + ch) (b + c)"
    have ch: "c < ch" "ch < len" using heap_child_bounds [OF Some] by auto
    have "heap_from cmp (heapify_down cmp ?ys b ch len) b len s \<and>
        perm_on b (b + len) ?ys (heapify_down cmp ?ys b ch len)"
      by (rule less.hyps) (use ch down_inv_step [OF less.prems(1) Some] in auto)
    moreover have "perm_on b (b + len) xs ?ys"
      using ch less.prems(1) by (intro perm_on_swap_at) (auto simp: down_inv_def)
    ultimately show ?thesis
      using Some by (auto simp: heapify_down.simps [of _ xs] intro: perm_on_trans)
  qed
qed

lemma make_heap_loop_correct:
  assumes "heap_from cmp xs b len (Suc k)" "b + len \<le> length xs" "k < len"
  shows "heap_from cmp (make_heap_loop cmp xs b k len) b len 0 \<and>
    perm_on b (b + len) xs (make_heap_loop cmp xs b k len)"
  using assms
proof (induction k arbitrary: xs)
  case 0
  then have "down_inv cmp xs b len 0 0" by (auto simp: down_inv_def heap_from_def)
  then show ?case using heapify_down_correct 0 by simp
next
  case (Suc k)
  have "down_inv cmp xs b len (Suc k) (Suc k)"
    using Suc.prems by (auto simp: down_inv_def heap_from_def)
  then have "heap_from cmp (heapify_down cmp xs b (Suc k) len) b len (Suc k)"
      and perm: "perm_on b (b + len) xs (heapify_down cmp xs b (Suc k) len)"
    using heapify_down_correct Suc.prems by auto
  then show ?case
    using Suc.IH Suc.prems perm_on_length [OF perm] by (auto intro: perm_on_trans)
qed

lemma make_heap_correct:
  assumes "b \<le> e" "e \<le> length xs"
  shows "heap_from cmp (make_heap cmp xs b e) b (e - b) 0 \<and> perm_on b e xs (make_heap cmp xs b e)"
proof (cases "e - b \<le> 1")
  case True
  then show ?thesis by (auto simp: make_heap_def heap_from_def)
next
  case False
  have "heap_from cmp xs b (e - b) (Suc ((e - b - 2) div 2))"
    unfolding heap_from_def by (intro allI impI) linarith
  then show ?thesis
    using make_heap_loop_correct [of xs b "e - b" "(e - b - 2) div 2"] False assms
    by (simp add: make_heap_def Let_def)
qed

lemma heap_root_max:
  assumes "heap_from cmp xs b len 0" "i < len"
  shows "\<not> cmp (xs ! b) (xs ! (b + i))"
  using assms(2)
proof (induction i rule: less_induct)
  case (less i)
  show ?case
  proof (cases "i = 0")
    case False
    then have "hpar i < i" "0 < i" using hpar_less [of i] by auto
    then have "\<not> cmp (xs ! b) (xs ! (b + hpar i))" using less by simp
    moreover have "\<not> cmp (xs ! (b + hpar i)) (xs ! (b + i))"
      using assms(1) less.prems \<open>0 < i\<close> by (auto simp: heap_from_def)
    ultimately show ?thesis by (rule neg_trans)
  qed simp
qed

lemma pop_heap_correct:
  assumes heap: "heap_from cmp xs b (e - b) 0" and be: "b < e" "e \<le> length xs"
  defines "ys \<equiv> pop_heap cmp xs b e"
  shows "heap_from cmp ys b (e - 1 - b) 0" "perm_on b e xs ys" "ys ! (e - 1) = xs ! b"
proof -
  let ?zs = "swap_at xs b (e - 1)"
  have ys: "ys = heapify_down cmp ?zs b 0 (e - 1 - b)"
    using be by (simp add: ys_def pop_heap_def Let_def)
  have nth: "?zs ! (b + i) = xs ! (b + i)" if "0 < i" "i < e - 1 - b" for i
    using that be by (subst nth_swap_at) auto
  have "\<not> cmp (?zs ! (b + hpar i)) (?zs ! (b + i))" if "0 < i" "i < e - 1 - b" "hpar i \<noteq> 0" for i
  proof -
    have "hpar i < i" using hpar_less that by blast
    then show ?thesis using that heap nth [of i] nth [of "hpar i"] by (simp add: heap_from_def)
  qed
  then have "down_inv cmp ?zs b (e - 1 - b) 0 0"
    using be unfolding down_inv_def by auto
  then have h: "heap_from cmp ys b (e - 1 - b) 0 \<and> perm_on b (b + (e - 1 - b)) ?zs ys"
    unfolding ys by (rule heapify_down_correct) auto
  then show "heap_from cmp ys b (e - 1 - b) 0" by simp
  have be': "b + (e - 1 - b) = e - 1" using be by simp
  have "perm_on b e xs ?zs" using be by (intro perm_on_swap_at) auto
  moreover have "perm_on b e ?zs ys" using h be' by (auto intro: perm_on_mono)
  ultimately show "perm_on b e xs ys" by (rule perm_on_trans)
  have "ys ! (e - 1) = ?zs ! (e - 1)" using h be be' by (intro perm_on_outside) auto
  then show "ys ! (e - 1) = xs ! b" using be by (simp add: nth_swap_at)
qed

lemma sort_heap_correct:
  assumes "heap_from cmp xs b (e - b) 0" "b \<le> e" "e \<le> E" "E \<le> length xs" "sorted_on cmp e E xs"
    and "\<And>i j. b \<le> i \<Longrightarrow> i < e \<Longrightarrow> e \<le> j \<Longrightarrow> j < E \<Longrightarrow> \<not> cmp (xs ! j) (xs ! i)"
  shows "sorts_range cmp xs b E (sort_heap cmp xs b e)"
  using assms
proof (induction "e - b" arbitrary: xs e)
  case 0
  then have "e = b" by simp
  then show ?case using 0 by (simp add: sort_heap.simps [of _ xs] sorts_range_def)
next
  case (Suc d)
  let ?ys = "pop_heap cmp xs b e"
  have lt: "b < e" using Suc.hyps(2) by simp
  have el: "e \<le> length xs" using Suc.prems by simp
  note pop = pop_heap_correct [OF Suc.prems(1) lt el]
  have len: "length ?ys = length xs" using pop(2) by (rule perm_on_length)
  have upper: "?ys ! j = xs ! j" if "e \<le> j" "j < E" for j
    using perm_on_outside [OF pop(2), of j] that Suc.prems by simp
  have max: "\<not> cmp (xs ! b) (?ys ! i)" if "b \<le> i" "i < e" for i
  proof (rule perm_on_ball [OF pop(2) el, of "\<lambda>x. \<not> cmp (xs ! b) x"])
    fix k assume "b \<le> k" "k < e"
    then show "\<not> cmp (xs ! b) (xs ! k)"
      using heap_root_max [OF Suc.prems(1), of "k - b"] by simp
  qed (use that in auto)
  have above: "\<not> cmp (xs ! j) (?ys ! i)" if "b \<le> i" "i < e" "e \<le> j" "j < E" for i j
    by (rule perm_on_ball [OF pop(2) el, of "\<lambda>x. \<not> cmp (xs ! j) x"]) (use that Suc.prems(6) in auto)
  have "sorts_range cmp ?ys b E (sort_heap cmp ?ys b (e - 1))"
  proof (rule Suc.hyps(1))
    show "sorted_on cmp (e - 1) E ?ys"
      unfolding sorted_on_def
    proof (intro allI impI)
      fix i j assume ij: "e - 1 \<le> i" "i < j" "j < E"
      show "\<not> cmp (?ys ! j) (?ys ! i)"
      proof (cases "i = e - 1")
        case True
        then show ?thesis using above [of i j] upper [of j] ij lt by simp
      next
        case False
        then show ?thesis using Suc.prems(5) upper [of i] upper [of j] ij by (simp add: sorted_on_def)
      qed
    qed
  next
    fix i j assume ij: "b \<le> i" "i < e - 1" "e - 1 \<le> j" "j < E"
    show "\<not> cmp (?ys ! j) (?ys ! i)"
    proof (cases "j = e - 1")
      case True
      then show ?thesis using max [of i] ij pop(3) by simp
    next
      case False
      then show ?thesis using above [of i j] upper [of j] ij by simp
    qed
  qed (use Suc lt len pop(1) in auto)
  moreover have "perm_on b E xs ?ys" using pop(2) Suc.prems by (auto intro: perm_on_mono)
  ultimately show ?case
    using lt by (auto simp: sort_heap.simps [of _ xs] sorts_range_def intro: perm_on_trans)
qed

lemma heap_sort_sorts:
  assumes "b \<le> e" "e \<le> length xs"
  shows "sorts_range cmp xs b e (heap_sort cmp xs b e)"
proof -
  let ?ys = "make_heap cmp xs b e"
  have ys: "heap_from cmp ?ys b (e - b) 0" "perm_on b e xs ?ys"
    using make_heap_correct [OF assms] by auto
  have "sorts_range cmp ?ys b e (sort_heap cmp ?ys b e)"
    by (rule sort_heap_correct) (use ys assms perm_on_length [OF ys(2)] in \<open>auto simp: sorted_on_def\<close>)
  then show ?thesis using ys(2) by (auto simp: heap_sort_def sorts_range_def intro: perm_on_trans)
qed

section \<open>Introsort and quick sort\<close>

lemma intro_sort_loop_sorts:
  assumes "b \<le> e" "e \<le> length xs"
  shows "sorts_range cmp xs b e (intro_sort_loop cmp xs b e max_depth left)"
  using assms
proof (induction max_depth arbitrary: xs b e left)
  case 0
  then show ?case by (simp add: intro_sort_loop.simps [of _ xs] heap_sort_sorts)
next
  case (Suc d)
  note outer = Suc.IH
  from Suc.prems show ?case
  proof (induction left arbitrary: xs b e)
    case 0
    then show ?case by (simp add: intro_sort_loop.simps [of _ xs] heap_sort_sorts)
  next
    case (Suc l)
    consider "e - b \<le> 1" | "1 < e - b" "e - b \<le> 16" | "16 < e - b" by linarith
    then show ?case
    proof cases
      case 1
      then show ?thesis
        by (simp add: intro_sort_loop.simps [of _ xs] sorts_range_def sorted_on_trivial)
    next
      case 2
      then show ?thesis
        using insertion_sort_sorts [OF Suc.prems(2)] by (simp add: intro_sort_loop.simps [of _ xs])
    next
      case 3
      obtain ys lt gt where part: "partition_range cmp xs b e = (ys, lt, gt)" by (cases "partition_range cmp xs b e")
      have be: "b < e" using 3 by simp
      have p: "perm_on b e xs ys" "b \<le> lt" "lt < gt" "gt \<le> e"
        using partition_range_correct [OF be Suc.prems(2) part] by auto
      have len: "length ys = length xs" using p(1) by (rule perm_on_length)
      show ?thesis
      proof (cases "lt - b < e - gt")
        case True
        let ?zs = "intro_sort_loop cmp ys b lt d d"
        have zs: "sorts_range cmp ys b lt ?zs" using outer p len Suc.prems by simp
        then have lz: "length ?zs = length xs" using len sorts_range_length by metis
        have "sorts_range cmp ?zs gt e (intro_sort_loop cmp ?zs gt e (Suc d) l)"
          using Suc.IH p lz Suc.prems by simp
        then show ?thesis
          using partition_then_sort_low [OF be Suc.prems(2) part zs] True 3 part
          by (simp add: intro_sort_loop.simps [of _ xs])
      next
        case False
        let ?zs = "intro_sort_loop cmp ys gt e d d"
        have zs: "sorts_range cmp ys gt e ?zs" using outer p len Suc.prems by simp
        then have lz: "length ?zs = length xs" using len sorts_range_length by metis
        have "sorts_range cmp ?zs b lt (intro_sort_loop cmp ?zs b lt (Suc d) l)"
          using Suc.IH p lz Suc.prems by simp
        then show ?thesis
          using partition_then_sort_high [OF be Suc.prems(2) part zs] False 3 part
          by (simp add: intro_sort_loop.simps [of _ xs])
      qed
    qed
  qed
qed

lemma ban_sort_sorts:
  assumes "b \<le> e" "e \<le> length xs"
  shows "sorts_range cmp xs b e (ban_sort cmp xs b e)"
proof (cases "e - b \<le> 1")
  case True
  then show ?thesis by (simp add: ban_sort_def intro_sort_def sorts_range_def sorted_on_trivial)
next
  case False
  then show ?thesis
    using intro_sort_loop_sorts [OF assms] by (simp add: ban_sort_def intro_sort_def intro_sort_impl_def)
qed

text \<open>\<open>quick_sort\<close> with the default comparison object: it ends, and sorts.\<close>

lemma quick_sort_sorts:
  assumes "b \<le> e" "e \<le> length xs"
  shows "\<exists>ys. quick_sort cmp cmp xs b e = Some ys \<and> sorts_range cmp xs b e ys"
  using assms
proof (induction "e - b" arbitrary: xs b e rule: less_induct)
  case less
  show ?case
  proof (cases "1 < e - b")
    case False
    then show ?thesis by (simp add: quick_sort.simps [of _ _ xs] sorts_range_def sorted_on_trivial)
  next
    case True
    obtain ys lt gt where part: "partition_range cmp xs b e = (ys, lt, gt)" by (cases "partition_range cmp xs b e")
    have be: "b < e" using True by simp
    have p: "perm_on b e xs ys" "b \<le> lt" "lt < gt" "gt \<le> e"
      using partition_range_correct [OF be less.prems(2) part] by auto
    have len: "length ys = length xs" using p(1) by (rule perm_on_length)
    have rec: "\<exists>ws. quick_sort cmp cmp zs b' e' = Some ws \<and> sorts_range cmp zs b' e' ws"
      if "b' = b \<and> e' = lt \<or> b' = gt \<and> e' = e" "length zs = length xs" for zs :: "'a list" and b' e'
      using that p less.prems be by (intro less.hyps) auto
    show ?thesis
    proof (cases "lt - b < e - gt")
      case left: True
      obtain zs where zs: "quick_sort cmp cmp ys b lt = Some zs" "sorts_range cmp ys b lt zs"
        using rec [of b lt ys] len by auto
      have "length zs = length xs" using zs(2) len sorts_range_length by metis
      then obtain ws where ws: "quick_sort cmp cmp zs gt e = Some ws" "sorts_range cmp zs gt e ws"
        using rec [of gt e zs] by auto
      show ?thesis
        using partition_then_sort_low [OF be less.prems(2) part zs(2) ws(2)] zs(1) ws(1) left True part
        by (simp add: quick_sort.simps [of _ _ xs])
    next
      case right: False
      obtain zs where zs: "quick_sort cmp cmp ys gt e = Some zs" "sorts_range cmp ys gt e zs"
        using rec [of gt e ys] len by auto
      have "length zs = length xs" using zs(2) len sorts_range_length by metis
      then obtain ws where ws: "quick_sort cmp cmp zs b lt = Some ws" "sorts_range cmp zs b lt ws"
        using rec [of b lt zs] by auto
      show ?thesis
        using partition_then_sort_high [OF be less.prems(2) part zs(2) ws(2)] zs(1) ws(1) right True part
        by (simp add: quick_sort.simps [of _ _ xs])
    qed
  qed
qed

section \<open>Exchange sort\<close>

lemma exchange_inner_correct:
  assumes "lhs < rhs" "rhs \<le> e" "e \<le> length xs"
    and "\<And>k. lhs < k \<Longrightarrow> k < rhs \<Longrightarrow> \<not> cmp (xs ! k) (xs ! lhs)"
  defines "ys \<equiv> exchange_inner cmp xs lhs rhs e"
  shows "perm_on lhs e xs ys \<and> (\<forall>k. lhs < k \<longrightarrow> k < e \<longrightarrow> \<not> cmp (ys ! k) (ys ! lhs))"
  using assms(1-4) unfolding ys_def
proof (induction "e - rhs" arbitrary: xs rhs)
  case 0
  then have "rhs = e" by simp
  then show ?case using 0 by (simp add: exchange_inner.simps [of _ xs])
next
  case (Suc d)
  have lt: "rhs < e" using Suc.hyps(2) by simp
  let ?zs = "if \<not> cmp (xs ! lhs) (xs ! rhs) then swap_at xs lhs rhs else xs"
  have perm: "perm_on lhs e xs ?zs"
    using Suc.prems lt by (auto intro!: perm_on_swap_at)
  have min: "\<not> cmp (?zs ! k) (?zs ! lhs)" if "lhs < k" "k < Suc rhs" for k
  proof (cases "k = rhs")
    case True
    then show ?thesis using Suc.prems lt asym by (auto simp: nth_swap_at)
  next
    case False
    then have "\<not> cmp (xs ! k) (xs ! lhs)" using that Suc.prems(4) by simp
    then show ?thesis
      using False that Suc.prems lt neg_trans [of "xs ! k" "xs ! lhs" "xs ! rhs"] by (auto simp: nth_swap_at)
  qed
  have "perm_on lhs e ?zs (exchange_inner cmp ?zs lhs (Suc rhs) e) \<and>
      (\<forall>k. lhs < k \<longrightarrow> k < e \<longrightarrow> \<not> cmp (exchange_inner cmp ?zs lhs (Suc rhs) e ! k)
        (exchange_inner cmp ?zs lhs (Suc rhs) e ! lhs))"
    by (rule Suc.hyps(1)) (use Suc.hyps(2) Suc.prems(1,3) lt min perm_on_length [OF perm] in auto)
  moreover have "exchange_inner cmp xs lhs rhs e = exchange_inner cmp ?zs lhs (Suc rhs) e"
    using lt by (simp add: exchange_inner.simps [of _ xs])
  ultimately show ?case using perm perm_on_trans by metis
qed

lemma exchange_outer_sorts:
  assumes "b \<le> lhs" "lhs \<le> e" "e \<le> length xs" "sorted_on cmp b lhs xs"
    and "\<And>i j. b \<le> i \<Longrightarrow> i < lhs \<Longrightarrow> lhs \<le> j \<Longrightarrow> j < e \<Longrightarrow> \<not> cmp (xs ! j) (xs ! i)"
  shows "sorts_range cmp xs b e (exchange_outer cmp xs lhs e)"
  using assms
proof (induction "e - lhs" arbitrary: xs lhs)
  case 0
  then have "lhs = e" by simp
  then show ?case using 0 by (simp add: exchange_outer.simps [of _ xs] sorts_range_def)
next
  case (Suc d)
  let ?ys = "exchange_inner cmp xs lhs (Suc lhs) e"
  have lt: "lhs < e" using Suc.hyps(2) by simp
  have perm: "perm_on lhs e xs ?ys" and min: "\<And>k. lhs < k \<Longrightarrow> k < e \<Longrightarrow> \<not> cmp (?ys ! k) (?ys ! lhs)"
    using exchange_inner_correct [of lhs "Suc lhs" e xs] Suc.prems lt by auto
  have same: "?ys ! i = xs ! i" if "i < lhs" for i
    using perm_on_outside [OF perm, of i] that Suc.prems by simp
  have low: "\<not> cmp (?ys ! j) (?ys ! i)" if "b \<le> i" "i < lhs" "lhs \<le> j" "j < e" for i j
    using perm_on_ball [OF perm Suc.prems(3), of "\<lambda>x. \<not> cmp x (xs ! i)" j] Suc.prems(5) that same
    by simp
  have "sorts_range cmp ?ys b e (exchange_outer cmp ?ys (Suc lhs) e)"
  proof (rule Suc.hyps(1))
    have "sorted_on cmp b lhs ?ys" using Suc.prems(4) same by (rule sorted_on_cong)
    then show "sorted_on cmp b (Suc lhs) ?ys"
      using low [of _ lhs] lt by (auto simp: sorted_on_def less_Suc_eq)
  next
    fix i j assume "b \<le> i" "i < Suc lhs" "Suc lhs \<le> j" "j < e"
    then show "\<not> cmp (?ys ! j) (?ys ! i)" using low [of i j] min [of j] by (cases "i = lhs") auto
  qed (use Suc.hyps(2) Suc.prems lt perm_on_length [OF perm] in auto)
  moreover have "perm_on b e xs ?ys" using perm Suc.prems(1) by (auto intro: perm_on_mono)
  ultimately show ?case
    using lt by (auto simp: exchange_outer.simps [of _ xs] sorts_range_def intro: perm_on_trans)
qed

lemma exchange_sort_sorts:
  assumes "b \<le> e" "e \<le> length xs"
  shows "sorts_range cmp xs b e (exchange_sort cmp xs b e)"
  unfolding exchange_sort_def by (rule exchange_outer_sorts) (use assms in \<open>auto simp: sorted_on_def\<close>)

end

section \<open>Pushing onto a heap\<close>

text \<open>\<open>heapify_up\<close> at node \<open>c\<close>: only \<open>c\<close> may be larger than its parent.\<close>

definition up_inv :: "('a \<Rightarrow> 'a \<Rightarrow> bool) \<Rightarrow> 'a list \<Rightarrow> nat \<Rightarrow> nat \<Rightarrow> nat \<Rightarrow> bool" where
  "up_inv cmp xs b len c \<longleftrightarrow> c < len \<and> b + len \<le> length xs \<and>
     (\<forall>i. 0 < i \<longrightarrow> i < len \<longrightarrow> i \<noteq> c \<longrightarrow> \<not> cmp (xs ! (b + hpar i)) (xs ! (b + i))) \<and>
     (\<forall>i. 0 < i \<longrightarrow> i < len \<longrightarrow> hpar i = c \<longrightarrow> 0 < c \<longrightarrow> \<not> cmp (xs ! (b + hpar c)) (xs ! (b + i)))"

context strict_weak_order
begin

lemma up_inv_step:
  assumes inv: "up_inv cmp xs b len c" and c: "0 < c" and ge: "\<not> cmp (xs ! (b + c)) (xs ! (b + hpar c))"
  shows "up_inv cmp (swap_at xs (b + hpar c) (b + c)) b len (hpar c)"
proof -
  let ?p = "hpar c" and ?ys = "swap_at xs (b + hpar c) (b + c)"
  have cl: "c < len" and len: "b + len \<le> length xs"
    and A: "\<And>i. 0 < i \<Longrightarrow> i < len \<Longrightarrow> i \<noteq> c \<Longrightarrow> \<not> cmp (xs ! (b + hpar i)) (xs ! (b + i))"
    and B: "\<And>i. 0 < i \<Longrightarrow> i < len \<Longrightarrow> hpar i = c \<Longrightarrow> \<not> cmp (xs ! (b + ?p)) (xs ! (b + i))"
    using inv c unfolding up_inv_def by blast+
  have pc: "?p < c" using hpar_less [OF c] .
  have nth: "?ys ! (b + k) = (if k = c then xs ! (b + ?p) else if k = ?p then xs ! (b + c) else xs ! (b + k))"
    if "k < len" for k
    using that pc cl len by (subst nth_swap_at) auto
  have sib: "\<not> cmp (xs ! (b + c)) (xs ! (b + i))" if "0 < i" "i < len" "hpar i = ?p" "i \<noteq> c" for i
    using neg_trans [OF ge, of "xs ! (b + i)"] A [OF that(1,2,4)] that(3) by simp
  have "\<not> cmp (?ys ! (b + hpar i)) (?ys ! (b + i))" if i: "0 < i" "i < len" "i \<noteq> ?p" for i
  proof -
    have pl: "hpar i < len" "hpar i \<noteq> i" using i(1,2) hpar_less [of i] by auto
    consider "i = c" | "hpar i = ?p" "i \<noteq> c" | "hpar i = c" | "hpar i \<noteq> ?p" "hpar i \<noteq> c" "i \<noteq> c" by blast
    then show ?thesis
    proof cases
      case 1
      then show ?thesis using ge pc nth [OF pl(1)] nth [OF i(2)] by simp
    next
      case 2
      then show ?thesis using sib [OF i(1,2) 2] pc i(3) nth [OF pl(1)] nth [OF i(2)] by simp
    next
      case 3
      then have "i \<noteq> c" using pl(2) by blast
      then show ?thesis using 3 B [OF i(1,2)] i(3) nth [OF pl(1)] nth [OF i(2)] by simp
    next
      case 4
      then show ?thesis using A [OF i(1,2)] i(3) nth [OF pl(1)] nth [OF i(2)] by simp
    qed
  qed
  moreover have "\<not> cmp (?ys ! (b + hpar ?p)) (?ys ! (b + i))"
    if i: "0 < i" "i < len" "hpar i = ?p" "0 < ?p" for i
  proof -
    have pp: "hpar ?p < ?p" using hpar_less [OF i(4)] .
    have up: "\<not> cmp (xs ! (b + hpar ?p)) (xs ! (b + ?p))" using A [OF i(4)] pc cl by simp
    have "i \<noteq> ?p" using hpar_less [OF i(1)] i(3) by auto
    show ?thesis
    proof (cases "i = c")
      case True
      then show ?thesis using up pp pc cl nth [of "hpar ?p"] nth [OF i(2)] by simp
    next
      case False
      then have "\<not> cmp (xs ! (b + ?p)) (xs ! (b + i))" using A [OF i(1,2)] i(3) by simp
      with up have "\<not> cmp (xs ! (b + hpar ?p)) (xs ! (b + i))" by (rule neg_trans)
      then show ?thesis
        using False \<open>i \<noteq> ?p\<close> pp pc cl nth [of "hpar ?p"] nth [OF i(2)] by simp
    qed
  qed
  ultimately show ?thesis using pc cl len unfolding up_inv_def by auto
qed

lemma heapify_up_correct:
  assumes "up_inv cmp xs b len c"
  shows "heap_from cmp (heapify_up cmp xs b c) b len 0 \<and> perm_on b (b + len) xs (heapify_up cmp xs b c)"
  using assms
proof (induction c arbitrary: xs rule: less_induct)
  case (less c)
  have stop: "heap_from cmp xs b len 0" if "c = 0 \<or> cmp (xs ! (b + c)) (xs ! (b + hpar c))"
    using less.prems that asym unfolding up_inv_def heap_from_def by blast
  show ?case
  proof (cases "c = 0 \<or> cmp (xs ! (b + c)) (xs ! (b + hpar c))")
    case True
    then show ?thesis using stop by (auto simp: heapify_up.simps [of _ xs])
  next
    case False
    then have c: "0 < c" "\<not> cmp (xs ! (b + c)) (xs ! (b + hpar c))" by auto
    let ?ys = "swap_at xs (b + hpar c) (b + c)"
    have "perm_on b (b + len) xs ?ys"
      using less.prems hpar_less [OF c(1)] by (intro perm_on_swap_at) (auto simp: up_inv_def)
    moreover have "heap_from cmp (heapify_up cmp ?ys b (hpar c)) b len 0 \<and>
        perm_on b (b + len) ?ys (heapify_up cmp ?ys b (hpar c))"
      by (rule less.IH [OF hpar_less [OF c(1)] up_inv_step [OF less.prems c]])
    moreover have "heapify_up cmp xs b c = heapify_up cmp ?ys b (hpar c)"
      using False by (simp add: heapify_up.simps [of _ xs] Let_def)
    ultimately show ?thesis by (auto intro: perm_on_trans)
  qed
qed

lemma push_heap_correct:
  fixes v
  assumes "heap_from cmp xs 0 (length xs) 0"
  defines "ys \<equiv> push_heap cmp (xs @ [v]) 0 (length (xs @ [v]))"
  shows "heap_from cmp ys 0 (length ys) 0 \<and> mset ys = add_mset v (mset xs)"
proof -
  let ?n = "length xs"
  have "\<not> cmp ((xs @ [v]) ! hpar i) ((xs @ [v]) ! i)" if "0 < i" "i < ?n" for i
    using assms(1) that hpar_less [of i] by (auto simp: heap_from_def nth_append)
  moreover have "hpar i \<noteq> ?n" if "0 < i" "i < Suc ?n" for i
    using that hpar_less [of i] by linarith
  ultimately have "up_inv cmp (xs @ [v]) 0 (Suc ?n) ?n"
    unfolding up_inv_def by (auto simp: less_Suc_eq)
  from heapify_up_correct [OF this] show ?thesis
    by (auto simp: ys_def push_heap_def perm_on_def)
qed

text \<open>The heap order of a queue's data, and what its operations do under it.\<close>

lemma pop_heap_last:
  assumes "heap_from cmp xs 0 (length xs) 0" "xs \<noteq> []"
  defines "ys \<equiv> butlast (pop_heap cmp xs 0 (length xs))"
  shows "heap_from cmp ys 0 (length ys) 0 \<and> mset xs = add_mset (xs ! 0) (mset ys)"
proof -
  let ?zs = "pop_heap cmp xs 0 (length xs)"
  have pos: "0 < length xs" using assms(2) by simp
  have h: "heap_from cmp xs 0 (length xs - 0) 0" using assms(1) by simp
  note pop = pop_heap_correct [OF h pos order_refl]
  have len: "length ?zs = length xs" using pop(2) by (rule perm_on_length)
  then have ne: "?zs \<noteq> []" using assms(2) by auto
  have "last ?zs = xs ! 0" using pop(3) ne len by (simp add: last_conv_nth)
  then have "?zs = ys @ [xs ! 0]" using ne unfolding ys_def by (metis append_butlast_last_id)
  moreover have "heap_from cmp ys 0 (length ys) 0"
    using pop(1) len unfolding heap_from_def ys_def
    by (auto simp: nth_butlast less_imp_diff_less)
  ultimately show ?thesis using pop(2) by (metis perm_on_def mset_append mset_single_iff_right add_mset_add_single union_commute)
qed

end

section \<open>The orders the library passes\<close>

text \<open>\<^verbatim>\<open>BAN::less\<close> on a linear order, which is what every defaulted comparison is.\<close>

definition ban_less :: "'a::linorder \<Rightarrow> 'a \<Rightarrow> bool" where
  "ban_less x y \<longleftrightarrow> x < y"

definition ban_greater :: "'a::linorder \<Rightarrow> 'a \<Rightarrow> bool" where
  "ban_greater x y \<longleftrightarrow> y < x"

interpretation less_order: strict_weak_order "ban_less :: 'a::linorder \<Rightarrow> 'a \<Rightarrow> bool"
  by unfold_locales (auto simp: ban_less_def)

interpretation greater_order: strict_weak_order "ban_greater :: 'a::linorder \<Rightarrow> 'a \<Rightarrow> bool"
  by unfold_locales (auto simp: ban_greater_def)

lemma sorted_on_ban_less:
  "sorted_on ban_less 0 (length xs) xs \<longleftrightarrow> sorted xs"
  by (auto simp: sorted_on_def ban_less_def sorted_iff_nth_mono_less not_less)

lemma quick_sort_short: "e - b \<le> 1 \<Longrightarrow> quick_sort dflt cmp xs b e = Some xs"
  by (subst quick_sort.simps) simp

section \<open>Properties\<close>

text \<open>
  C19: \<open>BAN::sort::sort\<close> (introsort: three-way quicksort that falls back to insertion sort on short
  ranges and to heap sort when the depth budget is used up) is correct for every comparison that
  is a strict weak order: on any range \<open>[b, e)\<close> of the container it returns a container of the
  same length with the same elements, leaves every position outside the range alone, and leaves
  no element of the range in front of a smaller one.
\<close>

theorem ban_sort_correct:
  assumes "strict_weak_order cmp" "b \<le> e" "e \<le> length xs"
  defines "ys \<equiv> ban_sort cmp xs b e"
  shows "length ys = length xs \<and>
    mset (take (e - b) (drop b ys)) = mset (take (e - b) (drop b xs)) \<and>
    (\<forall>i < length xs. i < b \<or> e \<le> i \<longrightarrow> ys ! i = xs ! i) \<and>
    (\<forall>i j. b \<le> i \<longrightarrow> i < j \<longrightarrow> j < e \<longrightarrow> \<not> cmp (ys ! j) (ys ! i))"
proof -
  have s: "sorts_range cmp xs b e ys"
    unfolding ys_def by (rule strict_weak_order.ban_sort_sorts [OF assms(1-3)])
  then have p: "perm_on b e xs ys" by (simp add: sorts_range_def)
  show ?thesis
    using s p perm_on_segment [OF p assms(2,3)]
    unfolding sorts_range_def sorted_on_def perm_on_def by blast
qed

theorem ban_sort_correct_witness:
  "sorted_on ban_less 1 4 (ban_sort ban_less [9, 4, 7, 1, 4::nat] 1 4) \<and>
   ban_sort ban_less [9, 4, 7, 1, 4::nat] 1 4 = [9, 1, 4, 7, 4]"
proof
  show "sorted_on ban_less 1 4 (ban_sort ban_less [9, 4, 7, 1, 4::nat] 1 4)"
    using ban_sort_correct [OF less_order.strict_weak_order_axioms, of 1 4 "[9, 4, 7, 1, 4::nat]"]
    by (simp add: sorted_on_def)
  show "ban_sort ban_less [9, 4, 7, 1, 4::nat] 1 4 = [9, 1, 4, 7, 4]" by code_simp
qed

text \<open>
  \<open>quick_sort\<close> returns on every range and sorts it when it is called with the default
  comparison. The theorem needs the argument and the default to be the same function because
  the recursive calls do not pass the argument on.
\<close>

theorem quick_sort_returns_sorted:
  assumes "b \<le> e" "e \<le> length xs"
  shows "\<exists>ys. quick_sort ban_less ban_less xs b e = Some ys \<and> perm_on b e xs ys \<and> sorted_on ban_less b e ys"
  using less_order.quick_sort_sorts [OF assms] by (auto simp: sorts_range_def)

theorem quick_sort_returns_sorted_witness:
  "\<exists>ys. quick_sort ban_less ban_less [5, 2, 8, 2::int] 0 4 = Some ys \<and>
     perm_on 0 4 [5, 2, 8, 2] ys \<and> sorted_on ban_less 0 4 ys"
  by (rule quick_sort_returns_sorted) simp_all

text \<open>
  C34: \<open>quick_sort\<close> called with another comparison than the default one does not sort: on
  five numbers and the comparison \<open>greater\<close> the recursive call sorts its part ascending.
\<close>

theorem quick_sort_drops_comparator:
  "\<exists>xs ys :: int list. quick_sort ban_less ban_greater xs 0 (length xs) = Some ys \<and>
     \<not> sorted_on ban_greater 0 (length xs) ys"
proof -
  have p: "partition_range ban_greater [5, 4, 3, 2, 1::int] 0 5 = ([5, 4, 3, 1, 2], 2, 3)"
    "partition_range ban_less [5, 4, 3, 1, 2::int] 3 5 = ([5, 4, 3, 1, 2], 4, 5)"
    "partition_range ban_greater [5, 4, 3, 1, 2::int] 0 2 = ([5, 4, 3, 1, 2], 1, 2)"
    by code_simp+
  have "quick_sort ban_less ban_less [5, 4, 3, 1, 2::int] 3 5 = Some [5, 4, 3, 1, 2]"
    by (subst quick_sort.simps) (simp add: p quick_sort_short)
  moreover have "quick_sort ban_less ban_greater [5, 4, 3, 1, 2::int] 0 2 = Some [5, 4, 3, 1, 2]"
    by (subst quick_sort.simps) (simp add: p quick_sort_short)
  ultimately have "quick_sort ban_less ban_greater [5, 4, 3, 2, 1::int] 0 5 = Some [5, 4, 3, 1, 2]"
    by (subst quick_sort.simps) (simp add: p)
  moreover have "\<not> sorted_on ban_greater 0 5 [5, 4, 3, 1, 2::int]"
  proof
    assume "sorted_on ban_greater 0 5 [5, 4, 3, 1, 2::int]"
    then have "\<not> ban_greater ([5, 4, 3, 1, 2::int] ! 4) ([5, 4, 3, 1, 2] ! 3)"
      unfolding sorted_on_def by (elim allE [of _ 3] allE [of _ 4]) simp
    then show False by (simp add: ban_greater_def)
  qed
  ultimately show ?thesis
    by (intro exI [of _ "[5, 4, 3, 2, 1]"] exI [of _ "[5, 4, 3, 1, 2]"]) (simp add: eval_nat_numeral)
qed

text \<open>
  C24: The priority queue is a priority queue for the default comparison, whatever comparison object
  it was built with: a successful push, also the first one, adds the value and keeps the heap order, a failed one
  changes nothing, \<open>top\<close> and \<open>pop\<close> of an empty queue halt, \<open>top\<close> of a non-empty queue returns an element that no queued element exceeds,
  and \<open>pop\<close> removes exactly the element \<open>top\<close> returns and keeps the heap order.
\<close>

theorem priority_queue_correct:
  fixes q :: "'a::linorder priority_queue"
  assumes heap: "heap_from ban_less (pq_data q) 0 (length (pq_data q)) 0"
  shows "(case pq_push ban_less ok q v of (q', r) \<Rightarrow>
            (if ok then r = Inr () \<and> mset (pq_data q') = add_mset v (mset (pq_data q)) \<and>
                    heap_from ban_less (pq_data q') 0 (length (pq_data q')) 0
             else r = Inl ENOMEM \<and> q' = q)) \<and>
         (if pq_data q = [] then pq_top q = Halt \<and> pq_pop ban_less q = Halt
          else \<exists>t q'. pq_top q = Done t \<and> t \<in> set (pq_data q) \<and> (\<forall>x \<in> set (pq_data q). x \<le> t) \<and>
            pq_pop ban_less q = Done q' \<and> mset (pq_data q) = add_mset t (mset (pq_data q')) \<and>
            heap_from ban_less (pq_data q') 0 (length (pq_data q')) 0)"
proof
  let ?p = "q\<lparr>pq_data := butlast (pop_heap ban_less (pq_data q) 0 (length (pq_data q)))\<rparr>"
  show "case pq_push ban_less ok q v of (q', r) \<Rightarrow>
      (if ok then r = Inr () \<and> mset (pq_data q') = add_mset v (mset (pq_data q)) \<and>
                  heap_from ban_less (pq_data q') 0 (length (pq_data q')) 0
       else r = Inl ENOMEM \<and> q' = q)"
    using less_order.push_heap_correct [OF heap, of v] by (simp add: pq_push_def Let_def)
  show "if pq_data q = [] then pq_top q = Halt \<and> pq_pop ban_less q = Halt
      else \<exists>t q'. pq_top q = Done t \<and> t \<in> set (pq_data q) \<and> (\<forall>x \<in> set (pq_data q). x \<le> t) \<and>
        pq_pop ban_less q = Done q' \<and> mset (pq_data q) = add_mset t (mset (pq_data q')) \<and>
        heap_from ban_less (pq_data q') 0 (length (pq_data q')) 0"
  proof (cases "pq_data q = []")
    case True
    then show ?thesis by (simp add: pq_top_def pq_pop_def)
  next
    case ne: False
    have max: "\<forall>x \<in> set (pq_data q). x \<le> pq_data q ! 0"
    proof
      fix x assume "x \<in> set (pq_data q)"
      then obtain i where "i < length (pq_data q)" "pq_data q ! i = x" by (auto simp: in_set_conv_nth)
      then show "x \<le> pq_data q ! 0"
        using less_order.heap_root_max [OF heap, of i] by (simp add: ban_less_def not_less)
    qed
    have "heap_from ban_less (pq_data ?p) 0 (length (pq_data ?p)) 0 \<and>
        mset (pq_data q) = add_mset (pq_data q ! 0) (mset (pq_data ?p))"
      using less_order.pop_heap_last [OF heap ne] by simp
    moreover have "pq_top q = Done (pq_data q ! 0)" "pq_data q ! 0 \<in> set (pq_data q)" "pq_pop ban_less q = Done ?p"
      using ne by (simp_all add: pq_top_def pq_pop_def)
    ultimately show ?thesis using max unfolding if_not_P [OF ne] by blast
  qed
qed

lemma example_queue_heap: "heap_from ban_less [7, 3, 5::nat] 0 (length [7, 3, 5::nat]) 0"
  unfolding heap_from_def
proof (intro allI impI)
  fix i assume "0 < i" "i < length [7, 3, 5::nat]"
  then have "i = 1 \<or> i = 2" by auto
  then show "\<not> ban_less ([7, 3, 5::nat] ! (0 + hpar i)) ([7, 3, 5] ! (0 + i))"
    by (auto simp: ban_less_def)
qed

theorem priority_queue_correct_witness:
  "(\<exists>t q'. pq_top \<lparr>pq_comp = ban_greater, pq_data = [7, 3, 5::nat]\<rparr> = Done t \<and>
     pq_pop ban_less \<lparr>pq_comp = ban_greater, pq_data = [7, 3, 5]\<rparr> = Done q' \<and>
     mset [7, 3, 5] = add_mset t (mset (pq_data q'))) \<and>
   mset (pq_data (fst (pq_push ban_less True \<lparr>pq_comp = ban_greater, pq_data = [] :: nat list\<rparr> 4))) = {#4#}"
proof
  let ?q = "\<lparr>pq_comp = ban_greater, pq_data = [7, 3, 5::nat]\<rparr>" and ?e = "\<lparr>pq_comp = ban_greater, pq_data = [] :: nat list\<rparr>"
  have "heap_from ban_less (pq_data ?q) 0 (length (pq_data ?q)) 0" using example_queue_heap by simp
  from priority_queue_correct [OF this, of True 4]
  obtain t q' where "pq_top ?q = Done t" "pq_pop ban_less ?q = Done q'"
    "mset (pq_data ?q) = add_mset t (mset (pq_data q'))" by auto
  then show "\<exists>t q'. pq_top ?q = Done t \<and> pq_pop ban_less ?q = Done q' \<and> mset [7, 3, 5] = add_mset t (mset (pq_data q'))"
    by (intro exI conjI) simp_all
  have "heap_from ban_less (pq_data ?e) 0 (length (pq_data ?e)) 0" by (simp add: heap_from_def)
  from priority_queue_correct [OF this, of True 4] show "mset (pq_data (fst (pq_push ban_less True ?e 4))) = {#4#}"
    by (auto split: prod.splits)
qed

end
