(* ===== verification/KernelHeap.thy ===== *)
theory KernelHeap
  imports PhysicalRange BAN_Sort
begin

text \<open>
  \<^verbatim>\<open>kernel/kernel/Memory/Heap.cpp\<close>: the physical page allocator of the kernel. It owns the
  physical ranges found in the memory map of the boot loader and serves single pages and
  contiguous runs from the first range that has them. The lock that every public operation
  takes makes the operations atomic, so they are functions on the list of ranges.
  \<open>grow n\<close> says whether the vector of the ranges can take an element when it holds \<open>n\<close>; a
  failing \<^verbatim>\<open>MUST\<close> is \<open>Halt\<close>.
\<close>

section \<open>Model: the allocator\<close>

record heap =
  m_physical_ranges :: "phys_range list"

fun take_from_ranges :: "phys_range list \<Rightarrow> (phys_range list \<times> nat) run" where
  "take_from_ranges [] = Done ([], 0)"
| "take_from_ranges (r # rs) =
     (if 1 \<le> pr_free_pages r then rbind (reserve_page r) (\<lambda>(r', paddr). Done (r' # rs, paddr))
      else rbind (take_from_ranges rs) (\<lambda>(rs', paddr). Done (r # rs', paddr)))"

definition heap_take_free_page :: "heap \<Rightarrow> (heap \<times> nat) run" where
  "heap_take_free_page h =
     rbind (take_from_ranges (m_physical_ranges h)) (\<lambda>(rs, paddr). Done (h\<lparr>m_physical_ranges := rs\<rparr>, paddr))"

fun release_in_ranges :: "phys_range list \<Rightarrow> nat \<Rightarrow> phys_range list run" where
  "release_in_ranges [] paddr = Halt"
| "release_in_ranges (r # rs) paddr =
     (if pr_contains r paddr then rbind (release_page r paddr) (\<lambda>r'. Done (r' # rs))
      else rbind (release_in_ranges rs paddr) (\<lambda>rs'. Done (r # rs')))"

definition heap_release_page :: "heap \<Rightarrow> nat \<Rightarrow> heap run" where
  "heap_release_page h paddr =
     rbind (release_in_ranges (m_physical_ranges h) paddr) (\<lambda>rs. Done (h\<lparr>m_physical_ranges := rs\<rparr>))"

fun take_contiguous_from_ranges :: "phys_range list \<Rightarrow> nat \<Rightarrow> (phys_range list \<times> nat) run" where
  "take_contiguous_from_ranges [] pages = Done ([], 0)"
| "take_contiguous_from_ranges (r # rs) pages =
     (if pages \<le> pr_free_pages r then
        rbind (reserve_contiguous_pages r pages) (\<lambda>(r', paddr).
          if paddr \<noteq> 0 then Done (r' # rs, paddr)
          else rbind (take_contiguous_from_ranges rs pages) (\<lambda>(rs', paddr). Done (r' # rs', paddr)))
      else rbind (take_contiguous_from_ranges rs pages) (\<lambda>(rs', paddr). Done (r # rs', paddr)))"

definition heap_take_free_contiguous_pages :: "heap \<Rightarrow> nat \<Rightarrow> (heap \<times> nat) run" where
  "heap_take_free_contiguous_pages h pages =
     rbind (take_contiguous_from_ranges (m_physical_ranges h) pages)
       (\<lambda>(rs, paddr). Done (h\<lparr>m_physical_ranges := rs\<rparr>, paddr))"

fun release_contiguous_in_ranges :: "phys_range list \<Rightarrow> nat \<Rightarrow> nat \<Rightarrow> phys_range list run" where
  "release_contiguous_in_ranges [] paddr pages = Halt"
| "release_contiguous_in_ranges (r # rs) paddr pages =
     (if pr_contains r paddr then rbind (release_contiguous_pages r paddr pages) (\<lambda>r'. Done (r' # rs))
      else rbind (release_contiguous_in_ranges rs paddr pages) (\<lambda>rs'. Done (r # rs')))"

definition heap_release_contiguous_pages :: "heap \<Rightarrow> nat \<Rightarrow> nat \<Rightarrow> heap run" where
  "heap_release_contiguous_pages h paddr pages =
     rbind (release_contiguous_in_ranges (m_physical_ranges h) paddr pages)
       (\<lambda>rs. Done (h\<lparr>m_physical_ranges := rs\<rparr>))"

definition heap_used_pages :: "heap \<Rightarrow> nat" where
  "heap_used_pages h = fold (\<lambda>r result. result + pr_used_pages r) (m_physical_ranges h) 0"

definition heap_free_pages :: "heap \<Rightarrow> nat" where
  "heap_free_pages h = fold (\<lambda>r result. result + pr_free_pages r) (m_physical_ranges h) 0"

section \<open>Model: initialisation from the memory map\<close>

datatype memory_type = Available | Reserved | ACPIReclaim | ACPINVS

record memory_map_entry =
  mm_address :: nat
  mm_length :: nat
  mm_type :: memory_type

record boot_module =
  bm_start :: nat
  bm_size :: nat

record boot_info =
  bi_kernel_paddr :: nat
  bi_modules :: "boot_module list"
  bi_memory_map_entries :: "memory_map_entry list"

record reserved_region =
  rr_paddr :: nat
  rr_size :: nat

definition page_align_region :: "reserved_region \<Rightarrow> reserved_region" where
  "page_align_region region =
     (let rem = rr_paddr region mod PAGE_SIZE;
          paddr = rr_paddr region - rem;
          bytes = u64_add (rr_size region) rem;
          rem2 = bytes mod PAGE_SIZE
      in \<lparr>rr_paddr = paddr, rr_size = (if rem2 \<noteq> 0 then u64_add bytes (PAGE_SIZE - rem2) else bytes)\<rparr>)"

definition region_less :: "reserved_region \<Rightarrow> reserved_region \<Rightarrow> bool" where
  "region_less lhs rhs =
     (if rr_paddr lhs = rr_paddr rhs then rr_size lhs < rr_size rhs else rr_paddr lhs < rr_paddr rhs)"

text \<open>
  The loop that combines overlapping or touching regions; \<^verbatim>\<open>remove(i--)\<close> followed by the
  \<^verbatim>\<open>i++\<close> of the loop stays at the same index.
\<close>

definition region_end :: "reserved_region \<Rightarrow> nat" where
  "region_end r = u64_add (rr_paddr r) (rr_size r)"

function combine_regions :: "reserved_region list \<Rightarrow> nat \<Rightarrow> reserved_region list" where
  "combine_regions rs i =
     (if i < length rs then
        let prev = rs ! (i - 1); curr = rs ! i
        in if region_end curr < rr_paddr prev \<or> region_end prev < rr_paddr curr
           then combine_regions rs (Suc i)
           else let prev' = prev\<lparr>rr_size := math_max (rr_size prev) (u64_sub (region_end curr) (rr_paddr prev))\<rparr>;
                    rs' = rs[i - 1 := prev']
                in combine_regions (take i rs' @ drop (Suc i) rs') i
      else rs)"
  by pat_completeness auto
termination
  by (relation "measure (\<lambda>(rs, i). length rs - i)") (auto simp: Let_def)

declare combine_regions.simps [simp del]

text \<open>\<open>kernel_bytes\<close> is \<^verbatim>\<open>g_kernel_end - KERNEL_OFFSET\<close>, which the linker fixes.\<close>

definition initial_regions :: "nat \<Rightarrow> boot_info \<Rightarrow> reserved_region list" where
  "initial_regions kernel_bytes bi =
     [\<lparr>rr_paddr = 0, rr_size = 0x100000\<rparr>, \<lparr>rr_paddr = bi_kernel_paddr bi, rr_size = kernel_bytes\<rparr>] @
     map (\<lambda>m. \<lparr>rr_paddr = bm_start m, rr_size = bm_size m\<rparr>) (bi_modules bi)"

definition get_reserved_regions :: "bool \<Rightarrow> nat \<Rightarrow> boot_info \<Rightarrow> reserved_region list run" where
  "get_reserved_regions reserve_ok kernel_bytes bi =
     asserting reserve_ok (
       let regions = map page_align_region (initial_regions kernel_bytes bi);
           sorted_regions = ban_sort region_less regions 0 (length regions)
       in Done (combine_regions sorted_regions 1))"

function append_region_nolock ::
  "(nat \<Rightarrow> bool) \<Rightarrow> phys_range list \<Rightarrow> nat \<Rightarrow> nat \<Rightarrow> phys_range list run" where
  "append_region_nolock grow rs start bytes =
     (if 2 * PAGE_SIZE \<le> bytes then
        let region_bytes = math_min bytes pr_max_bytes
        in asserting (grow (length rs))
             (rbind (phys_range_create start region_bytes) (\<lambda>r.
                append_region_nolock grow (rs @ [r]) (u64_add start region_bytes) (bytes - region_bytes)))
      else Done rs)"
  by pat_completeness auto
termination
  by (relation "measure (\<lambda>(g, rs, s, b). b)")
    (auto simp: math_min_def pr_max_bytes_def PAGE_SIZE_def)

declare append_region_nolock.simps [simp del]

text \<open>The loop over the reserved regions inside one entry, and the entry itself.\<close>

fun append_around_reserved ::
  "(nat \<Rightarrow> bool) \<Rightarrow> phys_range list \<Rightarrow> reserved_region list \<Rightarrow> nat \<Rightarrow> nat \<Rightarrow> phys_range list run" where
  "append_around_reserved grow rs [] e_start e_end =
     append_region_nolock grow rs e_start (u64_sub e_end e_start)"
| "append_around_reserved grow rs (reg # regs) e_start e_end =
     (let r_start = rr_paddr reg; r_end = region_end reg
      in if r_end < e_start then append_around_reserved grow rs regs e_start e_end
         else if e_end < r_start then append_region_nolock grow rs e_start (u64_sub e_end e_start)
         else rbind (append_region_nolock grow rs e_start (u64_sub (math_max e_start r_start) e_start))
                (\<lambda>rs'. append_around_reserved grow rs' regs
                         (math_max e_start (math_min e_end r_end)) e_end))"

definition entry_start :: "memory_map_entry \<Rightarrow> nat" where
  "entry_start entry =
     (let rem = mm_address entry mod PAGE_SIZE in if rem \<noteq> 0 then PAGE_SIZE - rem else mm_address entry)"

definition entry_end :: "memory_map_entry \<Rightarrow> nat" where
  "entry_end entry =
     (let e = u64_add (mm_address entry) (mm_length entry) in e - e mod PAGE_SIZE)"

fun append_entries ::
  "(nat \<Rightarrow> bool) \<Rightarrow> reserved_region list \<Rightarrow> memory_map_entry list \<Rightarrow> phys_range list \<Rightarrow> phys_range list run" where
  "append_entries grow regions [] rs = Done rs"
| "append_entries grow regions (entry # entries) rs =
     (if mm_type entry \<noteq> Available then append_entries grow regions entries rs
      else rbind (append_around_reserved grow rs regions (entry_start entry) (entry_end entry))
             (append_entries grow regions entries))"

definition heap_initialize_impl :: "(nat \<Rightarrow> bool) \<Rightarrow> bool \<Rightarrow> nat \<Rightarrow> boot_info \<Rightarrow> heap \<Rightarrow> heap run" where
  "heap_initialize_impl grow reserve_ok kernel_bytes bi h =
     asserting (bi_memory_map_entries bi \<noteq> [])
       (rbind (get_reserved_regions reserve_ok kernel_bytes bi) (\<lambda>regions.
          rbind (append_entries grow regions (bi_memory_map_entries bi) (m_physical_ranges h))
            (\<lambda>rs. Done (h\<lparr>m_physical_ranges := rs\<rparr>))))"

text \<open>
  \<open>release_boot_modules\<close> empties the list of modules and appends each module's whole pages. It
  reads the last range after each append, which asserts that there is one.
\<close>

definition module_first_page :: "boot_module \<Rightarrow> nat" where
  "module_first_page m =
     (let rem = bm_start m mod PAGE_SIZE
      in if rem \<noteq> 0 then u64_add (bm_start m) (PAGE_SIZE - rem) else bm_start m)"

definition module_last_page :: "boot_module \<Rightarrow> nat" where
  "module_last_page m = (let e = u64_add (bm_start m) (bm_size m) in e - e mod PAGE_SIZE)"

fun release_modules ::
  "(nat \<Rightarrow> bool) \<Rightarrow> boot_module list \<Rightarrow> phys_range list \<Rightarrow> nat \<Rightarrow> (phys_range list \<times> nat) run" where
  "release_modules grow [] rs kibi_bytes = Done (rs, kibi_bytes)"
| "release_modules grow (m # ms) rs kibi_bytes =
     rbind (append_region_nolock grow rs (module_first_page m)
              (u64_sub (module_last_page m) (module_first_page m)))
       (\<lambda>rs'. asserting (rs' \<noteq> [])
          (release_modules grow ms rs' (u64_add kibi_bytes (pr_usable_memory (last rs') div 1024))))"

definition heap_release_boot_modules ::
  "(nat \<Rightarrow> bool) \<Rightarrow> boot_info \<Rightarrow> heap \<Rightarrow> (boot_info \<times> heap \<times> nat) run" where
  "heap_release_boot_modules grow bi h =
     rbind (release_modules grow (bi_modules bi) (m_physical_ranges h) 0)
       (\<lambda>(rs, kibi_bytes). Done (bi\<lparr>bi_modules := []\<rparr>, h\<lparr>m_physical_ranges := rs\<rparr>, kibi_bytes))"

section \<open>The pages of a heap\<close>

text \<open>
  The abstract value of a heap: the addresses of its free pages and of the pages that are
  handed out (the bitmap page of a range is neither). The invariant: every range satisfies
  its own, and no byte belongs to two ranges.
\<close>

definition range_bytes :: "phys_range \<Rightarrow> nat set" where
  "range_bytes r = {pr_start r..<pr_end r}"

definition range_free :: "phys_range \<Rightarrow> nat set" where
  "range_free r = page_addr r ` ({..<pr_page_count r} - pr_used r)"

definition range_used :: "phys_range \<Rightarrow> nat set" where
  "range_used r = page_addr r ` (pr_used r - {0})"

definition ranges_bytes :: "phys_range list \<Rightarrow> nat set" where
  "ranges_bytes rs = \<Union> (range_bytes ` set rs)"

definition ranges_free :: "phys_range list \<Rightarrow> nat set" where
  "ranges_free rs = \<Union> (range_free ` set rs)"

definition ranges_used :: "phys_range list \<Rightarrow> nat set" where
  "ranges_used rs = \<Union> (range_used ` set rs)"

fun ranges_wf :: "phys_range list \<Rightarrow> bool" where
  "ranges_wf [] \<longleftrightarrow> True"
| "ranges_wf (r # rs) \<longleftrightarrow> pr_wf r \<and> range_bytes r \<inter> ranges_bytes rs = {} \<and> ranges_wf rs"

definition heap_wf :: "heap \<Rightarrow> bool" where
  "heap_wf h = ranges_wf (m_physical_ranges h)"

definition heap_free :: "heap \<Rightarrow> nat set" where
  "heap_free h = ranges_free (m_physical_ranges h)"

definition heap_used :: "heap \<Rightarrow> nat set" where
  "heap_used h = ranges_used (m_physical_ranges h)"

lemma ranges_sets_simps [simp]:
  "ranges_bytes [] = {}" "ranges_bytes (r # rs) = range_bytes r \<union> ranges_bytes rs"
  "ranges_free [] = {}" "ranges_free (r # rs) = range_free r \<union> ranges_free rs"
  "ranges_used [] = {}" "ranges_used (r # rs) = range_used r \<union> ranges_used rs"
  "ranges_bytes (rs @ ss) = ranges_bytes rs \<union> ranges_bytes ss"
  "ranges_used (rs @ ss) = ranges_used rs \<union> ranges_used ss"
  by (simp_all add: ranges_bytes_def ranges_free_def ranges_used_def)

lemma range_bytes_contains: "p \<in> range_bytes r \<longleftrightarrow> pr_contains r p"
  by (simp add: range_bytes_def pr_contains_def)

lemma range_sets_bytes: "range_free r \<union> range_used r \<subseteq> range_bytes r"
  using pr_used_bounded [of r]
  by (auto simp: range_free_def range_used_def range_bytes_contains intro!: page_addr_contains)

lemma ranges_sets_bytes: "ranges_free rs \<union> ranges_used rs \<subseteq> ranges_bytes rs"
  using range_sets_bytes by (induction rs) auto

lemma range_free_used_disjoint: "range_free r \<inter> range_used r = {}"
  by (auto simp: range_free_def range_used_def page_addr_inj)

lemma ranges_free_used_disjoint: "ranges_wf rs \<Longrightarrow> ranges_free rs \<inter> ranges_used rs = {}"
proof (induction rs)
  case (Cons r rs)
  then have "range_bytes r \<inter> ranges_bytes rs = {}" "ranges_free rs \<inter> ranges_used rs = {}" by simp_all
  then show ?case
    using range_sets_bytes [of r] ranges_sets_bytes [of rs] range_free_used_disjoint [of r]
    by (simp; blast)
qed simp

lemma range_free_pos:
  assumes "pr_wf r" "p \<in> range_free r"
  shows "0 < p"
proof -
  obtain k where "p = page_addr r k" "k \<notin> pr_used r" using assms(2) by (auto simp: range_free_def)
  then show ?thesis using assms(1) page_addr_pos [of k r] by (cases k) (auto simp: pr_wf_def)
qed

lemma ranges_free_pos: "ranges_wf rs \<Longrightarrow> p \<in> ranges_free rs \<Longrightarrow> 0 < p"
  using range_free_pos by (induction rs) auto

lemma range_free_empty_iff: "pr_wf r \<Longrightarrow> range_free r = {} \<longleftrightarrow> pr_free_pages r = 0"
  using free_pages_pos_iff [of r] by (auto simp: pr_wf_def range_free_def)

lemma range_geometry:
  assumes "pr_paddr r' = pr_paddr r" "pr_page_count r' = pr_page_count r"
  shows "range_bytes r' = range_bytes r" "page_addr r' = page_addr r"
  using assms by (auto simp: range_bytes_def pr_start_def pr_end_def page_addr_def)

text \<open>How the sets of a range change with its set of used page indices.\<close>

lemma range_sets_add:
  assumes "pr_paddr r' = pr_paddr r" "pr_page_count r' = pr_page_count r"
    and "pr_used r' = pr_used r \<union> K" "0 \<notin> K" "K \<subseteq> {..<pr_page_count r}"
  shows "range_free r' = range_free r - page_addr r ` K" "range_used r' = range_used r \<union> page_addr r ` K"
  using assms range_geometry(2) [OF assms(1,2)]
  by (auto simp: range_free_def range_used_def page_addr_inj image_iff)

lemma range_sets_remove:
  assumes "pr_paddr r' = pr_paddr r" "pr_page_count r' = pr_page_count r"
    and "pr_used r' = pr_used r - K" "0 \<notin> K" "K \<subseteq> pr_used r"
  shows "range_free r' = range_free r \<union> page_addr r ` K" "range_used r' = range_used r - page_addr r ` K"
  using assms range_geometry(2) [OF assms(1,2)] pr_used_bounded [of r]
  by (auto simp: range_free_def range_used_def page_addr_inj image_iff)

section \<open>Taking and releasing single pages\<close>

lemma take_from_ranges_correct:
  assumes "ranges_wf rs"
  shows "\<exists>rs' p. take_from_ranges rs = Done (rs', p) \<and> ranges_wf rs' \<and>
    ranges_bytes rs' = ranges_bytes rs \<and>
    (if ranges_free rs = {} then p = 0 \<and> rs' = rs
     else p \<in> ranges_free rs \<and> ranges_free rs' = ranges_free rs - {p} \<and>
          ranges_used rs' = insert p (ranges_used rs))"
  using assms
proof (induction rs)
  case (Cons r rs)
  then have wf: "pr_wf r" "range_bytes r \<inter> ranges_bytes rs = {}" "ranges_wf rs" by simp_all
  show ?case
  proof (cases "1 \<le> pr_free_pages r")
    case True
    then have pos: "0 < pr_free_pages r" by simp
    obtain k where k: "0 < k" "k < pr_page_count r" "k \<notin> pr_used r" "pr_wf (pr_take r k)"
        "pr_used (pr_take r k) = insert k (pr_used r)"
        "reserve_page r = Done (pr_take r k, page_addr r k)"
      using reserve_page_Done [OF wf(1) pos] by metis
    have sets: "range_free (pr_take r k) = range_free r - {page_addr r k}"
        "range_used (pr_take r k) = insert (page_addr r k) (range_used r)"
        "range_bytes (pr_take r k) = range_bytes r" "page_addr r k \<in> range_free r"
      using k range_sets_add [of "pr_take r k" r "{k}"] range_geometry [of "pr_take r k" r]
      by (auto simp: range_free_def)
    have "page_addr r k \<notin> ranges_free rs"
      using sets(4) wf(2) range_sets_bytes [of r] ranges_sets_bytes [of rs] by blast
    then show ?thesis using True k(4,6) sets wf by auto
  next
    case False
    then have free: "range_free r = {}" using range_free_empty_iff [OF wf(1)] by simp
    obtain rs' p where IH: "take_from_ranges rs = Done (rs', p)" "ranges_wf rs'"
        "ranges_bytes rs' = ranges_bytes rs"
        "if ranges_free rs = {} then p = 0 \<and> rs' = rs
         else p \<in> ranges_free rs \<and> ranges_free rs' = ranges_free rs - {p} \<and>
              ranges_used rs' = insert p (ranges_used rs)"
      using Cons.IH [OF wf(3)] by blast
    have "take_from_ranges (r # rs) = Done (r # rs', p)" using False IH(1) by simp
    moreover have "ranges_wf (r # rs')" using wf IH(2,3) by simp
    ultimately show ?thesis using IH(3,4) free by auto
  qed
qed simp

lemma release_in_ranges_Done:
  assumes "ranges_wf rs" "p \<in> ranges_used rs"
  shows "\<exists>rs'. release_in_ranges rs p = Done rs' \<and> ranges_wf rs' \<and> ranges_bytes rs' = ranges_bytes rs \<and>
    ranges_used rs' = ranges_used rs - {p} \<and> ranges_free rs' = insert p (ranges_free rs)"
  using assms
proof (induction rs)
  case (Cons r rs)
  then have wf: "pr_wf r" "range_bytes r \<inter> ranges_bytes rs = {}" "ranges_wf rs" by simp_all
  show ?case
  proof (cases "pr_contains r p")
    case True
    then have "p \<notin> ranges_bytes rs" using wf(2) by (auto simp: range_bytes_contains)
    then have notin: "p \<notin> ranges_used rs" using ranges_sets_bytes by blast
    then have "p \<in> range_used r" using Cons.prems(2) by simp
    then obtain k where k: "k \<in> pr_used r" "k \<noteq> 0" "p = page_addr r k" by (auto simp: range_used_def)
    note rel = release_page_Done [OF wf(1) k(1,2)]
    have "range_free (pr_give r k) = insert p (range_free r)"
        "range_used (pr_give r k) = range_used r - {p}" "range_bytes (pr_give r k) = range_bytes r"
      using k rel(3) range_sets_remove [of "pr_give r k" r "{k}"] range_geometry [of "pr_give r k" r] by auto
    then show ?thesis using True rel k(3) wf notin by auto
  next
    case False
    then have "p \<in> ranges_used rs"
      using Cons.prems(2) range_sets_bytes [of r] by (auto simp: range_bytes_contains)
    then obtain rs' where IH: "release_in_ranges rs p = Done rs'" "ranges_wf rs'"
        "ranges_bytes rs' = ranges_bytes rs" "ranges_used rs' = ranges_used rs - {p}"
        "ranges_free rs' = insert p (ranges_free rs)"
      using Cons.IH [OF wf(3)] by blast
    moreover have "p \<notin> range_used r"
      using False range_sets_bytes [of r] by (auto simp: range_bytes_contains)
    ultimately show ?thesis using False wf by auto
  qed
qed simp

lemma release_in_ranges_Halt:
  "ranges_wf rs \<Longrightarrow> p \<notin> ranges_used rs \<Longrightarrow> release_in_ranges rs p = Halt"
proof (induction rs)
  case (Cons r rs)
  then have "\<not> (\<exists>k \<in> pr_used r - {0}. p = page_addr r k)" by (auto simp: range_used_def)
  then show ?case using Cons release_page_Halt [of r p] by simp
qed simp

section \<open>Taking and releasing contiguous pages\<close>

definition run_pages :: "nat \<Rightarrow> nat \<Rightarrow> nat set" where
  "run_pages p pages = (\<lambda>j. p + j * PAGE_SIZE) ` {..<pages}"

text \<open>The range has a run that the search of \<open>reserve_contiguous_pages\<close> looks at.\<close>

definition has_run :: "nat \<Rightarrow> phys_range \<Rightarrow> bool" where
  "has_run pages r \<longleftrightarrow> pages \<le> pr_free_pages r \<and> (\<exists>i < pr_page_count r - pages. free_run r pages i)"

lemma page_addr_run: "page_addr r ` {i..<i + pages} = run_pages (page_addr r i) pages"
proof -
  have "{i..<i + pages} = (\<lambda>j. i + j) ` {..<pages}" by (simp add: lessThan_atLeast0 add.commute)
  then show ?thesis
    unfolding run_pages_def by (simp add: image_image page_addr_def add_mult_distrib add.assoc)
qed

lemma take_contiguous_here:
  assumes "pr_wf r" "0 < pages" "has_run pages r"
  obtains r' p where "reserve_contiguous_pages r pages = Done (r', p)" "p \<noteq> 0" "pr_wf r'"
    "range_bytes r' = range_bytes r" "run_pages p pages \<subseteq> range_free r"
    "range_free r' = range_free r - run_pages p pages" "range_used r' = range_used r \<union> run_pages p pages"
proof -
  have run: "pages \<le> pr_free_pages r" "\<exists>i < pr_page_count r - pages. free_run r pages i"
    using assms(3) by (auto simp: has_run_def)
  obtain i where i: "0 < i" "i + pages < pr_page_count r" "free_run r pages i"
      "reserve_contiguous_pages r pages = Done (pr_take_run r pages i, page_addr r i)"
      "pr_wf (pr_take_run r pages i)" "pr_used (pr_take_run r pages i) = pr_used r \<union> {i..<i + pages}"
    using reserve_contiguous_pages_Done [OF assms(1,2) run] by metis
  let ?r' = "pr_take_run r pages i"
  have K: "0 \<notin> {i..<i + pages}" "{i..<i + pages} \<subseteq> {..<pr_page_count r}" using i(1,2) by auto
  have "page_addr r ` {i..<i + pages} \<subseteq> range_free r"
    using K(2) i(3) by (auto simp: range_free_def free_run_def)
  moreover have "range_bytes ?r' = range_bytes r" by (rule range_geometry) simp_all
  ultimately show ?thesis
    using that [OF i(4) _ i(5)] range_sets_add [OF _ _ i(6) K] page_addr_pos [OF i(1), of r]
    by (simp add: page_addr_run)
qed

lemma take_contiguous_from_ranges_correct:
  assumes "ranges_wf rs" "0 < pages"
  shows "\<exists>rs' p. take_contiguous_from_ranges rs pages = Done (rs', p) \<and> ranges_wf rs' \<and>
    ranges_bytes rs' = ranges_bytes rs \<and>
    (if \<exists>r \<in> set rs. has_run pages r
     then p \<noteq> 0 \<and> run_pages p pages \<subseteq> ranges_free rs \<and>
          ranges_free rs' = ranges_free rs - run_pages p pages \<and>
          ranges_used rs' = ranges_used rs \<union> run_pages p pages
     else p = 0 \<and> rs' = rs)"
  using assms
proof (induction rs)
  case (Cons r rs)
  then have wf: "pr_wf r" "range_bytes r \<inter> ranges_bytes rs = {}" "ranges_wf rs" by simp_all
  show ?case
  proof (cases "has_run pages r")
    case True
    obtain r' p where r': "reserve_contiguous_pages r pages = Done (r', p)" "p \<noteq> 0" "pr_wf r'"
        "range_bytes r' = range_bytes r" "run_pages p pages \<subseteq> range_free r"
        "range_free r' = range_free r - run_pages p pages" "range_used r' = range_used r \<union> run_pages p pages"
      using take_contiguous_here [OF wf(1) Cons.prems(2) True] by metis
    have "run_pages p pages \<inter> ranges_free rs = {}"
      using r'(5) wf(2) range_sets_bytes [of r] ranges_sets_bytes [of rs] by blast
    then have "ranges_free (r' # rs) = ranges_free (r # rs) - run_pages p pages" using r'(6) by auto
    moreover have "take_contiguous_from_ranges (r # rs) pages = Done (r' # rs, p)"
      using True r'(1,2) by (simp add: has_run_def)
    ultimately show ?thesis using True r'(2-5,7) wf by auto
  next
    case False
    obtain rs' p where IH: "take_contiguous_from_ranges rs pages = Done (rs', p)" "ranges_wf rs'"
        "ranges_bytes rs' = ranges_bytes rs"
        "if \<exists>r \<in> set rs. has_run pages r
         then p \<noteq> 0 \<and> run_pages p pages \<subseteq> ranges_free rs \<and>
              ranges_free rs' = ranges_free rs - run_pages p pages \<and>
              ranges_used rs' = ranges_used rs \<union> run_pages p pages
         else p = 0 \<and> rs' = rs"
      using Cons.IH [OF wf(3) Cons.prems(2)] by blast
    have step: "take_contiguous_from_ranges (r # rs) pages = Done (r # rs', p)"
      using False IH(1) reserve_contiguous_pages_none [OF Cons.prems(2), of r] by (auto simp: has_run_def)
    have "range_free r \<inter> run_pages p pages = {}" if "run_pages p pages \<subseteq> ranges_free rs"
      using that wf(2) range_sets_bytes [of r] ranges_sets_bytes [of rs] by blast
    then show ?thesis using step IH(2-4) False wf by (auto split: if_splits)
  qed
qed simp

lemma run_pages_first: "0 < pages \<Longrightarrow> p \<in> run_pages p pages"
  by (force simp: run_pages_def)

lemma run_pages_used_iff:
  assumes "0 < pages"
  shows "run_pages p pages \<subseteq> range_used r \<longleftrightarrow> (\<exists>i > 0. p = page_addr r i \<and> {i..<i + pages} \<subseteq> pr_used r)"
proof
  assume sub: "run_pages p pages \<subseteq> range_used r"
  then obtain i where i: "p = page_addr r i" "i \<noteq> 0"
    using run_pages_first [OF assms] by (auto simp: range_used_def)
  have "j \<in> pr_used r" if "j \<in> {i..<i + pages}" for j
  proof -
    have "page_addr r j \<in> range_used r" using that sub unfolding i(1) page_addr_run [symmetric] by blast
    then show ?thesis by (auto simp: range_used_def page_addr_inj)
  qed
  then show "\<exists>i > 0. p = page_addr r i \<and> {i..<i + pages} \<subseteq> pr_used r" using i by blast
next
  assume "\<exists>i > 0. p = page_addr r i \<and> {i..<i + pages} \<subseteq> pr_used r"
  then obtain i where i: "0 < i" "p = page_addr r i" "{i..<i + pages} \<subseteq> pr_used r" by blast
  then show "run_pages p pages \<subseteq> range_used r"
    unfolding i(2) page_addr_run [symmetric] range_used_def by (intro image_mono) auto
qed

lemma release_contiguous_here:
  assumes "pr_wf r" "0 < pages" "run_pages p pages \<subseteq> range_used r"
  obtains r' where "release_contiguous_pages r p pages = Done r'" "pr_wf r'"
    "range_bytes r' = range_bytes r" "range_free r' = range_free r \<union> run_pages p pages"
    "range_used r' = range_used r - run_pages p pages"
proof -
  obtain i where i: "0 < i" "p = page_addr r i" "{i..<i + pages} \<subseteq> pr_used r"
    using assms(2,3) run_pages_used_iff by blast
  note rel = release_contiguous_pages_Done [OF assms(1) i(1) assms(2) i(3)]
  have K: "0 \<notin> {i..<i + pages}" using i(1) by simp
  show ?thesis
    using that [of "pr_give_run r pages i"] rel(1,2) range_sets_remove [OF _ _ rel(3) K i(3)]
      range_geometry [of "pr_give_run r pages i" r]
    by (simp add: page_addr_run i(2))
qed

lemma release_contiguous_in_ranges_Done:
  assumes "ranges_wf rs" "0 < pages" "r0 \<in> set rs" "run_pages p pages \<subseteq> range_used r0"
  shows "\<exists>rs'. release_contiguous_in_ranges rs p pages = Done rs' \<and> ranges_wf rs' \<and>
      ranges_bytes rs' = ranges_bytes rs \<and>
      ranges_used rs' = ranges_used rs - run_pages p pages \<and>
      ranges_free rs' = ranges_free rs \<union> run_pages p pages"
  using assms(1,3)
proof (induction rs)
  case (Cons r rs)
  then have wf: "pr_wf r" "range_bytes r \<inter> ranges_bytes rs = {}" "ranges_wf rs" by simp_all
  have p: "p \<in> range_bytes r0" "run_pages p pages \<subseteq> range_bytes r0"
    using run_pages_first [OF assms(2)] assms(4) range_sets_bytes [of r0] by auto
  show ?case
  proof (cases "r0 = r")
    case True
    obtain r' where r': "release_contiguous_pages r p pages = Done r'" "pr_wf r'"
        "range_bytes r' = range_bytes r" "range_free r' = range_free r \<union> run_pages p pages"
        "range_used r' = range_used r - run_pages p pages"
      using release_contiguous_here [OF wf(1) assms(2)] assms(4) True by metis
    have "run_pages p pages \<inter> ranges_used rs = {}"
      using p(2) wf(2) True ranges_sets_bytes [of rs] by blast
    then have "ranges_used (r' # rs) = ranges_used (r # rs) - run_pages p pages" using r'(5) by auto
    moreover have "release_contiguous_in_ranges (r # rs) p pages = Done (r' # rs)"
      using r'(1) p(1) True by (simp add: range_bytes_contains)
    ultimately show ?thesis using r' wf by auto
  next
    case False
    then have r0: "r0 \<in> set rs" using Cons.prems(2) by simp
    then have disj: "range_bytes r0 \<inter> range_bytes r = {}" using wf(2) by (auto simp: ranges_bytes_def)
    obtain rs' where IH: "release_contiguous_in_ranges rs p pages = Done rs'" "ranges_wf rs'"
        "ranges_bytes rs' = ranges_bytes rs" "ranges_used rs' = ranges_used rs - run_pages p pages"
        "ranges_free rs' = ranges_free rs \<union> run_pages p pages"
      using Cons.IH [OF wf(3) r0] by blast
    have "\<not> pr_contains r p" using disj p(1) by (auto simp: range_bytes_contains)
    moreover have "range_used r \<inter> run_pages p pages = {}"
      using disj p(2) range_sets_bytes [of r] by blast
    then have "ranges_used (r # rs') = ranges_used (r # rs) - run_pages p pages" using IH(4) by auto
    ultimately show ?thesis using IH wf by auto
  qed
qed simp

lemma release_contiguous_in_ranges_Halt:
  assumes "ranges_wf rs" "p mod PAGE_SIZE = 0"
    and "\<And>r. r \<in> set rs \<Longrightarrow> \<not> (0 < pages \<and> run_pages p pages \<subseteq> range_used r)"
  shows "release_contiguous_in_ranges rs p pages = Halt"
  using assms
proof (induction rs)
  case (Cons r rs)
  have "\<not> (0 < pages \<and> (\<exists>i > 0. p = page_addr r i \<and> {i..<i + pages} \<subseteq> pr_used r))"
    using Cons.prems(3) [of r] run_pages_used_iff [of pages p r] by auto
  then have "release_contiguous_pages r p pages = Halt"
    using Cons.prems(1,2) release_contiguous_pages_Halt by simp
  moreover have "release_contiguous_in_ranges rs p pages = Halt"
    using Cons.prems by (intro Cons.IH) auto
  ultimately show ?case by simp
qed simp

section \<open>The allocator as an abstract page pool\<close>

text \<open>
  What a client of a page allocator relies on: a state with an invariant, a set of free and a
  set of handed-out page addresses, an operation that takes a page and one that gives it back.
\<close>

locale page_pool =
  fixes inv :: "'s \<Rightarrow> bool" and free used :: "'s \<Rightarrow> nat set"
    and take_page :: "'s \<Rightarrow> ('s \<times> nat) run" and give_page :: "'s \<Rightarrow> nat \<Rightarrow> 's run"
  assumes disjoint: "inv s \<Longrightarrow> free s \<inter> used s = {}"
    and free_pos: "inv s \<Longrightarrow> 0 \<notin> free s"
    and take_none: "inv s \<Longrightarrow> free s = {} \<Longrightarrow> take_page s = Done (s, 0)"
    and take_some: "inv s \<Longrightarrow> free s \<noteq> {} \<Longrightarrow> \<exists>s' p. take_page s = Done (s', p) \<and> inv s' \<and>
      p \<in> free s \<and> free s' = free s - {p} \<and> used s' = insert p (used s)"
    and give_used: "inv s \<Longrightarrow> p \<in> used s \<Longrightarrow> \<exists>s'. give_page s p = Done s' \<and> inv s' \<and>
      free s' = insert p (free s) \<and> used s' = used s - {p}"
    and give_other: "inv s \<Longrightarrow> p \<notin> used s \<Longrightarrow> give_page s p = Halt"
begin

text \<open>Taking \<open>n\<close> pages one after the other, stopping at the first failure.\<close>

primrec take_pages :: "nat \<Rightarrow> 's \<Rightarrow> ('s \<times> nat list) run" where
  "take_pages 0 s = Done (s, [])"
| "take_pages (Suc n) s = rbind (take_page s) (\<lambda>(s', p).
     if p = 0 then Done (s', []) else rbind (take_pages n s') (\<lambda>(s'', ps). Done (s'', p # ps)))"

primrec give_pages :: "nat list \<Rightarrow> 's \<Rightarrow> 's run" where
  "give_pages [] s = Done s"
| "give_pages (p # ps) s = rbind (give_page s p) (give_pages ps)"

lemma take_pages_correct:
  assumes "inv s" "finite (free s)"
  shows "\<exists>s' ps. take_pages n s = Done (s', ps) \<and> inv s' \<and> distinct ps \<and>
    length ps = min n (card (free s)) \<and> set ps \<subseteq> free s \<and>
    free s' = free s - set ps \<and> used s' = used s \<union> set ps"
  using assms
proof (induction n arbitrary: s)
  case (Suc n)
  show ?case
  proof (cases "free s = {}")
    case True
    then show ?thesis using Suc.prems take_none by simp
  next
    case False
    obtain s1 p where p: "take_page s = Done (s1, p)" "inv s1" "p \<in> free s"
        "free s1 = free s - {p}" "used s1 = insert p (used s)"
      using take_some [OF Suc.prems(1) False] by blast
    have "p \<noteq> 0" using free_pos [OF Suc.prems(1)] p(3) by metis
    have fin: "finite (free s1)" using Suc.prems(2) p(4) by simp
    obtain s' ps where IH: "take_pages n s1 = Done (s', ps)" "inv s'" "distinct ps"
        "length ps = min n (card (free s1))" "set ps \<subseteq> free s1"
        "free s' = free s1 - set ps" "used s' = used s1 \<union> set ps"
      using Suc.IH [OF p(2) fin] by blast
    have "card (free s) = Suc (card (free s1))"
      using p(3,4) Suc.prems(2) by (metis card_Suc_Diff1)
    then have "length (p # ps) = min (Suc n) (card (free s))" using IH(4) by simp
    moreover have "take_pages (Suc n) s = Done (s', p # ps)" using p(1) \<open>p \<noteq> 0\<close> IH(1) by simp
    ultimately show ?thesis using IH p by auto
  qed
qed simp

lemma give_pages_correct:
  assumes "inv s" "distinct ps" "set ps \<subseteq> used s"
  shows "\<exists>s'. give_pages ps s = Done s' \<and> inv s' \<and> free s' = free s \<union> set ps \<and> used s' = used s - set ps"
  using assms
proof (induction ps arbitrary: s)
  case (Cons p ps)
  obtain s1 where s1: "give_page s p = Done s1" "inv s1" "free s1 = insert p (free s)"
      "used s1 = used s - {p}"
    using give_used [of s p] Cons.prems by auto
  have sub: "set ps \<subseteq> used s1" using Cons.prems(2,3) s1(4) by auto
  obtain s' where "give_pages ps s1 = Done s'" "inv s'" "free s' = free s1 \<union> set ps"
      "used s' = used s1 - set ps"
    using Cons.IH [OF s1(2) _ sub] Cons.prems(2) by auto
  then show ?case using s1 by auto
qed auto

lemma take_give_pages:
  assumes "inv s" "finite (free s)"
  shows "\<exists>s1 ps s2. take_pages n s = Done (s1, ps) \<and> give_pages ps s1 = Done s2 \<and> inv s2 \<and>
    free s2 = free s \<and> used s2 = used s"
proof -
  obtain s1 ps where t: "take_pages n s = Done (s1, ps)" "inv s1" "distinct ps" "set ps \<subseteq> free s"
      "free s1 = free s - set ps" "used s1 = used s \<union> set ps"
    using take_pages_correct [OF assms] by blast
  obtain s2 where "give_pages ps s1 = Done s2" "inv s2" "free s2 = free s1 \<union> set ps"
      "used s2 = used s1 - set ps"
    using give_pages_correct [OF t(2,3)] t(6) by auto
  moreover have "used s \<inter> set ps = {}" using disjoint [OF assms(1)] t(4) by blast
  ultimately show ?thesis using t by blast
qed

end

lemma finite_ranges_sets [simp]: "finite (ranges_free rs)" "finite (ranges_used rs)"
  by (auto simp: ranges_free_def ranges_used_def range_free_def range_used_def)

interpretation kernel_pool: page_pool heap_wf heap_free heap_used heap_take_free_page heap_release_page
proof unfold_locales
  fix s :: heap and p :: nat
  assume wf: "heap_wf s"
  then have rwf: "ranges_wf (m_physical_ranges s)" by (simp add: heap_wf_def)
  show "heap_free s \<inter> heap_used s = {}"
    using rwf by (simp add: heap_free_def heap_used_def ranges_free_used_disjoint)
  show "0 \<notin> heap_free s" using rwf ranges_free_pos [of _ 0] by (auto simp: heap_free_def)
  show "heap_take_free_page s = Done (s, 0)" if "heap_free s = {}"
    using take_from_ranges_correct [OF rwf] that by (auto simp: heap_take_free_page_def heap_free_def)
  show "\<exists>s' p. heap_take_free_page s = Done (s', p) \<and> heap_wf s' \<and> p \<in> heap_free s \<and>
      heap_free s' = heap_free s - {p} \<and> heap_used s' = insert p (heap_used s)" if "heap_free s \<noteq> {}"
    using take_from_ranges_correct [OF rwf] that
    by (auto simp: heap_take_free_page_def heap_free_def heap_used_def heap_wf_def)
  show "\<exists>s'. heap_release_page s p = Done s' \<and> heap_wf s' \<and>
      heap_free s' = insert p (heap_free s) \<and> heap_used s' = heap_used s - {p}" if "p \<in> heap_used s"
    using release_in_ranges_Done [OF rwf] that
    by (fastforce simp: heap_release_page_def heap_free_def heap_used_def heap_wf_def)
  show "heap_release_page s p = Halt" if "p \<notin> heap_used s"
    using release_in_ranges_Halt [OF rwf] that by (simp add: heap_release_page_def heap_used_def)
qed

section \<open>Sequences of operations and their specification\<close>

datatype heap_op = TakePage | ReleasePage nat | TakeContiguous nat | ReleaseContiguous nat nat

definition heap_exec :: "heap_op \<Rightarrow> heap \<Rightarrow> (heap \<times> nat) run" where
  "heap_exec op h =
     (case op of
        TakePage \<Rightarrow> heap_take_free_page h
      | ReleasePage paddr \<Rightarrow> rbind (heap_release_page h paddr) (\<lambda>h'. Done (h', 0))
      | TakeContiguous pages \<Rightarrow> heap_take_free_contiguous_pages h pages
      | ReleaseContiguous paddr pages \<Rightarrow>
          rbind (heap_release_contiguous_pages h paddr pages) (\<lambda>h'. Done (h', 0)))"

fun heap_run :: "heap_op list \<Rightarrow> heap \<Rightarrow> (heap \<times> nat list) run" where
  "heap_run [] h = Done (h, [])"
| "heap_run (op # ops) h =
     rbind (heap_exec op h) (\<lambda>(h', res).
       rbind (heap_run ops h') (\<lambda>(h'', results). Done (h'', res # results)))"

text \<open>
  The specification works on the pair of the free and the handed-out addresses. A page comes
  from the free set, a run of pages too; only what is handed out can be released.
\<close>

inductive pool_step :: "heap_op \<Rightarrow> nat set \<times> nat set \<Rightarrow> nat \<Rightarrow> nat set \<times> nat set \<Rightarrow> bool" where
  take_fail: "pool_step TakePage ({}, U) 0 ({}, U)"
| take_page: "p \<in> F \<Longrightarrow> pool_step TakePage (F, U) p (F - {p}, insert p U)"
| release_page: "p \<in> U \<Longrightarrow> pool_step (ReleasePage p) (F, U) 0 (insert p F, U - {p})"
| contiguous_fail: "pool_step (TakeContiguous n) (F, U) 0 (F, U)"
| take_contiguous: "run_pages p n \<subseteq> F \<Longrightarrow> p \<noteq> 0 \<Longrightarrow> 0 < n \<Longrightarrow>
    pool_step (TakeContiguous n) (F, U) p (F - run_pages p n, U \<union> run_pages p n)"
| release_contiguous: "run_pages p n \<subseteq> U \<Longrightarrow> 0 < n \<Longrightarrow>
    pool_step (ReleaseContiguous p n) (F, U) 0 (F \<union> run_pages p n, U - run_pages p n)"

inductive_cases pool_stepE: "pool_step op (F, U) res (F', U')"

definition heap_abs :: "heap \<Rightarrow> nat set \<times> nat set" where
  "heap_abs h = (heap_free h, heap_used h)"

text \<open>Releases name page-aligned addresses, as every address the allocator hands out is.\<close>

definition op_aligned :: "heap_op \<Rightarrow> bool" where
  "op_aligned op = (case op of ReleaseContiguous p n \<Rightarrow> p mod PAGE_SIZE = 0 | _ \<Rightarrow> True)"

lemma pool_step_conserves:
  assumes "pool_step op (F, U) res (F', U')" "F \<inter> U = {}"
  shows "F' \<union> U' = F \<union> U" "F' \<inter> U' = {}"
  using assms by (auto elim!: pool_stepE)

lemma take_contiguous_zero: "take_contiguous_from_ranges rs 0 = Done (rs', p) \<Longrightarrow> rs' = rs \<and> p = 0"
  by (cases rs) (auto simp: reserve_contiguous_pages_def)

lemma heap_take_contiguous_cases:
  assumes "heap_wf h" "0 < pages"
  shows "\<exists>h' p. heap_take_free_contiguous_pages h pages = Done (h', p) \<and> heap_wf h' \<and>
    (if \<exists>r \<in> set (m_physical_ranges h). has_run pages r
     then p \<noteq> 0 \<and> run_pages p pages \<subseteq> heap_free h \<and> heap_free h' = heap_free h - run_pages p pages \<and>
          heap_used h' = heap_used h \<union> run_pages p pages
     else p = 0 \<and> h' = h)"
proof -
  have rwf: "ranges_wf (m_physical_ranges h)" using assms(1) by (simp add: heap_wf_def)
  obtain rs p where rs: "take_contiguous_from_ranges (m_physical_ranges h) pages = Done (rs, p)" "ranges_wf rs"
      "if \<exists>r \<in> set (m_physical_ranges h). has_run pages r
       then p \<noteq> 0 \<and> run_pages p pages \<subseteq> heap_free h \<and> ranges_free rs = heap_free h - run_pages p pages \<and>
            ranges_used rs = heap_used h \<union> run_pages p pages
       else p = 0 \<and> rs = m_physical_ranges h"
    using take_contiguous_from_ranges_correct [OF rwf assms(2)] unfolding heap_free_def heap_used_def by blast
  then have "heap_take_free_contiguous_pages h pages = Done (h\<lparr>m_physical_ranges := rs\<rparr>, p)"
    by (simp add: heap_take_free_contiguous_pages_def)
  then show ?thesis
    using rs(2,3)
    by (intro exI [of _ "h\<lparr>m_physical_ranges := rs\<rparr>"] exI [of _ p])
      (simp add: heap_wf_def heap_free_def heap_used_def split: if_splits)
qed

lemma take_page_refines:
  assumes wf: "heap_wf h" and t: "heap_take_free_page h = Done (h', res)"
  shows "heap_wf h' \<and> pool_step TakePage (heap_abs h) res (heap_abs h')"
proof (cases "heap_free h = {}")
  case True
  then have "h' = h" "res = 0" using kernel_pool.take_none [OF wf] t by simp_all
  then show ?thesis using wf True pool_step.take_fail by (simp add: heap_abs_def)
next
  case False
  then show ?thesis
    using kernel_pool.take_some [OF wf False] t pool_step.take_page [of res "heap_free h" "heap_used h"]
    by (auto simp: heap_abs_def)
qed

lemma release_page_refines:
  assumes wf: "heap_wf h" and rel: "heap_release_page h p = Done h'"
  shows "heap_wf h' \<and> pool_step (ReleasePage p) (heap_abs h) 0 (heap_abs h')"
proof -
  have p: "p \<in> heap_used h" using kernel_pool.give_other [OF wf] rel by fastforce
  then show ?thesis
    using kernel_pool.give_used [OF wf p] rel pool_step.release_page [OF p] by (auto simp: heap_abs_def)
qed

lemma take_contiguous_refines:
  assumes wf: "heap_wf h" and t: "heap_take_free_contiguous_pages h n = Done (h', res)"
  shows "heap_wf h' \<and> pool_step (TakeContiguous n) (heap_abs h) res (heap_abs h')"
proof (cases "n = 0")
  case True
  then have "h' = h" "res = 0"
    using t take_contiguous_zero by (auto simp: heap_take_free_contiguous_pages_def rbind_eq_Done_iff)
  then show ?thesis using wf pool_step.contiguous_fail by (simp add: heap_abs_def)
next
  case False
  then have n: "0 < n" by simp
  show ?thesis
  proof (cases "\<exists>r \<in> set (m_physical_ranges h). has_run n r")
    case True
    then have "heap_wf h'" "res \<noteq> 0" "run_pages res n \<subseteq> heap_free h"
        "heap_free h' = heap_free h - run_pages res n" "heap_used h' = heap_used h \<union> run_pages res n"
      using heap_take_contiguous_cases [OF wf n] t by simp_all
    then show ?thesis using n by (simp add: heap_abs_def pool_step.take_contiguous)
  next
    case False
    then have "res = 0" "h' = h" using heap_take_contiguous_cases [OF wf n] t by simp_all
    then show ?thesis using wf by (simp add: heap_abs_def pool_step.contiguous_fail)
  qed
qed

lemma heap_release_contiguous_cases:
  assumes "heap_wf h" "p mod PAGE_SIZE = 0"
  shows "if 0 < n \<and> (\<exists>r \<in> set (m_physical_ranges h). run_pages p n \<subseteq> range_used r)
    then \<exists>h'. heap_release_contiguous_pages h p n = Done h' \<and> heap_wf h' \<and>
      heap_used h' = heap_used h - run_pages p n \<and> heap_free h' = heap_free h \<union> run_pages p n
    else heap_release_contiguous_pages h p n = Halt"
proof (cases "0 < n \<and> (\<exists>r \<in> set (m_physical_ranges h). run_pages p n \<subseteq> range_used r)")
  case True
  then obtain r where r: "0 < n" "r \<in> set (m_physical_ranges h)" "run_pages p n \<subseteq> range_used r" by blast
  have rwf: "ranges_wf (m_physical_ranges h)" using assms(1) by (simp add: heap_wf_def)
  show ?thesis
    using release_contiguous_in_ranges_Done [OF rwf r] True
    by (auto simp: heap_release_contiguous_pages_def heap_wf_def heap_used_def heap_free_def)
next
  case False
  then have "release_contiguous_in_ranges (m_physical_ranges h) p n = Halt"
    using assms by (intro release_contiguous_in_ranges_Halt) (auto simp: heap_wf_def)
  then show ?thesis unfolding if_not_P [OF False] by (simp add: heap_release_contiguous_pages_def)
qed

lemma release_contiguous_refines:
  assumes wf: "heap_wf h" and p: "p mod PAGE_SIZE = 0"
    and rel: "heap_release_contiguous_pages h p n = Done h'"
  shows "heap_wf h' \<and> pool_step (ReleaseContiguous p n) (heap_abs h) 0 (heap_abs h')"
proof (cases "0 < n \<and> (\<exists>r \<in> set (m_physical_ranges h). run_pages p n \<subseteq> range_used r)")
  case True
  then have n: "0 < n" and "run_pages p n \<subseteq> heap_used h" by (auto simp: heap_used_def ranges_used_def)
  then have "pool_step (ReleaseContiguous p n) (heap_free h, heap_used h) 0
      (heap_free h \<union> run_pages p n, heap_used h - run_pages p n)"
    by (intro pool_step.release_contiguous)
  then show ?thesis
    using heap_release_contiguous_cases [OF wf p, of n] True rel by (simp add: heap_abs_def)
next
  case False
  then show ?thesis using heap_release_contiguous_cases [OF wf p, of n] rel by simp
qed

lemma heap_exec_refines:
  assumes wf: "heap_wf h" and al: "op_aligned op" and ex: "heap_exec op h = Done (h', res)"
  shows "heap_wf h' \<and> pool_step op (heap_abs h) res (heap_abs h')"
proof (cases op)
  case TakePage
  then show ?thesis using ex take_page_refines [OF wf] by (simp add: heap_exec_def)
next
  case (ReleasePage p)
  then show ?thesis using ex release_page_refines [OF wf] by (auto simp: heap_exec_def rbind_eq_Done_iff)
next
  case (TakeContiguous n)
  then show ?thesis using ex take_contiguous_refines [OF wf] by (simp add: heap_exec_def)
next
  case (ReleaseContiguous p n)
  then show ?thesis
    using ex al release_contiguous_refines [OF wf, of p n]
    by (auto simp: heap_exec_def op_aligned_def rbind_eq_Done_iff)
qed

inductive pool_run :: "heap_op list \<Rightarrow> nat set \<times> nat set \<Rightarrow> nat list \<Rightarrow> nat set \<times> nat set \<Rightarrow> bool" where
  run_nil: "pool_run [] a [] a"
| run_cons: "pool_step op a res b \<Longrightarrow> pool_run ops b results c \<Longrightarrow> pool_run (op # ops) a (res # results) c"

lemma heap_run_refines:
  assumes "heap_wf h" "list_all op_aligned ops" "heap_run ops h = Done (h', results)"
  shows "heap_wf h' \<and> pool_run ops (heap_abs h) results (heap_abs h')"
  using assms
proof (induction ops arbitrary: h results)
  case (Cons op ops)
  then obtain h1 res results1 where s: "heap_exec op h = Done (h1, res)"
      "heap_run ops h1 = Done (h', results1)" "results = res # results1"
    by (auto simp: rbind_eq_Done_iff)
  have step: "heap_wf h1" "pool_step op (heap_abs h) res (heap_abs h1)"
    using heap_exec_refines [OF Cons.prems(1) _ s(1)] Cons.prems(2) by simp_all
  then show ?case
    using Cons.IH [OF step(1) _ s(2)] Cons.prems(2) s(3) pool_run.run_cons [OF step(2)] by simp
qed (auto intro: pool_run.run_nil)

lemma pool_run_conserves:
  "pool_run ops a results b \<Longrightarrow> fst a \<inter> snd a = {} \<Longrightarrow>
   fst b \<union> snd b = fst a \<union> snd a \<and> fst b \<inter> snd b = {}"
proof (induction rule: pool_run.induct)
  case (run_cons op a res b ops results c)
  then show ?case
    using pool_step_conserves [of op "fst a" "snd a" res "fst b" "snd b"] by simp
qed simp

section \<open>The counters\<close>

lemma card_range_sets:
  assumes "pr_wf r"
  shows "card (range_free r) = pr_free_pages r" "Suc (card (range_used r)) = pr_used_pages r"
proof -
  have inj: "inj_on (page_addr r) K" for K by (simp add: inj_on_def page_addr_inj)
  have c: "pr_free_pages r + card (pr_used r) = pr_page_count r" "0 \<in> pr_used r"
    using assms by (auto simp: pr_wf_def pr_wf0_def)
  have "card (range_free r) = card ({..<pr_page_count r} - pr_used r)"
    unfolding range_free_def by (rule card_image [OF inj])
  also have "\<dots> = pr_page_count r - card (pr_used r)"
    using pr_used_bounded [of r] by (simp add: card_Diff_subset)
  finally show "card (range_free r) = pr_free_pages r" using c(1) by simp
  have "card (range_used r) = card (pr_used r - {0})"
    unfolding range_used_def by (rule card_image [OF inj])
  then have "Suc (card (range_used r)) = card (pr_used r)" 
    using card_Suc_Diff1 [OF finite_pr_used c(2)] by metis
  then show "Suc (card (range_used r)) = pr_used_pages r" using c(1) by (simp add: pr_used_pages_def)
qed

lemma fold_sum: "fold (\<lambda>r result. result + f r) rs n = (n::nat) + (\<Sum>r \<leftarrow> rs. f r)"
  by (induction rs arbitrary: n) simp_all

lemma card_ranges_sets:
  assumes "ranges_wf rs"
  shows "card (ranges_free rs) = (\<Sum>r \<leftarrow> rs. pr_free_pages r)"
    and "card (ranges_used rs) + length rs = (\<Sum>r \<leftarrow> rs. pr_used_pages r)"
proof -
  have "card (ranges_free rs) = (\<Sum>r \<leftarrow> rs. pr_free_pages r) \<and>
      card (ranges_used rs) + length rs = (\<Sum>r \<leftarrow> rs. pr_used_pages r)"
    using assms
  proof (induction rs)
    case (Cons r rs)
    then have "range_bytes r \<inter> ranges_bytes rs = {}" by simp
    then have "range_free r \<inter> ranges_free rs = {}" "range_used r \<inter> ranges_used rs = {}"
      using range_sets_bytes [of r] ranges_sets_bytes [of rs] by blast+
    moreover have "finite (range_free r)" "finite (range_used r)"
      by (simp_all add: range_free_def range_used_def)
    ultimately show ?case
      using Cons card_range_sets [of r] by (simp add: card_Un_disjoint)
  qed simp
  then show "card (ranges_free rs) = (\<Sum>r \<leftarrow> rs. pr_free_pages r)"
    "card (ranges_used rs) + length rs = (\<Sum>r \<leftarrow> rs. pr_used_pages r)" by simp_all
qed

section \<open>The reserved regions\<close>

definition region_bytes :: "reserved_region \<Rightarrow> nat set" where
  "region_bytes r = {rr_paddr r..<rr_paddr r + rr_size r}"

definition regions_bytes :: "reserved_region list \<Rightarrow> nat set" where
  "regions_bytes rs = \<Union> (region_bytes ` set rs)"

text \<open>A page-aligned, non-empty region that ends below \<open>2 ^ 64\<close>.\<close>

definition region_ok :: "reserved_region \<Rightarrow> bool" where
  "region_ok r \<longleftrightarrow> rr_paddr r mod PAGE_SIZE = 0 \<and> rr_size r mod PAGE_SIZE = 0 \<and> 0 < rr_size r \<and>
     rr_paddr r + rr_size r < 2 ^ 64"

text \<open>The second region starts beyond the end of the first: they neither overlap nor touch.\<close>

definition region_sep :: "reserved_region \<Rightarrow> reserved_region \<Rightarrow> bool" where
  "region_sep a b \<longleftrightarrow> rr_paddr a + rr_size a < rr_paddr b"

lemma regions_bytes_simps [simp]:
  "regions_bytes [] = {}" "regions_bytes (r # rs) = region_bytes r \<union> regions_bytes rs"
  by (simp_all add: regions_bytes_def)

lemma region_end_ok [simp]: "region_ok r \<Longrightarrow> region_end r = rr_paddr r + rr_size r"
  by (simp add: region_end_def region_ok_def u64_add_no_wrap)

definition round_up_page :: "nat \<Rightarrow> nat" where
  "round_up_page b = (if b mod PAGE_SIZE \<noteq> 0 then b + (PAGE_SIZE - b mod PAGE_SIZE) else b)"

lemma round_up_page_bounds:
  "b \<le> round_up_page b" "round_up_page b < b + PAGE_SIZE" "round_up_page b mod PAGE_SIZE = 0"
proof -
  have lt: "b mod PAGE_SIZE < PAGE_SIZE" by (simp add: PAGE_SIZE_def)
  show "b \<le> round_up_page b" by (simp add: round_up_page_def)
  show "round_up_page b < b + PAGE_SIZE" using lt by (auto simp: round_up_page_def)
  show "round_up_page b mod PAGE_SIZE = 0"
  proof (cases "b mod PAGE_SIZE = 0")
    case False
    have "b + (PAGE_SIZE - b mod PAGE_SIZE) = (b div PAGE_SIZE) * PAGE_SIZE + PAGE_SIZE"
      using lt div_mult_mod_eq [of b PAGE_SIZE] by linarith
    then show ?thesis using False by (simp add: round_up_page_def)
  qed (simp add: round_up_page_def)
qed

lemma page_align_region_eq:
  assumes "rr_paddr r + rr_size r + PAGE_SIZE \<le> 2 ^ 64"
  defines "rem \<equiv> rr_paddr r mod PAGE_SIZE"
  shows "page_align_region r = \<lparr>rr_paddr = rr_paddr r - rem, rr_size = round_up_page (rr_size r + rem)\<rparr>"
proof -
  have rem: "rem \<le> rr_paddr r" by (simp add: rem_def)
  then have 1: "u64_add (rr_size r) rem = rr_size r + rem"
    using assms(1) by (intro u64_add_no_wrap) (simp add: PAGE_SIZE_def)
  have "u64_add (rr_size r + rem) (PAGE_SIZE - t) = rr_size r + rem + (PAGE_SIZE - t)" if "0 < t" for t
    using assms(1) rem that by (intro u64_add_no_wrap) (simp add: PAGE_SIZE_def)
  then show ?thesis
    using 1 by (simp add: page_align_region_def Let_def round_up_page_def flip: rem_def)
qed

lemma page_align_region_ok:
  assumes "0 < rr_size r" "rr_paddr r + rr_size r + PAGE_SIZE \<le> 2 ^ 64"
  shows "region_ok (page_align_region r)" "region_bytes r \<subseteq> region_bytes (page_align_region r)"
proof -
  define rem where "rem = rr_paddr r mod PAGE_SIZE"
  have rem: "rem \<le> rr_paddr r" by (simp add: rem_def)
  have al: "(rr_paddr r - rem) mod PAGE_SIZE = 0" by (simp add: rem_def minus_mod_eq_mult_div)
  note eq = page_align_region_eq [OF assms(2), folded rem_def]
  note up = round_up_page_bounds [of "rr_size r + rem"]
  show "region_ok (page_align_region r)"
    unfolding region_ok_def eq using al up assms rem by simp
  show "region_bytes r \<subseteq> region_bytes (page_align_region r)"
    unfolding region_bytes_def eq using up(1) rem by auto
qed

interpretation region_order: strict_weak_order region_less
  by unfold_locales (auto simp: region_less_def split: if_splits)

text \<open>What the combining loop computes, as a function on the list.\<close>

fun merge_regions :: "reserved_region \<Rightarrow> reserved_region list \<Rightarrow> reserved_region list" where
  "merge_regions prev [] = [prev]"
| "merge_regions prev (cur # rest) =
     (if region_end cur < rr_paddr prev \<or> region_end prev < rr_paddr cur then prev # merge_regions cur rest
      else merge_regions
             (prev\<lparr>rr_size := math_max (rr_size prev) (u64_sub (region_end cur) (rr_paddr prev))\<rparr>) rest)"

lemma combine_regions_merge:
  "combine_regions (pre @ prev # rest) (Suc (length pre)) = pre @ merge_regions prev rest"
proof (induction rest arbitrary: pre prev)
  case Nil
  then show ?case by (simp add: combine_regions.simps)
next
  case (Cons cur rest)
  let ?rs = "pre @ prev # cur # rest"
  have nth: "?rs ! length pre = prev" "?rs ! Suc (length pre) = cur" by (simp_all add: nth_append)
  show ?case
  proof (cases "region_end cur < rr_paddr prev \<or> region_end prev < rr_paddr cur")
    case True
    then have "combine_regions ?rs (Suc (length pre)) = combine_regions ?rs (Suc (Suc (length pre)))"
      using nth by (subst combine_regions.simps) simp
    then show ?thesis using True Cons.IH [of "pre @ [prev]" cur] by simp
  next
    case False
    then show ?thesis
      using nth Cons.IH [of pre]
      by (subst combine_regions.simps) (simp add: Let_def list_update_append)
  qed
qed

lemma merge_step:
  assumes "region_ok prev" "region_ok cur" "rr_paddr prev \<le> rr_paddr cur"
    and "\<not> region_sep prev cur"
  defines "prev' \<equiv> prev\<lparr>rr_size := math_max (rr_size prev) (u64_sub (region_end cur) (rr_paddr prev))\<rparr>"
  shows "region_ok prev'" "region_bytes prev' = region_bytes prev \<union> region_bytes cur"
    "rr_paddr prev' = rr_paddr prev"
proof -
  have c: "rr_paddr cur + rr_size cur < 2 ^ 64" using assms(2) by (simp add: region_ok_def)
  have u: "u64_sub (region_end cur) (rr_paddr prev) = rr_paddr cur + rr_size cur - rr_paddr prev"
    using assms(2,3) c by (simp add: u64_sub_no_wrap)
  have "(rr_paddr cur + rr_size cur - rr_paddr prev) mod PAGE_SIZE = 0"
    using assms(1,2,3) by (simp add: region_ok_def mod_eq_0_iff_dvd dvd_diff_nat)
  then show "region_ok prev'"
    unfolding prev'_def u using assms(1-3) c by (auto simp: region_ok_def math_max_def max_def)
  show "region_bytes prev' = region_bytes prev \<union> region_bytes cur"
    unfolding prev'_def u using assms(3,4)
    by (auto simp: region_bytes_def math_max_def max_def region_sep_def)
qed (simp add: prev'_def)

lemma merge_regions_correct:
  assumes "region_ok prev" "list_all region_ok rest"
    and "sorted_wrt (\<lambda>a b. rr_paddr a \<le> rr_paddr b) (prev # rest)"
  shows "list_all region_ok (merge_regions prev rest) \<and>
    regions_bytes (merge_regions prev rest) = region_bytes prev \<union> regions_bytes rest \<and>
    sorted_wrt region_sep (merge_regions prev rest) \<and>
    (\<forall>r \<in> set (merge_regions prev rest). rr_paddr prev \<le> rr_paddr r)"
  using assms
proof (induction rest arbitrary: prev)
  case (Cons cur rest)
  then have ok: "region_ok cur" "list_all region_ok rest" "rr_paddr prev \<le> rr_paddr cur"
      "sorted_wrt (\<lambda>a b. rr_paddr a \<le> rr_paddr b) (cur # rest)" by simp_all
  have cond: "region_end cur < rr_paddr prev \<or> region_end prev < rr_paddr cur \<longleftrightarrow> region_sep prev cur"
    using ok(1,3) Cons.prems(1) by (auto simp: region_sep_def)
  show ?case
  proof (cases "region_sep prev cur")
    case True
    note IH = Cons.IH [OF ok(1,2,4)]
    have "region_sep prev r" if "r \<in> set (merge_regions cur rest)" for r
      using IH that True by (auto simp: region_sep_def)
    then show ?thesis using IH True cond Cons.prems(1) ok(3) by auto
  next
    case False
    let ?p = "prev\<lparr>rr_size := math_max (rr_size prev) (u64_sub (region_end cur) (rr_paddr prev))\<rparr>"
    note m = merge_step [OF Cons.prems(1) ok(1,3) False]
    have "sorted_wrt (\<lambda>a b. rr_paddr a \<le> rr_paddr b) (?p # rest)" using Cons.prems(3) by simp
    from Cons.IH [OF m(1) ok(2) this] show ?thesis using False cond m(2) by auto
  qed
qed (simp add: regions_bytes_def)

lemma get_reserved_regions_Done:
  assumes "\<And>r. r \<in> set (initial_regions kernel_bytes bi) \<Longrightarrow>
      0 < rr_size r \<and> rr_paddr r + rr_size r + PAGE_SIZE \<le> 2 ^ 64"
  shows "\<exists>rs. get_reserved_regions True kernel_bytes bi = Done rs \<and> list_all region_ok rs \<and>
    sorted_wrt region_sep rs \<and> regions_bytes (initial_regions kernel_bytes bi) \<subseteq> regions_bytes rs \<and>
    regions_bytes rs = regions_bytes (map page_align_region (initial_regions kernel_bytes bi))"
proof -
  let ?xs = "map page_align_region (initial_regions kernel_bytes bi)"
  let ?ys = "ban_sort region_less ?xs 0 (length ?xs)"
  have "sorts_range region_less ?xs 0 (length ?xs) ?ys" by (rule region_order.ban_sort_sorts) simp_all
  then have len: "length ?ys = length ?xs" and ms: "mset ?ys = mset ?xs"
    and srt: "\<And>i j. i < j \<Longrightarrow> j < length ?xs \<Longrightarrow> \<not> region_less (?ys ! j) (?ys ! i)"
    unfolding sorts_range_def perm_on_def sorted_on_def by blast+
  have set: "set ?ys = set ?xs" using ms by (metis set_mset_mset)
  have ok: "list_all region_ok ?ys"
    using assms page_align_region_ok(1) set by (auto simp: list_all_iff)
  have "?xs \<noteq> []" by (simp add: initial_regions_def)
  then obtain prev rest where ys: "?ys = prev # rest" using len by (cases ?ys) auto
  have "sorted_wrt (\<lambda>a b. rr_paddr a \<le> rr_paddr b) ?ys"
    unfolding sorted_wrt_iff_nth_less
  proof (intro allI impI)
    fix i j assume "i < j" "j < length ?ys"
    then show "rr_paddr (?ys ! i) \<le> rr_paddr (?ys ! j)"
      using srt [of i j] len by (auto simp: region_less_def split: if_splits)
  qed
  then have m: "list_all region_ok (merge_regions prev rest)"
      "regions_bytes (merge_regions prev rest) = regions_bytes ?ys"
      "sorted_wrt region_sep (merge_regions prev rest)"
    using merge_regions_correct [of prev rest] ok unfolding ys by simp_all
  have "get_reserved_regions True kernel_bytes bi = Done (merge_regions prev rest)"
    using combine_regions_merge [of "[]" prev rest]
    by (simp add: get_reserved_regions_def Let_def ys [simplified])
  moreover have "regions_bytes ?ys = regions_bytes ?xs" using set by (simp add: regions_bytes_def)
  moreover have "regions_bytes (initial_regions kernel_bytes bi) \<subseteq> regions_bytes ?xs"
  proof
    fix b assume "b \<in> regions_bytes (initial_regions kernel_bytes bi)"
    then obtain r where r: "r \<in> set (initial_regions kernel_bytes bi)" "b \<in> region_bytes r"
      by (auto simp: regions_bytes_def)
    then have "b \<in> region_bytes (page_align_region r)" using page_align_region_ok(2) assms [OF r(1)] by blast
    then show "b \<in> regions_bytes ?xs" using r(1) by (auto simp: regions_bytes_def)
  qed
  ultimately show ?thesis using m by auto
qed

section \<open>Appending memory\<close>

lemma ranges_wf_append:
  "ranges_wf (rs @ ss) \<longleftrightarrow> ranges_wf rs \<and> ranges_wf ss \<and> ranges_bytes rs \<inter> ranges_bytes ss = {}"
  by (induction rs) auto

lemma create_range:
  assumes "start mod PAGE_SIZE = 0" "bytes mod PAGE_SIZE = 0" "0 < bytes" "bytes \<le> pr_max_bytes"
    "start + bytes \<le> 2 ^ 64"
  obtains r where "phys_range_create start bytes = Done r" "pr_wf r" "range_used r = {}"
    "range_bytes r = {start..<start + bytes}"
proof -
  obtain r where r: "phys_range_create start bytes = Done r" "pr_wf r" "pr_used r = {0}"
      "pr_paddr r = start" "pr_page_count r = bytes div PAGE_SIZE"
    using phys_range_create_wf [OF assms] by metis
  have "bytes div PAGE_SIZE * PAGE_SIZE = bytes" using assms(2) by (metis add_0_right div_mult_mod_eq)
  then have "range_bytes r = {start..<start + bytes}"
    using r(4,5) by (simp add: range_bytes_def pr_start_def pr_end_def)
  moreover have "range_used r = {}" using r(3) by (simp add: range_used_def)
  ultimately show ?thesis using that r(1,2) by blast
qed

lemma less_two_pages:
  assumes "bytes mod PAGE_SIZE = 0" "\<not> 2 * PAGE_SIZE \<le> bytes"
  shows "bytes - PAGE_SIZE = 0"
proof -
  have "bytes div PAGE_SIZE * PAGE_SIZE = bytes" using assms(1) by (metis add_0_right div_mult_mod_eq)
  moreover have "bytes div PAGE_SIZE < 2" using assms(2) by (simp add: PAGE_SIZE_def)
  ultimately show ?thesis by (cases "bytes div PAGE_SIZE") (auto simp: PAGE_SIZE_def)
qed

text \<open>
  The new ranges lie in the given region, nothing of them is handed out, and they cover the
  region except possibly its last page (a single left-over page would be its own bitmap).
\<close>

lemma append_region_nolock_Done:
  assumes grow: "\<forall>n. grow n"
    and "start mod PAGE_SIZE = 0" "bytes mod PAGE_SIZE = 0" "start + bytes < 2 ^ 64"
  shows "\<exists>new. append_region_nolock grow rs start bytes = Done (rs @ new) \<and> ranges_wf new \<and>
    ranges_used new = {} \<and> ranges_bytes new \<subseteq> {start..<start + bytes} \<and>
    {start..<start + (bytes - PAGE_SIZE)} \<subseteq> ranges_bytes new"
  using assms(2-)
proof (induction bytes arbitrary: rs start rule: less_induct)
  case (less bytes)
  show ?case
  proof (cases "2 * PAGE_SIZE \<le> bytes")
    case False
    then show ?thesis using less_two_pages [OF less.prems(2)] by (simp add: append_region_nolock.simps)
  next
    case True
    define rb where "rb = min bytes pr_max_bytes"
    have max: "0 < pr_max_bytes" "pr_max_bytes mod PAGE_SIZE = 0" "0 < PAGE_SIZE"
      by (simp_all add: pr_max_bytes_def PAGE_SIZE_def)
    have rb: "0 < rb" "rb \<le> bytes" "rb \<le> pr_max_bytes" "rb mod PAGE_SIZE = 0"
      using True max less.prems(2) by (auto simp: rb_def min_def)
    have fits: "start + rb \<le> 2 ^ 64" using rb(2) less.prems(3) by linarith
    obtain r where r: "phys_range_create start rb = Done r" "pr_wf r" "range_used r = {}"
        "range_bytes r = {start..<start + rb}"
      using create_range [OF less.prems(1) rb(4,1,3) fits] by metis
    have nowrap: "u64_add start rb = start + rb" using rb(2) less.prems(3) by (intro u64_add_no_wrap) linarith
    have nx: "(start + rb) mod PAGE_SIZE = 0" "(bytes - rb) mod PAGE_SIZE = 0" "bytes - rb < bytes"
        "start + rb + (bytes - rb) < 2 ^ 64"
      using less.prems rb by (auto simp: mod_eq_0_iff_dvd dvd_diff_nat)
    obtain new where new: "append_region_nolock grow (rs @ [r]) (start + rb) (bytes - rb) = Done ((rs @ [r]) @ new)"
        "ranges_wf new" "ranges_used new = {}" "ranges_bytes new \<subseteq> {start + rb..<start + rb + (bytes - rb)}"
        "{start + rb..<start + rb + (bytes - rb - PAGE_SIZE)} \<subseteq> ranges_bytes new"
      using less.IH [OF nx(3,1,2,4), of "rs @ [r]"] by (elim exE conjE)
    have "append_region_nolock grow rs start bytes = Done (rs @ r # new)"
      using True grow r(1) nowrap new(1) by (simp add: append_region_nolock.simps [of grow rs] rb_def)
    moreover have "ranges_wf (r # new)" using r(2) new(2,4) r(4) by auto
    moreover have "ranges_bytes (r # new) \<subseteq> {start..<start + bytes}" using new(4) r(4) rb(2) by auto
    moreover have "{start..<start + (bytes - PAGE_SIZE)} \<subseteq> ranges_bytes (r # new)"
    proof
      fix b assume "b \<in> {start..<start + (bytes - PAGE_SIZE)}"
      then show "b \<in> ranges_bytes (r # new)" using new(5) r(4) by (cases "b < start + rb") auto
    qed
    moreover have "ranges_used (r # new) = {}" using new(3) r(3) by simp
    ultimately show ?thesis by blast
  qed
qed

text \<open>
  \<open>filled S new\<close>: the ranges are well-formed, nothing is handed out, they stay inside \<open>S\<close>, and every
  byte of \<open>S\<close> that is followed by another page of \<open>S\<close> is in one of them.
\<close>

definition filled :: "nat set \<Rightarrow> phys_range list \<Rightarrow> bool" where
  "filled S new \<longleftrightarrow> ranges_wf new \<and> ranges_used new = {} \<and> ranges_bytes new \<subseteq> S \<and>
     (\<forall>b. {b..<b + PAGE_SIZE + 1} \<subseteq> S \<longrightarrow> b \<in> ranges_bytes new)"

lemma filled_nil: "S = {} \<Longrightarrow> filled S []"
  by (auto simp: filled_def)

lemma append_region_filled:
  assumes "\<forall>n. grow n" "s mod PAGE_SIZE = 0" "e mod PAGE_SIZE = 0" "s \<le> e" "e < 2 ^ 64"
  shows "\<exists>new. append_region_nolock grow rs s (u64_sub e s) = Done (rs @ new) \<and> filled {s..<e} new"
proof -
  have b: "(e - s) mod PAGE_SIZE = 0" "s + (e - s) < 2 ^ 64" "u64_sub e s = e - s" "s + (e - s) = e"
    using assms(2-5) by (simp_all add: mod_eq_0_iff_dvd dvd_diff_nat u64_sub_no_wrap)
  obtain new where new: "append_region_nolock grow rs s (e - s) = Done (rs @ new)" "ranges_wf new"
      "ranges_used new = {}" "ranges_bytes new \<subseteq> {s..<e}"
      "{s..<s + (e - s - PAGE_SIZE)} \<subseteq> ranges_bytes new"
    using append_region_nolock_Done [OF assms(1,2) b(1,2), of rs] unfolding b(4) by blast
  have "b \<in> ranges_bytes new" if "{b..<b + PAGE_SIZE + 1} \<subseteq> {s..<e}" for b
  proof -
    have "b \<in> {s..<e}" "b + PAGE_SIZE \<in> {s..<e}" using that by auto
    then show ?thesis using new(5) by auto
  qed
  then show ?thesis using new b(3) by (auto simp: filled_def)
qed

text \<open>Filling two parts of a set that a page-sized gap cannot bridge.\<close>

lemma filled_append:
  assumes "filled A xs" "filled B ys" "A \<inter> B = {}" "A \<union> B = S"
    and "\<And>b. {b..<b + PAGE_SIZE + 1} \<subseteq> S \<Longrightarrow> {b..<b + PAGE_SIZE + 1} \<subseteq> A \<or> {b..<b + PAGE_SIZE + 1} \<subseteq> B"
  shows "filled S (xs @ ys)"
proof -
  have "ranges_wf (xs @ ys)" using assms(1-3) unfolding filled_def ranges_wf_append by blast
  moreover have "b \<in> ranges_bytes (xs @ ys)" if "{b..<b + PAGE_SIZE + 1} \<subseteq> S" for b
    using assms(5) [OF that] assms(1,2) unfolding filled_def by auto
  ultimately show ?thesis using assms(1,2,4) unfolding filled_def by auto
qed

lemma gap_split:
  fixes s e a z :: nat
  assumes "a < z" "s \<le> z" "a \<le> e" "s \<le> e" "\<And>b. b \<in> R \<Longrightarrow> z < b"
  defines "m \<equiv> max s a" and "s' \<equiv> max s (min e z)"
  shows "{s..<m} \<inter> ({s'..<e} - R) = {}"
    "{s..<m} \<union> ({s'..<e} - R) = {s..<e} - ({a..<z} \<union> R)"
    "{b..<b + n + 1} \<subseteq> {s..<e} - ({a..<z} \<union> R) \<Longrightarrow>
       {b..<b + n + 1} \<subseteq> {s..<m} \<or> {b..<b + n + 1} \<subseteq> {s'..<e} - R"
proof -
  show "{s..<m} \<inter> ({s'..<e} - R) = {}"
    using assms(1-4) by (auto simp: m_def s'_def)
  show un: "{s..<m} \<union> ({s'..<e} - R) = {s..<e} - ({a..<z} \<union> R)"
  proof (intro set_eqI)
    fix x
    have "x \<in> R \<Longrightarrow> z < x" using assms(5) .
    then show "x \<in> {s..<m} \<union> ({s'..<e} - R) \<longleftrightarrow> x \<in> {s..<e} - ({a..<z} \<union> R)"
      using assms(1-4) by (cases "x \<in> R") (auto simp: m_def s'_def)
  qed
  show "{b..<b + n + 1} \<subseteq> {s..<m} \<or> {b..<b + n + 1} \<subseteq> {s'..<e} - R"
    if sub: "{b..<b + n + 1} \<subseteq> {s..<e} - ({a..<z} \<union> R)"
  proof (cases "b < m")
    case True
    have bs: "s \<le> b" using subsetD [OF sub, of b] by auto
    have "b + n < m"
    proof (rule ccontr)
      assume "\<not> b + n < m"
      then have "m \<in> {s..<e} - ({a..<z} \<union> R)" using True sub by (intro subsetD [OF sub]) auto
      then show False using True bs assms(1) by (auto simp: m_def max_def split: if_splits)
    qed
    then show ?thesis using bs by auto
  next
    case False
    then have "{b..<b + n + 1} \<inter> {s..<m} = {}" by auto
    then show ?thesis using sub un by blast
  qed
qed

lemma append_around_reserved_filled:
  assumes grow: "\<forall>n. grow n" and regs: "list_all region_ok regs" "sorted_wrt region_sep regs"
    and "s mod PAGE_SIZE = 0" "e mod PAGE_SIZE = 0" "s \<le> e" "e < 2 ^ 64"
  shows "\<exists>new. append_around_reserved grow rs regs s e = Done (rs @ new) \<and>
    filled ({s..<e} - regions_bytes regs) new"
  using assms(2-)
proof (induction regs arbitrary: rs s)
  case Nil
  then show ?case using append_region_filled [OF grow] by simp
next
  case (Cons reg regs)
  let ?S = "{s..<e} - regions_bytes (reg # regs)"
  define rs0 re where "rs0 = rr_paddr reg" and "re = rr_paddr reg + rr_size reg"
  have ok: "region_ok reg" "list_all region_ok regs" "sorted_wrt region_sep regs" using Cons.prems by simp_all
  have reg: "region_bytes reg = {rs0..<re}" "rs0 < re" "region_end reg = re" "rs0 mod PAGE_SIZE = 0"
      "re mod PAGE_SIZE = 0"
    using ok(1) by (auto simp: rs0_def re_def region_bytes_def region_ok_def)
  have later: "re < b" if "b \<in> regions_bytes regs" for b
    using that Cons.prems(2) by (fastforce simp: regions_bytes_def region_bytes_def region_sep_def re_def)
  consider "re < s" | "s \<le> re" "e < rs0" | "s \<le> re" "rs0 \<le> e" by linarith
  then show ?case
  proof cases
    case 1
    then have "{s..<e} - regions_bytes regs = ?S" using reg(1) by auto
    then show ?thesis using 1 Cons.IH [OF ok(2,3) Cons.prems(3-6)] reg(3) by (simp add: Let_def)
  next
    case 2
    have "{s..<e} \<inter> regions_bytes regs = {}" using later reg(2) 2(2) by fastforce
    then have "{s..<e} = ?S" using 2 reg(1) by auto
    then show ?thesis
      using 2 append_region_filled [OF grow Cons.prems(3-6), where rs = rs] reg(3) by (simp add: Let_def rs0_def)
  next
    case 3
    define m s' where "m = max s rs0" and "s' = max s (min e re)"
    have m: "m mod PAGE_SIZE = 0" "s \<le> m" "m \<le> e" "m < 2 ^ 64"
      using reg(4) Cons.prems(3,5,6) 3(2) by (auto simp: m_def max_def)
    have s': "s' mod PAGE_SIZE = 0" "s' \<le> e" "m \<le> s'"
      using reg(2,5) Cons.prems(3-5) 3 by (auto simp: s'_def m_def max_def min_def)
    obtain n1 where n1: "append_region_nolock grow rs s (u64_sub m s) = Done (rs @ n1)" "filled {s..<m} n1"
      using append_region_filled [OF grow Cons.prems(3) m(1,2,4), where rs = rs] by blast
    obtain n2 where n2: "append_around_reserved grow (rs @ n1) regs s' e = Done ((rs @ n1) @ n2)"
        "filled ({s'..<e} - regions_bytes regs) n2"
      using Cons.IH [OF ok(2,3) s'(1) Cons.prems(4) s'(2) Cons.prems(6), of "rs @ n1"] by blast
    note split = gap_split [OF reg(2) 3 Cons.prems(5) later, folded m_def s'_def]
    have "?S = {s..<e} - ({rs0..<re} \<union> regions_bytes regs)" using reg(1) by simp
    then have "filled ?S (n1 @ n2)"
      using filled_append [OF n1(2) n2(2) split(1,2) split(3)] by simp
    then show ?thesis
      using 3 n1(1) n2(1) reg(3) by (auto simp: Let_def rs0_def m_def s'_def)
  qed
qed

section \<open>Initialisation\<close>

definition entry_bytes :: "memory_map_entry \<Rightarrow> nat set" where
  "entry_bytes en = {mm_address en..<mm_address en + mm_length en}"

definition available_bytes :: "memory_map_entry list \<Rightarrow> nat set" where
  "available_bytes entries = (\<Union>en \<in> {en \<in> set entries. mm_type en = Available}. entry_bytes en)"

definition entry_ok :: "memory_map_entry \<Rightarrow> bool" where
  "entry_ok en \<longleftrightarrow> mm_address en mod PAGE_SIZE = 0 \<and> mm_address en + mm_length en < 2 ^ 64"

text \<open>A memory map whose available entries start on page boundaries and do not overlap.\<close>

definition memory_map_ok :: "memory_map_entry list \<Rightarrow> bool" where
  "memory_map_ok entries \<longleftrightarrow>
     list_all entry_ok (filter (\<lambda>en. mm_type en = Available) entries) \<and>
     sorted_wrt (\<lambda>a b. entry_bytes a \<inter> entry_bytes b = {}) (filter (\<lambda>en. mm_type en = Available) entries)"

text \<open>Two consecutive whole pages of \<open>S\<close>: the first of them is in the ranges.\<close>

definition covers_pages :: "phys_range list \<Rightarrow> nat set \<Rightarrow> bool" where
  "covers_pages rs S \<longleftrightarrow>
     (\<forall>p. p mod PAGE_SIZE = 0 \<longrightarrow> {p..<p + 2 * PAGE_SIZE} \<subseteq> S \<longrightarrow> {p..<p + PAGE_SIZE} \<subseteq> ranges_bytes rs)"

lemma aligned_le_round_down:
  assumes "a mod PAGE_SIZE = 0" "a \<le> x"
  shows "a \<le> x - x mod PAGE_SIZE"
proof -
  have "a div PAGE_SIZE * PAGE_SIZE \<le> x div PAGE_SIZE * PAGE_SIZE"
    using assms(2) by (simp add: div_le_mono)
  moreover have "a div PAGE_SIZE * PAGE_SIZE = a" using assms(1) by (metis add_0_right div_mult_mod_eq)
  ultimately show ?thesis by (metis minus_mod_eq_div_mult)
qed

lemma entry_bounds:
  assumes "entry_ok en"
  shows "entry_start en = mm_address en" "entry_start en mod PAGE_SIZE = 0" "entry_end en mod PAGE_SIZE = 0"
    "entry_start en \<le> entry_end en" "entry_end en < 2 ^ 64" "{entry_start en..<entry_end en} \<subseteq> entry_bytes en"
    "p mod PAGE_SIZE = 0 \<Longrightarrow> p \<le> mm_address en + mm_length en \<Longrightarrow> p \<le> entry_end en"
proof -
  let ?x = "mm_address en + mm_length en"
  have al: "mm_address en mod PAGE_SIZE = 0" and x: "?x < 2 ^ 64" using assms by (auto simp: entry_ok_def)
  have e: "entry_end en = ?x - ?x mod PAGE_SIZE"
    using u64_add_no_wrap [OF x] by (simp add: entry_end_def Let_def)
  show s: "entry_start en = mm_address en" using al by (simp add: entry_start_def)
  then show "entry_start en mod PAGE_SIZE = 0" using al by simp
  show "entry_end en mod PAGE_SIZE = 0" unfolding e by (simp add: minus_mod_eq_mult_div)
  show "entry_start en \<le> entry_end en" unfolding s e using aligned_le_round_down [OF al] by simp
  show "entry_end en < 2 ^ 64" unfolding e using x by linarith
  show "{entry_start en..<entry_end en} \<subseteq> entry_bytes en" unfolding s e entry_bytes_def by auto
  show "p \<le> entry_end en" if "p mod PAGE_SIZE = 0" "p \<le> ?x"
    unfolding e using that by (rule aligned_le_round_down)
qed

lemma filled_covers_pages:
  assumes "entry_ok en" "filled ({entry_start en..<entry_end en} - R) new"
  shows "covers_pages new (entry_bytes en - R)"
  unfolding covers_pages_def
proof (intro allI impI subsetI)
  fix p b assume p: "p mod PAGE_SIZE = 0" "{p..<p + 2 * PAGE_SIZE} \<subseteq> entry_bytes en - R"
    and b: "b \<in> {p..<p + PAGE_SIZE}"
  have "p + 2 * PAGE_SIZE - 1 \<in> entry_bytes en" "p \<in> entry_bytes en"
    using subsetD [OF p(2), of p] subsetD [OF p(2), of "p + 2 * PAGE_SIZE - 1"] b by auto
  then have "p + 2 * PAGE_SIZE \<le> mm_address en + mm_length en" "mm_address en \<le> p"
    by (auto simp: entry_bytes_def)
  then have "p + 2 * PAGE_SIZE \<le> entry_end en" "entry_start en \<le> p"
    using entry_bounds(1,7) [OF assms(1)] p(1) by simp_all
  then have "{p..<p + 2 * PAGE_SIZE} \<subseteq> {entry_start en..<entry_end en} - R" using p(2) by auto
  moreover have "{b..<b + PAGE_SIZE + 1} \<subseteq> {p..<p + 2 * PAGE_SIZE}" using b by auto
  ultimately show "b \<in> ranges_bytes new" using assms(2) unfolding filled_def by blast
qed

lemma filled_covers_below:
  assumes "filled ({0..<e} - R) new" "\<And>p. p mod PAGE_SIZE = 0 \<Longrightarrow> p \<le> a \<Longrightarrow> p \<le> e"
  shows "covers_pages new ({..<a} - R)"
  unfolding covers_pages_def
proof (intro allI impI subsetI)
  fix p b assume p: "p mod PAGE_SIZE = 0" "{p..<p + 2 * PAGE_SIZE} \<subseteq> {..<a} - R" and b: "b \<in> {p..<p + PAGE_SIZE}"
  have "p + 2 * PAGE_SIZE - 1 < a" using subsetD [OF p(2), of "p + 2 * PAGE_SIZE - 1"] b by auto
  then have "p + 2 * PAGE_SIZE \<le> e" using p(1) by (intro assms(2)) auto
  then have "{p..<p + 2 * PAGE_SIZE} \<subseteq> {0..<e} - R" using p(2) by auto
  moreover have "{b..<b + PAGE_SIZE + 1} \<subseteq> {p..<p + 2 * PAGE_SIZE}" using b by auto
  ultimately have "{b..<b + PAGE_SIZE + 1} \<subseteq> {0..<e} - R" by (rule order_trans [rotated])
  then show "b \<in> ranges_bytes new" using assms(1) unfolding filled_def by blast
qed

lemma covers_pages_mono: "covers_pages xs S \<Longrightarrow> ranges_bytes xs \<subseteq> ranges_bytes ys \<Longrightarrow> covers_pages ys S"
  unfolding covers_pages_def by (meson order_trans)

lemma append_entries_Done:
  assumes grow: "\<forall>n. grow n" and regs: "list_all region_ok regs" "sorted_wrt region_sep regs"
    and "memory_map_ok entries"
  shows "\<exists>new. append_entries grow regs entries rs = Done (rs @ new) \<and> ranges_wf new \<and>
    ranges_used new = {} \<and> ranges_bytes new \<subseteq> available_bytes entries - regions_bytes regs \<and>
    (\<forall>en \<in> set entries. mm_type en = Available \<longrightarrow> covers_pages new (entry_bytes en - regions_bytes regs))"
  using assms(4)
proof (induction entries arbitrary: rs)
  case (Cons en entries)
  have mm: "memory_map_ok entries" using Cons.prems by (auto simp: memory_map_ok_def split: if_splits)
  show ?case
  proof (cases "mm_type en = Available")
    case False
    then have "available_bytes (en # entries) = available_bytes entries" by (auto simp: available_bytes_def)
    then show ?thesis using False Cons.IH [OF mm, of rs] by simp
  next
    case True
    then have ok: "entry_ok en" and disj: "entry_bytes en \<inter> available_bytes entries = {}"
      using Cons.prems by (auto simp: memory_map_ok_def available_bytes_def)
    note b = entry_bounds [OF ok]
    obtain n1 where n1: "append_around_reserved grow rs regs (entry_start en) (entry_end en) = Done (rs @ n1)"
        "filled ({entry_start en..<entry_end en} - regions_bytes regs) n1"
      using append_around_reserved_filled [OF grow regs b(2-5)] by blast
    obtain n2 where n2: "append_entries grow regs entries (rs @ n1) = Done ((rs @ n1) @ n2)" "ranges_wf n2"
        "ranges_used n2 = {}" "ranges_bytes n2 \<subseteq> available_bytes entries - regions_bytes regs"
        "\<forall>en \<in> set entries. mm_type en = Available \<longrightarrow> covers_pages n2 (entry_bytes en - regions_bytes regs)"
      using Cons.IH [OF mm, of "rs @ n1"] by blast
    have f: "ranges_wf n1" "ranges_used n1 = {}" "ranges_bytes n1 \<subseteq> entry_bytes en - regions_bytes regs"
      using n1(2) b(6) unfolding filled_def by blast+
    have avail: "available_bytes (en # entries) = entry_bytes en \<union> available_bytes entries"
      using True by (auto simp: available_bytes_def)
    have "ranges_wf (n1 @ n2)" using f(1,3) n2(2,4) disj unfolding ranges_wf_append by blast
    moreover have "ranges_bytes (n1 @ n2) \<subseteq> available_bytes (en # entries) - regions_bytes regs"
      unfolding avail using f(3) n2(4) by auto
    moreover have "covers_pages (n1 @ n2) (entry_bytes en' - regions_bytes regs)"
      if "en' \<in> set (en # entries)" "mm_type en' = Available" for en'
      using that filled_covers_pages [OF ok n1(2)] n2(5) covers_pages_mono [of n1] covers_pages_mono [of n2]
      by (metis Un_upper1 Un_upper2 ranges_sets_simps(7) set_ConsD)
    moreover have "append_entries grow regs (en # entries) rs = Done (rs @ n1 @ n2)"
      using True n1(1) n2(1) by simp
    ultimately show ?thesis using f(2) n2(3) by auto
  qed
qed (simp add: available_bytes_def)

definition boot_info_ok :: "nat \<Rightarrow> boot_info \<Rightarrow> bool" where
  "boot_info_ok kernel_bytes bi \<longleftrightarrow>
     bi_memory_map_entries bi \<noteq> [] \<and> memory_map_ok (bi_memory_map_entries bi) \<and>
     list_all (\<lambda>r. 0 < rr_size r \<and> rr_paddr r + rr_size r + PAGE_SIZE \<le> 2 ^ 64) (initial_regions kernel_bytes bi)"

section \<open>Properties\<close>

text \<open>
  C17: \<open>Heap::initialize_impl\<close> builds a sound allocator from the memory map, provided the available
  entries are page aligned, do not overlap and end below \<open>2 ^ 64\<close>, and the vector can grow: no
  assertion fails; every range satisfies its invariant and no two share a byte; nothing is
  handed out; every byte of every range is available memory, and none belongs to the first
  megabyte, the kernel image or a boot module; and every page of an available entry that is
  followed by another usable page of the entry ends up in a range.
\<close>

theorem heap_initialize_impl_correct:
  assumes grow: "\<forall>n. grow n" and bi: "boot_info_ok kernel_bytes bi"
  shows "\<exists>h. heap_initialize_impl grow True kernel_bytes bi \<lparr>m_physical_ranges = []\<rparr> = Done h \<and>
    heap_wf h \<and> heap_used h = {} \<and>
    ranges_bytes (m_physical_ranges h) \<subseteq> available_bytes (bi_memory_map_entries bi) \<and>
    ranges_bytes (m_physical_ranges h) \<inter> regions_bytes (initial_regions kernel_bytes bi) = {} \<and>
    (\<forall>en \<in> set (bi_memory_map_entries bi). mm_type en = Available \<longrightarrow>
       covers_pages (m_physical_ranges h)
         (entry_bytes en - regions_bytes (map page_align_region (initial_regions kernel_bytes bi))))"
proof -
  have mm: "memory_map_ok (bi_memory_map_entries bi)" "bi_memory_map_entries bi \<noteq> []"
    using bi by (auto simp: boot_info_ok_def)
  have "0 < rr_size r \<and> rr_paddr r + rr_size r + PAGE_SIZE \<le> 2 ^ 64"
    if "r \<in> set (initial_regions kernel_bytes bi)" for r
    using bi that unfolding boot_info_ok_def list_all_iff by blast
  then obtain regs where regs: "get_reserved_regions True kernel_bytes bi = Done regs" "list_all region_ok regs"
      "sorted_wrt region_sep regs" "regions_bytes (initial_regions kernel_bytes bi) \<subseteq> regions_bytes regs"
      "regions_bytes regs = regions_bytes (map page_align_region (initial_regions kernel_bytes bi))"
    using get_reserved_regions_Done [of kernel_bytes bi] by blast
  obtain new where new: "append_entries grow regs (bi_memory_map_entries bi) [] = Done ([] @ new)"
      "ranges_wf new" "ranges_used new = {}"
      "ranges_bytes new \<subseteq> available_bytes (bi_memory_map_entries bi) - regions_bytes regs"
      "\<forall>en \<in> set (bi_memory_map_entries bi). mm_type en = Available \<longrightarrow>
         covers_pages new (entry_bytes en - regions_bytes regs)"
    using append_entries_Done [OF grow regs(2,3) mm(1), of "[]"] by blast
  have "heap_initialize_impl grow True kernel_bytes bi \<lparr>m_physical_ranges = []\<rparr> = Done \<lparr>m_physical_ranges = new\<rparr>"
    using mm(2) regs(1) new(1) by (simp add: heap_initialize_impl_def)
  then show ?thesis
    using new(2-5) regs(4,5) by (intro exI [of _ "\<lparr>m_physical_ranges = new\<rparr>"]) (auto simp: heap_wf_def heap_used_def)
qed

definition example_boot_info :: boot_info where
  "example_boot_info =
     \<lparr>bi_kernel_paddr = 0x100000, bi_modules = [\<lparr>bm_start = 0x180000, bm_size = 0x1234\<rparr>],
      bi_memory_map_entries =
        [\<lparr>mm_address = 0, mm_length = 0x9fc00, mm_type = Available\<rparr>,
         \<lparr>mm_address = 0xf0000, mm_length = 0x10000, mm_type = Reserved\<rparr>,
         \<lparr>mm_address = 0x100000, mm_length = 0x700000, mm_type = Available\<rparr>]\<rparr>"

theorem heap_initialize_impl_correct_witness:
  "\<exists>h. heap_initialize_impl (\<lambda>_. True) True 0x40000 example_boot_info \<lparr>m_physical_ranges = []\<rparr> = Done h \<and>
     heap_wf h \<and> ranges_bytes (m_physical_ranges h) \<inter> {0x180000..<0x181234} = {}"
proof -
  have "boot_info_ok 0x40000 example_boot_info"
    by (simp add: boot_info_ok_def example_boot_info_def memory_map_ok_def entry_ok_def entry_bytes_def
        initial_regions_def PAGE_SIZE_def)
  moreover have "{0x180000..<0x181234} \<subseteq> regions_bytes (initial_regions 0x40000 example_boot_info)"
    by (auto simp: example_boot_info_def initial_regions_def region_bytes_def)
  ultimately show ?thesis
    using heap_initialize_impl_correct [of "\<lambda>_. True" "0x40000" example_boot_info] by blast
qed

lemma append_entries_available:
  "append_entries grow regs entries rs = append_entries grow regs (filter (\<lambda>en. mm_type en = Available) entries) rs"
proof (induction entries arbitrary: rs)
  case (Cons en entries)
  have "append_entries grow regs entries = append_entries grow regs (filter (\<lambda>en. mm_type en = Available) entries)"
    by (rule ext) (rule Cons.IH)
  then show ?case by simp
qed simp

lemma zero_in_first_region:
  assumes "list_all region_ok regs" "sorted_wrt region_sep regs" "0 \<in> regions_bytes regs"
  obtains reg rest where "regs = reg # rest" "rr_paddr reg = 0" "PAGE_SIZE \<le> rr_size reg"
proof -
  obtain reg rest where regs: "regs = reg # rest" using assms(3) by (cases regs) auto
  have "0 \<notin> regions_bytes rest"
    using assms(2) regs by (auto simp: regions_bytes_def region_bytes_def region_sep_def)
  then have "rr_paddr reg = 0" using assms(3) regs by (simp add: region_bytes_def)
  moreover have "PAGE_SIZE \<le> rr_size reg"
    using assms(1) regs by (auto simp: region_ok_def intro: dvd_imp_le simp flip: dvd_eq_mod_eq_0)
  ultimately show ?thesis using that regs by blast
qed

text \<open>From an entry start inside the first page, which the first region reserves, memory is appended up to the end of the entry.\<close>

lemma append_around_reserved_low_start:
  assumes grow: "\<forall>n. grow n" and regs: "list_all region_ok regs" "sorted_wrt region_sep regs" "0 \<in> regions_bytes regs"
    and s: "s < PAGE_SIZE" and e: "PAGE_SIZE \<le> e" "e mod PAGE_SIZE = 0" "e < 2 ^ 64"
  shows "\<exists>new. append_around_reserved grow rs regs s e = Done (rs @ new) \<and> filled ({0..<e} - regions_bytes regs) new"
proof -
  obtain reg rest where reg: "regs = reg # rest" "rr_paddr reg = 0" "PAGE_SIZE \<le> rr_size reg"
    using zero_in_first_region [OF regs] by blast
  define m where "m = min e (rr_size reg)"
  have ok: "region_ok reg" "list_all region_ok rest" "sorted_wrt region_sep rest" using regs reg(1) by auto
  have m: "m mod PAGE_SIZE = 0" "m \<le> e" "math_max s (math_min e (region_end reg)) = m"
    using ok(1) reg(2,3) s e by (auto simp: m_def region_ok_def math_max_def math_min_def min_def)
  obtain new where new: "append_around_reserved grow rs rest m e = Done (rs @ new)" "filled ({m..<e} - regions_bytes rest) new"
    using append_around_reserved_filled [OF grow ok(2,3) m(1) e(2) m(2) e(3)] by blast
  have "append_region_nolock grow rs s (u64_sub (math_max s 0) s) = Done rs"
    using s by (simp add: append_region_nolock.simps u64_sub_def PAGE_SIZE_def math_max_def)
  then have "append_around_reserved grow rs regs s e = Done (rs @ new)"
    using new(1) m(3) reg ok(1) s by (simp add: Let_def)
  moreover have "{0..<e} - regions_bytes regs = {m..<e} - regions_bytes rest"
    using reg(1,2) by (auto simp: m_def region_bytes_def)
  ultimately show ?thesis using new(2) by metis
qed

text \<open>
  C32: The alignment of the memory map is needed: the start of an available entry that is not on a page boundary is not rounded up
  but replaced by its distance to the next boundary. For every memory map with one available entry, which starts off a page
  boundary (and not in the first page), initialisation succeeds and hands the heap all the memory below that entry that is not
  reserved: every page there that is followed by another one, although no entry makes any of it available.
\<close>

theorem heap_initialize_impl_unaligned_entry:
  assumes grow: "\<forall>n. grow n"
    and regions: "list_all (\<lambda>r. 0 < rr_size r \<and> rr_paddr r + rr_size r + PAGE_SIZE \<le> 2 ^ 64) (initial_regions kernel_bytes bi)"
    and one: "filter (\<lambda>en. mm_type en = Available) (bi_memory_map_entries bi) = [en]"
    and en: "mm_address en mod PAGE_SIZE \<noteq> 0" "PAGE_SIZE \<le> mm_address en" "mm_address en + mm_length en < 2 ^ 64"
  shows "\<exists>h. heap_initialize_impl grow True kernel_bytes bi \<lparr>m_physical_ranges = []\<rparr> = Done h \<and>
    covers_pages (m_physical_ranges h)
      ({..<mm_address en} - regions_bytes (map page_align_region (initial_regions kernel_bytes bi))) \<and>
    {..<mm_address en} \<inter> available_bytes (bi_memory_map_entries bi) = {}"
proof -
  let ?R = "regions_bytes (map page_align_region (initial_regions kernel_bytes bi))"
  obtain regs where regs: "get_reserved_regions True kernel_bytes bi = Done regs" "list_all region_ok regs"
      "sorted_wrt region_sep regs" "regions_bytes (initial_regions kernel_bytes bi) \<subseteq> regions_bytes regs" "regions_bytes regs = ?R"
    using get_reserved_regions_Done [of kernel_bytes bi] regions by (auto simp: list_all_iff)
  have "0 \<in> regions_bytes (initial_regions kernel_bytes bi)" by (simp add: initial_regions_def region_bytes_def)
  then have zero: "0 \<in> regions_bytes regs" using regs(4) by blast
  have s: "entry_start en < PAGE_SIZE" using en(1) by (auto simp: entry_start_def Let_def PAGE_SIZE_def)
  have e_eq: "entry_end en = mm_address en + mm_length en - (mm_address en + mm_length en) mod PAGE_SIZE"
    using u64_add_no_wrap [OF en(3)] by (simp add: entry_end_def Let_def)
  have below: "p \<le> entry_end en" if "p mod PAGE_SIZE = 0" "p \<le> mm_address en" for p
    unfolding e_eq using that by (intro aligned_le_round_down) auto
  have e: "PAGE_SIZE \<le> entry_end en" "entry_end en mod PAGE_SIZE = 0" "entry_end en < 2 ^ 64"
    using below en(2,3) by (simp, simp add: e_eq minus_mod_eq_mult_div, unfold e_eq, linarith)
  obtain new where new: "append_around_reserved grow [] regs (entry_start en) (entry_end en) = Done new" "filled ({0..<entry_end en} - ?R) new"
    using append_around_reserved_low_start [OF grow regs(2,3) zero s e, of "[]"] regs(5) by auto
  have "bi_memory_map_entries bi \<noteq> []" "mm_type en = Available" using one by (auto dest: filter_eq_ConsD)
  then have "heap_initialize_impl grow True kernel_bytes bi \<lparr>m_physical_ranges = []\<rparr> = Done \<lparr>m_physical_ranges = new\<rparr>"
    using regs(1) new(1) one by (simp add: heap_initialize_impl_def append_entries_available [of _ _ "bi_memory_map_entries bi"])
  moreover have "covers_pages new ({..<mm_address en} - ?R)" by (rule filled_covers_below [OF new(2) below])
  moreover have "set (filter (\<lambda>en. mm_type en = Available) (bi_memory_map_entries bi)) = {en}" using one by simp
  then have "available_bytes (bi_memory_map_entries bi) = entry_bytes en" by (auto simp: available_bytes_def)
  then have "{..<mm_address en} \<inter> available_bytes (bi_memory_map_entries bi) = {}" by (auto simp: entry_bytes_def)
  ultimately show ?thesis by (intro exI [of _ "\<lparr>m_physical_ranges = new\<rparr>"]) simp
qed

theorem heap_initialize_impl_unaligned_entry_witness:
  "let bi = \<lparr>bi_kernel_paddr = 0x100000, bi_modules = [], bi_memory_map_entries =
       [\<lparr>mm_address = 0, mm_length = 0x9fc00, mm_type = Reserved\<rparr>, \<lparr>mm_address = 0x200800, mm_length = 0x3800, mm_type = Available\<rparr>]\<rparr>
   in \<exists>h. heap_initialize_impl (\<lambda>_. True) True 0x1000 bi \<lparr>m_physical_ranges = []\<rparr> = Done h \<and>
        {0x101000..<0x102000} \<subseteq> ranges_bytes (m_physical_ranges h) \<and>
        {0x101000..<0x102000} \<inter> available_bytes (bi_memory_map_entries bi) = {}"
proof -
  let ?en = "\<lparr>mm_address = 0x200800, mm_length = 0x3800, mm_type = Available\<rparr>"
  let ?bi = "\<lparr>bi_kernel_paddr = 0x100000, bi_modules = [], bi_memory_map_entries =
       [\<lparr>mm_address = 0, mm_length = 0x9fc00, mm_type = Reserved\<rparr>, ?en]\<rparr>"
  let ?R = "regions_bytes (map page_align_region (initial_regions 0x1000 ?bi))"
  have "\<exists>h. heap_initialize_impl (\<lambda>_. True) True 0x1000 ?bi \<lparr>m_physical_ranges = []\<rparr> = Done h \<and>
      covers_pages (m_physical_ranges h) ({..<mm_address ?en} - ?R) \<and> {..<mm_address ?en} \<inter> available_bytes (bi_memory_map_entries ?bi) = {}"
    by (rule heap_initialize_impl_unaligned_entry) (simp_all add: initial_regions_def PAGE_SIZE_def)
  then obtain h where h: "heap_initialize_impl (\<lambda>_. True) True 0x1000 ?bi \<lparr>m_physical_ranges = []\<rparr> = Done h"
      "covers_pages (m_physical_ranges h) ({..<0x200800} - ?R)" "{..<0x200800} \<inter> available_bytes (bi_memory_map_entries ?bi) = {}"
    by auto
  have "?R = {0..<0x101000}"
    by (auto simp: initial_regions_def page_align_region_def Let_def PAGE_SIZE_def u64_add_def region_bytes_def)
  then have "{0x101000..<0x101000 + 2 * PAGE_SIZE} \<subseteq> {..<0x200800} - ?R" by (auto simp: PAGE_SIZE_def)
  then have "{0x101000..<0x102000} \<subseteq> ranges_bytes (m_physical_ranges h)"
    using h(2) [unfolded covers_pages_def, rule_format, of "0x101000"] by (simp add: PAGE_SIZE_def)
  moreover have "{0x101000..<0x102000} \<inter> available_bytes (bi_memory_map_entries ?bi) = {}"
    using h(3) unfolding disjoint_iff by simp
  ultimately show ?thesis using h(1) by (simp add: Let_def)
qed

text \<open>A small well-formed heap for concrete inputs: one range of four pages.\<close>

lemma example_heap:
  obtains r where "phys_range_create 0x100000 0x4000 = Done r" "heap_wf \<lparr>m_physical_ranges = [r]\<rparr>"
    "heap_used \<lparr>m_physical_ranges = [r]\<rparr> = {}" "heap_free \<lparr>m_physical_ranges = [r]\<rparr> = {0x101000, 0x102000, 0x103000}"
    "has_run 2 r"
proof -
  obtain r where r: "phys_range_create 0x100000 0x4000 = Done r" "pr_wf r" "pr_used r = {0}"
      "pr_page_count r = 4" "pr_free_pages r = 3"
    using example_range by metis
  obtain r' where "phys_range_create 0x100000 0x4000 = Done r'" "pr_paddr r' = 0x100000"
    by (rule phys_range_create_wf [of "0x100000" "0x4000"]) (auto simp: PAGE_SIZE_def pr_max_bytes_def)
  then have paddr: "pr_paddr r = 0x100000" using r(1) by simp
  have "{..<4} - {0} = {1, 2, 3::nat}" by auto
  then have "range_free r = {0x101000, 0x102000, 0x103000}"
    using r(3,4) paddr by (simp add: range_free_def page_addr_def PAGE_SIZE_def)
  moreover have "range_used r = {}" using r(3) by (simp add: range_used_def)
  moreover have "has_run 2 r"
    unfolding has_run_def using r(3-5) by (intro conjI exI [of _ 1]) (simp_all add: free_run_def)
  ultimately show ?thesis
    using that [OF r(1)] r(2) by (simp add: heap_wf_def heap_used_def heap_free_def)
qed

text \<open>
  \<open>Heap::take_free_page\<close> on a well-formed heap never trips an assertion. It returns 0, changing
  nothing, exactly when no page is free; otherwise it returns a free page, which moves from
  the free to the handed-out pages, and the heap stays well-formed.
\<close>

theorem heap_take_free_page_correct:
  assumes "heap_wf h"
  shows "\<exists>h' p. heap_take_free_page h = Done (h', p) \<and> heap_wf h' \<and>
    (p = 0 \<longleftrightarrow> heap_free h = {}) \<and>
    (if p = 0 then h' = h
     else p \<in> heap_free h \<and> p \<notin> heap_used h \<and> heap_free h' = heap_free h - {p} \<and>
          heap_used h' = insert p (heap_used h))"
proof (cases "heap_free h = {}")
  case True
  then show ?thesis using kernel_pool.take_none [OF assms] assms by simp
next
  case False
  obtain h' p where p: "heap_take_free_page h = Done (h', p)" "heap_wf h'" "p \<in> heap_free h"
      "heap_free h' = heap_free h - {p}" "heap_used h' = insert p (heap_used h)"
    using kernel_pool.take_some [OF assms False] by blast
  moreover have "p \<noteq> 0" using kernel_pool.free_pos [OF assms] p(3) by metis
  moreover have "p \<notin> heap_used h" using kernel_pool.disjoint [OF assms] p(3) by blast
  ultimately show ?thesis using False by auto
qed

theorem heap_take_free_page_correct_witness:
  "case phys_range_create 0x100000 0x4000 of Halt \<Rightarrow> False
   | Done r \<Rightarrow> \<exists>h' p. heap_take_free_page \<lparr>m_physical_ranges = [r]\<rparr> = Done (h', p) \<and>
       p \<in> {0x101000, 0x102000, 0x103000} \<and> heap_used h' = {p}"
proof -
  obtain r where r: "phys_range_create 0x100000 0x4000 = Done r" "heap_wf \<lparr>m_physical_ranges = [r]\<rparr>"
    "heap_used \<lparr>m_physical_ranges = [r]\<rparr> = {}" "heap_free \<lparr>m_physical_ranges = [r]\<rparr> = {0x101000, 0x102000, 0x103000}"
    using example_heap by metis
  show ?thesis using heap_take_free_page_correct [OF r(2)] r(1,3,4) by (auto split: if_splits)
qed

text \<open>
  \<open>Heap::release_page\<close> takes back exactly the pages that are handed out: such a page becomes free
  again and the heap stays well-formed; any other address (never handed out, already
  released, inside a bitmap page, unaligned or outside all ranges) stops the kernel.
\<close>

theorem heap_release_page_correct:
  assumes "heap_wf h"
  shows "case heap_release_page h p of
      Done h' \<Rightarrow> p \<in> heap_used h \<and> heap_wf h' \<and> heap_used h' = heap_used h - {p} \<and>
        heap_free h' = insert p (heap_free h)
    | Halt \<Rightarrow> p \<notin> heap_used h"
proof (cases "p \<in> heap_used h")
  case True
  then show ?thesis using kernel_pool.give_used [OF assms True] by auto
next
  case False
  then show ?thesis using kernel_pool.give_other [OF assms False] by simp
qed

theorem heap_release_page_correct_witness:
  "case phys_range_create 0x100000 0x4000 of Halt \<Rightarrow> False
   | Done r \<Rightarrow> heap_release_page \<lparr>m_physical_ranges = [r]\<rparr> 0x101000 = Halt"
proof -
  obtain r where r: "phys_range_create 0x100000 0x4000 = Done r" "heap_wf \<lparr>m_physical_ranges = [r]\<rparr>"
    "heap_used \<lparr>m_physical_ranges = [r]\<rparr> = {}"
    using example_heap by metis
  show ?thesis
    using heap_release_page_correct [OF r(2), of "0x101000"] r(1,3) by (auto split: run.splits)
qed

text \<open>
  \<open>Heap::take_free_contiguous_pages\<close> with at least one page never trips an assertion on a
  well-formed heap. When some range has enough free pages and a free run that its search
  looks at, the result is the address of consecutive free pages, and exactly these become
  handed out; otherwise the result is 0 and nothing changes.
\<close>

theorem heap_take_free_contiguous_pages_correct:
  assumes "heap_wf h" "0 < pages"
  shows "\<exists>h' p. heap_take_free_contiguous_pages h pages = Done (h', p) \<and> heap_wf h' \<and>
    (if \<exists>r \<in> set (m_physical_ranges h). has_run pages r
     then p \<noteq> 0 \<and> run_pages p pages \<subseteq> heap_free h \<and> heap_free h' = heap_free h - run_pages p pages \<and>
          heap_used h' = heap_used h \<union> run_pages p pages
     else p = 0 \<and> h' = h)"
  using assms by (rule heap_take_contiguous_cases)

theorem heap_take_free_contiguous_pages_correct_witness:
  "case phys_range_create 0x100000 0x4000 of Halt \<Rightarrow> False
   | Done r \<Rightarrow> \<exists>h' p. heap_take_free_contiguous_pages \<lparr>m_physical_ranges = [r]\<rparr> 2 = Done (h', p) \<and> p \<noteq> 0 \<and>
       run_pages p 2 \<subseteq> {0x101000, 0x102000, 0x103000}"
proof -
  obtain r where r: "phys_range_create 0x100000 0x4000 = Done r" "heap_wf \<lparr>m_physical_ranges = [r]\<rparr>"
    "heap_free \<lparr>m_physical_ranges = [r]\<rparr> = {0x101000, 0x102000, 0x103000}" "has_run 2 r"
    using example_heap by metis
  have "\<exists>s \<in> set (m_physical_ranges \<lparr>m_physical_ranges = [r]\<rparr>). has_run 2 s" using r(4) by simp
  then show ?thesis
    using heap_take_free_contiguous_pages_correct [OF r(2) zero_less_numeral, of "num.Bit0 num.One"] r(1)
    unfolding r(3) by (simp only: if_True run.case simp_thms) blast
qed

text \<open>
  C6: Every sequence of allocator calls implements the abstract page pool: if the calls return (the
  releases naming page-aligned addresses), the heap is well-formed again, the results are
  results the specification \<open>pool_step\<close> allows call by call, no page is ever free and handed
  out at once, and no page is gained or lost.
\<close>

theorem heap_run_implements_pool:
  assumes "heap_wf h" "list_all op_aligned ops" "heap_run ops h = Done (h', results)"
  shows "heap_wf h' \<and> pool_run ops (heap_free h, heap_used h) results (heap_free h', heap_used h') \<and>
    heap_free h' \<inter> heap_used h' = {} \<and> heap_free h' \<union> heap_used h' = heap_free h \<union> heap_used h"
proof -
  have r: "heap_wf h'" "pool_run ops (heap_abs h) results (heap_abs h')"
    using heap_run_refines [OF assms] by simp_all
  have "heap_free h' \<union> heap_used h' = heap_free h \<union> heap_used h" "heap_free h' \<inter> heap_used h' = {}"
    using pool_run_conserves [OF r(2)] kernel_pool.disjoint [OF assms(1)] by (simp_all add: heap_abs_def)
  then show ?thesis using r by (simp add: heap_abs_def)
qed

theorem heap_run_implements_pool_witness:
  "case phys_range_create 0x100000 0x4000 of Halt \<Rightarrow> False
   | Done r \<Rightarrow> \<exists>h' results. heap_run [TakePage] \<lparr>m_physical_ranges = [r]\<rparr> = Done (h', results) \<and>
       heap_free h' \<union> heap_used h' = {0x101000, 0x102000, 0x103000}"
proof -
  obtain r where r: "phys_range_create 0x100000 0x4000 = Done r" "heap_wf \<lparr>m_physical_ranges = [r]\<rparr>"
    "heap_used \<lparr>m_physical_ranges = [r]\<rparr> = {}" "heap_free \<lparr>m_physical_ranges = [r]\<rparr> = {0x101000, 0x102000, 0x103000}"
    using example_heap by metis
  have ne: "heap_free \<lparr>m_physical_ranges = [r]\<rparr> \<noteq> {}" using r(4) by simp
  obtain h' p where "heap_take_free_page \<lparr>m_physical_ranges = [r]\<rparr> = Done (h', p)"
    using kernel_pool.take_some [OF r(2) ne] by blast
  then have run: "heap_run [TakePage] \<lparr>m_physical_ranges = [r]\<rparr> = Done (h', [p])" by (simp add: heap_exec_def)
  have "list_all op_aligned [TakePage]" by (simp add: op_aligned_def)
  from heap_run_implements_pool [OF r(2) this run] show ?thesis using r(1,3,4) run by auto
qed

text \<open>
  The counters are exact: \<open>Heap::free_pages\<close> is the number of free pages and \<open>Heap::used_pages\<close> the
  number of handed-out pages plus one bitmap page per range.
\<close>

theorem heap_counters_exact:
  assumes "heap_wf h"
  shows "heap_free_pages h = card (heap_free h) \<and>
    heap_used_pages h = card (heap_used h) + length (m_physical_ranges h)"
  using card_ranges_sets [of "m_physical_ranges h"] assms
  by (simp add: heap_free_pages_def heap_used_pages_def fold_sum heap_free_def heap_used_def heap_wf_def)

theorem heap_counters_exact_witness:
  "case phys_range_create 0x100000 0x4000 of Halt \<Rightarrow> False
   | Done r \<Rightarrow> heap_free_pages \<lparr>m_physical_ranges = [r]\<rparr> = 3 \<and> heap_used_pages \<lparr>m_physical_ranges = [r]\<rparr> = 1"
proof -
  obtain r where r: "phys_range_create 0x100000 0x4000 = Done r" "heap_wf \<lparr>m_physical_ranges = [r]\<rparr>"
    "heap_used \<lparr>m_physical_ranges = [r]\<rparr> = {}" "heap_free \<lparr>m_physical_ranges = [r]\<rparr> = {0x101000, 0x102000, 0x103000}"
    using example_heap by metis
  show ?thesis using heap_counters_exact [OF r(2)] r(1,3,4) by simp
qed

end
