(* ===== verification/RingBuffer.thy ===== *)
theory RingBuffer
  imports KernelHeap
begin

text \<open>
  \<^verbatim>\<open>kernel/include/kernel/Memory/ByteRingBuffer.h\<close> and
  \<^verbatim>\<open>kernel/kernel/Memory/ByteRingBuffer.cpp\<close>: a ring buffer whose pages are mapped twice in a
  row, so that the byte at virtual offset \<open>k\<close> (below twice the capacity) is the physical byte
  \<open>k mod capacity\<close> and every stretch of the ring is one contiguous span. \<open>rb_mem\<close> is the
  physical memory; an access outside the two mappings is \<open>Halt\<close>.
\<close>

section \<open>Model: the ring\<close>

record 'a ring =
  rb_size :: nat
  rb_tail :: nat
  rb_capacity :: nat
  rb_mem :: "'a list"

definition ring_read :: "'a ring \<Rightarrow> nat \<Rightarrow> nat \<Rightarrow> 'a list run" where
  "ring_read r offset len =
     asserting (offset + len \<le> 2 * rb_capacity r)
       (Done (map (\<lambda>j. rb_mem r ! ((offset + j) mod rb_capacity r)) [0..<len]))"

text \<open>\<^verbatim>\<open>memcpy\<close> into the ring at a virtual offset.\<close>

fun ring_store :: "nat \<Rightarrow> nat \<Rightarrow> 'a list \<Rightarrow> 'a list \<Rightarrow> 'a list" where
  "ring_store capacity offset [] mem = mem"
| "ring_store capacity offset (x # xs) mem =
     ring_store capacity (Suc offset) xs (mem[offset mod capacity := x])"

definition ring_push :: "'a list \<Rightarrow> 'a ring \<Rightarrow> 'a ring run" where
  "ring_push data r =
     asserting (length data + rb_size r \<le> rb_capacity r)
       (let head = (rb_tail r + rb_size r) mod rb_capacity r
        in asserting (head + length data \<le> 2 * rb_capacity r)
             (Done (r\<lparr>rb_mem := ring_store (rb_capacity r) head data (rb_mem r),
                      rb_size := rb_size r + length data\<rparr>)))"

definition ring_pop :: "nat \<Rightarrow> 'a ring \<Rightarrow> 'a ring run" where
  "ring_pop n r =
     asserting (n \<le> rb_size r)
       (Done (r\<lparr>rb_tail := (rb_tail r + n) mod rb_capacity r, rb_size := rb_size r - n\<rparr>))"

definition ring_pop_back :: "nat \<Rightarrow> 'a ring \<Rightarrow> 'a ring run" where
  "ring_pop_back n r = asserting (n \<le> rb_size r) (Done (r\<lparr>rb_size := rb_size r - n\<rparr>))"

definition ring_get_data :: "'a ring \<Rightarrow> 'a list run" where
  "ring_get_data r = ring_read r (rb_tail r) (rb_size r)"

definition ring_empty :: "'a ring \<Rightarrow> bool" where
  "ring_empty r = (rb_size r = 0)"

definition ring_full :: "'a ring \<Rightarrow> bool" where
  "ring_full r = (rb_size r = rb_capacity r)"

definition ring_free :: "'a ring \<Rightarrow> nat" where
  "ring_free r = rb_capacity r - rb_size r"

definition ring_front :: "'a ring \<Rightarrow> 'a run" where
  "ring_front r = asserting (\<not> ring_empty r) (rbind (ring_read r (rb_tail r) 1) (\<lambda>xs. Done (hd xs)))"

definition ring_back :: "'a ring \<Rightarrow> 'a run" where
  "ring_back r =
     asserting (\<not> ring_empty r)
       (rbind (ring_read r (rb_tail r + rb_size r - 1) 1) (\<lambda>xs. Done (hd xs)))"

section \<open>Model: creation and destruction\<close>

text \<open>
  Creation reserves virtual pages (\<open>vaddr\<close>, 0 on failure, comes from the page table), then takes
  one physical page per page of the ring and maps it twice. When the allocator runs dry, the
  destructor of the half-built buffer gives the mapped pages back. The list of pages stands for
  the kernel page table's entries at \<open>vaddr\<close>; \<open>junk\<close> is what the fresh pages hold.
\<close>

fun ring_map_pages :: "nat \<Rightarrow> heap \<Rightarrow> nat list \<Rightarrow> (heap \<times> nat list \<times> bool) run" where
  "ring_map_pages 0 h pages = Done (h, pages, True)"
| "ring_map_pages (Suc n) h pages =
     rbind (heap_take_free_page h) (\<lambda>(h', paddr).
       if paddr = 0 then Done (h', pages, False) else ring_map_pages n h' (pages @ [paddr]))"

fun ring_release_pages :: "nat list \<Rightarrow> heap \<Rightarrow> heap run" where
  "ring_release_pages [] h = Done h"
| "ring_release_pages (paddr # pages) h = rbind (heap_release_page h paddr) (ring_release_pages pages)"

definition ring_destroy :: "nat \<Rightarrow> nat list \<Rightarrow> heap \<Rightarrow> heap run" where
  "ring_destroy vaddr pages h = (if vaddr = 0 then Done h else ring_release_pages pages h)"

definition ring_create ::
  "bool \<Rightarrow> nat \<Rightarrow> 'a list \<Rightarrow> nat \<Rightarrow> heap \<Rightarrow> (heap \<times> ('a ring \<times> nat list) error_or) run" where
  "ring_create new_ok vaddr junk bytes h =
     asserting (bytes mod PAGE_SIZE = 0)
       (if \<not> new_ok then Done (h, Inl ENOMEM)
        else if vaddr = 0 then Done (h, Inl ENOMEM)
        else rbind (ring_map_pages (bytes div PAGE_SIZE) h []) (\<lambda>(h', pages, ok).
          if ok then Done (h', Inr (\<lparr>rb_size = 0, rb_tail = 0, rb_capacity = bytes, rb_mem = junk\<rparr>, pages))
          else rbind (ring_destroy vaddr pages h') (\<lambda>h''. Done (h'', Inl ENOMEM))))"

section \<open>The ring as a queue\<close>

text \<open>The invariant, and the bytes of the ring from the oldest to the newest.\<close>

definition ring_wf :: "'a ring \<Rightarrow> bool" where
  "ring_wf r \<longleftrightarrow> 0 < rb_capacity r \<and> rb_tail r < rb_capacity r \<and> rb_size r \<le> rb_capacity r \<and>
     length (rb_mem r) = rb_capacity r"

definition ring_abs :: "'a ring \<Rightarrow> 'a list" where
  "ring_abs r = map (\<lambda>j. rb_mem r ! ((rb_tail r + j) mod rb_capacity r)) [0..<rb_size r]"

lemma length_ring_abs [simp]: "length (ring_abs r) = rb_size r"
  by (simp add: ring_abs_def)

lemma nth_ring_abs:
  "j < rb_size r \<Longrightarrow> ring_abs r ! j = rb_mem r ! ((rb_tail r + j) mod rb_capacity r)"
  by (simp add: ring_abs_def)

lemma length_ring_store [simp]: "length (ring_store c k xs mem) = length mem"
  by (induction c k xs mem rule: ring_store.induct) simp_all

lemma mod_less_cancel:
  fixes i j c :: nat
  assumes "i mod c = j mod c" "i < j" "j < i + c"
  shows False
proof -
  have "c dvd j - i" using assms(1,2) by (metis mod_eq_dvd_iff_nat less_imp_le)
  then show False using assms(2,3) by (auto dest: dvd_imp_le)
qed

text \<open>A store of at most \<open>capacity\<close> bytes: each lands at its place, the others stay.\<close>

lemma nth_ring_store:
  assumes "0 < c" "length mem = c" "length xs \<le> c"
  shows "j < length xs \<Longrightarrow> ring_store c k xs mem ! ((k + j) mod c) = xs ! j"
    and "(\<And>j. j < length xs \<Longrightarrow> i \<noteq> (k + j) mod c) \<Longrightarrow> i < c \<Longrightarrow> ring_store c k xs mem ! i = mem ! i"
proof -
  have keep: "(\<And>j. j < length xs \<Longrightarrow> i \<noteq> (k + j) mod c) \<Longrightarrow> i < c \<Longrightarrow> length mem = c \<Longrightarrow>
      ring_store c k xs mem ! i = mem ! i" for i k and xs mem :: "'a list"
  proof (induction xs arbitrary: k mem)
    case (Cons x xs)
    have "i \<noteq> (Suc k + j) mod c" if "j < length xs" for j
      using Cons.prems(1) [of "Suc j"] that by simp
    moreover have "i \<noteq> k mod c" using Cons.prems(1) [of 0] by simp
    ultimately show ?case using Cons.IH [of "Suc k"] Cons.prems(2,3) by simp
  qed simp
  show "(\<And>j. j < length xs \<Longrightarrow> i \<noteq> (k + j) mod c) \<Longrightarrow> i < c \<Longrightarrow> ring_store c k xs mem ! i = mem ! i"
    using keep assms(2) by blast
  show "j < length xs \<Longrightarrow> ring_store c k xs mem ! ((k + j) mod c) = xs ! j"
    using assms(2,3)
  proof (induction xs arbitrary: k mem j)
    case (Cons x xs)
    show ?case
    proof (cases j)
      case 0
      have "k mod c \<noteq> (Suc k + i) mod c" if "i < length xs" for i
        using mod_less_cancel [of k c "Suc k + i"] that Cons.prems(3) by auto
      then show ?thesis
        using keep [of xs "k mod c" "Suc k" "mem[k mod c := x]"] assms(1) Cons.prems(2) 0 by simp
    next
      case (Suc i)
      then show ?thesis using Cons.IH [of i "mem[k mod c := x]" "Suc k"] Cons.prems by simp
    qed
  qed simp
qed

lemma ring_head_offset:
  fixes tail size c j :: nat
  assumes "0 < c"
  shows "((tail + size) mod c + j) mod c = (tail + (size + j)) mod c"
  by (simp add: mod_add_left_eq add.assoc)

lemma ring_push_Done:
  assumes "ring_wf r" "length data + rb_size r \<le> rb_capacity r"
  obtains r' where "ring_push data r = Done r'" "ring_wf r'" "ring_abs r' = ring_abs r @ data"
    "rb_capacity r' = rb_capacity r"
proof -
  let ?c = "rb_capacity r" and ?head = "(rb_tail r + rb_size r) mod rb_capacity r"
  let ?mem = "ring_store ?c ?head data (rb_mem r)"
  let ?r' = "r\<lparr>rb_mem := ?mem, rb_size := rb_size r + length data\<rparr>"
  have wf: "0 < ?c" "rb_tail r < ?c" "length (rb_mem r) = ?c" using assms(1) by (auto simp: ring_wf_def)
  have "?head < ?c" using wf(1) by simp
  then have push: "ring_push data r = Done ?r'" using assms(2) by (simp add: ring_push_def Let_def)
  have len: "length data \<le> ?c" using assms(2) by simp
  have new: "?mem ! ((rb_tail r + (rb_size r + j)) mod ?c) = data ! j" if "j < length data" for j
    using nth_ring_store(1) [OF wf(1,3) len that, of ?head] ring_head_offset [OF wf(1)] by simp
  have old: "?mem ! ((rb_tail r + j) mod ?c) = rb_mem r ! ((rb_tail r + j) mod ?c)" if "j < rb_size r" for j
  proof (rule nth_ring_store(2) [OF wf(1,3) len])
    fix i assume "i < length data"
    then have "(rb_tail r + j) mod ?c \<noteq> (rb_tail r + (rb_size r + i)) mod ?c"
      using mod_less_cancel [of "rb_tail r + j" ?c "rb_tail r + (rb_size r + i)"] that assms(2) by auto
    then show "(rb_tail r + j) mod ?c \<noteq> (?head + i) mod ?c" using ring_head_offset [OF wf(1)] by simp
  qed (use wf(1) in simp)
  have "ring_abs ?r' = ring_abs r @ data"
  proof (rule nth_equalityI)
    fix j assume "j < length (ring_abs ?r')"
    then have j: "j < rb_size r + length data" by simp
    show "ring_abs ?r' ! j = (ring_abs r @ data) ! j"
      using j old [of j] new [of "j - rb_size r"]
      by (cases "j < rb_size r") (simp_all add: nth_ring_abs nth_append)
  qed simp
  moreover have "ring_wf ?r'" using assms wf by (simp add: ring_wf_def)
  ultimately show ?thesis using that push by simp
qed

lemma ring_pop_Done:
  assumes "ring_wf r" "n \<le> rb_size r"
  obtains r' where "ring_pop n r = Done r'" "ring_wf r'" "ring_abs r' = drop n (ring_abs r)"
    "rb_capacity r' = rb_capacity r"
proof -
  let ?r' = "r\<lparr>rb_tail := (rb_tail r + n) mod rb_capacity r, rb_size := rb_size r - n\<rparr>"
  have c: "0 < rb_capacity r" using assms(1) by (simp add: ring_wf_def)
  have "ring_abs ?r' = drop n (ring_abs r)"
  proof (rule nth_equalityI)
    fix j assume "j < length (ring_abs ?r')"
    then show "ring_abs ?r' ! j = drop n (ring_abs r) ! j"
      using assms(2) by (simp add: nth_ring_abs mod_add_left_eq add.assoc)
  qed simp
  moreover have "ring_wf ?r'" using assms(1) c by (auto simp: ring_wf_def)
  ultimately show ?thesis using that [of ?r'] assms(2) by (simp add: ring_pop_def)
qed

lemma ring_pop_back_wf:
  assumes "ring_wf r" "n \<le> rb_size r"
  shows "\<exists>r'. ring_pop_back n r = Done r' \<and> ring_wf r' \<and> ring_abs r' = take (rb_size r - n) (ring_abs r)"
proof -
  let ?r' = "r\<lparr>rb_size := rb_size r - n\<rparr>"
  have "ring_abs ?r' = take (rb_size r - n) (ring_abs r)"
    by (rule nth_equalityI) (simp_all add: nth_ring_abs)
  moreover have "ring_wf ?r'" using assms(1) by (auto simp: ring_wf_def)
  ultimately show ?thesis using assms(2) by (simp add: ring_pop_back_def)
qed

lemma ring_get_data_Done: "ring_wf r \<Longrightarrow> ring_get_data r = Done (ring_abs r)"
  by (simp add: ring_get_data_def ring_read_def ring_abs_def ring_wf_def)

section \<open>The interface of a bounded byte queue\<close>

text \<open>
  What the pipes, sockets and terminals of the kernel rely on: they copy the front of the queue
  out and pop it, or push as much of their data as fits.
\<close>

locale byte_fifo =
  fixes wf :: "'q \<Rightarrow> bool" and contents :: "'q \<Rightarrow> 'a list" and capacity :: "'q \<Rightarrow> nat"
    and push :: "'a list \<Rightarrow> 'q \<Rightarrow> 'q run" and pop :: "nat \<Rightarrow> 'q \<Rightarrow> 'q run" and get :: "'q \<Rightarrow> 'a list run"
  assumes get_wf: "wf q \<Longrightarrow> get q = Done (contents q)"
    and bounded: "wf q \<Longrightarrow> length (contents q) \<le> capacity q"
    and push_wf: "wf q \<Longrightarrow> length xs + length (contents q) \<le> capacity q \<Longrightarrow>
      \<exists>q'. push xs q = Done q' \<and> wf q' \<and> contents q' = contents q @ xs \<and> capacity q' = capacity q"
    and pop_wf: "wf q \<Longrightarrow> n \<le> length (contents q) \<Longrightarrow>
      \<exists>q'. pop n q = Done q' \<and> wf q' \<and> contents q' = drop n (contents q) \<and> capacity q' = capacity q"
begin

lemma copy_out:
  assumes "wf q"
  shows "\<exists>q'. rbind (get q) (\<lambda>xs. rbind (pop (min n (length (contents q))) q) (\<lambda>q'.
      Done (q', take (min n (length (contents q))) xs))) = Done (q', take n (contents q)) \<and>
    wf q' \<and> contents q = take n (contents q) @ contents q' \<and> capacity q' = capacity q"
proof -
  obtain q' where "pop (min n (length (contents q))) q = Done q'" "wf q'"
      "contents q' = drop (min n (length (contents q))) (contents q)" "capacity q' = capacity q"
    using pop_wf [OF assms, of "min n (length (contents q))"] by auto
  moreover have "drop (min n (length (contents q))) (contents q) = drop n (contents q)"
    by (cases "n \<le> length (contents q)") simp_all
  ultimately show ?thesis using get_wf [OF assms] by (simp add: min_def)
qed

lemma copy_in:
  fixes xs
  assumes "wf q"
  defines "n \<equiv> min (length xs) (capacity q - length (contents q))"
  shows "\<exists>q'. push (take n xs) q = Done q' \<and> wf q' \<and> contents q' = contents q @ take n xs \<and>
    capacity q' = capacity q"
  using push_wf [OF assms(1), of "take n xs"] bounded [OF assms(1)] by (simp add: n_def)

lemma push_pop:
  assumes "wf q" "length xs + length (contents q) \<le> capacity q" "n \<le> length (contents q)"
  shows "\<exists>q1 q2. push xs q = Done q1 \<and> pop n q1 = Done q2 \<and> contents q2 = drop n (contents q) @ xs"
proof -
  obtain q1 where q1: "push xs q = Done q1" "wf q1" "contents q1 = contents q @ xs"
    using push_wf [OF assms(1,2)] by blast
  then show ?thesis using pop_wf [OF q1(2), of n] assms(3) by fastforce
qed

end

interpretation ring_fifo: byte_fifo ring_wf ring_abs rb_capacity ring_push ring_pop ring_get_data
proof unfold_locales
  fix r :: "'a ring" and xs :: "'a list" and n
  assume wf: "ring_wf r"
  show "ring_get_data r = Done (ring_abs r)" using wf by (rule ring_get_data_Done)
  show "length (ring_abs r) \<le> rb_capacity r" using wf by (simp add: ring_wf_def)
  show "\<exists>r'. ring_push xs r = Done r' \<and> ring_wf r' \<and> ring_abs r' = ring_abs r @ xs \<and> rb_capacity r' = rb_capacity r"
    if "length xs + length (ring_abs r) \<le> rb_capacity r"
    using ring_push_Done [OF wf] that by (metis length_ring_abs)
  show "\<exists>r'. ring_pop n r = Done r' \<and> ring_wf r' \<and> ring_abs r' = drop n (ring_abs r) \<and> rb_capacity r' = rb_capacity r"
    if "n \<le> length (ring_abs r)"
    using ring_pop_Done [OF wf] that by (metis length_ring_abs)
qed

section \<open>Creation and the page allocator\<close>

lemma ring_map_pages_pool:
  "ring_map_pages n h pages =
     rbind (kernel_pool.take_pages n h) (\<lambda>(h', ps). Done (h', pages @ ps, length ps = n))"
proof (induction n arbitrary: h pages)
  case (Suc n)
  show ?case
  proof (cases "heap_take_free_page h")
    case (Done hp)
    obtain h' p where hp: "hp = (h', p)" by (cases hp)
    show ?thesis
      using Suc.IH [of h' "pages @ [p]"] Done hp
      by (cases "kernel_pool.take_pages n h'") (auto simp: split_def)
  qed simp
qed simp

lemma ring_release_pages_pool: "ring_release_pages ps h = kernel_pool.give_pages ps h"
proof (induction ps arbitrary: h)
  case (Cons p ps)
  show ?case by (cases "heap_release_page h p") (simp_all add: Cons.IH)
qed simp

section \<open>Properties\<close>

text \<open>
  C22: The double-mapped ring is a bounded byte queue. On a well-formed ring, a push that fits never
  halts and appends its bytes, \<open>pop\<close> and \<open>pop_back\<close> of at most \<open>size\<close> bytes drop them from the
  front and from the back, \<open>get_data\<close> returns all bytes from the oldest to the newest as one
  span although they may wrap around the end of the memory, and the invariant is kept; a push
  that does not fit and a pop of too many bytes trip the assertion.
\<close>

theorem ring_is_queue:
  assumes "ring_wf r"
  shows "(case ring_push xs r of
       Done r' \<Rightarrow> length xs + rb_size r \<le> rb_capacity r \<and> ring_wf r' \<and> ring_abs r' = ring_abs r @ xs
     | Halt \<Rightarrow> rb_capacity r < length xs + rb_size r) \<and>
    (case ring_pop n r of
       Done r' \<Rightarrow> n \<le> rb_size r \<and> ring_wf r' \<and> ring_abs r' = drop n (ring_abs r)
     | Halt \<Rightarrow> rb_size r < n) \<and>
    (case ring_pop_back n r of
       Done r' \<Rightarrow> n \<le> rb_size r \<and> ring_wf r' \<and> ring_abs r' = take (rb_size r - n) (ring_abs r)
     | Halt \<Rightarrow> rb_size r < n) \<and>
    ring_get_data r = Done (ring_abs r)"
proof (intro conjI)
  show "case ring_push xs r of
       Done r' \<Rightarrow> length xs + rb_size r \<le> rb_capacity r \<and> ring_wf r' \<and> ring_abs r' = ring_abs r @ xs
     | Halt \<Rightarrow> rb_capacity r < length xs + rb_size r"
    using ring_fifo.push_wf [OF assms, of xs]
    by (cases "length xs + rb_size r \<le> rb_capacity r") (auto simp: ring_push_def)
  show "case ring_pop n r of
       Done r' \<Rightarrow> n \<le> rb_size r \<and> ring_wf r' \<and> ring_abs r' = drop n (ring_abs r)
     | Halt \<Rightarrow> rb_size r < n"
    using ring_fifo.pop_wf [OF assms, of n] by (cases "n \<le> rb_size r") (auto simp: ring_pop_def)
  show "case ring_pop_back n r of
       Done r' \<Rightarrow> n \<le> rb_size r \<and> ring_wf r' \<and> ring_abs r' = take (rb_size r - n) (ring_abs r)
     | Halt \<Rightarrow> rb_size r < n"
    using ring_pop_back_wf [OF assms, of n]
    by (cases "n \<le> rb_size r") (auto simp: ring_pop_back_def)
  show "ring_get_data r = Done (ring_abs r)" using assms by (rule ring_get_data_Done)
qed

theorem ring_is_queue_witness:
  "ring_get_data \<lparr>rb_size = 3, rb_tail = 2, rb_capacity = 4, rb_mem = [30, 40, 10, 20::nat]\<rparr> = Done [10, 20, 30]"
proof -
  let ?r = "\<lparr>rb_size = 3, rb_tail = 2, rb_capacity = 4, rb_mem = [30, 40, 10, 20::nat]\<rparr>"
  have "ring_wf ?r" by (simp add: ring_wf_def)
  from ring_is_queue [OF this] have "ring_get_data ?r = Done (ring_abs ?r)" by blast
  moreover have "ring_abs ?r = [10, 20, 30]" by (simp add: ring_abs_def upt_rec)
  ultimately show ?thesis by simp
qed

text \<open>
  Creating a ring buffer never loses a page. On a well-formed page allocator it either succeeds, and
  then exactly one distinct page per page of the ring has moved from free to handed out (or
  none, with no room for the object or no virtual addresses), or it fails with \<open>ENOMEM\<close>, and
  then every page that was already mapped is free again. With room for the object, a virtual
  address and enough free pages it succeeds.
\<close>

theorem ring_create_conserves_pages:
  assumes "heap_wf h" "bytes mod PAGE_SIZE = 0"
  shows "\<exists>h' res. ring_create new_ok vaddr junk bytes h = Done (h', res) \<and> heap_wf h' \<and>
    (case res of
       Inr (r, pages) \<Rightarrow> distinct pages \<and> length pages = bytes div PAGE_SIZE \<and> set pages \<subseteq> heap_free h \<and>
         heap_free h' = heap_free h - set pages \<and> heap_used h' = heap_used h \<union> set pages \<and>
         ring_abs r = [] \<and> rb_capacity r = bytes
     | Inl e \<Rightarrow> e = ENOMEM \<and> heap_free h' = heap_free h \<and> heap_used h' = heap_used h \<and>
         \<not> (new_ok \<and> vaddr \<noteq> 0 \<and> bytes div PAGE_SIZE \<le> card (heap_free h)))"
proof (cases "new_ok \<and> vaddr \<noteq> 0")
  case False
  then show ?thesis using assms by (auto simp: ring_create_def)
next
  case True
  let ?n = "bytes div PAGE_SIZE"
  have fin: "finite (heap_free h)" by (simp add: heap_free_def)
  obtain h1 ps where t: "kernel_pool.take_pages ?n h = Done (h1, ps)" "heap_wf h1" "distinct ps"
      "length ps = min ?n (card (heap_free h))" "set ps \<subseteq> heap_free h"
      "heap_free h1 = heap_free h - set ps" "heap_used h1 = heap_used h \<union> set ps"
    using kernel_pool.take_pages_correct [OF assms(1) fin] by blast
  have disj: "heap_free h \<inter> heap_used h = {}" using kernel_pool.disjoint [OF assms(1)] .
  show ?thesis
  proof (cases "length ps = ?n")
    case ok: True
    then show ?thesis
      using True t assms(2) by (simp add: ring_create_def ring_map_pages_pool ring_abs_def)
  next
    case False
    obtain h2 where g: "kernel_pool.give_pages ps h1 = Done h2" "heap_wf h2"
        "heap_free h2 = heap_free h1 \<union> set ps" "heap_used h2 = heap_used h1 - set ps"
      using kernel_pool.give_pages_correct [OF t(2,3)] t(7) by auto
    have "heap_free h2 = heap_free h" "heap_used h2 = heap_used h" using g(3,4) t(5-7) disj by blast+
    moreover have "\<not> ?n \<le> card (heap_free h)" using False t(4) by simp
    ultimately show ?thesis
      using True False t(1) g(1,2) assms(2)
      by (simp add: ring_create_def ring_map_pages_pool ring_destroy_def ring_release_pages_pool)
  qed
qed

theorem ring_create_conserves_pages_witness:
  "case phys_range_create 0x100000 0x4000 of Halt \<Rightarrow> False
   | Done p \<Rightarrow> \<exists>h' e. ring_create True 0xFFFF8000 [0::nat] 0x10000 \<lparr>m_physical_ranges = [p]\<rparr> = Done (h', Inl e) \<and>
       heap_free h' = {0x101000, 0x102000, 0x103000}"
proof -
  obtain p where p: "phys_range_create 0x100000 0x4000 = Done p" "heap_wf \<lparr>m_physical_ranges = [p]\<rparr>"
    "heap_free \<lparr>m_physical_ranges = [p]\<rparr> = {0x101000, 0x102000, 0x103000}"
    using example_heap by metis
  have al: "0x10000 mod PAGE_SIZE = 0" by (simp add: PAGE_SIZE_def)
  obtain h' res where r: "ring_create True 0xFFFF8000 [0::nat] 0x10000 \<lparr>m_physical_ranges = [p]\<rparr> = Done (h', res)"
      "case res of
       Inr (r, pages) \<Rightarrow> distinct pages \<and> length pages = 0x10000 div PAGE_SIZE \<and>
         set pages \<subseteq> heap_free \<lparr>m_physical_ranges = [p]\<rparr>
     | Inl e \<Rightarrow> heap_free h' = heap_free \<lparr>m_physical_ranges = [p]\<rparr>"
    using ring_create_conserves_pages [OF p(2) al, of True "0xFFFF8000" "[0::nat]"]
    by (fastforce split: sum.splits prod.splits)
  show ?thesis
  proof (cases res)
    case (Inl e)
    then show ?thesis using p(1,3) r by auto
  next
    case (Inr rp)
    obtain rr pages where "rp = (rr, pages)" by (cases rp)
    then have pg: "distinct pages" "length pages = 16" "set pages \<subseteq> {0x101000, 0x102000, 0x103000}"
      using r(2) Inr p(3) by (simp_all add: PAGE_SIZE_def)
    have "card (set pages) \<le> card {0x101000, 0x102000, 0x103000::nat}" using pg(3) by (intro card_mono) auto
    then show ?thesis using pg(1,2) by (simp add: distinct_card)
  qed
qed

end
