(* ===== verification/Kmalloc.thy ===== *)
theory Kmalloc
  imports RingBuffer
begin

unbundle bit_operations_syntax

text \<open>
  \<^verbatim>\<open>kernel/kernel/Memory/kmalloc.cpp\<close>: the kernel's general allocator. Small requests go to bitmap
  allocators that hand out runs of 64-byte chunks, found with 64-bit reads of a byte bitmap;
  big ones get whole pages of their own. \<open>ba_bitmap\<close> is the bitmap at the start of an allocator's
  memory, \<open>ba_headers\<close> the \<^verbatim>\<open>Header::chunks\<close> words stored at the chunks. Pointers are addresses,
  the null pointer is 0.
\<close>

section \<open>Model: the bitmap allocator\<close>

record bitmap_allocator =
  ba_bitmap :: "8 word list"
  ba_bitmap_chunks :: nat
  ba_total_chunks :: nat
  ba_free_chunks :: nat
  ba_allocations :: nat
  ba_base :: nat
  ba_headers :: "nat \<Rightarrow> nat"

definition chunk_size :: nat where
  "chunk_size = 64"

definition header_size :: nat where
  "header_size = 16"

definition needed_chunks :: "nat \<Rightarrow> nat" where
  "needed_chunks bytes = (header_size + bytes + chunk_size - 1) div chunk_size"

definition ba_initialize :: "nat \<Rightarrow> nat \<Rightarrow> bitmap_allocator" where
  "ba_initialize bytes base =
     (let bitmap_bytes = (bytes + chunk_size * 8 - 1) div (chunk_size * 8);
          bitmap_chunks = (bitmap_bytes + chunk_size - 1) div chunk_size;
          usable_chunks = bytes div chunk_size - bitmap_chunks
      in \<lparr>ba_bitmap = replicate (bitmap_chunks * chunk_size) 0, ba_bitmap_chunks = bitmap_chunks,
          ba_total_chunks = usable_chunks, ba_free_chunks = usable_chunks, ba_allocations = 0,
          ba_base = base, ba_headers = (\<lambda>_. 0)\<rparr>)"

definition ba_data_start :: "bitmap_allocator \<Rightarrow> nat" where
  "ba_data_start a = ba_base a + ba_bitmap_chunks a * chunk_size"

definition ba_get_first_chunk :: "bitmap_allocator \<Rightarrow> nat \<Rightarrow> nat" where
  "ba_get_first_chunk a ptr = (ptr - header_size - ba_data_start a) div chunk_size"

definition ba_contains :: "bitmap_allocator \<Rightarrow> nat \<Rightarrow> bool" where
  "ba_contains a ptr =
     (if ptr < ba_data_start a + header_size then False else ba_get_first_chunk a ptr < ba_total_chunks a)"

definition ba_get_bit :: "bitmap_allocator \<Rightarrow> nat \<Rightarrow> bool run" where
  "ba_get_bit a index =
     asserting (index < ba_total_chunks a)
       (Done ((drop_bit (index mod 8) (ba_bitmap a ! (index div 8))) AND 1 \<noteq> 0))"

definition ba_set_bit :: "nat \<Rightarrow> bool \<Rightarrow> bitmap_allocator \<Rightarrow> bitmap_allocator run" where
  "ba_set_bit index value a =
     asserting (index < ba_total_chunks a)
       (let byte = index div 8; m = push_bit (index mod 8) 1
        in Done (a\<lparr>ba_bitmap := (ba_bitmap a)
             [byte := (if value then (ba_bitmap a ! byte) OR m else (ba_bitmap a ! byte) AND NOT m)]\<rparr>))"

text \<open>The little-endian 64-bit read at a byte offset.\<close>

definition ba_qword :: "8 word list \<Rightarrow> nat \<Rightarrow> 64 word" where
  "ba_qword bytes off = fold (\<lambda>k w. w OR push_bit (8 * k) (ucast (bytes ! (off + k)))) [0..<8] 0"

function ba_scan_words :: "bitmap_allocator \<Rightarrow> nat \<Rightarrow> nat" where
  "ba_scan_words a index =
     (if index < ba_total_chunks a then
        let qword = ba_qword (ba_bitmap a) (index div 8)
        in if qword \<noteq> - 1 then index + ctz (NOT qword) else ba_scan_words a (index + 64)
      else index)"
  by pat_completeness auto
termination
  by (relation "measure (\<lambda>(a, i). ba_total_chunks a - i)") auto

declare ba_scan_words.simps [simp del]

definition ba_find_unset_bit :: "bitmap_allocator \<Rightarrow> nat \<Rightarrow> nat" where
  "ba_find_unset_bit a index =
     (if ba_total_chunks a \<le> index then index
      else let rem = index mod 64
           in if rem \<noteq> 0 then
                (let qword = drop_bit rem (ba_qword (ba_bitmap a) ((index - rem) div 8))
                 in if qword \<noteq> push_bit (64 - rem) 1 - 1 then index + ctz (NOT qword)
                    else ba_scan_words a (index + (64 - rem)))
              else ba_scan_words a index)"

fun ba_count_unset :: "bitmap_allocator \<Rightarrow> nat \<Rightarrow> nat \<Rightarrow> nat run" where
  "ba_count_unset a index 0 = Done 0"
| "ba_count_unset a index (Suc wanted) =
     (if index < ba_total_chunks a then
        rbind (ba_get_bit a index) (\<lambda>b.
          if b then Done 0 else rbind (ba_count_unset a (Suc index) wanted) (\<lambda>n. Done (Suc n)))
      else Done 0)"

fun ba_set_bits :: "nat list \<Rightarrow> bool \<Rightarrow> bitmap_allocator \<Rightarrow> bitmap_allocator run" where
  "ba_set_bits [] value a = Done a"
| "ba_set_bits (i # is) value a = rbind (ba_set_bit i value a) (ba_set_bits is value)"

definition ba_take :: "nat \<Rightarrow> nat \<Rightarrow> bitmap_allocator \<Rightarrow> (bitmap_allocator \<times> nat) run" where
  "ba_take i needed a =
     rbind (ba_set_bits [i..<i + needed] True a) (\<lambda>a'.
       Done (a'\<lparr>ba_headers := (ba_headers a')(ba_data_start a' + i * chunk_size := needed), ba_free_chunks := ba_free_chunks a' - needed,
                ba_allocations := ba_allocations a' + 1\<rparr>,
             ba_data_start a' + i * chunk_size + header_size))"

text \<open>
  The search loop of \<open>allocate\<close>. The loop variable grows: \<open>find_unset_bit\<close> never goes back, and a short
  run moves it behind the run. The fuel bounds the rounds; with one round per chunk it does not
  run out (\<open>ba_search_Done\<close>).
\<close>

fun ba_search :: "nat \<Rightarrow> bitmap_allocator \<Rightarrow> nat \<Rightarrow> nat \<Rightarrow> nat option run" where
  "ba_search 0 a needed i = Halt"
| "ba_search (Suc fuel) a needed i =
     (if i \<le> ba_total_chunks a - needed then
        rbind (ba_count_unset a i needed) (\<lambda>count.
          if count < needed then ba_search fuel a needed (ba_find_unset_bit a (i + count + 1))
          else Done (Some i))
      else Done None)"

definition ba_allocate :: "nat \<Rightarrow> bitmap_allocator \<Rightarrow> (bitmap_allocator \<times> nat) run" where
  "ba_allocate needed a =
     asserting (0 < needed)
       (if ba_free_chunks a < needed then Done (a, 0)
        else rbind (ba_search (Suc (Suc (ba_total_chunks a))) a needed (ba_find_unset_bit a 0)) (\<lambda>found.
          case found of None \<Rightarrow> Done (a, 0) | Some i \<Rightarrow> ba_take i needed a))"

definition ba_free :: "nat \<Rightarrow> bitmap_allocator \<Rightarrow> bitmap_allocator run" where
  "ba_free ptr a =
     asserting (ba_contains a ptr)
       (let first_chunk = ba_get_first_chunk a ptr; chunks = ba_headers a (ptr - header_size)
        in rbind (ba_set_bits [first_chunk..<first_chunk + chunks] False a) (\<lambda>a'.
             Done (a'\<lparr>ba_free_chunks := ba_free_chunks a' + chunks, ba_allocations := ba_allocations a' - 1\<rparr>)))"

section \<open>Model: kmalloc and kfree\<close>

text \<open>
  The allocators in the order of their slots (a slot is used only when all before it are), the page
  allocator, and the big allocations: the pages mapped at their address, whose number the header
  holds. \<open>vaddr\<close> is the answer of the kernel page table to a request for free virtual pages.
\<close>

record kmalloc_state =
  km_allocators :: "bitmap_allocator list"
  km_heap :: heap
  km_big :: "nat \<rightharpoonup> nat list"

definition big_allocation_threshold :: nat where
  "big_allocation_threshold = 16 * 1024"

definition allocator_default_size :: nat where
  "allocator_default_size = 128 * 1024"

definition allocator_dynamic_size :: nat where
  "allocator_dynamic_size = 2 * 1024 * 1024"

definition max_allocator_count :: nat where
  "max_allocator_count = 512"

definition big_header_size :: nat where
  "big_header_size = 16"

definition kmalloc_initialize :: "nat \<Rightarrow> heap \<Rightarrow> kmalloc_state" where
  "kmalloc_initialize base h =
     \<lparr>km_allocators = [ba_initialize allocator_default_size base], km_heap = h, km_big = Map.empty\<rparr>"

text \<open>
  The end of \<^verbatim>\<open>PageTable::reserve_free_contiguous_pages\<close>. \<open>found\<close> is the address at which its search stops, or 0 when it finds no
  region; a region it has found goes to \<^verbatim>\<open>reserve_range\<close>, which asserts that there is a page to reserve.
  The pages that hold the page table itself are outside the model: the tables covering the region are taken to be present, so that reserving
  and unmapping it neither takes a page of the heap nor gives one back.
\<close>

definition reserve_free_contiguous_pages :: "nat \<Rightarrow> nat \<Rightarrow> nat run" where
  "reserve_free_contiguous_pages found page_count = (if found = 0 then Done 0 else asserting (page_count \<noteq> 0) (Done found))"

text \<open>Map \<open>page_count\<close> fresh pages, or give those already taken back.\<close>

definition kmalloc_map_pages :: "nat \<Rightarrow> nat \<Rightarrow> heap \<Rightarrow> (heap \<times> nat list option) run" where
  "kmalloc_map_pages found page_count h =
     rbind (reserve_free_contiguous_pages found page_count) (\<lambda>vaddr.
       if vaddr = 0 then Done (h, None)
       else rbind (ring_map_pages page_count h []) (\<lambda>(h', pages, ok).
         if ok then Done (h', Some pages)
         else rbind (ring_release_pages pages h') (\<lambda>h''. Done (h'', None))))"

text \<open>The header of a big allocation is written at the first mapped page.\<close>

definition kmalloc_big :: "nat \<Rightarrow> nat \<Rightarrow> kmalloc_state \<Rightarrow> (kmalloc_state \<times> nat) run" where
  "kmalloc_big vaddr bytes st =
     (let page_count = u64_add (u64_add bytes big_header_size) (PAGE_SIZE - 1) div PAGE_SIZE
      in rbind (kmalloc_map_pages vaddr page_count (km_heap st)) (\<lambda>(h, res).
           case res of None \<Rightarrow> Done (st\<lparr>km_heap := h\<rparr>, 0)
           | Some pages \<Rightarrow> Done (st\<lparr>km_heap := h, km_big := (km_big st)(vaddr \<mapsto> pages)\<rparr>, vaddr + big_header_size)))"

fun kmalloc_try :: "nat \<Rightarrow> bitmap_allocator list \<Rightarrow> (bitmap_allocator list \<times> nat) run" where
  "kmalloc_try needed [] = Done ([], 0)"
| "kmalloc_try needed (a # as) =
     rbind (ba_allocate needed a) (\<lambda>(a', ptr).
       if ptr \<noteq> 0 then Done (a' # as, ptr)
       else rbind (kmalloc_try needed as) (\<lambda>(as', ptr). Done (a' # as', ptr)))"

definition ba_initialize_dynamic :: "nat \<Rightarrow> heap \<Rightarrow> (heap \<times> bitmap_allocator option) run" where
  "ba_initialize_dynamic vaddr h =
     rbind (kmalloc_map_pages vaddr (allocator_dynamic_size div PAGE_SIZE) h) (\<lambda>(h', res).
       Done (h', case res of None \<Rightarrow> None | Some pages \<Rightarrow> Some (ba_initialize allocator_dynamic_size vaddr)))"

definition kmalloc_grow :: "nat \<Rightarrow> nat \<Rightarrow> kmalloc_state \<Rightarrow> (kmalloc_state \<times> nat) run" where
  "kmalloc_grow vaddr needed st =
     rbind (ba_initialize_dynamic vaddr (km_heap st)) (\<lambda>(h, res).
       case res of None \<Rightarrow> Done (st\<lparr>km_heap := h\<rparr>, 0)
       | Some new_allocator \<Rightarrow>
           rbind (ba_allocate needed new_allocator) (\<lambda>(a, ptr).
             Done (st\<lparr>km_heap := h, km_allocators := km_allocators st @ [a]\<rparr>, ptr)))"

definition kmalloc :: "nat \<Rightarrow> nat \<Rightarrow> kmalloc_state \<Rightarrow> (kmalloc_state \<times> nat) run" where
  "kmalloc vaddr bytes st =
     (if big_allocation_threshold \<le> u64_add bytes big_header_size then kmalloc_big vaddr bytes st
      else if allocator_dynamic_size \<le> bytes then Done (st, 0)
      else let needed = needed_chunks bytes
           in rbind (kmalloc_try needed (km_allocators st)) (\<lambda>(as, ptr).
                let st' = st\<lparr>km_allocators := as\<rparr>
                in if ptr \<noteq> 0 then Done (st', ptr)
                   else if length as < max_allocator_count then kmalloc_grow vaddr needed st'
                   else Done (st', 0)))"

fun kfree_small :: "nat \<Rightarrow> bitmap_allocator list \<Rightarrow> bitmap_allocator list option run" where
  "kfree_small ptr [] = Done None"
| "kfree_small ptr (a # as) =
     (if ba_contains a ptr then rbind (ba_free ptr a) (\<lambda>a'. Done (Some (a' # as)))
      else rbind (kfree_small ptr as) (\<lambda>res. Done (case res of None \<Rightarrow> None | Some as' \<Rightarrow> Some (a # as'))))"

text \<open>Freeing an address that no allocation has reads a header that is not there: \<open>Halt\<close>.\<close>

definition kfree :: "nat \<Rightarrow> kmalloc_state \<Rightarrow> kmalloc_state run" where
  "kfree ptr st =
     (if ptr = 0 then Done st
      else rbind (kfree_small ptr (km_allocators st)) (\<lambda>res.
        case res of
          Some as \<Rightarrow> Done (st\<lparr>km_allocators := as\<rparr>)
        | None \<Rightarrow>
            let vaddr = ptr - big_header_size
            in case km_big st vaddr of
                 None \<Rightarrow> Halt
               | Some pages \<Rightarrow>
                   rbind (ring_release_pages pages (km_heap st)) (\<lambda>h.
                     Done (st\<lparr>km_heap := h, km_big := (km_big st)(vaddr := None)\<rparr>))))"

section \<open>The bitmap as a set\<close>

definition ba_used :: "bitmap_allocator \<Rightarrow> nat set" where
  "ba_used a = {k. k < ba_total_chunks a \<and> bit (ba_bitmap a ! (k div 8)) (k mod 8)}"

text \<open>The bitmap is made of whole 64-bit words and has a bit for every chunk.\<close>

definition ba_bitmap_ok :: "bitmap_allocator \<Rightarrow> bool" where
  "ba_bitmap_ok a \<longleftrightarrow> length (ba_bitmap a) mod 8 = 0 \<and> ba_total_chunks a \<le> 8 * length (ba_bitmap a)"

lemma finite_ba_used [simp]: "finite (ba_used a)"
  by (simp add: ba_used_def)

lemma ba_fold_bit:
  "bit (fold (\<lambda>k w. w OR push_bit (8 * k) (ucast (bytes ! (off + k)))) ks (w :: 64 word)) b \<longleftrightarrow>
     bit w b \<or> (\<exists>k \<in> set ks. b < 64 \<and> 8 * k \<le> b \<and> bit (bytes ! (off + k) :: 8 word) (b - 8 * k))"
  by (induction ks arbitrary: w) (auto simp: bit_simps)

lemma ba_qword_bit:
  assumes "b < 64"
  shows "bit (ba_qword bytes off) b \<longleftrightarrow> bit (bytes ! (off + b div 8)) (b mod 8)"
proof -
  have "8 * k \<le> b \<and> bit (bytes ! (off + k)) (b - 8 * k) \<longleftrightarrow>
      k = b div 8 \<and> bit (bytes ! (off + b div 8)) (b mod 8)" for k
  proof
    assume k: "8 * k \<le> b \<and> bit (bytes ! (off + k)) (b - 8 * k)"
    then have "b - 8 * k < 8" using bit_imp_le_length [of "bytes ! (off + k)" "b - 8 * k"] by simp
    moreover obtain r where r: "b = 8 * k + r" using k by (auto simp: le_iff_add)
    ultimately have "k = b div 8" "b - 8 * k = b mod 8" by simp_all
    then show "k = b div 8 \<and> bit (bytes ! (off + b div 8)) (b mod 8)" using k by auto
  qed (auto simp: minus_mult_div_eq_mod)
  moreover have "b div 8 < 8" using assms by simp
  ultimately show ?thesis using assms unfolding ba_qword_def ba_fold_bit by (auto simp: conj_assoc)
qed

lemma eight_dvd_64: "(8::nat) dvd 64"
  by simp

lemma ba_qword_used:
  assumes "index mod 64 = 0" "b < 64" "index + b < ba_total_chunks a"
  shows "bit (ba_qword (ba_bitmap a) (index div 8)) b \<longleftrightarrow> index + b \<in> ba_used a"
proof -
  have "8 dvd index" using assms(1) by (metis dvd_eq_mod_eq_0 dvd_trans dvd_triv_left eight_dvd_64)
  then have "(index + b) div 8 = index div 8 + b div 8" "(index + b) mod 8 = b mod 8"
    by (simp_all add: div_plus_div_distrib_dvd_left mod_0_imp_dvd dvd_imp_mod_0 mod_add_left_eq [symmetric])
  then show ?thesis using ba_qword_bit [OF assms(2)] assms(3) by (simp add: ba_used_def)
qed

text \<open>\<open>j\<close> is the first unused chunk from \<open>i\<close> on, or lies behind the last chunk.\<close>

definition ba_first_unset :: "bitmap_allocator \<Rightarrow> nat \<Rightarrow> nat \<Rightarrow> bool" where
  "ba_first_unset a i j \<longleftrightarrow> i \<le> j \<and> (\<forall>k. i \<le> k \<longrightarrow> k < j \<longrightarrow> k < ba_total_chunks a \<longrightarrow> k \<in> ba_used a) \<and> j \<notin> ba_used a"

lemma ba_not_used_ge: "ba_total_chunks a \<le> k \<Longrightarrow> k \<notin> ba_used a"
  by (simp add: ba_used_def)

lemma ba_first_unset_ge: "ba_total_chunks a \<le> i \<Longrightarrow> ba_first_unset a i i"
  by (simp add: ba_first_unset_def ba_not_used_ge)

lemma ba_first_unset_skip:
  assumes "ba_first_unset a j k" "i \<le> j" "\<And>b. i \<le> b \<Longrightarrow> b < j \<Longrightarrow> b < ba_total_chunks a \<Longrightarrow> b \<in> ba_used a"
  shows "ba_first_unset a i k"
  using assms unfolding ba_first_unset_def by (meson le_trans not_le)

text \<open>A word of the bitmap, read from bit \<open>rem\<close> on: all ones, or the first zero is found.\<close>

lemma ba_word_cases:
  fixes q :: "64 word"
  assumes "index mod 64 = rem" "q = drop_bit rem (ba_qword (ba_bitmap a) ((index - rem) div 8))"
  shows "q = push_bit (64 - rem) 1 - 1 \<Longrightarrow> b < 64 - rem \<Longrightarrow> index + b < ba_total_chunks a \<Longrightarrow> index + b \<in> ba_used a"
    and "q \<noteq> push_bit (64 - rem) 1 - 1 \<Longrightarrow> ba_first_unset a index (index + ctz (NOT q))"
proof -
  have rem: "rem < 64" "rem \<le> index" "(index - rem) mod 64 = 0"
    using assms(1) by (auto simp: minus_mod_eq_mult_div)
  have mask: "(push_bit (64 - rem) 1 - 1 :: 64 word) = mask (64 - rem)" by (simp add: mask_eq_decr_exp push_bit_eq_mult)
  have qbit: "bit q b \<longleftrightarrow> index + b \<in> ba_used a" if "b < 64 - rem" "index + b < ba_total_chunks a" for b
    using ba_qword_used [OF rem(3), of "rem + b" a] that rem by (simp add: assms(2) bit_simps)
  have high: "b < 64 - rem" if "bit q b" for b
    using that bit_imp_le_length [of "ba_qword (ba_bitmap a) ((index - rem) div 8)" "rem + b"]
    by (auto simp: assms(2) bit_simps)
  show "index + b \<in> ba_used a"
    if "q = push_bit (64 - rem) 1 - 1" "b < 64 - rem" "index + b < ba_total_chunks a"
  proof -
    have "bit q b" unfolding that(1) mask using that(2) by (simp add: bit_mask_iff)
    then show ?thesis using qbit [OF that(2,3)] by simp
  qed
  show "ba_first_unset a index (index + ctz (NOT q))" if ne: "q \<noteq> push_bit (64 - rem) 1 - 1"
  proof -
    have "\<exists>b < 64 - rem. \<not> bit q b"
    proof (rule ccontr)
      assume "\<not> (\<exists>b < 64 - rem. \<not> bit q b)"
      then have "q = mask (64 - rem)" using high by (intro bit_word_eqI) (auto simp: bit_simps)
      then show False using ne mask by simp
    qed
    then obtain b where b: "b < 64 - rem" "\<not> bit q b" by blast
    have "bit (NOT q) b" using b rem(1) by (simp add: bit_simps)
    then have nz: "NOT q \<noteq> 0" by auto
    let ?c = "ctz (NOT q)"
    have c: "?c < 64" "\<not> bit q ?c" "\<And>k. k < ?c \<Longrightarrow> bit q k"
      using ctz_less [OF nz] ctz_bit [OF nz] ctz_least [OF nz] by (auto simp: bit_simps)
    have "?c < 64 - rem" using c(3) [of b] b by (meson le_less_trans not_le_imp_less)
    note cr = this
    have "k \<in> ba_used a" if r: "index \<le> k" "k < index + ?c" "k < ba_total_chunks a" for k
    proof -
      obtain d where d: "k = index + d" using le_Suc_ex [OF r(1)] by blast
      then show ?thesis using r c(3) [of d] qbit [of d] cr by simp
    qed
    moreover have "index + ?c \<notin> ba_used a"
      using qbit [OF cr] c(2) ba_not_used_ge [of a "index + ?c"] by (cases "index + ?c < ba_total_chunks a") auto
    ultimately show ?thesis unfolding ba_first_unset_def by simp
  qed
qed

lemma ba_scan_words_first:
  "index mod 64 = 0 \<Longrightarrow> ba_first_unset a index (ba_scan_words a index)"
proof (induction a index rule: ba_scan_words.induct)
  case (1 a index)
  let ?q = "ba_qword (ba_bitmap a) (index div 8)"
  show ?case
  proof (cases "index < ba_total_chunks a")
    case False
    then show ?thesis by (simp add: ba_scan_words.simps [of a index] ba_first_unset_ge)
  next
    case lt: True
    have q: "?q = drop_bit 0 (ba_qword (ba_bitmap a) ((index - 0) div 8))" by simp
    have ones: "(push_bit (64 - 0) 1 - 1 :: 64 word) = - 1" by simp
    note w = ba_word_cases [OF "1.prems" q, unfolded ones]
    show ?thesis
    proof (cases "?q = - 1")
      case False
      then show ?thesis using lt w(2) by (simp add: ba_scan_words.simps [of a index] Let_def)
    next
      case True
      have nxt: "ba_first_unset a (index + 64) (ba_scan_words a (index + 64))"
        using "1.IH" [OF lt refl] True "1.prems" by simp
      have "b \<in> ba_used a" if r: "index \<le> b" "b < index + 64" "b < ba_total_chunks a" for b
      proof -
        obtain d where "b = index + d" using le_Suc_ex [OF r(1)] by blast
        then show ?thesis using w(1) [OF True, of d] r by simp
      qed
      then have "ba_first_unset a index (ba_scan_words a (index + 64))"
        by (intro ba_first_unset_skip [OF nxt]) auto
      then show ?thesis using lt True by (simp add: ba_scan_words.simps [of a index])
    qed
  qed
qed

lemma ba_find_unset_bit_first: "ba_first_unset a index (ba_find_unset_bit a index)"
proof (cases "ba_total_chunks a \<le> index")
  case True
  then show ?thesis by (simp add: ba_find_unset_bit_def ba_first_unset_ge)
next
  case False
  define rem where "rem = index mod 64"
  define q where "q = drop_bit rem (ba_qword (ba_bitmap a) ((index - rem) div 8))"
  note w = ba_word_cases [OF rem_def [symmetric] q_def]
  consider "rem = 0" | "rem \<noteq> 0" "q \<noteq> push_bit (64 - rem) 1 - 1" | "rem \<noteq> 0" "q = push_bit (64 - rem) 1 - 1" by blast
  then show ?thesis
  proof cases
    case 1
    then show ?thesis using False ba_scan_words_first [of index a] by (simp add: ba_find_unset_bit_def rem_def)
  next
    case 2
    then show ?thesis using False w(2) by (simp add: ba_find_unset_bit_def rem_def q_def Let_def)
  next
    case 3
    have "(index + (64 - rem)) mod 64 = 0"
    proof -
      have "index + (64 - rem) = 64 * (index div 64) + 64"
        using div_mult_mod_eq [of index 64] mod_less_divisor [of 64 index] unfolding rem_def by linarith
      then show ?thesis by simp
    qed
    then have nxt: "ba_first_unset a (index + (64 - rem)) (ba_scan_words a (index + (64 - rem)))"
      by (rule ba_scan_words_first)
    have "b \<in> ba_used a" if r: "index \<le> b" "b < index + (64 - rem)" "b < ba_total_chunks a" for b
    proof -
      obtain d where "b = index + d" using le_Suc_ex [OF r(1)] by blast
      then show ?thesis using w(1) [OF 3(2), of d] r by simp
    qed
    then have "ba_first_unset a index (ba_scan_words a (index + (64 - rem)))"
      by (intro ba_first_unset_skip [OF nxt]) auto
    then show ?thesis using False 3 by (simp add: ba_find_unset_bit_def rem_def q_def Let_def)
  qed
qed

section \<open>Searching a run of free chunks\<close>

lemma ba_get_bit_Done: "k < ba_total_chunks a \<Longrightarrow> ba_get_bit a k = Done (k \<in> ba_used a)"
  by (simp add: ba_get_bit_def ba_used_def bit_iff_odd drop_bit_eq_div and_one_eq odd_iff_mod_2_eq_one)

lemma ba_count_unset_Done:
  "\<exists>n. ba_count_unset a index wanted = Done n \<and> n \<le> wanted \<and>
    {index..<index + n} \<inter> ba_used a = {} \<and> (0 < n \<longrightarrow> index + n \<le> ba_total_chunks a) \<and>
    (n < wanted \<longrightarrow> ba_total_chunks a \<le> index + n \<or> index + n \<in> ba_used a)"
proof (induction wanted arbitrary: index)
  case (Suc wanted)
  show ?case
  proof (cases "index < ba_total_chunks a \<and> index \<notin> ba_used a")
    case True
    obtain n where n: "ba_count_unset a (Suc index) wanted = Done n" "n \<le> wanted"
        "{Suc index..<Suc index + n} \<inter> ba_used a = {}" "0 < n \<longrightarrow> Suc index + n \<le> ba_total_chunks a"
        "n < wanted \<longrightarrow> ba_total_chunks a \<le> Suc index + n \<or> Suc index + n \<in> ba_used a"
      using Suc.IH by blast
    have "{index..<index + Suc n} = insert index {Suc index..<Suc index + n}" by auto
    then show ?thesis using True n by (intro exI [of _ "Suc n"]) (auto simp: ba_get_bit_Done)
  next
    case False
    then show ?thesis by (auto simp: ba_get_bit_Done)
  qed
qed simp

text \<open>A run of \<open>n\<close> free chunks starts at \<open>i\<close>.\<close>

definition ba_free_run :: "bitmap_allocator \<Rightarrow> nat \<Rightarrow> nat \<Rightarrow> bool" where
  "ba_free_run a n i \<longleftrightarrow> i + n \<le> ba_total_chunks a \<and> {i..<i + n} \<inter> ba_used a = {}"

lemma ba_search_Done:
  assumes "0 < needed" "needed \<le> ba_total_chunks a" "ba_total_chunks a < i + fuel"
    and "\<And>s. s < i \<Longrightarrow> \<not> ba_free_run a needed s"
  shows "\<exists>found. ba_search (Suc fuel) a needed i = Done found \<and>
    (case found of Some j \<Rightarrow> ba_free_run a needed j | None \<Rightarrow> \<forall>s. \<not> ba_free_run a needed s)"
  using assms(3,4)
proof (induction fuel arbitrary: i)
  case 0
  then have "\<not> ba_free_run a needed s" for s
    using assms(1) by (cases "s < i") (auto simp: ba_free_run_def)
  moreover have "\<not> i \<le> ba_total_chunks a - needed" using 0 by linarith
  ultimately show ?case by simp
next
  case (Suc fuel)
  show ?case
  proof (cases "i \<le> ba_total_chunks a - needed")
    case False
    then have "\<not> ba_free_run a needed s" for s
      using Suc.prems(2) [of s] by (cases "s < i") (auto simp: ba_free_run_def)
    then show ?thesis using False by simp
  next
    case True
    obtain n where n: "ba_count_unset a i needed = Done n" "n \<le> needed" "{i..<i + n} \<inter> ba_used a = {}"
        "0 < n \<longrightarrow> i + n \<le> ba_total_chunks a" "n < needed \<longrightarrow> ba_total_chunks a \<le> i + n \<or> i + n \<in> ba_used a"
      using ba_count_unset_Done by blast
    show ?thesis
    proof (cases "n < needed")
      case False
      then have "n = needed" using n(2) by simp
      then have "ba_free_run a needed i" using n(3,4) assms(1) by (simp add: ba_free_run_def)
      then show ?thesis using True n(1) False by simp
    next
      case less: True
      let ?j = "ba_find_unset_bit a (i + n + 1)"
      have j: "i + n + 1 \<le> ?j" "\<And>k. i + n + 1 \<le> k \<Longrightarrow> k < ?j \<Longrightarrow> k < ba_total_chunks a \<Longrightarrow> k \<in> ba_used a"
        using ba_find_unset_bit_first [of a "i + n + 1"] by (auto simp: ba_first_unset_def)
      have "\<not> ba_free_run a needed s" if "s < ?j" for s
      proof -
        consider "s < i" | "i \<le> s" "s \<le> i + n" | "i + n + 1 \<le> s" by linarith
        then show ?thesis
        proof cases
          case 2
          then show ?thesis using n(5) less by (fastforce simp: ba_free_run_def)
        next
          case 3
          then show ?thesis using j(2) [OF 3 that] assms(1) by (fastforce simp: ba_free_run_def)
        qed (use Suc.prems(2) in blast)
      qed
      moreover have "ba_total_chunks a < ?j + fuel" using Suc.prems(1) j(1) by linarith
      ultimately show ?thesis using Suc.IH [of ?j] True n(1) less by simp
    qed
  qed
qed

section \<open>Setting and clearing bits\<close>

lemma ba_bitmap_byte:
  assumes "ba_bitmap_ok a" "k < ba_total_chunks a"
  shows "k div 8 < length (ba_bitmap a)"
  using assms by (intro less_mult_imp_div_less) (simp add: ba_bitmap_ok_def mult.commute)

lemma div_mod_8_eq_iff: "(j::nat) div 8 = k div 8 \<Longrightarrow> j mod 8 = k mod 8 \<longleftrightarrow> j = k"
  by (metis div_mult_mod_eq)

text \<open>An allocator that differs from \<open>a\<close> in its bitmap only.\<close>

definition ba_same_but_bitmap :: "bitmap_allocator \<Rightarrow> bitmap_allocator \<Rightarrow> bool" where
  "ba_same_but_bitmap a a' \<longleftrightarrow> (\<exists>b. length b = length (ba_bitmap a) \<and> a' = a\<lparr>ba_bitmap := b\<rparr>)"

lemma ba_same_sel:
  assumes "ba_same_but_bitmap a a'"
  shows "ba_total_chunks a' = ba_total_chunks a" "ba_free_chunks a' = ba_free_chunks a"
    "ba_allocations a' = ba_allocations a" "ba_headers a' = ba_headers a" "ba_data_start a' = ba_data_start a"
    "ba_bitmap_ok a' = ba_bitmap_ok a"
  using assms by (auto simp: ba_same_but_bitmap_def ba_data_start_def ba_bitmap_ok_def)

lemma ba_same_refl: "ba_same_but_bitmap a a"
  unfolding ba_same_but_bitmap_def by (rule exI [of _ "ba_bitmap a"]) simp

lemma ba_same_trans: "ba_same_but_bitmap a b \<Longrightarrow> ba_same_but_bitmap b c \<Longrightarrow> ba_same_but_bitmap a c"
  by (auto simp: ba_same_but_bitmap_def)

lemma ba_set_bit_Done:
  assumes "ba_bitmap_ok a" "k < ba_total_chunks a"
  shows "\<exists>a'. ba_set_bit k v a = Done a' \<and> ba_same_but_bitmap a a' \<and>
    ba_used a' = (if v then insert k (ba_used a) else ba_used a - {k})"
proof -
  define m :: "8 word" where "m = push_bit (k mod 8) 1"
  define byte where "byte = (if v then (ba_bitmap a ! (k div 8)) OR m else (ba_bitmap a ! (k div 8)) AND NOT m)"
  let ?a' = "a\<lparr>ba_bitmap := (ba_bitmap a)[k div 8 := byte]\<rparr>"
  have set: "ba_set_bit k v a = Done ?a'"
    using assms(2) by (simp add: ba_set_bit_def Let_def byte_def m_def)
  have len: "k div 8 < length (ba_bitmap a)" using ba_bitmap_byte [OF assms] .
  have bits: "bit byte j \<longleftrightarrow> (if v then j = k mod 8 \<or> bit (ba_bitmap a ! (k div 8)) j
      else j \<noteq> k mod 8 \<and> bit (ba_bitmap a ! (k div 8)) j)" for j
    using bit_imp_le_length [of "ba_bitmap a ! (k div 8)" j] by (auto simp: byte_def m_def bit_simps)
  have "j \<in> ba_used ?a' \<longleftrightarrow> j \<in> (if v then insert k (ba_used a) else ba_used a - {k})" for j
  proof (cases "j div 8 = k div 8")
    case True
    then show ?thesis using len assms(2) bits [of "j mod 8"] div_mod_8_eq_iff [OF True] by (auto simp: ba_used_def)
  next
    case False
    then have "j \<noteq> k" by blast
    then show ?thesis using False by (simp add: ba_used_def)
  qed
  then have "ba_used ?a' = (if v then insert k (ba_used a) else ba_used a - {k})" by blast
  moreover have "ba_same_but_bitmap a ?a'" unfolding ba_same_but_bitmap_def by (intro exI conjI) (rule length_list_update, rule refl)
  ultimately show ?thesis using set by blast
qed

lemma ba_set_bits_Done:
  assumes "ba_bitmap_ok a" "\<forall>k \<in> set ks. k < ba_total_chunks a"
  shows "\<exists>a'. ba_set_bits ks v a = Done a' \<and> ba_same_but_bitmap a a' \<and>
    ba_used a' = (if v then ba_used a \<union> set ks else ba_used a - set ks)"
  using assms
proof (induction ks arbitrary: a)
  case Nil
  then show ?case by (simp add: ba_same_refl)
next
  case (Cons k ks)
  obtain a1 where a1: "ba_set_bit k v a = Done a1" "ba_same_but_bitmap a a1"
      "ba_used a1 = (if v then insert k (ba_used a) else ba_used a - {k})"
    using ba_set_bit_Done [of a k v] Cons.prems by auto
  have prem: "ba_bitmap_ok a1" "\<forall>k \<in> set ks. k < ba_total_chunks a1"
    using Cons.prems ba_same_sel [OF a1(2)] by simp_all
  obtain a2 where a2: "ba_set_bits ks v a1 = Done a2" "ba_same_but_bitmap a1 a2"
      "ba_used a2 = (if v then ba_used a1 \<union> set ks else ba_used a1 - set ks)"
    using Cons.IH [OF prem] by blast
  have "ba_same_but_bitmap a a2" using a1(2) a2(2) by (rule ba_same_trans)
  then show ?case using a1 a2 by (intro exI [of _ a2]) (auto split: if_splits)
qed

section \<open>The invariant\<close>

text \<open>
  \<open>live\<close> maps the first chunk of each live allocation to its number of chunks: non-empty runs below
  \<open>tot\<close> that do not overlap.
\<close>

definition live_ok :: "nat \<Rightarrow> (nat \<rightharpoonup> nat) \<Rightarrow> bool" where
  "live_ok tot live \<longleftrightarrow> finite (dom live) \<and>
     (\<forall>i n. live i = Some n \<longrightarrow> 0 < n \<and> i + n \<le> tot) \<and>
     (\<forall>i n j m. live i = Some n \<longrightarrow> live j = Some m \<longrightarrow> i \<noteq> j \<longrightarrow> {i..<i + n} \<inter> {j..<j + m} = {})"

definition live_chunks :: "(nat \<rightharpoonup> nat) \<Rightarrow> nat set" where
  "live_chunks live = {k. \<exists>i n. live i = Some n \<and> i \<le> k \<and> k < i + n}"

lemma live_chunksI: "live i = Some n \<Longrightarrow> i \<le> k \<Longrightarrow> k < i + n \<Longrightarrow> k \<in> live_chunks live"
  unfolding live_chunks_def by blast

lemma live_chunksE:
  assumes "k \<in> live_chunks live"
  obtains i n where "live i = Some n" "i \<le> k" "k < i + n"
  using assms unfolding live_chunks_def by blast

lemma live_chunks_sub: "live i = Some n \<Longrightarrow> {i..<i + n} \<subseteq> live_chunks live"
  by (auto intro: live_chunksI)

lemma live_ok_add:
  assumes "live_ok tot live" "{i..<i + n} \<inter> live_chunks live = {}" "0 < n" "i + n \<le> tot"
  shows "live i = None" "live_ok tot (live(i \<mapsto> n))"
    "live_chunks (live(i \<mapsto> n)) = live_chunks live \<union> {i..<i + n}"
proof -
  show none: "live i = None"
  proof (cases "live i")
    case (Some m)
    then have "0 < m" using assms(1) unfolding live_ok_def by blast
    then have "i \<in> live_chunks live" using live_chunksI [of live i m i] Some by simp
    then show ?thesis using assms(2,3) by (auto simp: disjoint_iff)
  qed
  have fresh: "{i..<i + n} \<inter> {j..<j + m} = {}" if "live j = Some m" for j m
    using live_chunks_sub [of live j m] that assms(2) by blast
  show "live_ok tot (live(i \<mapsto> n))"
    unfolding live_ok_def
  proof (intro conjI allI impI)
    fix j k l m assume "(live(i \<mapsto> n)) j = Some k" "(live(i \<mapsto> n)) l = Some m" "j \<noteq> l"
    then show "{j..<j + k} \<inter> {l..<l + m} = {}"
      using assms(1) fresh [of j k] fresh [of l m] unfolding live_ok_def by (auto split: if_splits)
  qed (use assms(1,3,4) in \<open>auto simp: live_ok_def split: if_splits\<close>)
  show "live_chunks (live(i \<mapsto> n)) = live_chunks live \<union> {i..<i + n}"
  proof (intro set_eqI iffI)
    fix k assume "k \<in> live_chunks (live(i \<mapsto> n))"
    then obtain j m where "(live(i \<mapsto> n)) j = Some m" "j \<le> k" "k < j + m" by (rule live_chunksE)
    then show "k \<in> live_chunks live \<union> {i..<i + n}" by (cases "j = i") (auto intro: live_chunksI)
  next
    fix k assume "k \<in> live_chunks live \<union> {i..<i + n}"
    then show "k \<in> live_chunks (live(i \<mapsto> n))"
    proof
      assume "k \<in> live_chunks live"
      then obtain j m where j: "live j = Some m" "j \<le> k" "k < j + m" by (rule live_chunksE)
      then have "(live(i \<mapsto> n)) j = Some m" using none by auto
      then show ?thesis using j(2,3) by (rule live_chunksI)
    next
      assume "k \<in> {i..<i + n}"
      then show ?thesis using live_chunksI [of "live(i \<mapsto> n)" i n k] by simp
    qed
  qed
qed

lemma live_ok_remove:
  assumes "live_ok tot live" "live i = Some n"
  shows "live_ok tot (live(i := None))" "live_chunks (live(i := None)) = live_chunks live - {i..<i + n}"
proof -
  show "live_ok tot (live(i := None))" using assms(1) by (auto simp: live_ok_def)
  show "live_chunks (live(i := None)) = live_chunks live - {i..<i + n}"
  proof (intro set_eqI iffI)
    fix k assume "k \<in> live_chunks (live(i := None))"
    then obtain j m where "(live(i := None)) j = Some m" and jk: "j \<le> k" "k < j + m" by (rule live_chunksE)
    then have j: "live j = Some m" "j \<noteq> i" by (auto split: if_splits)
    then have "{j..<j + m} \<inter> {i..<i + n} = {}" using assms unfolding live_ok_def by blast
    then show "k \<in> live_chunks live - {i..<i + n}" using live_chunksI [of live j m k] j(1) jk by auto
  next
    fix k assume k: "k \<in> live_chunks live - {i..<i + n}"
    then obtain j m where j: "live j = Some m" "j \<le> k" "k < j + m" by (blast elim: live_chunksE)
    then have "j \<noteq> i" using k assms(2) by auto
    then have "(live(i := None)) j = Some m" using j(1) by simp
    then show "k \<in> live_chunks (live(i := None))" using j(2,3) by (rule live_chunksI)
  qed
qed

text \<open>
  The used chunks are exactly those of the live allocations, each has its size in its header, and
  the counters are exact.
\<close>

definition ba_inv :: "bitmap_allocator \<Rightarrow> (nat \<rightharpoonup> nat) \<Rightarrow> bool" where
  "ba_inv a live \<longleftrightarrow> ba_bitmap_ok a \<and> live_ok (ba_total_chunks a) live \<and>
     (\<forall>i n. live i = Some n \<longrightarrow> ba_headers a (ba_data_start a + i * chunk_size) = n) \<and>
     ba_used a = live_chunks live \<and> ba_allocations a = card (dom live) \<and>
     ba_free_chunks a + card (ba_used a) = ba_total_chunks a"

definition ba_pointer :: "bitmap_allocator \<Rightarrow> nat \<Rightarrow> nat" where
  "ba_pointer a i = ba_data_start a + i * chunk_size + header_size"

lemma ba_pointer_chunk [simp]: "ba_get_first_chunk a (ba_pointer a i) = i"
  by (simp add: ba_get_first_chunk_def ba_pointer_def chunk_size_def)

lemma card_ba_used: "card (ba_used a) \<le> ba_total_chunks a"
  using card_mono [of "{..<ba_total_chunks a}" "ba_used a"] by (auto simp: ba_used_def)

lemma ba_take_Done:
  assumes inv: "ba_inv a live" and run: "ba_free_run a n i" and n: "0 < n"
  shows "\<exists>a'. ba_take i n a = Done (a', ba_pointer a i) \<and> ba_inv a' (live(i \<mapsto> n)) \<and>
    ba_used a' = ba_used a \<union> {i..<i + n} \<and> ba_data_start a' = ba_data_start a \<and>
    ba_total_chunks a' = ba_total_chunks a"
proof -
  have ok: "ba_bitmap_ok a" and lv: "live_ok (ba_total_chunks a) live"
    and hdr: "\<And>i n. live i = Some n \<Longrightarrow> ba_headers a (ba_data_start a + i * chunk_size) = n"
    and used: "ba_used a = live_chunks live" and cnt: "ba_allocations a = card (dom live)"
      "ba_free_chunks a + card (ba_used a) = ba_total_chunks a"
    using inv unfolding ba_inv_def by blast+
  have r: "{i..<i + n} \<inter> live_chunks live = {}" "i + n \<le> ba_total_chunks a"
    using run used by (auto simp: ba_free_run_def)
  note add = live_ok_add [OF lv r(1) n r(2)]
  have ks: "\<forall>k \<in> set [i..<i + n]. k < ba_total_chunks a" using r(2) by auto
  obtain a1 where a1: "ba_set_bits [i..<i + n] True a = Done a1" "ba_same_but_bitmap a a1"
      "ba_used a1 = ba_used a \<union> {i..<i + n}"
    using ba_set_bits_Done [OF ok ks, of True] by auto
  note same = ba_same_sel [OF a1(2)]
  let ?a' = "a1\<lparr>ba_headers := (ba_headers a1)(ba_data_start a1 + i * chunk_size := n),
     ba_free_chunks := ba_free_chunks a1 - n, ba_allocations := ba_allocations a1 + 1\<rparr>"
  have sel: "ba_used ?a' = ba_used a \<union> {i..<i + n}" "ba_data_start ?a' = ba_data_start a"
      "ba_bitmap_ok ?a' = ba_bitmap_ok a"
    using a1(3) same by (simp_all add: ba_used_def ba_data_start_def ba_bitmap_ok_def)
  have "card (ba_used a \<union> {i..<i + n}) = card (ba_used a) + n"
    using r(1) unfolding used [symmetric] by (subst card_Un_disjoint) auto
  then have free: "ba_free_chunks a - n + card (ba_used ?a') = ba_total_chunks a"
    using cnt(2) card_ba_used [of ?a'] same(1) sel(1) by simp
  have "card (dom (live(i \<mapsto> n))) = Suc (card (dom live))"
    using add(1) lv by (simp add: live_ok_def domIff)
  moreover have "ba_headers ?a' (ba_data_start a + j * chunk_size) = m" if "(live(i \<mapsto> n)) j = Some m" for j m
    using that hdr [of j m] same(4,5) by (auto simp: chunk_size_def split: if_splits)
  ultimately have "ba_inv ?a' (live(i \<mapsto> n))"
    unfolding ba_inv_def sel using ok add(2,3) free same(1-3) sel(1) used cnt(1) by simp
  moreover have "ba_take i n a = Done (?a', ba_pointer a i)"
    using a1(1) same(5) by (simp add: ba_take_def ba_pointer_def)
  ultimately show ?thesis using sel same(1) by auto
qed

lemma ba_free_Done:
  assumes inv: "ba_inv a live" and i: "live i = Some n"
  shows "\<exists>a'. ba_free (ba_pointer a i) a = Done a' \<and> ba_inv a' (live(i := None)) \<and>
    ba_used a' = ba_used a - {i..<i + n} \<and> ba_data_start a' = ba_data_start a \<and>
    ba_total_chunks a' = ba_total_chunks a"
proof -
  have ok: "ba_bitmap_ok a" and lv: "live_ok (ba_total_chunks a) live"
    and hdr: "\<And>i n. live i = Some n \<Longrightarrow> ba_headers a (ba_data_start a + i * chunk_size) = n"
    and used: "ba_used a = live_chunks live" and cnt: "ba_allocations a = card (dom live)"
      "ba_free_chunks a + card (ba_used a) = ba_total_chunks a"
    using inv unfolding ba_inv_def by blast+
  have r: "0 < n" "i + n \<le> ba_total_chunks a" using lv i by (auto simp: live_ok_def)
  note rem = live_ok_remove [OF lv i]
  have ks: "\<forall>k \<in> set [i..<i + n]. k < ba_total_chunks a" using r(2) by auto
  obtain a1 where a1: "ba_set_bits [i..<i + n] False a = Done a1" "ba_same_but_bitmap a a1"
      "ba_used a1 = ba_used a - {i..<i + n}"
    using ba_set_bits_Done [OF ok ks, of False] by auto
  note same = ba_same_sel [OF a1(2)]
  let ?a' = "a1\<lparr>ba_free_chunks := ba_free_chunks a1 + n, ba_allocations := ba_allocations a1 - 1\<rparr>"
  have sel: "ba_used ?a' = ba_used a - {i..<i + n}" "ba_data_start ?a' = ba_data_start a"
      "ba_bitmap_ok ?a' = ba_bitmap_ok a"
    using a1(3) same by (simp_all add: ba_used_def ba_data_start_def ba_bitmap_ok_def)
  have sub: "{i..<i + n} \<subseteq> ba_used a" using live_chunks_sub [of live i n] i used by simp
  then have "card (ba_used a - {i..<i + n}) = card (ba_used a) - n" "n \<le> card (ba_used a)"
    using card_mono [OF finite_ba_used sub] by (simp_all add: card_Diff_subset)
  then have free: "ba_free_chunks a + n + card (ba_used ?a') = ba_total_chunks a"
    using cnt(2) sel(1) by simp
  have "card (dom (live(i := None))) = card (dom live) - 1"
    using i lv by (simp add: live_ok_def card_Diff_singleton domI)
  then have "ba_inv ?a' (live(i := None))"
    unfolding ba_inv_def sel using ok rem free same(1-5) sel(1) used cnt(1) hdr by simp
  moreover have "ba_free (ba_pointer a i) a = Done ?a'"
  proof -
    have "ba_contains a (ba_pointer a i)" using r by (simp add: ba_contains_def) (simp add: ba_pointer_def)
    moreover have "ba_headers a (ba_pointer a i - header_size) = n" using hdr [OF i] by (simp add: ba_pointer_def)
    ultimately show ?thesis using a1(1) by (simp add: ba_free_def)
  qed
  ultimately show ?thesis using sel same(1) by auto
qed

lemma ba_free_run_le:
  assumes "ba_inv a live" "ba_free_run a n i"
  shows "n \<le> ba_free_chunks a"
proof -
  have "card (ba_used a \<union> {i..<i + n}) = card (ba_used a) + n"
    using assms(2) by (subst card_Un_disjoint) (auto simp: ba_free_run_def)
  moreover have "card (ba_used a \<union> {i..<i + n}) \<le> card {..<ba_total_chunks a}"
    using assms(2) by (intro card_mono) (auto simp: ba_used_def ba_free_run_def)
  moreover have "ba_free_chunks a + card (ba_used a) = ba_total_chunks a" using assms(1) unfolding ba_inv_def by blast
  ultimately show ?thesis by simp
qed

lemma ba_allocate_cases:
  assumes inv: "ba_inv a live" and n: "0 < n"
  shows "if \<exists>i. ba_free_run a n i
    then \<exists>i a'. ba_free_run a n i \<and> ba_allocate n a = Done (a', ba_pointer a i) \<and> ba_inv a' (live(i \<mapsto> n)) \<and>
      ba_data_start a' = ba_data_start a \<and> ba_total_chunks a' = ba_total_chunks a
    else ba_allocate n a = Done (a, 0)"
proof (cases "n \<le> ba_free_chunks a")
  case False
  then show ?thesis using ba_free_run_le [OF inv] n by (auto simp: ba_allocate_def)
next
  case True
  have total: "n \<le> ba_total_chunks a" using True inv by (simp add: ba_inv_def)
  let ?i = "ba_find_unset_bit a 0"
  have "s \<in> ba_used a" if "s < ?i" "s < ba_total_chunks a" for s
    using ba_find_unset_bit_first [of a 0] that by (simp add: ba_first_unset_def)
  then have below: "\<not> ba_free_run a n s" if "s < ?i" for s
    using that n by (fastforce simp: ba_free_run_def)
  have "ba_total_chunks a < ?i + Suc (ba_total_chunks a)" by simp
  then obtain found where f: "ba_search (Suc (Suc (ba_total_chunks a))) a n ?i = Done found"
      "case found of Some j \<Rightarrow> ba_free_run a n j | None \<Rightarrow> \<forall>s. \<not> ba_free_run a n s"
    using ba_search_Done [OF n total, of ?i "Suc (ba_total_chunks a)"] below by blast
  show ?thesis
  proof (cases found)
    case None
    then have "\<not> (\<exists>i. ba_free_run a n i)" "ba_allocate n a = Done (a, 0)"
      using f n True by (simp_all add: ba_allocate_def)
    then show ?thesis by simp
  next
    case (Some j)
    then have run: "ba_free_run a n j" and al: "ba_allocate n a = ba_take j n a"
      using f n True by (simp_all add: ba_allocate_def)
    then have "\<exists>i. ba_free_run a n i" by blast
    then show ?thesis using ba_take_Done [OF inv run n] run al by auto
  qed
qed

section \<open>Blocks of memory\<close>

definition chunk_bytes :: "bitmap_allocator \<Rightarrow> nat \<Rightarrow> nat \<Rightarrow> nat set" where
  "chunk_bytes a i n = {ba_data_start a + i * chunk_size..<ba_data_start a + (i + n) * chunk_size}"

lemma chunk_bytes_disjoint:
  assumes "{i..<i + n} \<inter> {j..<j + m} = {}"
  shows "chunk_bytes a i n \<inter> chunk_bytes a j m = {}"
proof -
  have "i + n \<le> j \<or> j + m \<le> i \<or> n = 0 \<or> m = 0"
  proof (rule ccontr)
    assume "\<not> ?thesis"
    then have "max i j \<in> {i..<i + n} \<inter> {j..<j + m}" by auto
    then show False using assms by blast
  qed
  then show ?thesis by (auto simp: chunk_bytes_def chunk_size_def)
qed

lemma needed_chunks_enough: "header_size + bytes \<le> needed_chunks bytes * chunk_size" "0 < needed_chunks bytes"
proof -
  have "chunk_size * ((header_size + bytes + chunk_size - 1) div chunk_size) + chunk_size - 1 \<ge> header_size + bytes + chunk_size - 1"
    using mult_div_mod_eq [of chunk_size "header_size + bytes + chunk_size - 1"]
      mod_less_divisor [of chunk_size "header_size + bytes + chunk_size - 1"]
    unfolding chunk_size_def by linarith
  then show le: "header_size + bytes \<le> needed_chunks bytes * chunk_size"
    unfolding needed_chunks_def chunk_size_def by (simp add: mult.commute)
  show "0 < needed_chunks bytes"
  proof (rule ccontr)
    assume "\<not> 0 < needed_chunks bytes"
    then show False using le by (simp add: header_size_def)
  qed
qed

lemma pointer_in_chunks:
  assumes "header_size + bytes \<le> n * chunk_size"
  shows "{ba_pointer a i..<ba_pointer a i + bytes} \<subseteq> chunk_bytes a i n"
  using assms by (auto simp: ba_pointer_def chunk_bytes_def add_mult_distrib)

lemma ba_initialize_inv:
  assumes "0 < bytes" "bytes mod chunk_size = 0"
  shows "ba_inv (ba_initialize bytes base) Map.empty"
proof -
  define bb where "bb = (bytes + chunk_size * 8 - 1) div (chunk_size * 8)"
  define bc where "bc = (bb + chunk_size - 1) div chunk_size"
  have a: "ba_bitmap (ba_initialize bytes base) = replicate (bc * chunk_size) 0"
      "ba_total_chunks (ba_initialize bytes base) = bytes div chunk_size - bc"
    by (simp_all add: ba_initialize_def Let_def bb_def bc_def)
  have "bytes \<le> bb * (chunk_size * 8)"
    using mult_div_mod_eq [of "chunk_size * 8" "bytes + chunk_size * 8 - 1"]
      mod_less_divisor [of "chunk_size * 8" "bytes + chunk_size * 8 - 1"] assms(1)
    unfolding bb_def chunk_size_def by linarith
  moreover have "bb \<le> bc * chunk_size"
    using mult_div_mod_eq [of chunk_size "bb + chunk_size - 1"] mod_less_divisor [of chunk_size "bb + chunk_size - 1"]
    unfolding bc_def chunk_size_def by linarith
  ultimately have "bytes div chunk_size - bc \<le> 8 * (bc * chunk_size)"
    unfolding chunk_size_def by linarith
  then have "ba_bitmap_ok (ba_initialize bytes base)"
    unfolding ba_bitmap_ok_def a by (simp add: chunk_size_def)
  moreover have "ba_used (ba_initialize bytes base) = {}"
  proof -
    have "\<not> bit (replicate (bc * chunk_size) (0::8 word) ! (k div 8)) (k mod 8)"
      if "k < bytes div chunk_size - bc" for k
      using that \<open>bytes div chunk_size - bc \<le> 8 * (bc * chunk_size)\<close> by (subst nth_replicate) auto
    then show ?thesis unfolding ba_used_def a by blast
  qed
  moreover have "ba_free_chunks (ba_initialize bytes base) = ba_total_chunks (ba_initialize bytes base)"
      "ba_allocations (ba_initialize bytes base) = 0"
    by (simp_all add: ba_initialize_def Let_def)
  ultimately show ?thesis by (simp add: ba_inv_def live_ok_def live_chunks_def)
qed

section \<open>Properties\<close>

text \<open>
  C8: The chunk allocator never hands out memory twice and finds memory whenever there is some. On an
  allocator that satisfies its invariant, an allocation for \<open>bytes\<close> bytes halts on no assertion and
  its search ends; it succeeds exactly when a long enough run of free chunks exists, and then
  the \<open>bytes\<close> bytes at the pointer lie in chunks that no live allocation has, which become a
  new live allocation; otherwise it returns null and changes nothing.
\<close>

theorem ba_allocate_correct:
  fixes bytes :: nat
  assumes "ba_inv a live"
  defines "n \<equiv> needed_chunks bytes"
  shows "if \<exists>i. ba_free_run a n i
    then \<exists>i a' ptr. ba_allocate n a = Done (a', ptr) \<and> ptr \<noteq> 0 \<and> ba_inv a' (live(i \<mapsto> n)) \<and>
      {ptr..<ptr + bytes} \<subseteq> chunk_bytes a i n \<and>
      (\<forall>j m. live j = Some m \<longrightarrow> chunk_bytes a i n \<inter> chunk_bytes a j m = {})
    else ba_allocate n a = Done (a, 0)"
proof (cases "\<exists>i. ba_free_run a n i")
  case True
  then obtain i a' where i: "ba_free_run a n i" "ba_allocate n a = Done (a', ba_pointer a i)" "ba_inv a' (live(i \<mapsto> n))"
    using ba_allocate_cases [OF assms(1) needed_chunks_enough(2), of bytes] unfolding n_def [symmetric] by auto
  have "chunk_bytes a i n \<inter> chunk_bytes a j m = {}" if "live j = Some m" for j m
  proof (rule chunk_bytes_disjoint)
    have "{j..<j + m} \<subseteq> ba_used a" using live_chunks_sub [of live j m] that assms(1) by (simp add: ba_inv_def)
    then show "{i..<i + n} \<inter> {j..<j + m} = {}" using i(1) unfolding ba_free_run_def by blast
  qed
  moreover have "{ba_pointer a i..<ba_pointer a i + bytes} \<subseteq> chunk_bytes a i n"
    using needed_chunks_enough(1) by (simp add: n_def pointer_in_chunks)
  moreover have "ba_pointer a i \<noteq> 0" by (simp add: ba_pointer_def header_size_def)
  ultimately show ?thesis using True i(2,3) by auto
next
  case False
  then show ?thesis
    using ba_allocate_cases [OF assms(1) needed_chunks_enough(2), of bytes] by (simp add: n_def)
qed

lemma example_allocator:
  "ba_inv (ba_initialize 4096 0x10000) Map.empty" "ba_free_run (ba_initialize 4096 0x10000) 3 0"
proof -
  show inv: "ba_inv (ba_initialize 4096 0x10000) Map.empty" by (rule ba_initialize_inv) (simp_all add: chunk_size_def)
  then have "ba_used (ba_initialize 4096 0x10000) = {}" by (simp add: ba_inv_def live_chunks_def)
  then show "ba_free_run (ba_initialize 4096 0x10000) 3 0"
    by (simp add: ba_free_run_def ba_initialize_def Let_def chunk_size_def)
qed

theorem ba_allocate_correct_witness:
  "\<exists>i a' ptr. ba_allocate (needed_chunks 150) (ba_initialize 4096 0x10000) = Done (a', ptr) \<and> ptr \<noteq> 0 \<and>
     ba_inv a' [i \<mapsto> 3]"
proof -
  have n: "needed_chunks 150 = 3" by (simp add: needed_chunks_def header_size_def chunk_size_def)
  then have "\<exists>i. ba_free_run (ba_initialize 4096 0x10000) (needed_chunks 150) i"
    using example_allocator(2) by auto
  then show ?thesis using ba_allocate_correct [OF example_allocator(1), of 150] n by auto
qed

text \<open>
  C9: Freeing the pointer of a live allocation trips no assertion, frees exactly the chunks of that
  allocation, and keeps the invariant: allocating and freeing again leaves the same live
  allocations and the same used chunks.
\<close>

theorem ba_free_correct:
  assumes "ba_inv a live" "live i = Some n"
  shows "\<exists>a'. ba_free (ba_pointer a i) a = Done a' \<and> ba_inv a' (live(i := None)) \<and>
    ba_used a' = ba_used a - {i..<i + n} \<and> ba_free_chunks a' = ba_free_chunks a + n"
proof -
  obtain a' where a': "ba_free (ba_pointer a i) a = Done a'" "ba_inv a' (live(i := None))"
      "ba_used a' = ba_used a - {i..<i + n}" "ba_total_chunks a' = ba_total_chunks a"
    using ba_free_Done [OF assms] by blast
  have sub: "{i..<i + n} \<subseteq> ba_used a" using live_chunks_sub [of live i n] assms by (simp add: ba_inv_def)
  have "card (ba_used a') = card (ba_used a) - n" "n \<le> card (ba_used a)"
    using card_mono [OF finite_ba_used sub] sub a'(3) by (simp_all add: card_Diff_subset)
  moreover have "ba_free_chunks a' + card (ba_used a') = ba_total_chunks a'"
      "ba_free_chunks a + card (ba_used a) = ba_total_chunks a"
    using a'(2) assms(1) unfolding ba_inv_def by blast+
  ultimately have "ba_free_chunks a' = ba_free_chunks a + n" using a'(4) by linarith
  then show ?thesis using a' by blast
qed

theorem ba_free_correct_witness:
  "\<exists>a ptr a'. ba_allocate 3 (ba_initialize 4096 0x10000) = Done (a, ptr) \<and> ba_free ptr a = Done a' \<and>
     ba_inv a' Map.empty"
proof -
  have pos: "0 < (3::nat)" by simp
  have ex: "\<exists>i. ba_free_run (ba_initialize 4096 0x10000) 3 i" using example_allocator(2) by blast
  obtain i a where a: "ba_allocate 3 (ba_initialize 4096 0x10000) = Done (a, ba_pointer (ba_initialize 4096 0x10000) i)"
      "ba_inv a [i \<mapsto> 3]" "ba_data_start a = ba_data_start (ba_initialize 4096 0x10000)"
    using ba_allocate_cases [OF example_allocator(1) pos] ex by auto
  have "ba_pointer a i = ba_pointer (ba_initialize 4096 0x10000) i" using a(3) by (simp add: ba_pointer_def)
  then show ?thesis using ba_free_correct [OF a(2), of i 3] a(1) by auto
qed

lemma kfree_small_none: "\<forall>a\<in>set as. \<not> ba_contains a ptr \<Longrightarrow> kfree_small ptr as = Done None"
  by (induction as) simp_all

text \<open>
  C21: A big request is all or nothing for the page allocator. On a well-formed heap, when the page table has found a region and the heap has
  enough free pages, it takes as many distinct free pages as the request needs and returns the pointer behind the header, and freeing that pointer
  gives exactly these pages back; otherwise, and only then, it returns null with every page free again. (The pages of the page
  table itself are not counted, and sizes within a page of \<open>2 ^ 64\<close> are excluded.)
\<close>

theorem kmalloc_big_roundtrip:
  assumes wf: "heap_wf (km_heap st)" and big: "big_allocation_threshold \<le> bytes + big_header_size"
    and fits: "bytes + big_header_size + PAGE_SIZE \<le> 2 ^ 64"
    and none: "\<forall>a\<in>set (km_allocators st). \<not> ba_contains a (vaddr + big_header_size)"
  defines "pc \<equiv> (bytes + big_header_size + (PAGE_SIZE - 1)) div PAGE_SIZE"
  shows "\<exists>st1 ptr. kmalloc vaddr bytes st = Done (st1, ptr) \<and> heap_wf (km_heap st1) \<and>
    (if vaddr = 0 \<or> card (heap_free (km_heap st)) < pc
     then ptr = 0 \<and> heap_free (km_heap st1) = heap_free (km_heap st) \<and> heap_used (km_heap st1) = heap_used (km_heap st)
     else ptr = vaddr + big_header_size \<and> (\<exists>pages st2. km_big st1 vaddr = Some pages \<and> distinct pages \<and> length pages = pc \<and>
       bytes + big_header_size \<le> length pages * PAGE_SIZE \<and> set pages \<subseteq> heap_free (km_heap st) \<and>
       heap_free (km_heap st1) = heap_free (km_heap st) - set pages \<and>
       kfree ptr st1 = Done st2 \<and> heap_wf (km_heap st2) \<and> heap_free (km_heap st2) = heap_free (km_heap st) \<and>
       heap_used (km_heap st2) = heap_used (km_heap st)))"
proof -
  have u: "u64_add bytes big_header_size = bytes + big_header_size"
      "u64_add (bytes + big_header_size) (PAGE_SIZE - 1) = bytes + big_header_size + (PAGE_SIZE - 1)"
    using fits by (auto intro!: u64_add_no_wrap simp: PAGE_SIZE_def)
  have k: "kmalloc vaddr bytes st = rbind (kmalloc_map_pages vaddr pc (km_heap st)) (\<lambda>(h, res).
      case res of None \<Rightarrow> Done (st\<lparr>km_heap := h\<rparr>, 0)
      | Some pages \<Rightarrow> Done (st\<lparr>km_heap := h, km_big := (km_big st)(vaddr \<mapsto> pages)\<rparr>, vaddr + big_header_size))"
    using big u by (simp add: kmalloc_def kmalloc_big_def pc_def Let_def)
  have enough: "bytes + big_header_size \<le> pc * PAGE_SIZE"
    using div_mult_mod_eq [of "bytes + big_header_size + (PAGE_SIZE - 1)" PAGE_SIZE]
      mod_less_divisor [of PAGE_SIZE "bytes + big_header_size + (PAGE_SIZE - 1)"]
    unfolding pc_def PAGE_SIZE_def by linarith
  then have pc: "pc \<noteq> 0" by (cases pc) (simp_all add: big_header_size_def)
  have fin: "finite (heap_free (km_heap st))" by (simp add: heap_free_def)
  obtain h1 ps where t: "kernel_pool.take_pages pc (km_heap st) = Done (h1, ps)" "heap_wf h1" "distinct ps"
      "length ps = min pc (card (heap_free (km_heap st)))" "set ps \<subseteq> heap_free (km_heap st)"
      "heap_free h1 = heap_free (km_heap st) - set ps" "heap_used h1 = heap_used (km_heap st) \<union> set ps"
    using kernel_pool.take_pages_correct [OF wf fin] by blast
  obtain h2 where g: "kernel_pool.give_pages ps h1 = Done h2" "heap_wf h2"
      "heap_free h2 = heap_free h1 \<union> set ps" "heap_used h2 = heap_used h1 - set ps"
    using kernel_pool.give_pages_correct [OF t(2,3)] t(7) by auto
  have restored: "heap_free h2 = heap_free (km_heap st)" "heap_used h2 = heap_used (km_heap st)"
    using g(3,4) t(5-7) kernel_pool.disjoint [OF wf] by blast+
  consider "vaddr = 0" | "vaddr \<noteq> 0" "card (heap_free (km_heap st)) < pc" | "vaddr \<noteq> 0" "pc \<le> card (heap_free (km_heap st))" by linarith
  then show ?thesis
  proof cases
    case 1
    then have "kmalloc vaddr bytes st = Done (st, 0)" using k by (simp add: kmalloc_map_pages_def reserve_free_contiguous_pages_def)
    then show ?thesis using wf 1 by (intro exI [of _ st] exI [of _ 0]) simp
  next
    case 2
    then have "kmalloc vaddr bytes st = Done (st\<lparr>km_heap := h2\<rparr>, 0)"
      using t(1,4) g(1) k pc by (simp add: kmalloc_map_pages_def reserve_free_contiguous_pages_def ring_map_pages_pool ring_release_pages_pool)
    then show ?thesis using g(2) restored 2 by (intro exI [of _ "st\<lparr>km_heap := h2\<rparr>"] exI [of _ 0]) simp
  next
    case 3
    let ?st1 = "st\<lparr>km_heap := h1, km_big := (km_big st)(vaddr \<mapsto> ps)\<rparr>"
    let ?st2 = "?st1\<lparr>km_heap := h2, km_big := (km_big ?st1)(vaddr := None)\<rparr>"
    have len: "length ps = pc" using t(4) 3(2) by simp
    have "kmalloc vaddr bytes st = Done (?st1, vaddr + big_header_size)"
      using 3(1) t(1) len pc by (simp add: k kmalloc_map_pages_def reserve_free_contiguous_pages_def ring_map_pages_pool)
    moreover have "kfree (vaddr + big_header_size) ?st1 = Done ?st2"
      using kfree_small_none [OF none] g(1) 3(1) by (simp add: kfree_def ring_release_pages_pool)
    ultimately show ?thesis
      using 3 t len enough restored g(2)
      by (intro exI [of _ ?st1] exI [of _ "vaddr + big_header_size"]) simp
  qed
qed

lemma example_heap_five_pages:
  obtains r where "phys_range_create 0x100000 0x6000 = Done r" "heap_wf \<lparr>m_physical_ranges = [r]\<rparr>"
    "heap_free \<lparr>m_physical_ranges = [r]\<rparr> = {0x101000, 0x102000, 0x103000, 0x104000, 0x105000}"
proof -
  obtain r where r: "phys_range_create 0x100000 0x6000 = Done r" "pr_wf r" "pr_used r = {0}" "pr_paddr r = 0x100000"
      "pr_page_count r = 0x6000 div PAGE_SIZE"
    by (rule phys_range_create_wf [of "0x100000" "0x6000"]) (auto simp: PAGE_SIZE_def pr_max_bytes_def)
  have "{..<6} - {0} = {1, 2, 3, 4, 5::nat}" by auto
  then have "range_free r = {0x101000, 0x102000, 0x103000, 0x104000, 0x105000}"
    using r(3-5) by (simp add: range_free_def page_addr_def PAGE_SIZE_def)
  then show ?thesis using that [OF r(1)] r(2) by (simp add: heap_wf_def heap_free_def)
qed

theorem kmalloc_big_roundtrip_witness:
  "case phys_range_create 0x100000 0x6000 of Halt \<Rightarrow> False
   | Done r \<Rightarrow> \<exists>st1 pages st2. kmalloc 0xC0000000 20000 \<lparr>km_allocators = [ba_initialize 4096 0x10000], km_heap = \<lparr>m_physical_ranges = [r]\<rparr>, km_big = Map.empty\<rparr>
         = Done (st1, 0xC0000010) \<and> km_big st1 0xC0000000 = Some pages \<and> length pages = 5 \<and> heap_free (km_heap st1) = {} \<and>
         kfree 0xC0000010 st1 = Done st2 \<and> heap_free (km_heap st2) = {0x101000, 0x102000, 0x103000, 0x104000, 0x105000}"
proof -
  obtain r where r: "phys_range_create 0x100000 0x6000 = Done r" "heap_wf \<lparr>m_physical_ranges = [r]\<rparr>"
      "heap_free \<lparr>m_physical_ranges = [r]\<rparr> = {0x101000, 0x102000, 0x103000, 0x104000, 0x105000}"
    using example_heap_five_pages by metis
  let ?st = "\<lparr>km_allocators = [ba_initialize 4096 0x10000], km_heap = \<lparr>m_physical_ranges = [r]\<rparr>, km_big = Map.empty\<rparr>"
  have "heap_wf (km_heap ?st)" "big_allocation_threshold \<le> 20000 + big_header_size"
      "20000 + big_header_size + PAGE_SIZE \<le> 2 ^ 64"
      "\<forall>a\<in>set (km_allocators ?st). \<not> ba_contains a (0xC0000000 + big_header_size)"
    using r(2) by (simp_all add: big_allocation_threshold_def big_header_size_def PAGE_SIZE_def ba_contains_def header_size_def ba_get_first_chunk_def
        ba_data_start_def ba_initialize_def Let_def chunk_size_def)
  from kmalloc_big_roundtrip [OF this] obtain st1 pages st2 where s: "kmalloc 0xC0000000 20000 ?st = Done (st1, 0xC0000010)"
      "km_big st1 0xC0000000 = Some pages" "distinct pages" "length pages = 5" "set pages \<subseteq> heap_free (km_heap ?st)"
      "heap_free (km_heap st1) = heap_free (km_heap ?st) - set pages" "kfree 0xC0000010 st1 = Done st2" "heap_free (km_heap st2) = heap_free (km_heap ?st)"
    using r(3) by (auto simp: big_header_size_def PAGE_SIZE_def)
  have "set pages = heap_free (km_heap ?st)" using s(3-5) r(3) by (intro card_subset_eq) (auto simp: distinct_card)
  then show ?thesis using s r(1,3) by simp
qed

text \<open>
  C35: The page count of a big request is computed without an overflow check: for the requests whose
  rounding up to pages passes \<open>2 ^ 64\<close> it is 0, and as soon as the page table has any free region \<open>kmalloc\<close> does not return null for these
  impossible sizes but stops the kernel at the assertion of \<^verbatim>\<open>reserve_range\<close>, whatever the state of the allocators.
\<close>

theorem kmalloc_page_count_wraps:
  assumes "vaddr \<noteq> 0" "bytes + big_header_size < 2 ^ 64" "2 ^ 64 < bytes + big_header_size + PAGE_SIZE"
  shows "kmalloc vaddr bytes st = Halt"
proof -
  have "u64_add bytes big_header_size = bytes + big_header_size" using assms(2) by (rule u64_add_no_wrap)
  moreover have "u64_add (bytes + big_header_size) (PAGE_SIZE - 1) = bytes + big_header_size + (PAGE_SIZE - 1) - 2 ^ 64"
    using assms(2,3) by (simp add: u64_add_def PAGE_SIZE_def mod_if)
  moreover have "(bytes + big_header_size + (PAGE_SIZE - 1) - 2 ^ 64) div PAGE_SIZE = 0"
    using assms(2) by (simp add: PAGE_SIZE_def)
  ultimately show ?thesis
    using assms by (simp add: kmalloc_def kmalloc_big_def kmalloc_map_pages_def reserve_free_contiguous_pages_def big_allocation_threshold_def PAGE_SIZE_def)
qed

theorem kmalloc_page_count_wraps_witness:
  "kmalloc 0xC0000000 (2 ^ 64 - 17) (kmalloc_initialize 0x10000 \<lparr>m_physical_ranges = []\<rparr>) = Halt"
  by (rule kmalloc_page_count_wraps) (simp_all add: big_header_size_def PAGE_SIZE_def)

end
