(* ===== verification/Pipe.thy ===== *)
theory Pipe
  imports RingBuffer
begin

text \<open>
  \<^verbatim>\<open>kernel/kernel/FS/Pipe.cpp\<close>: pipes and named pipes. A pipe is a ring buffer with the numbers of
  its open read and write ends; the numbers are 32-bit atomics. Every operation holds the
  mutex of the pipe, so one attempt of it is one step. \<open>eintr\<close> says whether a signal is pending when
  the thread would block; \<open>now\<close> is the system time.
\<close>

section \<open>Model\<close>

record open_flags =
  fl_read :: bool
  fl_write :: bool
  fl_nonblock :: bool

record 'a pipe =
  p_buffer :: "'a ring"
  p_writing_count :: "32 word"
  p_reading_count :: "32 word"
  p_atime :: nat
  p_mtime :: nat
  p_ctime :: nat

definition pipe_buffer_size :: nat where
  "pipe_buffer_size = 0x10000"

definition pipe_read_impl ::
  "nat \<Rightarrow> bool \<Rightarrow> nat \<Rightarrow> 'a pipe \<Rightarrow> ('a pipe \<times> 'a list error_or attempt \<times> notice list) run" where
  "pipe_read_impl now eintr n p =
     (if ring_empty (p_buffer p) then
        (if p_writing_count p = 0 then Done (p, Returns (Inr []), [])
         else if eintr then Done (p, Returns (Inl EINTR), [])
         else Done (p, Blocks, []))
      else let to_copy = math_min n (rb_size (p_buffer p))
           in rbind (ring_get_data (p_buffer p)) (\<lambda>data.
              rbind (ring_pop to_copy (p_buffer p)) (\<lambda>b.
                Done (p\<lparr>p_buffer := b, p_atime := now\<rparr>, Returns (Inr (take to_copy data)),
                      [EPOLLOUT, Unblock]))))"

text \<open>The result is the number of bytes written; \<open>sigpipe\<close> is the signal sent to the thread.\<close>

definition pipe_write_impl ::
  "nat \<Rightarrow> bool \<Rightarrow> 'a list \<Rightarrow> 'a pipe \<Rightarrow> ('a pipe \<times> nat error_or attempt \<times> bool \<times> notice list) run" where
  "pipe_write_impl now eintr data p =
     (if ring_full (p_buffer p) then
        (if p_reading_count p = 0 then Done (p, Returns (Inl EPIPE), True, [])
         else if eintr then Done (p, Returns (Inl EINTR), False, [])
         else Done (p, Blocks, False, []))
      else let to_copy = math_min (length data) (ring_free (p_buffer p))
           in rbind (ring_push (take to_copy data) (p_buffer p)) (\<lambda>b.
                Done (p\<lparr>p_buffer := b, p_mtime := now, p_ctime := now\<rparr>, Returns (Inr to_copy), False,
                      [EPOLLIN, Unblock])))"

definition pipe_on_clone :: "open_flags \<Rightarrow> 'a pipe \<Rightarrow> 'a pipe run" where
  "pipe_on_clone fl p =
     rbind (if fl_write fl
            then asserting (0 < p_writing_count p) (Done (p\<lparr>p_writing_count := p_writing_count p + 1\<rparr>))
            else Done p)
       (\<lambda>p. if fl_read fl
            then asserting (0 < p_reading_count p) (Done (p\<lparr>p_reading_count := p_reading_count p + 1\<rparr>))
            else Done p)"

text \<open>
  \<open>on_close\<close> returns early after the decrement of the write end when other write ends remain, and
  likewise for the read end.
\<close>

definition pipe_close_read :: "'a pipe \<Rightarrow> notice list \<Rightarrow> ('a pipe \<times> notice list) run" where
  "pipe_close_read p ns =
     asserting (0 < p_reading_count p)
       (let p' = p\<lparr>p_reading_count := p_reading_count p - 1\<rparr>
        in if p_reading_count p \<noteq> 1 then Done (p', ns) else Done (p', ns @ [EPOLLERR, Unblock]))"

definition pipe_on_close :: "open_flags \<Rightarrow> 'a pipe \<Rightarrow> ('a pipe \<times> notice list) run" where
  "pipe_on_close fl p =
     (if fl_write fl then
        asserting (0 < p_writing_count p)
          (let p' = p\<lparr>p_writing_count := p_writing_count p - 1\<rparr>
           in if p_writing_count p \<noteq> 1 then Done (p', [])
              else if fl_read fl then pipe_close_read p' [EPOLLHUP]
              else Done (p', [EPOLLHUP, Unblock]))
      else if fl_read fl then pipe_close_read p []
      else Done (p, [Unblock]))"

definition pipe_truncate_impl :: "nat \<Rightarrow> 'a pipe \<Rightarrow> unit error_or" where
  "pipe_truncate_impl n p = Inl ENODEV"

definition pipe_can_read :: "'a pipe \<Rightarrow> bool" where
  "pipe_can_read p = (\<not> ring_empty (p_buffer p))"

definition pipe_has_error :: "'a pipe \<Rightarrow> bool" where
  "pipe_has_error p = (p_reading_count p = 0)"

definition pipe_has_hungup :: "'a pipe \<Rightarrow> bool" where
  "pipe_has_hungup p = (p_writing_count p = 0)"

text \<open>
  An unnamed pipe starts with one read and one write end. \<open>ring\<close> is the result of creating the
  buffer; \<open>new_ok\<close> whether the object could be allocated.
\<close>

definition pipe_init :: "'a ring \<Rightarrow> nat \<Rightarrow> 'a pipe" where
  "pipe_init r now = \<lparr>p_buffer = r, p_writing_count = 0, p_reading_count = 0, p_atime = now, p_mtime = now, p_ctime = now\<rparr>"

definition pipe_create :: "bool \<Rightarrow> 'a ring error_or \<Rightarrow> nat \<Rightarrow> 'a pipe error_or" where
  "pipe_create new_ok ring now =
     (if \<not> new_ok then Inl ENOMEM
      else case ring of Inl e \<Rightarrow> Inl e
           | Inr r \<Rightarrow> Inr ((pipe_init r now)\<lparr>p_reading_count := 1, p_writing_count := 1\<rparr>))"

text \<open>
  Named pipes: the table maps an inode to a weak reference (\<open>None\<close>, or the identity of a pipe that may
  be gone already); a pipe is alive while it is in \<open>pw_pipes\<close>. Looking a pipe up inserts the
  entry and creates the pipe when needed; failures of the four allocations are parameters.
\<close>

record ('i, 'a) pipe_world =
  pw_named :: "'i \<rightharpoonup> nat option"
  pw_pipes :: "nat \<rightharpoonup> 'a pipe"
  pw_next :: nat

definition pipe_lock_weak :: "('i, 'a) pipe_world \<Rightarrow> nat option \<Rightarrow> nat option" where
  "pipe_lock_weak w ref =
     (case ref of None \<Rightarrow> None | Some i \<Rightarrow> if pw_pipes w i = None then None else Some i)"

definition pipe_find_or_create ::
  "bool \<Rightarrow> bool \<Rightarrow> 'a ring error_or \<Rightarrow> bool \<Rightarrow> nat \<Rightarrow> 'i \<Rightarrow> ('i, 'a) pipe_world \<Rightarrow>
   ('i, 'a) pipe_world \<times> nat error_or" where
  "pipe_find_or_create insert_ok new_ok ring weak_ok now inode w =
     (let found = pw_named w inode
      in if found = None \<and> \<not> insert_ok then (w, Inl ENOMEM)
         else let w = (if found = None then w\<lparr>pw_named := (pw_named w)(inode \<mapsto> None)\<rparr> else w);
                  ref = the (pw_named w inode)
              in case pipe_lock_weak w ref of
                   Some i \<Rightarrow> (w, Inr i)
                 | None \<Rightarrow>
                     if \<not> new_ok then (w, Inl ENOMEM)
                     else case ring of Inl e \<Rightarrow> (w, Inl e)
                     | Inr r \<Rightarrow>
                         if \<not> weak_ok then (w\<lparr>pw_named := (pw_named w)(inode := None)\<rparr>, Inl ENOMEM)
                         else (w\<lparr>pw_named := (pw_named w)(inode \<mapsto> Some (pw_next w)),
                                  pw_pipes := (pw_pipes w)(pw_next w \<mapsto> pipe_init r now),
                                  pw_next := Suc (pw_next w)\<rparr>, Inr (pw_next w)))"

text \<open>
  The rest of \<open>Pipe::open\<close>: \<open>pipe_open_count\<close> registers the new end; then \<open>pipe_open_wait\<close> is one round of
  the wait for the other end.
\<close>

definition pipe_open_count :: "open_flags \<Rightarrow> 'a pipe \<Rightarrow> 'a pipe" where
  "pipe_open_count fl p =
     (let p = (if fl_read fl then p\<lparr>p_reading_count := p_reading_count p + 1\<rparr> else p)
      in if fl_write fl then p\<lparr>p_writing_count := p_writing_count p + 1\<rparr> else p)"

definition pipe_open_wait :: "bool \<Rightarrow> open_flags \<Rightarrow> 'a pipe \<Rightarrow> unit error_or attempt" where
  "pipe_open_wait eintr fl p =
     (if fl_nonblock fl then
        (if fl_write fl \<and> p_writing_count p = 0 then Returns (Inl ENXIO) else Returns (Inr ()))
      else let block_value = (if fl_write fl then p_reading_count p else p_writing_count p)
           in if block_value = 0 then (if eintr then Returns (Inl EINTR) else Blocks) else Returns (Inr ()))"

definition pipe_destroy :: "'i option \<Rightarrow> nat \<Rightarrow> ('i, 'a) pipe_world \<Rightarrow> ('i, 'a) pipe_world" where
  "pipe_destroy named_inode i w =
     (let w = w\<lparr>pw_pipes := (pw_pipes w)(i := None)\<rparr>
      in case named_inode of None \<Rightarrow> w | Some inode \<Rightarrow> w\<lparr>pw_named := (pw_named w)(inode := None)\<rparr>)"

section \<open>One read, one write\<close>

definition pipe_wf :: "'a pipe \<Rightarrow> bool" where
  "pipe_wf p \<longleftrightarrow> ring_wf (p_buffer p)"

definition pipe_bytes :: "'a pipe \<Rightarrow> 'a list" where
  "pipe_bytes p = ring_abs (p_buffer p)"

lemma length_pipe_bytes: "pipe_wf p \<Longrightarrow> length (pipe_bytes p) = rb_size (p_buffer p)"
  by (simp add: pipe_bytes_def)

lemma pipe_read_nonempty:
  assumes "pipe_wf p" "pipe_bytes p \<noteq> []"
  shows "\<exists>p'. pipe_read_impl now eintr n p = Done (p', Returns (Inr (take n (pipe_bytes p))), [EPOLLOUT, Unblock]) \<and>
    pipe_wf p' \<and> pipe_bytes p = take n (pipe_bytes p) @ pipe_bytes p' \<and>
    p_writing_count p' = p_writing_count p \<and> p_reading_count p' = p_reading_count p \<and>
    rb_capacity (p_buffer p') = rb_capacity (p_buffer p)"
proof -
  let ?b = "p_buffer p"
  have wf: "ring_wf ?b" and ne: "\<not> ring_empty ?b"
    using assms by (auto simp: pipe_wf_def pipe_bytes_def ring_empty_def ring_abs_def)
  obtain b where b: "rbind (ring_get_data ?b) (\<lambda>xs. rbind (ring_pop (min n (rb_size ?b)) ?b) (\<lambda>q.
        Done (q, take (min n (rb_size ?b)) xs))) = Done (b, take n (ring_abs ?b))"
      "ring_wf b" "ring_abs ?b = take n (ring_abs ?b) @ ring_abs b" "rb_capacity b = rb_capacity ?b"
    using ring_fifo.copy_out [OF wf, of n] by auto
  then have "ring_pop (min n (rb_size ?b)) ?b = Done b"
      "take (min n (rb_size ?b)) (ring_abs ?b) = take n (ring_abs ?b)"
    using ring_get_data_Done [OF wf] by (auto simp: rbind_eq_Done_iff)
  then have "pipe_read_impl now eintr n p =
      Done (p\<lparr>p_buffer := b, p_atime := now\<rparr>, Returns (Inr (take n (ring_abs ?b))), [EPOLLOUT, Unblock])"
    using ne ring_get_data_Done [OF wf] by (simp add: pipe_read_impl_def Let_def)
  then show ?thesis using b(2-4) by (simp add: pipe_wf_def pipe_bytes_def)
qed

lemma pipe_read_empty:
  assumes "pipe_bytes p = []"
  shows "pipe_read_impl now eintr n p =
    Done (p, if p_writing_count p = 0 then Returns (Inr []) else if eintr then Returns (Inl EINTR) else Blocks, [])"
proof -
  have "rb_size (p_buffer p) = 0" using assms length_ring_abs [of "p_buffer p"] by (simp add: pipe_bytes_def)
  then show ?thesis by (simp add: pipe_read_impl_def ring_empty_def)
qed

lemma pipe_write_room:
  fixes xs :: "'a list"
  assumes "pipe_wf p" "length (pipe_bytes p) < rb_capacity (p_buffer p)"
  defines "n \<equiv> min (length xs) (rb_capacity (p_buffer p) - length (pipe_bytes p))"
  shows "\<exists>p'. pipe_write_impl now eintr xs p = Done (p', Returns (Inr n), False, [EPOLLIN, Unblock]) \<and>
    pipe_wf p' \<and> pipe_bytes p' = pipe_bytes p @ take n xs \<and>
    p_writing_count p' = p_writing_count p \<and> p_reading_count p' = p_reading_count p \<and>
    rb_capacity (p_buffer p') = rb_capacity (p_buffer p)"
proof -
  let ?b = "p_buffer p"
  have wf: "ring_wf ?b" and room: "\<not> ring_full ?b"
    using assms(1,2) by (auto simp: pipe_wf_def pipe_bytes_def ring_full_def)
  obtain b where "ring_push (take n xs) ?b = Done b" "ring_wf b" "ring_abs b = ring_abs ?b @ take n xs"
      "rb_capacity b = rb_capacity ?b"
    using ring_fifo.copy_in [OF wf, of xs] by (auto simp: n_def pipe_bytes_def)
  then show ?thesis
    using room by (simp add: pipe_write_impl_def Let_def ring_free_def n_def pipe_wf_def pipe_bytes_def)
qed

lemma pipe_write_full:
  assumes "length (pipe_bytes p) = rb_capacity (p_buffer p)"
  shows "pipe_write_impl now eintr xs p =
    Done (p, if p_reading_count p = 0 then Returns (Inl EPIPE)
             else if eintr then Returns (Inl EINTR) else Blocks, p_reading_count p = 0, [])"
  using assms by (simp add: pipe_write_impl_def ring_full_def pipe_bytes_def)

section \<open>Sequences of calls\<close>

datatype 'a pipe_op =
    PRead nat nat bool
  | PWrite nat "'a list" bool
  | PClone open_flags
  | PClose open_flags
  | POpen open_flags

text \<open>One call: the new pipe, the bytes the pipe accepted, and the bytes it delivered.\<close>

definition pipe_exec :: "'a pipe_op \<Rightarrow> 'a pipe \<Rightarrow> ('a pipe \<times> 'a list \<times> 'a list) run" where
  "pipe_exec op p =
     (case op of
        PRead now n eintr \<Rightarrow>
          rbind (pipe_read_impl now eintr n p) (\<lambda>(p', res, ns).
            Done (p', [], case res of Returns (Inr xs) \<Rightarrow> xs | _ \<Rightarrow> []))
      | PWrite now xs eintr \<Rightarrow>
          rbind (pipe_write_impl now eintr xs p) (\<lambda>(p', res, sig, ns).
            Done (p', case res of Returns (Inr k) \<Rightarrow> take k xs | _ \<Rightarrow> [], []))
      | PClone fl \<Rightarrow> rbind (pipe_on_clone fl p) (\<lambda>p'. Done (p', [], []))
      | PClose fl \<Rightarrow> rbind (pipe_on_close fl p) (\<lambda>(p', ns). Done (p', [], []))
      | POpen fl \<Rightarrow> Done (pipe_open_count fl p, [], []))"

fun pipe_run :: "'a pipe_op list \<Rightarrow> 'a pipe \<Rightarrow> ('a pipe \<times> 'a list \<times> 'a list) run" where
  "pipe_run [] p = Done (p, [], [])"
| "pipe_run (op # ops) p =
     rbind (pipe_exec op p) (\<lambda>(p1, w1, r1).
       rbind (pipe_run ops p1) (\<lambda>(p2, w2, r2). Done (p2, w1 @ w2, r1 @ r2)))"

text \<open>The open ends and the size of the buffer.\<close>

definition same_ends :: "'a pipe \<Rightarrow> 'a pipe \<Rightarrow> bool" where
  "same_ends p p' \<longleftrightarrow> p_writing_count p' = p_writing_count p \<and> p_reading_count p' = p_reading_count p \<and>
     rb_capacity (p_buffer p') = rb_capacity (p_buffer p)"

text \<open>Close \<open>n\<close> descriptors of the same kind.\<close>

fun pipe_close_all :: "nat \<Rightarrow> open_flags \<Rightarrow> 'a pipe \<Rightarrow> ('a pipe \<times> notice list) run" where
  "pipe_close_all 0 fl p = Done (p, [])"
| "pipe_close_all (Suc n) fl p =
     rbind (pipe_on_close fl p) (\<lambda>(p1, ns1). rbind (pipe_close_all n fl p1) (\<lambda>(p2, ns2). Done (p2, ns1 @ ns2)))"

lemma pipe_counts_keep_buffer:
  "pipe_on_clone fl p = Done p' \<Longrightarrow> p_buffer p' = p_buffer p"
  "pipe_on_close fl p = Done (p', ns) \<Longrightarrow> p_buffer p' = p_buffer p"
  "p_buffer (pipe_open_count fl p) = p_buffer p"
  by (auto simp: pipe_on_clone_def pipe_on_close_def pipe_close_read_def pipe_open_count_def Let_def
      run_iffs split: if_splits)

lemma pipe_read_conserves:
  assumes "pipe_wf p"
  shows "\<exists>p' res ns. pipe_read_impl now eintr n p = Done (p', res, ns) \<and> pipe_wf p' \<and>
    pipe_bytes p = (case res of Returns (Inr xs) \<Rightarrow> xs | _ \<Rightarrow> []) @ pipe_bytes p'"
proof (cases "pipe_bytes p = []")
  case True
  then show ?thesis using pipe_read_empty [OF True, of now eintr n] assms by auto
next
  case False
  then show ?thesis using pipe_read_nonempty [OF assms False, of now eintr n] by fastforce
qed

lemma pipe_write_conserves:
  assumes "pipe_wf p"
  shows "\<exists>p' res sig ns. pipe_write_impl now eintr xs p = Done (p', res, sig, ns) \<and> pipe_wf p' \<and>
    pipe_bytes p' = pipe_bytes p @ (case res of Returns (Inr k) \<Rightarrow> take k xs | _ \<Rightarrow> [])"
proof (cases "length (pipe_bytes p) < rb_capacity (p_buffer p)")
  case True
  then show ?thesis using pipe_write_room [OF assms True, of now eintr xs] by fastforce
next
  case False
  then have full: "length (pipe_bytes p) = rb_capacity (p_buffer p)"
    using ring_fifo.bounded [of "p_buffer p"] assms by (simp add: pipe_wf_def pipe_bytes_def)
  show ?thesis using pipe_write_full [OF full, of now eintr xs] assms by auto
qed

lemma pipe_exec_conserves:
  assumes "pipe_wf p" "pipe_exec op p = Done (p', w, r)"
  shows "pipe_wf p' \<and> pipe_bytes p @ w = r @ pipe_bytes p'"
proof (cases op)
  case (PRead now n eintr)
  then show ?thesis
    using pipe_read_conserves [OF assms(1), of now eintr n] assms(2) by (auto simp: pipe_exec_def)
next
  case (PWrite now xs eintr)
  then show ?thesis
    using pipe_write_conserves [OF assms(1), of now eintr xs] assms(2) by (auto simp: pipe_exec_def)
qed (use assms in \<open>auto simp: pipe_exec_def rbind_eq_Done_iff pipe_wf_def pipe_bytes_def
       pipe_counts_keep_buffer(3) dest!: pipe_counts_keep_buffer(1,2)\<close>)

section \<open>Properties\<close>

text \<open>
  C10: A pipe delivers every byte once and in order. Whatever reads (blocking, interrupted or at the end
  of file), writes (partial, failing or blocking), clones, opens and closes are made on a
  well-formed pipe, the bytes in the pipe followed by the bytes it accepted are the bytes it delivered
  followed by the bytes that are still in it.
\<close>

theorem pipe_stream:
  assumes "pipe_wf p" "pipe_run ops p = Done (p', written, delivered)"
  shows "pipe_wf p' \<and> pipe_bytes p @ written = delivered @ pipe_bytes p'"
  using assms
proof (induction ops arbitrary: p written delivered)
  case (Cons op ops)
  obtain p1 w1 r1 w2 r2 where run: "pipe_exec op p = Done (p1, w1, r1)" "pipe_run ops p1 = Done (p', w2, r2)"
      "written = w1 @ w2" "delivered = r1 @ r2"
    using Cons.prems(2) by (auto simp: rbind_eq_Done_iff)
  have step: "pipe_wf p1" "pipe_bytes p @ w1 = r1 @ pipe_bytes p1"
    using pipe_exec_conserves [OF Cons.prems(1) run(1)] by simp_all
  have "pipe_bytes p @ written = r1 @ pipe_bytes p1 @ w2" using step(2) run(3) by (metis append.assoc)
  then show ?case using Cons.IH [OF step(1) run(2)] run(4) by simp
qed simp

definition example_pipe :: "nat pipe" where
  "example_pipe = \<lparr>p_buffer = \<lparr>rb_size = 0, rb_tail = 0, rb_capacity = 4, rb_mem = [0, 0, 0, 0]\<rparr>,
     p_writing_count = 1, p_reading_count = 1, p_atime = 0, p_mtime = 0, p_ctime = 0\<rparr>"

theorem pipe_stream_witness:
  "\<exists>p'. pipe_run [PWrite 1 [5, 6, 7] False, PRead 2 2 False, PWrite 3 [8, 9, 10, 11] False, PRead 4 3 False]
     example_pipe = Done (p', [5, 6, 7, 8, 9, 10], [5, 6, 7, 8, 9]) \<and> pipe_bytes p' = [10]"
proof -
  have wf: "pipe_wf example_pipe" by (simp add: pipe_wf_def ring_wf_def example_pipe_def)
  let ?ops = "[PWrite 1 [5, 6, 7] False, PRead 2 2 False, PWrite 3 [8, 9, 10, 11] False, PRead 4 3 False]"
  have "case pipe_run ?ops example_pipe of Halt \<Rightarrow> False
      | Done (p', w, r) \<Rightarrow> w = [5, 6, 7, 8, 9, 10] \<and> r = [5, 6, 7, 8, 9]" by code_simp
  then obtain p' where run: "pipe_run ?ops example_pipe = Done (p', [5, 6, 7, 8, 9, 10], [5, 6, 7, 8, 9])"
    by (auto split: run.splits)
  moreover have "pipe_bytes p' = [10]"
    using pipe_stream [OF wf run] by (simp add: pipe_bytes_def ring_abs_def example_pipe_def)
  ultimately show ?thesis by blast
qed

text \<open>
  C29: Reads and writes of a well-formed pipe never halt, wait exactly when they must and transfer exactly what they
  report. A read of a non-empty pipe delivers its first \<open>n\<close> bytes (or all) and removes them; of an empty pipe it is the end of
  file when no write end is open, and otherwise it waits (or is interrupted). A write appends the
  longest prefix of its data that fits and returns its length, unless the pipe is full; then it fails with \<open>EPIPE\<close> and a signal when
  no read end is open, and otherwise it waits (or is interrupted). A call that transfers nothing changes nothing.
\<close>

theorem pipe_read_write_cases:
  assumes "pipe_wf p"
  shows "(\<exists>p' res ns. pipe_read_impl now eintr n p = Done (p', res, ns) \<and>
      res = (if pipe_bytes p \<noteq> [] then Returns (Inr (take n (pipe_bytes p)))
             else if p_writing_count p = 0 then Returns (Inr [])
             else if eintr then Returns (Inl EINTR) else Blocks) \<and>
      (if pipe_bytes p \<noteq> [] then pipe_wf p' \<and> pipe_bytes p' = drop n (pipe_bytes p) \<and> same_ends p p' else p' = p)) \<and>
    (\<exists>p' res sig ns. pipe_write_impl now eintr xs p = Done (p', res, sig, ns) \<and>
      res = (if length (pipe_bytes p) < rb_capacity (p_buffer p)
             then Returns (Inr (min (length xs) (rb_capacity (p_buffer p) - length (pipe_bytes p))))
             else if p_reading_count p = 0 then Returns (Inl EPIPE)
             else if eintr then Returns (Inl EINTR) else Blocks) \<and>
      (if length (pipe_bytes p) < rb_capacity (p_buffer p)
       then pipe_wf p' \<and> pipe_bytes p' = pipe_bytes p @ take (rb_capacity (p_buffer p) - length (pipe_bytes p)) xs \<and> same_ends p p'
       else p' = p) \<and>
      (sig \<longleftrightarrow> res = Returns (Inl EPIPE)))"
proof
  show "\<exists>p' res ns. pipe_read_impl now eintr n p = Done (p', res, ns) \<and>
      res = (if pipe_bytes p \<noteq> [] then Returns (Inr (take n (pipe_bytes p)))
             else if p_writing_count p = 0 then Returns (Inr [])
             else if eintr then Returns (Inl EINTR) else Blocks) \<and>
      (if pipe_bytes p \<noteq> [] then pipe_wf p' \<and> pipe_bytes p' = drop n (pipe_bytes p) \<and> same_ends p p' else p' = p)"
  proof (cases "pipe_bytes p = []")
    case True
    then show ?thesis using pipe_read_empty [OF True, of now eintr n] by simp
  next
    case False
    obtain p' where p': "pipe_read_impl now eintr n p = Done (p', Returns (Inr (take n (pipe_bytes p))), [EPOLLOUT, Unblock])"
        "pipe_wf p'" "pipe_bytes p = take n (pipe_bytes p) @ pipe_bytes p'" "same_ends p p'"
      using pipe_read_nonempty [OF assms False, of now eintr n] by (auto simp: same_ends_def)
    have "pipe_bytes p' = drop n (pipe_bytes p)" using p'(3) by (metis append_take_drop_id same_append_eq)
    then show ?thesis using p' False by simp
  qed
  show "\<exists>p' res sig ns. pipe_write_impl now eintr xs p = Done (p', res, sig, ns) \<and>
      res = (if length (pipe_bytes p) < rb_capacity (p_buffer p)
             then Returns (Inr (min (length xs) (rb_capacity (p_buffer p) - length (pipe_bytes p))))
             else if p_reading_count p = 0 then Returns (Inl EPIPE)
             else if eintr then Returns (Inl EINTR) else Blocks) \<and>
      (if length (pipe_bytes p) < rb_capacity (p_buffer p)
       then pipe_wf p' \<and> pipe_bytes p' = pipe_bytes p @ take (rb_capacity (p_buffer p) - length (pipe_bytes p)) xs \<and> same_ends p p'
       else p' = p) \<and>
      (sig \<longleftrightarrow> res = Returns (Inl EPIPE))"
  proof (cases "length (pipe_bytes p) < rb_capacity (p_buffer p)")
    case True
    have "take (min (length xs) k) xs = take k xs" for k by (simp add: min_def)
    then show ?thesis using pipe_write_room [OF assms True, of now eintr xs] True by (auto simp: same_ends_def)
  next
    case False
    then have full: "length (pipe_bytes p) = rb_capacity (p_buffer p)"
      using ring_fifo.bounded [of "p_buffer p"] assms by (simp add: pipe_wf_def pipe_bytes_def)
    show ?thesis using pipe_write_full [OF full, of now eintr xs] full by auto
  qed
qed

definition filled_pipe :: "nat pipe" where
  "filled_pipe = example_pipe\<lparr>p_buffer := \<lparr>rb_size = 2, rb_tail = 3, rb_capacity = 4, rb_mem = [9, 0, 0, 8]\<rparr>\<rparr>"

theorem pipe_read_write_cases_witness:
  "(\<exists>p' ns. pipe_read_impl 7 False 1 filled_pipe = Done (p', Returns (Inr [8]), ns) \<and> pipe_bytes p' = [9]) \<and>
   (\<exists>p' sig ns. pipe_write_impl 7 False [5, 6, 7] filled_pipe = Done (p', Returns (Inr 2), sig, ns) \<and> pipe_bytes p' = [8, 9, 5, 6])"
proof -
  have wf: "pipe_wf filled_pipe" by (simp add: pipe_wf_def ring_wf_def filled_pipe_def)
  have b: "pipe_bytes filled_pipe = [8, 9]" and c: "rb_capacity (p_buffer filled_pipe) = 4" by code_simp+
  show ?thesis using pipe_read_write_cases [OF wf, of 7 False 1 "[5, 6, 7]"] unfolding b c by (auto simp: numeral_2_eq_2)
qed

text \<open>
  C36: Opening a named pipe for writing without blocking never fails, although no reader may exist: the
  test for \<open>ENXIO\<close> reads the number of write ends, which the call has just incremented (unless
  it wrapped around).
\<close>

theorem pipe_open_nonblock_never_enxio:
  assumes "fl_nonblock fl" "fl_write fl" "p_writing_count p \<noteq> - 1"
  shows "pipe_open_wait eintr fl (pipe_open_count fl p) = Returns (Inr ())"
proof -
  have "p_writing_count p + 1 \<noteq> 0" using assms(3) by (metis eq_neg_iff_add_eq_0)
  then show ?thesis using assms(1,2) by (simp add: pipe_open_wait_def pipe_open_count_def Let_def)
qed

theorem pipe_open_nonblock_never_enxio_witness:
  "pipe_open_wait False \<lparr>fl_read = False, fl_write = True, fl_nonblock = True\<rparr>
     (pipe_open_count \<lparr>fl_read = False, fl_write = True, fl_nonblock = True\<rparr>
       (example_pipe\<lparr>p_reading_count := 0\<rparr>)) = Returns (Inr ())"
  by (rule pipe_open_nonblock_never_enxio) (simp_all add: example_pipe_def)

text \<open>
  C37: Closing a descriptor that is open for both reading and writing forgets its read end unless it is the last write end. When all the
  \<open>w\<close> write ends of a pipe are such descriptors, closing them all takes back a single read end: the pipe still counts the
  other ones as readers, so it is never in the error state in which writers get \<open>EPIPE\<close>, and nobody is woken.
\<close>

theorem pipe_close_rdwr_leaks_reader:
  assumes "fl_read fl" "fl_write fl" "0 < w" "w < 2 ^ 32" "p_writing_count p = of_nat w" "1 < p_reading_count p"
  shows "\<exists>p' ns. pipe_close_all w fl p = Done (p', ns) \<and> p_writing_count p' = 0 \<and> p_reading_count p' = p_reading_count p - 1 \<and>
    \<not> pipe_has_error p' \<and> Unblock \<notin> set ns"
  using assms(3-6)
proof (induction w arbitrary: p)
  case (Suc w)
  have pos: "0 < p_writing_count p" using of_nat_32_eq_0 [OF Suc.prems(2)] Suc.prems(3) by (simp add: word_gt_0)
  have rd: "0 < p_reading_count p" "p_reading_count p \<noteq> 1" "p_reading_count p - 1 \<noteq> 0" using Suc.prems(4) by (auto simp: word_gt_0)
  show ?case
  proof (cases "w = 0")
    case True
    then show ?thesis using Suc.prems(3) assms(1,2) rd by (simp add: pipe_on_close_def pipe_close_read_def pipe_has_error_def Let_def)
  next
    case False
    have not_last: "p_writing_count p \<noteq> 1" using of_nat_32_eq_0 [of w] False Suc.prems(2,3) by simp
    let ?p = "p\<lparr>p_writing_count := p_writing_count p - 1\<rparr>"
    have "pipe_on_close fl p = Done (?p, [])" using assms(2) pos not_last by (simp add: pipe_on_close_def Let_def)
    moreover have "p_writing_count ?p = of_nat w" "1 < p_reading_count ?p" using Suc.prems(3,4) by simp_all
    ultimately show ?thesis using Suc.IH [of ?p] False Suc.prems(2) by auto
  qed
qed simp

theorem pipe_close_rdwr_leaks_reader_witness:
  "\<exists>p' ns. pipe_close_all 3 \<lparr>fl_read = True, fl_write = True, fl_nonblock = False\<rparr>
      (example_pipe\<lparr>p_reading_count := 3, p_writing_count := 3\<rparr>) = Done (p', ns) \<and>
    p_writing_count p' = 0 \<and> p_reading_count p' = 2 \<and> \<not> pipe_has_error p' \<and> Unblock \<notin> set ns"
  using pipe_close_rdwr_leaks_reader [of "\<lparr>fl_read = True, fl_write = True, fl_nonblock = False\<rparr>" 3
      "example_pipe\<lparr>p_reading_count := 3, p_writing_count := 3\<rparr>"] by simp

end
