(* ===== verification/EventFD.thy ===== *)
theory EventFD
  imports Prelude
begin

text \<open>
  \<^verbatim>\<open>kernel/kernel/FS/EventFD.cpp\<close>: an event counter of 64 bits. A read takes the whole value, or one
  unit in semaphore mode; a write adds to it and waits while the sum does not fit. Buffers are
  given by their size and, for a write, the 64-bit value at their start.
\<close>

section \<open>Model\<close>

record eventfd =
  ev_is_semaphore :: bool
  ev_value :: "64 word"

definition eventfd_create :: "bool \<Rightarrow> 64 word \<Rightarrow> bool \<Rightarrow> eventfd error_or" where
  "eventfd_create new_ok initval semaphore =
     (if \<not> new_ok then Inl ENOMEM else Inr \<lparr>ev_is_semaphore = semaphore, ev_value = initval\<rparr>)"

text \<open>A successful read returns the value it stores in the buffer; the call itself returns 8.\<close>

definition eventfd_read_impl ::
  "bool \<Rightarrow> nat \<Rightarrow> eventfd \<Rightarrow> eventfd \<times> (64 word) error_or attempt \<times> notice list" where
  "eventfd_read_impl eintr buffer_size e =
     (if buffer_size < 8 then (e, Returns (Inl EINVAL), [])
      else if ev_value e = 0 then (e, if eintr then Returns (Inl EINTR) else Blocks, [])
      else let read_value = (if ev_is_semaphore e then 1 else ev_value e)
           in (e\<lparr>ev_value := ev_value e - read_value\<rparr>, Returns (Inr read_value), [EPOLLOUT, Unblock]))"

definition eventfd_write_impl ::
  "bool \<Rightarrow> nat \<Rightarrow> 64 word \<Rightarrow> eventfd \<Rightarrow> eventfd \<times> nat error_or attempt \<times> notice list" where
  "eventfd_write_impl eintr buffer_size write_value e =
     (if buffer_size < 8 then (e, Returns (Inl EINVAL), [])
      else if write_value = - 1 then (e, Returns (Inl EINVAL), [])
      else if ev_value e + write_value < ev_value e then (e, if eintr then Returns (Inl EINTR) else Blocks, [])
      else let e' = e\<lparr>ev_value := ev_value e + write_value\<rparr>
           in (e', Returns (Inr 8), (if 0 < ev_value e' then [EPOLLIN] else []) @ [Unblock]))"

definition eventfd_can_read :: "eventfd \<Rightarrow> bool" where
  "eventfd_can_read e = (0 < ev_value e)"

definition eventfd_can_write :: "eventfd \<Rightarrow> bool" where
  "eventfd_can_write e = (ev_value e < - 1 - 1)"

section \<open>Sequences of calls\<close>

datatype eventfd_op = EvRead bool nat | EvWrite bool nat "64 word"

text \<open>One call: the new counter, what was added and what was taken.\<close>

definition eventfd_exec :: "eventfd_op \<Rightarrow> eventfd \<Rightarrow> eventfd \<times> nat \<times> nat" where
  "eventfd_exec op e =
     (case op of
        EvRead eintr n \<Rightarrow> (case eventfd_read_impl eintr n e of (e', res, ns) \<Rightarrow>
          (e', 0, case res of Returns (Inr v) \<Rightarrow> unat v | _ \<Rightarrow> 0))
      | EvWrite eintr n v \<Rightarrow> (case eventfd_write_impl eintr n v e of (e', res, ns) \<Rightarrow>
          (e', case res of Returns (Inr _) \<Rightarrow> unat v | _ \<Rightarrow> 0, 0)))"

fun eventfd_run :: "eventfd_op list \<Rightarrow> eventfd \<Rightarrow> eventfd \<times> nat \<times> nat" where
  "eventfd_run [] e = (e, 0, 0)"
| "eventfd_run (op # ops) e =
     (case eventfd_exec op e of (e1, a1, t1) \<Rightarrow> case eventfd_run ops e1 of (e2, a2, t2) \<Rightarrow>
        (e2, a1 + a2, t1 + t2))"

lemma no_wrap_iff:
  fixes v w :: "'a::len word"
  shows "\<not> v + w < v \<longleftrightarrow> unat v + unat w < 2 ^ LENGTH('a)"
  using no_olen_add_nat [of v w] by (simp add: not_less)

lemma eventfd_read_value:
  assumes "eventfd_read_impl eintr n e = (e', Returns (Inr v), ns)"
  shows "unat (ev_value e) = unat v + unat (ev_value e')" "0 < unat v"
proof -
  have e: "ev_value e \<noteq> 0" "v = (if ev_is_semaphore e then 1 else ev_value e)" "ev_value e' = ev_value e - v"
    using assms by (auto simp: eventfd_read_impl_def Let_def split: if_splits)
  then have "v \<le> ev_value e" by (auto simp: word_le_nat_alt unat_gt_0 Suc_le_eq)
  then show "unat (ev_value e) = unat v + unat (ev_value e')"
    using e(3) by (simp add: unat_sub word_le_nat_alt)
  show "0 < unat v" using e(1,2) by (simp add: unat_gt_0)
qed

lemma eventfd_write_value:
  assumes "eventfd_write_impl eintr n v e = (e', Returns (Inr k), ns)"
  shows "unat (ev_value e') = unat (ev_value e) + unat v"
proof -
  have e: "\<not> ev_value e + v < ev_value e" "ev_value e' = ev_value e + v"
    using assms by (auto simp: eventfd_write_impl_def Let_def split: if_splits)
  then have "unat (ev_value e) + unat v < 2 ^ 64" using no_wrap_iff [of "ev_value e" v] by simp
  then show ?thesis using e(2) by (simp add: unat_word_ariths)
qed

lemma eventfd_exec_conserves:
  assumes "eventfd_exec op e = (e', a, t)"
  shows "unat (ev_value e) + a = t + unat (ev_value e')"
proof (cases op)
  case (EvRead eintr n)
  obtain e1 res ns where r: "eventfd_read_impl eintr n e = (e1, res, ns)" by (metis prod_cases3)
  have "e1 = e" if "\<nexists>v. res = Returns (Inr v)"
    using r that by (auto simp: eventfd_read_impl_def Let_def split: if_splits)
  then show ?thesis
    using assms EvRead r eventfd_read_value [of eintr n e e1 _ ns]
    by (auto simp: eventfd_exec_def split: attempt.splits sum.splits)
next
  case (EvWrite eintr n v)
  obtain e1 res ns where r: "eventfd_write_impl eintr n v e = (e1, res, ns)" by (metis prod_cases3)
  have "e1 = e" if "\<nexists>v. res = Returns (Inr v)"
    using r that by (auto simp: eventfd_write_impl_def Let_def split: if_splits)
  then show ?thesis
    using assms EvWrite r eventfd_write_value [of eintr n v e e1 _ ns]
    by (auto simp: eventfd_exec_def split: attempt.splits sum.splits)
qed

section \<open>Properties\<close>

text \<open>
  C30: No event is lost, made up or wrapped around: over every sequence of reads and writes of an event
  counter, the initial value plus everything the successful writes added equals everything
  the successful reads returned plus the value that is left, as unbounded numbers.
\<close>

theorem eventfd_conserves:
  "case eventfd_run ops e of (e', added, taken) \<Rightarrow>
     unat (ev_value e) + added = taken + unat (ev_value e')"
proof (induction ops arbitrary: e)
  case (Cons op ops)
  obtain e1 a1 t1 where s: "eventfd_exec op e = (e1, a1, t1)" by (metis prod_cases3)
  show ?case
    using Cons.IH [of e1] eventfd_exec_conserves [OF s] s by (auto split: prod.splits)
qed simp

text \<open>
  A write of a value that is neither too short nor the reserved maximum waits exactly when the sum would
  exceed the 64 bits, and a read waits exactly when the counter is 0; both leave the counter
  alone while they wait. A read in semaphore mode takes one unit, otherwise all of them.
\<close>

theorem eventfd_blocks_exactly:
  assumes "8 \<le> n" "v \<noteq> - 1"
  shows "(fst (snd (eventfd_write_impl False n v e)) = Blocks \<longleftrightarrow> 2 ^ 64 \<le> unat (ev_value e) + unat v) \<and>
    (fst (snd (eventfd_read_impl False n e)) = Blocks \<longleftrightarrow> ev_value e = 0) \<and>
    (fst (snd (eventfd_write_impl False n v e)) = Blocks \<longrightarrow> fst (eventfd_write_impl False n v e) = e) \<and>
    (ev_value e \<noteq> 0 \<longrightarrow> fst (snd (eventfd_read_impl False n e)) =
       Returns (Inr (if ev_is_semaphore e then 1 else ev_value e)))"
  using assms no_wrap_iff [of "ev_value e" v]
  by (auto simp: eventfd_write_impl_def eventfd_read_impl_def Let_def)

theorem eventfd_blocks_exactly_witness:
  "fst (snd (eventfd_write_impl False 8 3 \<lparr>ev_is_semaphore = True, ev_value = - 2\<rparr>)) = Blocks"
proof -
  have "(2::nat) ^ 64 \<le> unat (- 2 :: 64 word) + unat (3 :: 64 word)" by simp
  then show ?thesis
    using eventfd_blocks_exactly [of 8 3 "\<lparr>ev_is_semaphore = True, ev_value = - 2\<rparr>"] by simp
qed

end
