(* ===== verification/BitStream.thy ===== *)
theory BitStream
  imports Prelude
begin

text \<open>
  The bit streams and checksums of the DEFLATE library
  (\<^verbatim>\<open>userspace/libraries/LibDEFLATE/include/LibDEFLATE/BitStream.h\<close>, \<^verbatim>\<open>Utils.h\<close> and the table of
  \<^verbatim>\<open>Decompressor.cpp\<close>). Both streams are seen as lists of bits, least significant bit of a byte
  first: reading takes a prefix, writing appends, and what was written is what is read.
\<close>

section \<open>Model: the input stream\<close>

text \<open>
  The bit buffer of the source is a \<^verbatim>\<open>uint32_t\<close> that never holds more than 23 bits
  (\<open>take_bits_spec\<close> keeps \<open>bi_ok\<close>), so it is a natural number here.
\<close>

record bit_input =
  bi_data :: "8 word list"
  bi_buffer :: nat
  bi_len :: nat

fun bits_fill :: "nat \<Rightarrow> 8 word list \<Rightarrow> nat \<Rightarrow> nat \<Rightarrow> bit_input error_or" where
  "bits_fill cnt [] buffer len =
     (if len < cnt then Inl ENOBUFS else Inr \<lparr>bi_data = [], bi_buffer = buffer, bi_len = len\<rparr>)"
| "bits_fill cnt (b # data) buffer len =
     (if len < cnt then bits_fill cnt data (buffer OR push_bit len (unat b)) (len + 8)
      else Inr \<lparr>bi_data = b # data, bi_buffer = buffer, bi_len = len\<rparr>)"

definition peek_bits :: "nat \<Rightarrow> bit_input \<Rightarrow> (bit_input \<times> nat) error_or run" where
  "peek_bits cnt s =
     asserting (cnt \<le> 16)
       (tbind (Done (bits_fill cnt (bi_data s) (bi_buffer s) (bi_len s))) (\<lambda>s'.
          Done (Inr (s', bi_buffer s' AND (push_bit cnt 1 - 1)))))"

definition take_bits :: "nat \<Rightarrow> bit_input \<Rightarrow> (bit_input \<times> nat) error_or run" where
  "take_bits cnt s =
     tbind (peek_bits cnt s) (\<lambda>(s', result).
       Done (Inr (s'\<lparr>bi_buffer := drop_bit cnt (bi_buffer s'), bi_len := bi_len s' - cnt\<rparr>, result)))"

text \<open>The span to fill is given by its length, its new content is returned.\<close>

fun take_buffered :: "nat \<Rightarrow> nat \<Rightarrow> nat \<Rightarrow> 8 word list \<Rightarrow> 8 word list \<times> nat \<times> nat" where
  "take_buffered 0 buffer len out = (out, buffer, len)"
| "take_buffered (Suc n) buffer len out =
     (if len = 0 then (out, buffer, len)
      else take_buffered n (drop_bit 8 buffer) (len - 8) (out @ [word_of_nat buffer]))"

definition take_byte_aligned :: "nat \<Rightarrow> bit_input \<Rightarrow> (bit_input \<times> 8 word list) error_or run" where
  "take_byte_aligned n s =
     asserting (bi_len s mod 8 = 0)
       (let (out, buffer, len) = take_buffered n (bi_buffer s) (bi_len s) []; rest = n - length out
        in if length (bi_data s) < rest then Done (Inl ENOBUFS)
           else Done (Inr (\<lparr>bi_data = drop rest (bi_data s), bi_buffer = buffer, bi_len = len\<rparr>,
                           out @ take rest (bi_data s))))"

definition skip_to_byte_boundary :: "bit_input \<Rightarrow> bit_input" where
  "skip_to_byte_boundary s =
     (let bits_to_remove = bi_len s mod 8
      in s\<lparr>bi_buffer := drop_bit bits_to_remove (bi_buffer s), bi_len := bi_len s - bits_to_remove\<rparr>)"

definition unprocessed_bytes :: "bit_input \<Rightarrow> nat" where
  "unprocessed_bytes s = length (bi_data s)"

definition available_bits :: "bit_input \<Rightarrow> nat" where
  "available_bits s = unprocessed_bytes s * 8 + bi_len s"

definition available_bytes :: "bit_input \<Rightarrow> nat" where
  "available_bytes s = unprocessed_bytes s + bi_len s div 8"

definition set_data :: "8 word list \<Rightarrow> bit_input \<Rightarrow> bit_input" where
  "set_data data s = s\<lparr>bi_data := data\<rparr>"

definition drop_unprocessed_data :: "bit_input \<Rightarrow> bit_input" where
  "drop_unprocessed_data s = s\<lparr>bi_data := []\<rparr>"

section \<open>Model: the output stream\<close>

record bit_output =
  bo_data :: "8 word list"
  bo_buffer :: nat
  bo_len :: nat

function write_flush :: "8 word list \<Rightarrow> nat \<Rightarrow> nat \<Rightarrow> bit_output" where
  "write_flush data buffer len =
     (if 8 \<le> len then write_flush (data @ [word_of_nat buffer]) (drop_bit 8 buffer) (len - 8)
      else \<lparr>bo_data = data, bo_buffer = buffer, bo_len = len\<rparr>)"
  by auto
termination by (relation "measure (\<lambda>(data, buffer, len). len)") auto

declare write_flush.simps [simp del]

definition write_bits :: "nat \<Rightarrow> nat \<Rightarrow> bit_output \<Rightarrow> bit_output run" where
  "write_bits v cnt s =
     asserting (bo_len s < 8) (asserting (cnt \<le> 16)
       (Done (write_flush (bo_data s) (bo_buffer s OR push_bit (bo_len s) (v AND (push_bit cnt 1 - 1)))
          (bo_len s + cnt))))"

definition pad_to_byte_boundary :: "bit_output \<Rightarrow> bit_output run" where
  "pad_to_byte_boundary s =
     asserting (bo_len s < 8)
       (if bo_len s = 0 then Done s
        else Done \<lparr>bo_data = bo_data s @ [word_of_nat (bo_buffer s)], bo_buffer = 0, bo_len = 0\<rparr>)"

definition take_buffer :: "bit_output \<Rightarrow> 8 word list run" where
  "take_buffer s = asserting (bo_len s = 0) (Done (bo_data s))"

section \<open>Model: checksums and bit reversal\<close>

definition adler32_step :: "nat \<times> nat \<Rightarrow> 8 word \<Rightarrow> nat \<times> nat" where
  "adler32_step s b = (let s1 = (fst s + unat b) mod 65521 in (s1, (snd s + s1) mod 65521))"

definition calculate_adler32 :: "8 word list \<Rightarrow> 32 word" where
  "calculate_adler32 data =
     (let (s1, s2) = foldl adler32_step (1, 0) data in push_bit 16 (word_of_nat s2) OR word_of_nat s1)"

definition crc32_bit :: "32 word \<Rightarrow> 32 word" where
  "crc32_bit c = (if c AND 1 \<noteq> 0 then drop_bit 1 c XOR 0xEDB88320 else drop_bit 1 c)"

definition crc32_step :: "32 word \<Rightarrow> 8 word \<Rightarrow> 32 word" where
  "crc32_step c b = (crc32_bit ^^ 8) (c XOR ucast b)"

definition calculate_crc32 :: "8 word list \<Rightarrow> 32 word" where
  "calculate_crc32 data = NOT (foldl crc32_step 0xFFFFFFFF data)"

definition crc32_table :: "nat \<Rightarrow> 32 word" where
  "crc32_table i = (crc32_bit ^^ 8) (word_of_nat i)"

definition crc32_table_step :: "32 word \<Rightarrow> 8 word \<Rightarrow> 32 word" where
  "crc32_table_step c b = drop_bit 8 c XOR crc32_table (unat ((c XOR ucast b) AND 0xFF))"

fun reverse_bits_loop :: "nat \<Rightarrow> nat \<Rightarrow> nat \<Rightarrow> nat" where
  "reverse_bits_loop 0 v cnt = 0"
| "reverse_bits_loop (Suc k) v cnt =
     reverse_bits_loop k v cnt OR push_bit (cnt - k - 1) (drop_bit k v AND 1)"

definition reverse_bits :: "nat \<Rightarrow> nat \<Rightarrow> nat" where
  "reverse_bits v cnt = reverse_bits_loop cnt v cnt"

section \<open>Streams as lists of bits\<close>

definition byte_bits :: "8 word \<Rightarrow> bool list" where
  "byte_bits b = map (bit b) [0..<8]"

definition nat_bits :: "nat \<Rightarrow> nat \<Rightarrow> bool list" where
  "nat_bits n v = map (bit v) [0..<n]"

definition bits_val :: "bool list \<Rightarrow> nat" where
  "bits_val bs = horner_sum of_bool 2 bs"

definition bi_bits :: "bit_input \<Rightarrow> bool list" where
  "bi_bits s = nat_bits (bi_len s) (bi_buffer s) @ concat (map byte_bits (bi_data s))"

definition bi_ok :: "bit_input \<Rightarrow> bool" where
  "bi_ok s \<longleftrightarrow> bi_buffer s < 2 ^ bi_len s"

definition bo_bits :: "bit_output \<Rightarrow> bool list" where
  "bo_bits s = concat (map byte_bits (bo_data s)) @ nat_bits (bo_len s) (bo_buffer s)"

definition bo_ok :: "bit_output \<Rightarrow> bool" where
  "bo_ok s \<longleftrightarrow> bo_buffer s < 2 ^ bo_len s \<and> bo_len s < 8"

lemma length_byte_bits [simp]: "length (byte_bits b) = 8"
  by (simp add: byte_bits_def)

lemma length_nat_bits [simp]: "length (nat_bits n v) = n"
  by (simp add: nat_bits_def)

lemma nat_bits_0 [simp]: "nat_bits 0 v = []"
  by (simp add: nat_bits_def)

lemma length_concat_byte_bits [simp]: "length (concat (map byte_bits data)) = 8 * length data"
  by (induction data) simp_all

lemma bits_val_nat_bits [simp]: "bits_val (nat_bits n v) = take_bit n v"
  by (simp add: bits_val_def nat_bits_def horner_sum_bit_eq_take_bit)

lemma nat_bits_take_bit [simp]: "nat_bits n (take_bit n v) = nat_bits n v"
  by (simp add: nat_bits_def bit_take_bit_iff)

lemma nat_bits_drop_bit: "nat_bits n (drop_bit m v) = drop m (nat_bits (m + n) v)"
  by (rule nth_equalityI) (simp_all add: nat_bits_def bit_drop_bit_eq ac_simps)

lemma nat_bits_take: "m \<le> n \<Longrightarrow> take m (nat_bits n v) = nat_bits m v"
  by (rule nth_equalityI) (simp_all add: nat_bits_def)

lemma nat_less_bit: "(v::nat) < 2 ^ n \<Longrightarrow> bit v k \<Longrightarrow> k < n"
  by (metis bit_take_bit_iff take_bit_nat_eq_self)

lemma nat_bits_or_push:
  assumes "a < 2 ^ m"
  shows "nat_bits (m + n) (a OR push_bit m b) = nat_bits m a @ nat_bits n b"
proof (rule nth_equalityI)
  fix i assume "i < length (nat_bits (m + n) (a OR push_bit m b))"
  then show "nat_bits (m + n) (a OR push_bit m b) ! i = (nat_bits m a @ nat_bits n b) ! i"
    using nat_less_bit [OF assms, of i]
    by (auto simp: nat_bits_def bit_or_iff bit_push_bit_iff nth_append)
qed simp

lemma or_push_less:
  assumes "a < 2 ^ m" "b < 2 ^ n"
  shows "(a::nat) OR push_bit m b < 2 ^ (m + n)"
proof -
  have "take_bit (m + n) (a OR push_bit m b) = a OR push_bit m b"
    using nat_less_bit [OF assms(1)] nat_less_bit [OF assms(2)]
    by (intro bit_eqI) (fastforce simp: bit_take_bit_iff bit_or_iff bit_push_bit_iff)
  then show ?thesis by (metis take_bit_nat_less_exp)
qed

lemma byte_bits_word_of_nat: "byte_bits (word_of_nat v) = nat_bits 8 v"
  by (rule nth_equalityI) (simp_all add: byte_bits_def nat_bits_def bit_of_nat_iff)

lemma nat_bits_unat: "nat_bits 8 (unat b) = byte_bits (b :: 8 word)"
  by (rule nth_equalityI) (simp_all add: byte_bits_def nat_bits_def bit_unsigned_iff)

lemma and_mask_take_bit: "v AND (2 ^ n - Suc 0) = take_bit n (v::nat)"
  by (simp add: take_bit_eq_mask mask_eq_exp_minus_1)

lemma drop_bit_less:
  assumes "(v::nat) < 2 ^ m" "n \<le> m"
  shows "drop_bit n v < 2 ^ (m - n)"
proof -
  have "2 ^ m = (2::nat) ^ (m - n) * 2 ^ n" using assms(2) by (metis le_add_diff_inverse2 power_add)
  then show ?thesis using assms(1) by (simp add: drop_bit_eq_div less_mult_imp_div_less)
qed

section \<open>Reading\<close>

lemma bits_fill_spec:
  assumes "buffer < 2 ^ len"
  shows "case bits_fill cnt data buffer len of
      Inl e \<Rightarrow> e = ENOBUFS \<and> len + 8 * length data < cnt
    | Inr s \<Rightarrow> bi_ok s \<and> cnt \<le> bi_len s \<and> bi_len s \<le> max len (cnt + 7) \<and>
        bi_bits s = nat_bits len buffer @ concat (map byte_bits data)"
  using assms
proof (induction data arbitrary: buffer len)
  case (Cons b data)
  show ?case
  proof (cases "len < cnt")
    case True
    have "unat b < 2 ^ 8" using unsigned_less [of b] by simp
    then have "buffer OR push_bit len (unat b) < 2 ^ (len + 8)" using or_push_less Cons.prems by blast
    from Cons.IH [OF this] show ?thesis
      using True Cons.prems by (auto simp: nat_bits_or_push nat_bits_unat split: sum.splits)
  qed (use Cons.prems in \<open>simp add: bi_ok_def bi_bits_def\<close>)
qed (auto simp: bi_ok_def bi_bits_def)

lemma bits_fill_result:
  assumes "bi_ok s"
  shows "if cnt \<le> length (bi_bits s)
    then \<exists>s'. bits_fill cnt (bi_data s) (bi_buffer s) (bi_len s) = Inr s' \<and> bi_ok s' \<and>
      cnt \<le> bi_len s' \<and> bi_bits s' = bi_bits s
    else bits_fill cnt (bi_data s) (bi_buffer s) (bi_len s) = Inl ENOBUFS"
proof -
  note f = bits_fill_spec [where buffer = "bi_buffer s" and len = "bi_len s" and cnt = cnt and data = "bi_data s"]
  show ?thesis
  proof (cases "bits_fill cnt (bi_data s) (bi_buffer s) (bi_len s)")
    case (Inl e)
    then show ?thesis using f assms by (simp add: bi_ok_def bi_bits_def)
  next
    case (Inr s')
    have s': "bi_ok s'" "cnt \<le> bi_len s'" "bi_bits s' = bi_bits s"
      using f Inr assms by (simp_all add: bi_ok_def bi_bits_def)
    have "bi_len s' \<le> length (bi_bits s')" by (simp add: bi_bits_def)
    then show ?thesis using Inr s' by simp
  qed
qed

lemma peek_bits_spec:
  assumes "bi_ok s" "cnt \<le> 16" "cnt \<le> length (bi_bits s)"
  obtains s' where "peek_bits cnt s = Done (Inr (s', bits_val (take cnt (bi_bits s))))"
    "bi_ok s'" "bi_bits s' = bi_bits s" "cnt \<le> bi_len s'"
proof -
  obtain s' where s': "bits_fill cnt (bi_data s) (bi_buffer s) (bi_len s) = Inr s'" "bi_ok s'"
      "cnt \<le> bi_len s'" "bi_bits s' = bi_bits s"
    using bits_fill_result [OF assms(1), of cnt] assms(3) by auto
  have "take cnt (bi_bits s') = nat_bits cnt (bi_buffer s')"
    using s'(3) by (simp add: bi_bits_def nat_bits_take)
  then have "peek_bits cnt s = Done (Inr (s', bits_val (take cnt (bi_bits s))))"
    using assms(2) s'(1) by (simp add: peek_bits_def and_mask_take_bit s'(4) [symmetric])
  then show ?thesis using that s' by blast
qed

lemma peek_bits_short:
  "bi_ok s \<Longrightarrow> cnt \<le> 16 \<Longrightarrow> length (bi_bits s) < cnt \<Longrightarrow> peek_bits cnt s = Done (Inl ENOBUFS)"
  using bits_fill_result [of s cnt] by (simp add: peek_bits_def)

lemma take_bits_spec:
  assumes "bi_ok s" "cnt \<le> 16" "cnt \<le> length (bi_bits s)"
  obtains s' where "take_bits cnt s = Done (Inr (s', bits_val (take cnt (bi_bits s))))"
    "bi_ok s'" "bi_bits s' = drop cnt (bi_bits s)"
proof -
  obtain s' where s': "peek_bits cnt s = Done (Inr (s', bits_val (take cnt (bi_bits s))))"
      "bi_ok s'" "bi_bits s' = bi_bits s" "cnt \<le> bi_len s'"
    using peek_bits_spec assms by blast
  let ?t = "s'\<lparr>bi_buffer := drop_bit cnt (bi_buffer s'), bi_len := bi_len s' - cnt\<rparr>"
  have "bi_ok ?t" using s'(2,4) by (simp add: bi_ok_def drop_bit_less)
  moreover have "bi_bits ?t = drop cnt (bi_bits s')" using s'(4) by (simp add: bi_bits_def nat_bits_drop_bit)
  ultimately show ?thesis using that s'(1,3) by (simp add: take_bits_def)
qed

lemma take_bits_short:
  "bi_ok s \<Longrightarrow> cnt \<le> 16 \<Longrightarrow> length (bi_bits s) < cnt \<Longrightarrow> take_bits cnt s = Done (Inl ENOBUFS)"
  by (simp add: take_bits_def peek_bits_short)

lemma available_bits_length: "available_bits s = length (bi_bits s)"
  by (simp add: available_bits_def unprocessed_bytes_def bi_bits_def)

lemma skip_to_byte_boundary_spec:
  assumes "bi_ok s"
  shows "bi_ok (skip_to_byte_boundary s)"
    "bi_bits (skip_to_byte_boundary s) = drop (length (bi_bits s) mod 8) (bi_bits s)"
proof -
  define k where "k = bi_len s mod 8"
  have k: "k \<le> bi_len s" by (simp add: k_def)
  then show "bi_ok (skip_to_byte_boundary s)"
    using assms by (simp add: skip_to_byte_boundary_def bi_ok_def k_def [symmetric] drop_bit_less)
  have "length (bi_bits s) mod 8 = k" by (simp add: bi_bits_def k_def)
  then show "bi_bits (skip_to_byte_boundary s) = drop (length (bi_bits s) mod 8) (bi_bits s)"
    using k by (simp add: skip_to_byte_boundary_def k_def [symmetric] bi_bits_def nat_bits_drop_bit)
qed

section \<open>Writing\<close>

lemma write_flush_spec:
  assumes "buffer < 2 ^ len"
  shows "bo_ok (write_flush data buffer len) \<and>
    bo_bits (write_flush data buffer len) = concat (map byte_bits data) @ nat_bits len buffer"
  using assms
proof (induction data buffer len rule: write_flush.induct)
  case (1 data buffer len)
  show ?case
  proof (cases "8 \<le> len")
    case True
    have less: "drop_bit 8 buffer < 2 ^ (len - 8)" using "1.prems" True by (rule drop_bit_less)
    have "nat_bits len buffer = take 8 (nat_bits len buffer) @ drop 8 (nat_bits len buffer)" by simp
    also have "\<dots> = nat_bits 8 buffer @ nat_bits (len - 8) (drop_bit 8 buffer)"
      using True by (simp add: nat_bits_take nat_bits_drop_bit)
    finally show ?thesis
      using "1.IH" [OF True less] True
      by (simp add: write_flush.simps [of data buffer len] byte_bits_word_of_nat)
  qed (use "1.prems" in \<open>simp add: write_flush.simps [of data buffer len] bo_ok_def bo_bits_def\<close>)
qed

lemma write_bits_spec:
  assumes "bo_ok s" "cnt \<le> 16"
  obtains s' where "write_bits v cnt s = Done s'" "bo_ok s'" "bo_bits s' = bo_bits s @ nat_bits cnt v"
proof -
  let ?b = "bo_buffer s OR push_bit (bo_len s) (v AND (push_bit cnt 1 - 1))"
  have ok: "bo_buffer s < 2 ^ bo_len s" "bo_len s < 8" using assms(1) by (simp_all add: bo_ok_def)
  have "?b < 2 ^ (bo_len s + cnt)" using ok(1) by (intro or_push_less) (simp_all add: and_mask_take_bit)
  from write_flush_spec [OF this, of "bo_data s"] show ?thesis
    using that assms(2) ok
    by (simp add: write_bits_def nat_bits_or_push and_mask_take_bit bo_bits_def)
qed

definition pad_bits :: "bool list \<Rightarrow> bool list" where
  "pad_bits bs = bs @ replicate ((8 - length bs mod 8) mod 8) False"

lemma pad_to_byte_boundary_spec:
  assumes "bo_ok s"
  obtains s' where "pad_to_byte_boundary s = Done s'" "bo_ok s'" "bo_len s' = 0" "bo_bits s' = pad_bits (bo_bits s)"
proof (cases "bo_len s = 0")
  case True
  then show ?thesis
    using that assms by (simp add: pad_to_byte_boundary_def bo_bits_def pad_bits_def)
next
  case False
  have ok: "bo_buffer s < 2 ^ bo_len s" "bo_len s < 8" using assms by (simp_all add: bo_ok_def)
  have "nat_bits 8 (bo_buffer s) = nat_bits (bo_len s) (bo_buffer s) @ replicate (8 - bo_len s) False"
  proof (rule nth_equalityI)
    fix i assume "i < length (nat_bits 8 (bo_buffer s))"
    then show "nat_bits 8 (bo_buffer s) ! i = (nat_bits (bo_len s) (bo_buffer s) @ replicate (8 - bo_len s) False) ! i"
      using nat_less_bit [OF ok(1), of i] by (auto simp: nat_bits_def nth_append)
  qed (use ok in simp)
  then show ?thesis
    using that ok False
    by (simp add: pad_to_byte_boundary_def bo_bits_def bo_ok_def pad_bits_def byte_bits_word_of_nat mod_add_left_eq)
qed

lemma take_buffer_spec:
  assumes "bo_len s = 0"
  shows "take_buffer s = Done (bo_data s)"
    "bi_bits \<lparr>bi_data = bo_data s, bi_buffer = 0, bi_len = 0\<rparr> = bo_bits s"
  using assms by (simp_all add: take_buffer_def bi_bits_def bo_bits_def)

section \<open>Bit reversal\<close>

lemma bit_reverse_bits_loop:
  "k \<le> cnt \<Longrightarrow> bit (reverse_bits_loop k v cnt) i \<longleftrightarrow> cnt - k \<le> i \<and> i < cnt \<and> bit v (cnt - 1 - i)"
proof (induction k)
  case (Suc k)
  have "bit (drop_bit k v AND 1) (i - (cnt - k - 1)) \<longleftrightarrow> i - (cnt - k - 1) = 0 \<and> bit v k"
    by (auto simp: bit_and_iff bit_drop_bit_eq bit_1_iff even_drop_bit_iff_not_bit)
  then show ?case
    using Suc by (auto simp: bit_or_iff bit_push_bit_iff le_less Suc_diff_Suc even_drop_bit_iff_not_bit)
qed auto

lemma bit_reverse_bits: "bit (reverse_bits v cnt) i \<longleftrightarrow> i < cnt \<and> bit v (cnt - 1 - i)"
  by (simp add: reverse_bits_def bit_reverse_bits_loop)

lemma nat_bits_reverse_bits: "nat_bits n (reverse_bits v n) = rev (nat_bits n v)"
  by (rule nth_equalityI) (simp_all add: nat_bits_def bit_reverse_bits rev_nth)

lemma reverse_bits_less: "reverse_bits v n < 2 ^ n"
proof -
  have "take_bit n (reverse_bits v n) = reverse_bits v n"
    by (rule bit_eqI) (auto simp: bit_take_bit_iff bit_reverse_bits)
  then show ?thesis by (metis take_bit_nat_less_exp)
qed

section \<open>Checksums\<close>

lemma crc32_bit_alt: "crc32_bit c = (if bit c 0 then drop_bit 1 c XOR 0xEDB88320 else drop_bit 1 c)"
  by (simp add: crc32_bit_def and_one_eq bit_0 odd_iff_mod_2_eq_one)

lemma crc32_bit_xor: "crc32_bit (x XOR y) = crc32_bit x XOR crc32_bit y"
  by (auto simp: crc32_bit_alt bit_xor_iff drop_bit_xor ac_simps simp del: bit_0)

lemma crc32_bits_xor: "(crc32_bit ^^ n) (x XOR y) = (crc32_bit ^^ n) x XOR (crc32_bit ^^ n) y"
  by (induction n) (simp_all add: crc32_bit_xor)

lemma crc32_bits_push: "k \<le> n \<Longrightarrow> (crc32_bit ^^ k) (push_bit n h) = drop_bit k (push_bit n h)"
  by (induction k) (simp_all add: crc32_bit_alt bit_drop_bit_eq bit_push_bit_iff del: bit_0)

lemma crc32_step_table: "crc32_step c b = crc32_table_step c b"
proof -
  define x where "x = c XOR ucast b"
  have mask: "x AND 0xFF = take_bit 8 x" by (simp add: take_bit_eq_mask mask_eq_exp_minus_1)
  have "x = push_bit 8 (drop_bit 8 x) XOR take_bit 8 x"
    by (rule bit_eqI) (auto simp: bit_xor_iff bit_push_bit_iff bit_drop_bit_eq bit_take_bit_iff)
  then have "(crc32_bit ^^ 8) x = drop_bit 8 (push_bit 8 (drop_bit 8 x)) XOR (crc32_bit ^^ 8) (take_bit 8 x)"
    using crc32_bits_xor [of 8 "push_bit 8 (drop_bit 8 x)"] crc32_bits_push [of 8 8] by (metis order_refl)
  moreover have "drop_bit 8 (push_bit 8 (drop_bit 8 x)) = drop_bit 8 c"
    by (rule bit_eqI) (auto simp: x_def bit_drop_bit_eq bit_push_bit_iff bit_xor_iff bit_ucast_iff dest: bit_imp_le_length)
  ultimately show ?thesis by (simp add: crc32_step_def crc32_table_step_def crc32_table_def x_def [symmetric] mask)
qed

section \<open>Properties\<close>

text \<open>
  C26: The table-driven CRC-32 of the decompressor computes, byte by byte and from every intermediate
  value, the bit-by-bit CRC-32 with which the compressor closes a stream.
\<close>

theorem crc32_table_equiv:
  "foldl crc32_table_step c data = foldl crc32_step c data \<and>
   calculate_crc32 data = foldl crc32_table_step 0xFFFFFFFF data XOR 0xFFFFFFFF"
proof -
  have "foldl crc32_table_step c data = foldl crc32_step c data" for c
    by (induction data arbitrary: c) (simp_all add: crc32_step_table)
  moreover have "NOT x = x XOR 0xFFFFFFFF" for x :: "32 word"
  proof -
    have ones: "0xFFFFFFFF = (- 1 :: 32 word)" by simp
    show ?thesis unfolding ones by (rule bit_eqI) (simp add: bit_not_iff bit_xor_iff)
  qed
  ultimately show ?thesis by (simp add: calculate_crc32_def)
qed

fun write_list :: "(nat \<times> nat) list \<Rightarrow> bit_output \<Rightarrow> bit_output run" where
  "write_list [] s = Done s"
| "write_list ((v, n) # vs) s = rbind (write_bits v n s) (write_list vs)"

fun read_list :: "nat list \<Rightarrow> bit_input \<Rightarrow> nat list error_or run" where
  "read_list [] s = Done (Inr [])"
| "read_list (n # ns) s =
     tbind (take_bits n s) (\<lambda>(s', v). tbind (read_list ns s') (\<lambda>vs. Done (Inr (v # vs))))"

definition fields_bits :: "(nat \<times> nat) list \<Rightarrow> bool list" where
  "fields_bits vs = concat (map (\<lambda>(v, n). nat_bits n v) vs)"

lemma write_list_spec:
  assumes "bo_ok s" "\<forall>(v, n) \<in> set vs. n \<le> 16"
  shows "\<exists>s'. write_list vs s = Done s' \<and> bo_ok s' \<and> bo_bits s' = bo_bits s @ fields_bits vs"
  using assms
proof (induction vs arbitrary: s)
  case (Cons x vs)
  obtain v n where x: "x = (v, n)" by (cases x)
  obtain s1 where s1: "write_bits v n s = Done s1" "bo_ok s1" "bo_bits s1 = bo_bits s @ nat_bits n v"
    using write_bits_spec [of s n v] Cons.prems x by auto
  show ?case using Cons.IH [OF s1(2)] Cons.prems s1 x by (auto simp: fields_bits_def)
qed (simp add: fields_bits_def)

lemma read_list_spec:
  assumes "bi_ok s" "\<forall>(v, n) \<in> set vs. n \<le> 16" "bi_bits s = fields_bits vs @ rest"
  shows "read_list (map snd vs) s = Done (Inr (map (\<lambda>(v, n). take_bit n v) vs))"
  using assms
proof (induction vs arbitrary: s)
  case (Cons x vs)
  obtain v n where x: "x = (v, n)" by (cases x)
  have n: "n \<le> 16" "n \<le> length (bi_bits s)" using Cons.prems x by (auto simp: fields_bits_def)
  obtain s1 where s1: "take_bits n s = Done (Inr (s1, bits_val (take n (bi_bits s))))" "bi_ok s1"
      "bi_bits s1 = drop n (bi_bits s)"
    using take_bits_spec [OF Cons.prems(1) n] by blast
  have "take n (bi_bits s) = nat_bits n v" "drop n (bi_bits s) = fields_bits vs @ rest"
    using Cons.prems(3) x by (simp_all add: fields_bits_def)
  then show ?case using Cons.IH [OF s1(2)] Cons.prems(2) s1 x by simp
qed simp

text \<open>
  C25: What is written to a bit stream is what is read from it: a sequence of values with widths up
  to 16 bits, written to an empty output stream and padded to a byte, is read back by an
  input stream on the produced bytes, each value reduced to its width.
\<close>

theorem bitstream_roundtrip:
  assumes "\<forall>(v, n) \<in> set vs. n \<le> 16"
  shows "\<exists>bytes. rbind (write_list vs \<lparr>bo_data = [], bo_buffer = 0, bo_len = 0\<rparr>) (\<lambda>s. rbind (pad_to_byte_boundary s) take_buffer)
      = Done bytes \<and>
    read_list (map snd vs) \<lparr>bi_data = bytes, bi_buffer = 0, bi_len = 0\<rparr> = Done (Inr (map (\<lambda>(v, n). take_bit n v) vs))"
proof -
  have ok: "bo_ok \<lparr>bo_data = [], bo_buffer = 0, bo_len = 0\<rparr>" by (simp add: bo_ok_def)
  obtain s where s: "write_list vs \<lparr>bo_data = [], bo_buffer = 0, bo_len = 0\<rparr> = Done s" "bo_ok s" "bo_bits s = fields_bits vs"
    using write_list_spec [OF ok assms] by (auto simp: bo_bits_def)
  obtain t where t: "pad_to_byte_boundary s = Done t" "bo_len t = 0" "bo_bits t = pad_bits (fields_bits vs)"
    using pad_to_byte_boundary_spec [OF s(2)] s(3) by metis
  have "bi_bits \<lparr>bi_data = bo_data t, bi_buffer = 0, bi_len = 0\<rparr> = fields_bits vs @ replicate ((8 - length (fields_bits vs) mod 8) mod 8) False"
    using take_buffer_spec(2) [OF t(2)] t(3) by (simp add: pad_bits_def)
  then show ?thesis
    using read_list_spec [OF _ assms] s(1) t(1) take_buffer_spec(1) [OF t(2)] by (simp add: bi_ok_def)
qed

theorem bitstream_roundtrip_witness:
  "\<exists>bytes. rbind (write_list [(5, 3), (1000, 12), (300, 7)] \<lparr>bo_data = [], bo_buffer = 0, bo_len = 0\<rparr>)
      (\<lambda>s. rbind (pad_to_byte_boundary s) take_buffer) = Done bytes \<and>
    read_list [3, 12, 7] \<lparr>bi_data = bytes, bi_buffer = 0, bi_len = 0\<rparr> = Done (Inr [5, 1000, 44])"
  using bitstream_roundtrip [of "[(5, 3), (1000, 12), (300, 7)]"] by (simp add: take_bit_eq_mod)

end
