(* ===== verification/HuffmanTree.thy ===== *)
theory HuffmanTree
  imports BitStream
begin

text \<open>
  The decoding tables of \<^verbatim>\<open>userspace/libraries/LibDEFLATE/HuffmanTree.cpp\<close> and the symbol reader of
  \<^verbatim>\<open>Decompressor.cpp\<close>. The canonical code of a list of bit lengths is defined independently of the
  tables; for every list that is not over-subscribed the tables decode exactly this code.
\<close>

section \<open>Model\<close>

definition MAX_BITS :: nat where
  "MAX_BITS = 15"

text \<open>A leaf is a pair of code and length, an instant entry a pair of symbol and length.\<close>

type_synonym leaf = "nat \<times> nat"

record huffman_tree =
  ht_instant_bits :: nat
  ht_min_bits :: nat
  ht_max_bits :: nat
  ht_instant :: "(nat \<times> nat) list"
  ht_min_code :: "nat list"
  ht_slow_table :: "nat list list"

record length_scan =
  ls_max_bits :: nat
  ls_min_bits :: nat
  ls_max_sym :: nat
  ls_bl_count :: "nat list"

text \<open>A length above \<open>MAX_BITS\<close> would be counted outside of the array \<^verbatim>\<open>bl_count\<close>.\<close>

fun scan_lengths :: "nat \<Rightarrow> nat list \<Rightarrow> length_scan \<Rightarrow> length_scan run" where
  "scan_lengths symb [] s = Done s"
| "scan_lengths symb (l # ls) s =
     (if l = 0 then scan_lengths (Suc symb) ls s
      else asserting (l \<le> MAX_BITS)
        (scan_lengths (Suc symb) ls
           \<lparr>ls_max_bits = max l (ls_max_bits s), ls_min_bits = min l (ls_min_bits s), ls_max_sym = symb,
            ls_bl_count = (ls_bl_count s)[l := ls_bl_count s ! l + 1]\<rparr>))"

text \<open>The codes are \<^verbatim>\<open>uint16_t\<close> values and wrap around for over-subscribed lengths.\<close>

fun next_codes_from :: "nat list \<Rightarrow> nat list \<Rightarrow> nat \<Rightarrow> nat list \<Rightarrow> nat list" where
  "next_codes_from bl_count [] code next_code = next_code"
| "next_codes_from bl_count (b # bs) code next_code =
     (let code' = ((code + bl_count ! (b - 1)) * 2) mod 2 ^ 16
      in next_codes_from bl_count bs code' (next_code[b := code']))"

definition next_codes :: "nat list \<Rightarrow> nat list" where
  "next_codes bl_count = next_codes_from bl_count [1..<MAX_BITS + 1] 0 (replicate (MAX_BITS + 1) 0)"

fun assign_codes :: "nat list \<Rightarrow> nat list \<Rightarrow> leaf list" where
  "assign_codes [] next_code = []"
| "assign_codes (l # ls) next_code =
     (if l = 0 then (0, 0) # assign_codes ls next_code
      else (next_code ! l, l) # assign_codes ls (next_code[l := (next_code ! l + 1) mod 2 ^ 16]))"

fun instant_fill :: "nat list \<Rightarrow> nat \<times> nat \<Rightarrow> (nat \<times> nat) list \<Rightarrow> (nat \<times> nat) list run" where
  "instant_fill [] e t = Done t"
| "instant_fill (j # js) e t = asserting (j < length t) (instant_fill js e (t[j := e]))"

fun instant_loop :: "nat \<Rightarrow> nat \<Rightarrow> leaf list \<Rightarrow> (nat \<times> nat) list \<Rightarrow> (nat \<times> nat) list run" where
  "instant_loop instant_bits symb [] t = Done t"
| "instant_loop instant_bits symb ((code, len) # tree) t =
     (if len = 0 \<or> instant_bits < len then instant_loop instant_bits (Suc symb) tree t
      else let shift = instant_bits - len
           in rbind (instant_fill [(code * 2 ^ shift) mod 2 ^ 16..<(code + 1) * 2 ^ shift] (symb, len) t)
                (instant_loop instant_bits (Suc symb) tree))"

definition build_instant_table :: "nat \<Rightarrow> leaf list \<Rightarrow> (nat \<times> (nat \<times> nat) list) run" where
  "build_instant_table m_max_bits tree =
     (let instant_bits = min 9 m_max_bits
      in rbind (instant_loop instant_bits 0 tree (replicate (2 ^ instant_bits) (0, 0))) (\<lambda>t.
           Done (instant_bits, t)))"

text \<open>A code below the first one of its length gives a huge offset, for which no memory is left.\<close>

fun slow_loop :: "nat list \<Rightarrow> nat \<Rightarrow> leaf list \<Rightarrow> nat list list \<Rightarrow> nat list list error_or" where
  "slow_loop min_code symb [] table = Inr table"
| "slow_loop min_code symb ((code, len) # tree) table =
     (if len = 0 then slow_loop min_code (Suc symb) tree table
      else if code < min_code ! len then Inl ENOMEM
      else let offset = code - min_code ! len; row = table ! len;
               row' = (if length row \<le> offset then row @ replicate (offset + 1 - length row) 0 else row)
           in slow_loop min_code (Suc symb) tree (table[len := row'[offset := symb]]))"

definition build_slow_table :: "nat list \<Rightarrow> leaf list \<Rightarrow> nat list list error_or" where
  "build_slow_table min_code tree = slow_loop min_code 0 tree (replicate (MAX_BITS + 1) [])"

definition huffman_create :: "nat list \<Rightarrow> huffman_tree error_or run" where
  "huffman_create bit_lengths =
     rbind (scan_lengths 0 bit_lengths
              \<lparr>ls_max_bits = 0, ls_min_bits = MAX_BITS, ls_max_sym = 0, ls_bl_count = replicate (MAX_BITS + 1) 0\<rparr>) (\<lambda>s.
       asserting (ls_max_sym s < length bit_lengths)
         (let min_code = next_codes (ls_bl_count s);
              tree = assign_codes (take (ls_max_sym s + 1) bit_lengths) min_code
          in rbind (build_instant_table (ls_max_bits s) tree) (\<lambda>(instant_bits, instant).
               tbind (Done (build_slow_table min_code tree)) (\<lambda>slow.
                 Done (Inr \<lparr>ht_instant_bits = instant_bits, ht_min_bits = ls_min_bits s, ht_max_bits = ls_max_bits s,
                            ht_instant = instant, ht_min_code = min_code, ht_slow_table = slow\<rparr>)))))"

definition fixed_lengths :: "nat list" where
  "fixed_lengths = replicate 144 8 @ replicate 112 9 @ replicate 24 7 @ replicate 8 8"

definition fixed_tree :: "huffman_tree error_or run" where
  "fixed_tree = huffman_create fixed_lengths"

text \<open>The default-constructed tree, the only one that is \<open>huffman_empty\<close>.\<close>

definition huffman_default :: huffman_tree where
  "huffman_default = \<lparr>ht_instant_bits = 0, ht_min_bits = 0, ht_max_bits = 0, ht_instant = [],
     ht_min_code = replicate (MAX_BITS + 1) 0, ht_slow_table = []\<rparr>"

definition huffman_empty :: "huffman_tree \<Rightarrow> bool" where
  "huffman_empty t \<longleftrightarrow> ht_min_bits t = 0"

definition get_symbol_instant :: "huffman_tree \<Rightarrow> nat \<Rightarrow> (nat \<times> nat) option run" where
  "get_symbol_instant t code =
     asserting (code < length (ht_instant t))
       (let entry = ht_instant t ! code in Done (if snd entry \<noteq> 0 then Some entry else None))"

definition get_symbol :: "huffman_tree \<Rightarrow> nat \<Rightarrow> nat \<Rightarrow> nat option run" where
  "get_symbol t code len =
     asserting (len \<le> ht_max_bits t)
       (let symbols = ht_slow_table t ! len
        in if code < ht_min_code t ! len \<or> length symbols \<le> code - ht_min_code t ! len then Done None
           else Done (Some (symbols ! (code - ht_min_code t ! len))))"

fun read_symbol_slow :: "huffman_tree \<Rightarrow> nat \<Rightarrow> nat \<Rightarrow> nat \<Rightarrow> bit_input \<Rightarrow> (bit_input \<times> nat) error_or run" where
  "read_symbol_slow t 0 code len s = Done (Inl EINVAL)"
| "read_symbol_slow t (Suc n) code len s =
     tbind (take_bits 1 s) (\<lambda>(s', b).
       let code' = push_bit 1 code OR b; len' = len + 1
       in rbind (get_symbol t code' len') (\<lambda>symbol.
            case symbol of Some symb \<Rightarrow> Done (Inr (s', symb)) | None \<Rightarrow> read_symbol_slow t n code' len' s'))"

definition read_symbol :: "huffman_tree \<Rightarrow> bit_input \<Rightarrow> (bit_input \<times> nat) error_or run" where
  "read_symbol t s =
     tbind (peek_bits (ht_instant_bits t) s) (\<lambda>(s', v).
       let code = reverse_bits v (ht_instant_bits t)
       in rbind (get_symbol_instant t code) (\<lambda>symbol.
            case symbol of
              Some (symb, len) \<Rightarrow> must (take_bits len s') (\<lambda>(s'', _). Done (Inr (s'', symb)))
            | None \<Rightarrow>
                must (take_bits (ht_instant_bits t) s') (\<lambda>(s'', _).
                  read_symbol_slow t (ht_max_bits t - ht_instant_bits t) code (ht_instant_bits t) s'')))"

section \<open>The canonical code\<close>

definition len_count :: "nat list \<Rightarrow> nat \<Rightarrow> nat" where
  "len_count lens l = (if l = 0 then 0 else length (filter ((=) l) lens))"

fun first_code :: "nat list \<Rightarrow> nat \<Rightarrow> nat" where
  "first_code lens 0 = 0"
| "first_code lens (Suc l) = 2 * (first_code lens l + len_count lens l)"

definition sym_code :: "nat list \<Rightarrow> nat \<Rightarrow> nat" where
  "sym_code lens s = first_code lens (lens ! s) + length (filter ((=) (lens ! s)) (take s lens))"

text \<open>The bits of a code, most significant first, as they appear in the stream.\<close>

definition codeword :: "nat list \<Rightarrow> nat \<Rightarrow> bool list" where
  "codeword lens s = rev (nat_bits (lens ! s) (sym_code lens s))"

text \<open>The Kraft inequality, with the length of a code taken as \<open>2 ^ (15 - length)\<close> units.\<close>

definition kraft_sum :: "nat list \<Rightarrow> nat" where
  "kraft_sum lens = sum_list (map (\<lambda>l. if l = 0 then 0 else 2 ^ (MAX_BITS - l)) lens)"

definition lens_ok :: "nat list \<Rightarrow> bool" where
  "lens_ok lens \<longleftrightarrow> lens \<noteq> [] \<and> (\<forall>l\<in>set lens. l \<le> MAX_BITS) \<and> kraft_sum lens \<le> 2 ^ MAX_BITS"

lemma len_count_Cons: "len_count (x # xs) l = len_count xs l + (if x = l \<and> l \<noteq> 0 then 1 else 0)"
  by (simp add: len_count_def)

lemma first_code_sum: "first_code lens l + len_count lens l = (\<Sum>k\<in>{1..l}. len_count lens k * 2 ^ (l - k))"
proof (induction l)
  case (Suc l)
  have "(\<Sum>k\<in>{1..Suc l}. len_count lens k * 2 ^ (Suc l - k)) =
      (\<Sum>k\<in>{1..l}. len_count lens k * 2 ^ (Suc l - k)) + len_count lens (Suc l)" by simp
  also have "(\<Sum>k\<in>{1..l}. len_count lens k * 2 ^ (Suc l - k)) = 2 * (\<Sum>k\<in>{1..l}. len_count lens k * 2 ^ (l - k))"
    by (simp add: sum_distrib_left Suc_diff_le ac_simps)
  finally show ?case using Suc by simp
qed (simp add: len_count_def)

lemma kraft_sum_counts:
  assumes "\<forall>l\<in>set lens. l \<le> MAX_BITS"
  shows "kraft_sum lens = (\<Sum>k\<in>{1..MAX_BITS}. len_count lens k * 2 ^ (MAX_BITS - k))"
  using assms
proof (induction lens)
  case (Cons x lens)
  have "(\<Sum>k\<in>{1..MAX_BITS}. len_count (x # lens) k * 2 ^ (MAX_BITS - k)) =
      (\<Sum>k\<in>{1..MAX_BITS}. len_count lens k * 2 ^ (MAX_BITS - k)) +
      (\<Sum>k\<in>{1..MAX_BITS}. if x = k then 2 ^ (MAX_BITS - k) else 0)"
    by (simp add: len_count_Cons add_mult_distrib if_distrib [of "\<lambda>c. c * _"] sum.distrib cong: if_cong)
  also have "(\<Sum>k\<in>{1..MAX_BITS}. if x = k then 2 ^ (MAX_BITS - k) else 0) = (if x = 0 then 0 else 2 ^ (MAX_BITS - x))"
    using Cons.prems by (simp add: sum.delta')
  finally show ?case using Cons by (simp add: kraft_sum_def)
qed (simp add: kraft_sum_def len_count_def)

lemma first_code_bound:
  assumes "lens_ok lens" "l \<le> MAX_BITS"
  shows "first_code lens l + len_count lens l \<le> 2 ^ l"
  using assms(2)
proof (induction l rule: inc_induct)
  case base
  then show ?case using assms(1) first_code_sum [of lens MAX_BITS] kraft_sum_counts by (auto simp: lens_ok_def)
next
  case (step l)
  then show ?case by simp
qed

lemma first_code_gap: "(first_code lens l + len_count lens l) * 2 ^ d \<le> first_code lens (l + Suc d) div 2"
proof (induction d)
  case (Suc d)
  have "2 * (first_code lens (l + Suc d) div 2) \<le> first_code lens (l + Suc d)" by simp
  then show ?case using Suc by simp
qed simp

lemma codes_after:
  assumes "l < L"
  shows "(first_code lens l + len_count lens l) * 2 ^ (L - l) \<le> first_code lens L"
proof -
  obtain d where d: "L = l + Suc d" using less_imp_Suc_add [OF assms] by auto
  have "(first_code lens l + len_count lens l) * 2 ^ Suc d \<le> 2 * (first_code lens (l + Suc d) div 2)"
    using first_code_gap [of lens l d] by simp
  also have "\<dots> \<le> first_code lens (l + Suc d)" by simp
  finally show ?thesis by (simp add: d)
qed

lemma rank_less:
  assumes "s < length lens" "lens ! s \<noteq> 0"
  shows "length (filter ((=) (lens ! s)) (take s lens)) < len_count lens (lens ! s)"
proof -
  have "lens = take s lens @ lens ! s # drop (Suc s) lens" using assms(1) by (rule id_take_nth_drop)
  then have "filter ((=) (lens ! s)) lens =
      filter ((=) (lens ! s)) (take s lens) @ lens ! s # filter ((=) (lens ! s)) (drop (Suc s) lens)"
    by (metis (mono_tags, lifting) filter.simps(2) filter_append)
  then show ?thesis using assms(2) by (simp add: len_count_def)
qed

lemma sym_code_bounds:
  assumes "s < length lens" "lens ! s \<noteq> 0"
  shows "first_code lens (lens ! s) \<le> sym_code lens s"
    "sym_code lens s < first_code lens (lens ! s) + len_count lens (lens ! s)"
  using rank_less [OF assms] by (simp_all add: sym_code_def)

lemma sym_code_less:
  assumes "lens_ok lens" "s < length lens" "lens ! s \<noteq> 0"
  shows "sym_code lens s < 2 ^ (lens ! s)"
proof -
  have "lens ! s \<le> MAX_BITS" using assms by (auto simp: lens_ok_def)
  then show ?thesis using sym_code_bounds(2) [OF assms(2,3)] first_code_bound [OF assms(1)] by (meson less_le_trans)
qed

lemma rank_mono:
  assumes "s < s'" "s' < length lens" "lens ! s = lens ! s'"
  shows "length (filter ((=) (lens ! s)) (take s lens)) < length (filter ((=) (lens ! s)) (take s' lens))"
proof -
  have split: "take s' lens = take s lens @ lens ! s # drop (Suc s) (take s' lens)"
    using id_take_nth_drop [of s "take s' lens"] assms by (simp add: min_def)
  show ?thesis using arg_cong [OF split, of "\<lambda>xs. length (filter ((=) (lens ! s)) xs)"] by simp
qed

lemma sym_code_inj:
  assumes "s < length lens" "s' < length lens" "lens ! s = lens ! s'" "sym_code lens s = sym_code lens s'"
  shows "s = s'"
  using rank_mono [of s s' lens] rank_mono [of s' s lens] assms
  by (cases s s' rule: linorder_cases) (auto simp: sym_code_def)

text \<open>The codes scaled to a common length are disjoint intervals.\<close>

definition code_interval :: "nat list \<Rightarrow> nat \<Rightarrow> nat \<Rightarrow> nat set" where
  "code_interval lens m s = {sym_code lens s * 2 ^ (m - lens ! s)..<(sym_code lens s + 1) * 2 ^ (m - lens ! s)}"

lemma code_interval_before:
  assumes s: "s < length lens" "lens ! s \<noteq> 0" and s': "s' < length lens" "lens ! s' \<noteq> 0"
    and less: "lens ! s < lens ! s'" "lens ! s \<le> m" and x: "x \<in> code_interval lens m s"
  shows "if lens ! s' \<le> m then x < sym_code lens s' * 2 ^ (m - lens ! s') else x < sym_code lens s' div 2 ^ (lens ! s' - m)"
proof -
  let ?l = "lens ! s" and ?L = "lens ! s'"
  have up: "sym_code lens s + 1 \<le> first_code lens ?l + len_count lens ?l" using sym_code_bounds(2) [OF s] by simp
  have gap: "(sym_code lens s + 1) * 2 ^ (?L - ?l) \<le> sym_code lens s'"
    using mult_le_mono1 [OF up, of "2 ^ (?L - ?l)"] codes_after [OF less(1), of lens] sym_code_bounds(1) [OF s'] by linarith
  have xup: "x < (sym_code lens s + 1) * 2 ^ (m - ?l)" using x by (simp add: code_interval_def)
  show ?thesis
  proof (cases "?L \<le> m")
    case True
    have "(2::nat) ^ (m - ?l) = 2 ^ (?L - ?l) * 2 ^ (m - ?L)" using True less by (simp flip: power_add)
    then have "(sym_code lens s + 1) * 2 ^ (m - ?l) \<le> sym_code lens s' * 2 ^ (m - ?L)"
      using mult_le_mono1 [OF gap, of "2 ^ (m - ?L)"] by (simp only: mult.assoc)
    then show ?thesis using xup True by simp
  next
    case False
    have "(2::nat) ^ (?L - ?l) = 2 ^ (m - ?l) * 2 ^ (?L - m)" using False less by (simp flip: power_add)
    then have "(sym_code lens s + 1) * 2 ^ (m - ?l) * 2 ^ (?L - m) \<le> sym_code lens s'" using gap by (simp only: mult.assoc)
    then have "(sym_code lens s + 1) * 2 ^ (m - ?l) \<le> sym_code lens s' div 2 ^ (?L - m)"
      by (simp add: less_eq_div_iff_mult_less_eq)
    then show ?thesis using xup False by simp
  qed
qed

lemma code_intervals_disjoint:
  assumes s: "s < length lens" "lens ! s \<noteq> 0" "lens ! s \<le> m" and s': "s' < length lens" "lens ! s' \<noteq> 0" "lens ! s' \<le> m"
    and x: "x \<in> code_interval lens m s" "x \<in> code_interval lens m s'"
  shows "s = s'"
proof (cases "lens ! s" "lens ! s'" rule: linorder_cases)
  case equal
  then have "x div 2 ^ (m - lens ! s) = sym_code lens s" "x div 2 ^ (m - lens ! s) = sym_code lens s'"
    using x by (auto simp: code_interval_def intro!: div_nat_eqI simp: mult.commute)
  then show ?thesis using sym_code_inj equal s s' by simp
next
  case less
  then show ?thesis using code_interval_before [OF s(1,2) s'(1,2) less s(3) x(1)] x(2) s'(3) by (auto simp: code_interval_def)
next
  case greater
  then show ?thesis using code_interval_before [OF s'(1,2) s(1,2) greater s'(3) x(2)] x(1) s(3) by (auto simp: code_interval_def)
qed

section \<open>Building the tables\<close>

lemma scan_lengths_spec:
  assumes "\<forall>l\<in>set ls. l \<le> MAX_BITS" "length (ls_bl_count s) = MAX_BITS + 1"
  shows "\<exists>s'. scan_lengths n ls s = Done s' \<and> length (ls_bl_count s') = MAX_BITS + 1 \<and>
    (\<forall>k \<le> MAX_BITS. ls_bl_count s' ! k = ls_bl_count s ! k + len_count ls k) \<and>
    ls_max_bits s' = Max (insert (ls_max_bits s) (set ls)) \<and>
    (\<forall>i < length ls. ls ! i \<noteq> 0 \<longrightarrow> n + i \<le> ls_max_sym s') \<and>
    (ls_max_sym s' = ls_max_sym s \<or> n \<le> ls_max_sym s' \<and> ls_max_sym s' < n + length ls)"
  using assms
proof (induction ls arbitrary: n s)
  case (Cons l ls)
  show ?case
  proof (cases "l = 0")
    case True
    obtain s' where s': "scan_lengths (Suc n) ls s = Done s'" "length (ls_bl_count s') = MAX_BITS + 1"
        "\<forall>k \<le> MAX_BITS. ls_bl_count s' ! k = ls_bl_count s ! k + len_count ls k"
        "ls_max_bits s' = Max (insert (ls_max_bits s) (set ls))"
        "\<forall>i < length ls. ls ! i \<noteq> 0 \<longrightarrow> Suc n + i \<le> ls_max_sym s'"
        "ls_max_sym s' = ls_max_sym s \<or> Suc n \<le> ls_max_sym s' \<and> ls_max_sym s' < Suc n + length ls"
      using Cons.IH [of s "Suc n"] Cons.prems by auto
    have "\<forall>i < length (l # ls). (l # ls) ! i \<noteq> 0 \<longrightarrow> n + i \<le> ls_max_sym s'"
      using s'(5) True by (auto simp: nth_Cons split: nat.split)
    moreover have "Max (insert (ls_max_bits s) (set (l # ls))) = Max (insert (ls_max_bits s) (set ls))"
      using True by (cases "set ls = {}") simp_all
    ultimately show ?thesis using s' True by (auto simp: len_count_Cons)
  next
    case False
    let ?s = "\<lparr>ls_max_bits = max l (ls_max_bits s), ls_min_bits = min l (ls_min_bits s), ls_max_sym = n,
            ls_bl_count = (ls_bl_count s)[l := ls_bl_count s ! l + 1]\<rparr>"
    have l: "l \<le> MAX_BITS" using Cons.prems by simp
    obtain s' where s': "scan_lengths (Suc n) ls ?s = Done s'" "length (ls_bl_count s') = MAX_BITS + 1"
        "\<forall>k \<le> MAX_BITS. ls_bl_count s' ! k = ls_bl_count ?s ! k + len_count ls k"
        "ls_max_bits s' = Max (insert (ls_max_bits ?s) (set ls))"
        "\<forall>i < length ls. ls ! i \<noteq> 0 \<longrightarrow> Suc n + i \<le> ls_max_sym s'"
        "ls_max_sym s' = n \<or> Suc n \<le> ls_max_sym s' \<and> ls_max_sym s' < Suc n + length ls"
      using Cons.IH [of ?s "Suc n"] Cons.prems by auto
    have "\<forall>i < length (l # ls). (l # ls) ! i \<noteq> 0 \<longrightarrow> n + i \<le> ls_max_sym s'"
      using s'(5,6) by (auto simp: nth_Cons split: nat.split)
    moreover have "Max (insert (ls_max_bits s) (set (l # ls))) = Max (insert (max l (ls_max_bits s)) (set ls))"
      by (cases "set ls = {}") (simp_all add: ac_simps)
    moreover have "\<forall>k \<le> MAX_BITS. ls_bl_count s' ! k = ls_bl_count s ! k + len_count (l # ls) k"
      using s'(3) Cons.prems(2) False by (auto simp: len_count_Cons nth_list_update)
    ultimately show ?thesis using s' False l by auto
  qed
qed (simp add: len_count_def)

lemma next_codes_from_spec:
  assumes "lens_ok lens" "\<forall>k \<le> MAX_BITS. bl ! k = len_count lens k"
    and "1 \<le> b" "b \<le> MAX_BITS + 1" "code = first_code lens (b - 1)" "length nx = MAX_BITS + 1"
    and "\<forall>k < b. nx ! k = first_code lens k"
  shows "length (next_codes_from bl [b..<MAX_BITS + 1] code nx) = MAX_BITS + 1 \<and>
    (\<forall>k \<le> MAX_BITS. next_codes_from bl [b..<MAX_BITS + 1] code nx ! k = first_code lens k)"
  using assms(3-)
proof (induction "MAX_BITS + 1 - b" arbitrary: b code nx)
  case (Suc n)
  have b: "b \<le> MAX_BITS" using Suc.hyps(2) by simp
  have step: "first_code lens b = (code + bl ! (b - 1)) * 2"
    using Suc.prems(1,3) assms(2) b by (cases b) auto
  have "first_code lens b \<le> 2 ^ b" using first_code_bound [OF assms(1) b] by simp
  also have "(2::nat) ^ b \<le> 2 ^ MAX_BITS" using b by simp
  finally have no_wrap: "((code + bl ! (b - 1)) * 2) mod 2 ^ 16 = first_code lens b" by (simp add: MAX_BITS_def step)
  have "[b..<MAX_BITS + 1] = b # [b + 1..<MAX_BITS + 1]" using upt_conv_Cons [of b "MAX_BITS + 1"] b by simp
  then have "next_codes_from bl [b..<MAX_BITS + 1] code nx =
      next_codes_from bl [b + 1..<MAX_BITS + 1] (first_code lens b) (nx[b := first_code lens b])"
    by (simp only: next_codes_from.simps Let_def no_wrap)
  moreover have "\<forall>k < b + 1. nx[b := first_code lens b] ! k = first_code lens k"
    using Suc.prems(4,5) b by (auto simp: nth_list_update less_Suc_eq_le)
  ultimately show ?case
    using Suc.hyps(1) [of "b + 1" "first_code lens b" "nx[b := first_code lens b]"] Suc.hyps(2) Suc.prems(4) b by simp
next
  case 0
  then have "b = MAX_BITS + 1" by simp
  then show ?case using 0 by (simp add: less_Suc_eq_le)
qed

lemma next_codes_spec:
  assumes "lens_ok lens" "\<forall>k \<le> MAX_BITS. bl ! k = len_count lens k"
  shows "length (next_codes bl) = MAX_BITS + 1" "k \<le> MAX_BITS \<Longrightarrow> next_codes bl ! k = first_code lens k"
  using next_codes_from_spec [OF assms, of 1 0 "replicate (MAX_BITS + 1) 0"] by (auto simp: next_codes_def)

lemma filter_eq_le:
  assumes "lens = pre @ ls @ post" "l \<noteq> 0"
  shows "length (filter ((=) l) pre) + length (filter ((=) l) ls) \<le> len_count lens l"
  using assms by (simp add: len_count_def)

lemma assign_codes_spec:
  assumes "lens_ok lens" "lens = pre @ ls @ post" "length nx = MAX_BITS + 1"
    and "\<forall>l \<le> MAX_BITS. l \<noteq> 0 \<longrightarrow> nx ! l = first_code lens l + length (filter ((=) l) pre)"
  shows "length (assign_codes ls nx) = length ls \<and> (\<forall>i < length ls. assign_codes ls nx ! i =
    (if ls ! i = 0 then (0, 0) else (sym_code lens (length pre + i), ls ! i)))"
  using assms(2-)
proof (induction ls arbitrary: pre nx)
  case (Cons l ls)
  have lens': "lens = (pre @ [l]) @ ls @ post" using Cons.prems(1) by simp
  show ?case
  proof (cases "l = 0")
    case True
    have "length (assign_codes ls nx) = length ls \<and> (\<forall>i < length ls. assign_codes ls nx ! i =
        (if ls ! i = 0 then (0, 0) else (sym_code lens (length (pre @ [l]) + i), ls ! i)))"
      using Cons.IH [OF lens' Cons.prems(2)] Cons.prems(3) True by auto
    then show ?thesis using True by (auto simp: nth_Cons split: nat.split)
  next
    case False
    have l: "l \<le> MAX_BITS" using assms(1) Cons.prems(1) by (simp add: lens_ok_def)
    have code: "nx ! l = sym_code lens (length pre)"
      using Cons.prems(1,3) l False by (simp add: sym_code_def nth_append)
    have "sym_code lens (length pre) < 2 ^ l"
      using sym_code_less [OF assms(1), of "length pre"] Cons.prems(1) False by (simp add: nth_append)
    also have "(2::nat) ^ l \<le> 2 ^ MAX_BITS" using l by simp
    finally have no_wrap: "(nx ! l + 1) mod 2 ^ 16 = nx ! l + 1" by (simp add: MAX_BITS_def code)
    have "\<forall>k \<le> MAX_BITS. k \<noteq> 0 \<longrightarrow> nx[l := nx ! l + 1] ! k = first_code lens k + length (filter ((=) k) (pre @ [l]))"
      using Cons.prems(2,3) l by (auto simp: nth_list_update)
    from Cons.IH [OF lens' _ this] show ?thesis
      using Cons.prems(2) False code no_wrap by (auto simp: nth_Cons split: nat.split)
  qed
qed simp

lemma instant_fill_spec:
  assumes "b \<le> length t"
  shows "\<exists>t'. instant_fill [a..<b] e t = Done t' \<and> length t' = length t \<and>
    (\<forall>j < length t. t' ! j = (if a \<le> j \<and> j < b then e else t ! j))"
  using assms
proof (induction "b - a" arbitrary: a t)
  case (Suc n)
  have a: "a < b" "n = b - Suc a" using Suc.hyps(2) by simp_all
  obtain t' where t': "instant_fill [Suc a..<b] e (t[a := e]) = Done t'" "length t' = length t"
      "\<forall>j < length t. t' ! j = (if Suc a \<le> j \<and> j < b then e else t[a := e] ! j)"
    using Suc.hyps(1) [OF a(2), of "t[a := e]"] Suc.prems by auto
  have "\<forall>j < length t. t' ! j = (if a \<le> j \<and> j < b then e else t ! j)"
    using t'(3) a by (auto simp: nth_list_update)
  then show ?case using t'(1,2) a Suc.prems by (simp add: upt_conv_Cons)
qed auto

text \<open>A symbol that the instant table decodes, and the table after the symbols below \<open>n\<close>.\<close>

definition short_code :: "nat list \<Rightarrow> nat \<Rightarrow> nat \<Rightarrow> bool" where
  "short_code lens m s \<longleftrightarrow> s < length lens \<and> lens ! s \<noteq> 0 \<and> lens ! s \<le> m"

definition instant_ok :: "nat list \<Rightarrow> nat \<Rightarrow> nat \<Rightarrow> (nat \<times> nat) list \<Rightarrow> bool" where
  "instant_ok lens m n t \<longleftrightarrow> length t = 2 ^ m \<and>
     (\<forall>j < 2 ^ m. (\<forall>s < n. short_code lens m s \<and> j \<in> code_interval lens m s \<longrightarrow> t ! j = (s, lens ! s)) \<and>
       ((\<forall>s < n. short_code lens m s \<longrightarrow> j \<notin> code_interval lens m s) \<longrightarrow> t ! j = (0, 0)))"

lemma instant_ok_step:
  assumes "instant_ok lens m n t" "short_code lens m n" "length t' = length t"
    and "\<forall>j < length t. t' ! j = (if j \<in> code_interval lens m n then (n, lens ! n) else t ! j)"
  shows "instant_ok lens m (Suc n) t'"
proof -
  have "t' ! j = (s, lens ! s)"
    if "j < 2 ^ m" "s < Suc n" "short_code lens m s" "j \<in> code_interval lens m s" for j s
  proof (cases "j \<in> code_interval lens m n")
    case True
    then have "s = n" using that assms(2) code_intervals_disjoint [of s lens m n j] by (simp add: short_code_def)
    then show ?thesis using True that assms(1,4) by (simp add: instant_ok_def)
  next
    case False
    then have "s \<noteq> n" using that by auto
    then show ?thesis using False that assms(1,4) by (simp add: instant_ok_def)
  qed
  moreover have "t' ! j = (0, 0)"
    if "j < 2 ^ m" "\<forall>s < Suc n. short_code lens m s \<longrightarrow> j \<notin> code_interval lens m s" for j
    using that assms by (simp add: instant_ok_def less_Suc_eq)
  ultimately show ?thesis using assms(1,3) unfolding instant_ok_def by simp
qed

lemma code_interval_bound:
  assumes "lens_ok lens" "short_code lens m s"
  shows "(sym_code lens s + 1) * 2 ^ (m - lens ! s) \<le> 2 ^ m"
proof -
  have "sym_code lens s + 1 \<le> 2 ^ (lens ! s)" using sym_code_less assms by (auto simp: short_code_def Suc_le_eq)
  then have "(sym_code lens s + 1) * 2 ^ (m - lens ! s) \<le> 2 ^ (lens ! s) * 2 ^ (m - lens ! s)" by (rule mult_le_mono1)
  also have "\<dots> = 2 ^ m" using assms(2) by (simp add: short_code_def flip: power_add)
  finally show ?thesis .
qed

lemma instant_loop_spec:
  assumes ok: "lens_ok lens" and m: "m \<le> 9"
    and tree: "\<forall>i < length tree. n + i < length lens \<and>
      tree ! i = (if lens ! (n + i) = 0 then (0, 0) else (sym_code lens (n + i), lens ! (n + i)))"
    and t: "instant_ok lens m n t"
  shows "\<exists>t'. instant_loop m n tree t = Done t' \<and> instant_ok lens m (n + length tree) t'"
  using tree t
proof (induction tree arbitrary: n t)
  case (Cons x tree)
  have n: "n < length lens" "x = (if lens ! n = 0 then (0, 0) else (sym_code lens n, lens ! n))" using Cons.prems(1) by auto
  have tl: "\<forall>i < length tree. Suc n + i < length lens \<and>
      tree ! i = (if lens ! (Suc n + i) = 0 then (0, 0) else (sym_code lens (Suc n + i), lens ! (Suc n + i)))"
    using Cons.prems(1) by fastforce
  show ?case
  proof (cases "short_code lens m n")
    case False
    then have "instant_ok lens m (Suc n) t" using Cons.prems(2) by (auto simp: instant_ok_def less_Suc_eq)
    from Cons.IH [OF tl this] show ?thesis using False n by (auto simp: short_code_def not_le)
  next
    case True
    have le: "(sym_code lens n + 1) * 2 ^ (m - lens ! n) \<le> length t"
      using code_interval_bound [OF ok True] Cons.prems(2) by (simp add: instant_ok_def)
    have "length t \<le> 2 ^ 9" using Cons.prems(2) power_increasing [OF m, of "2::nat"] by (simp add: instant_ok_def)
    then have no_wrap: "sym_code lens n * 2 ^ (m - lens ! n) mod 2 ^ 16 = sym_code lens n * 2 ^ (m - lens ! n)"
      using le by simp
    obtain t' where t': "instant_fill [sym_code lens n * 2 ^ (m - lens ! n)..<(sym_code lens n + 1) * 2 ^ (m - lens ! n)]
          (n, lens ! n) t = Done t'" "length t' = length t"
        "\<forall>j < length t. t' ! j = (if j \<in> code_interval lens m n then (n, lens ! n) else t ! j)"
      using instant_fill_spec [OF le, where e = "(n, lens ! n)" and a = "sym_code lens n * 2 ^ (m - lens ! n)"]
      by (auto simp: code_interval_def)
    from Cons.IH [OF tl instant_ok_step [OF Cons.prems(2) True t'(2,3)]] show ?thesis
      using True n t'(1) no_wrap by (auto simp: short_code_def Let_def)
  qed
qed simp

section \<open>The slow table\<close>

definition len_syms :: "nat list \<Rightarrow> nat \<Rightarrow> nat \<Rightarrow> nat list" where
  "len_syms lens n l = filter (\<lambda>i. lens ! i = l) [0..<n]"

lemma rank_len_syms: "n \<le> length lens \<Longrightarrow> length (len_syms lens n l) = length (filter ((=) l) (take n lens))"
proof (induction n)
  case (Suc n)
  then have "take (Suc n) lens = take n lens @ [lens ! n]" by (simp add: take_Suc_conv_app_nth)
  then show ?case using Suc by (auto simp: len_syms_def)
qed (simp add: len_syms_def)

lemma sym_code_rank: "s < length lens \<Longrightarrow> sym_code lens s = first_code lens (lens ! s) + length (len_syms lens s (lens ! s))"
  by (simp add: sym_code_def rank_len_syms)

lemma len_syms_nth:
  assumes "s < n"
  shows "len_syms lens n (lens ! s) ! length (len_syms lens s (lens ! s)) = s"
    "length (len_syms lens s (lens ! s)) < length (len_syms lens n (lens ! s))"
proof -
  have "[0..<n] = [0..<s] @ s # [Suc s..<n]" using assms by (metis upt_add_eq_append upt_conv_Cons le_add_diff_inverse less_imp_le zero_le)
  then have "len_syms lens n (lens ! s) = len_syms lens s (lens ! s) @ s # filter (\<lambda>i. lens ! i = lens ! s) [Suc s..<n]"
    by (simp add: len_syms_def)
  then show "len_syms lens n (lens ! s) ! length (len_syms lens s (lens ! s)) = s"
    "length (len_syms lens s (lens ! s)) < length (len_syms lens n (lens ! s))" by simp_all
qed

definition slow_ok :: "nat list \<Rightarrow> nat \<Rightarrow> nat list list \<Rightarrow> bool" where
  "slow_ok lens n table \<longleftrightarrow> length table = MAX_BITS + 1 \<and> (\<forall>l \<le> MAX_BITS. l \<noteq> 0 \<longrightarrow> table ! l = len_syms lens n l)"

lemma slow_loop_spec:
  assumes ok: "lens_ok lens" and mc: "\<forall>k \<le> MAX_BITS. min_code ! k = first_code lens k"
    and tree: "\<forall>i < length tree. n + i < length lens \<and>
      tree ! i = (if lens ! (n + i) = 0 then (0, 0) else (sym_code lens (n + i), lens ! (n + i)))"
    and t: "slow_ok lens n table"
  shows "\<exists>t'. slow_loop min_code n tree table = Inr t' \<and> slow_ok lens (n + length tree) t'"
  using tree t
proof (induction tree arbitrary: n table)
  case (Cons x tree)
  have n: "n < length lens" "x = (if lens ! n = 0 then (0, 0) else (sym_code lens n, lens ! n))" using Cons.prems(1) by auto
  have tl: "\<forall>i < length tree. Suc n + i < length lens \<and>
      tree ! i = (if lens ! (Suc n + i) = 0 then (0, 0) else (sym_code lens (Suc n + i), lens ! (Suc n + i)))"
    using Cons.prems(1) by fastforce
  show ?case
  proof (cases "lens ! n = 0")
    case True
    then have "slow_ok lens (Suc n) table" using Cons.prems(2) by (auto simp: slow_ok_def len_syms_def)
    from Cons.IH [OF tl this] show ?thesis using True n by auto
  next
    case False
    let ?l = "lens ! n"
    have l: "?l \<le> MAX_BITS" using ok n(1) by (simp add: lens_ok_def)
    have row: "table ! ?l = len_syms lens n ?l" using Cons.prems(2) l False by (simp add: slow_ok_def)
    have code: "sym_code lens n = min_code ! ?l + length (table ! ?l)"
      using sym_code_rank [OF n(1)] mc l row by simp
    have "slow_ok lens (Suc n) (table[?l := table ! ?l @ [n]])"
      using Cons.prems(2) l by (auto simp: slow_ok_def row len_syms_def nth_list_update)
    from Cons.IH [OF tl this] show ?thesis using False n code by (auto simp: Let_def)
  qed
qed simp

section \<open>Decoding\<close>

text \<open>What \<open>huffman_create\<close> establishes for lengths that are not over-subscribed.\<close>

definition decodes :: "huffman_tree \<Rightarrow> nat list \<Rightarrow> bool" where
  "decodes t lens \<longleftrightarrow> lens_ok lens \<and> (\<exists>N. N \<le> length lens \<and> (\<forall>s < length lens. lens ! s \<noteq> 0 \<longrightarrow> s < N) \<and>
     ht_max_bits t \<le> MAX_BITS \<and> (\<forall>s < length lens. lens ! s \<le> ht_max_bits t) \<and>
     ht_instant_bits t = min 9 (ht_max_bits t) \<and> instant_ok lens (ht_instant_bits t) N (ht_instant t) \<and>
     (\<forall>k \<le> MAX_BITS. ht_min_code t ! k = first_code lens k) \<and> slow_ok lens N (ht_slow_table t))"

lemma huffman_create_decodes:
  assumes ok: "lens_ok lens"
  shows "\<exists>t. huffman_create lens = Done (Inr t) \<and> decodes t lens \<and> ht_max_bits t = Max (set lens)"
proof -
  let ?s0 = "\<lparr>ls_max_bits = 0, ls_min_bits = MAX_BITS, ls_max_sym = 0, ls_bl_count = replicate (MAX_BITS + 1) 0\<rparr>"
  have le: "\<forall>l\<in>set lens. l \<le> MAX_BITS" and ne: "lens \<noteq> []" using ok by (simp_all add: lens_ok_def)
  obtain s where s: "scan_lengths 0 lens ?s0 = Done s" "length (ls_bl_count s) = MAX_BITS + 1"
      "\<forall>k \<le> MAX_BITS. ls_bl_count s ! k = len_count lens k" "ls_max_bits s = Max (insert 0 (set lens))"
      "\<forall>i < length lens. lens ! i \<noteq> 0 \<longrightarrow> i \<le> ls_max_sym s" "ls_max_sym s = 0 \<or> ls_max_sym s < length lens"
    using scan_lengths_spec [OF le, of ?s0 0] by (auto simp: nth_replicate less_Suc_eq_le simp del: replicate_Suc)
  have max: "ls_max_bits s = Max (set lens)" using s(4) ne by (simp add: Max_insert)
  have maxle: "ls_max_bits s \<le> MAX_BITS" "\<forall>i < length lens. lens ! i \<le> ls_max_bits s" using max le ne by simp_all
  define N where "N = ls_max_sym s + 1"
  have N: "N \<le> length lens" using s(6) ne by (auto simp: N_def Suc_le_eq)
  define nx where "nx = next_codes (ls_bl_count s)"
  have nx: "length nx = MAX_BITS + 1" "\<forall>k \<le> MAX_BITS. nx ! k = first_code lens k"
    using next_codes_spec [OF ok s(3)] by (simp_all add: nx_def)
  define tree where "tree = assign_codes (take N lens) nx"
  have "length tree = N \<and> (\<forall>i < N. tree ! i = (if lens ! i = 0 then (0, 0) else (sym_code lens i, lens ! i)))"
    using assign_codes_spec [OF ok, of "[]" "take N lens" "drop N lens" nx] nx N by (simp add: tree_def)
  then have tree: "length tree = N" "\<forall>i < length tree. 0 + i < length lens \<and>
      tree ! i = (if lens ! (0 + i) = 0 then (0, 0) else (sym_code lens (0 + i), lens ! (0 + i)))"
    using N by auto
  let ?m = "min 9 (ls_max_bits s)"
  have "instant_ok lens ?m 0 (replicate (2 ^ ?m) (0, 0))" by (simp add: instant_ok_def)
  then obtain inst where inst: "instant_loop ?m 0 tree (replicate (2 ^ ?m) (0, 0)) = Done inst" "instant_ok lens ?m N inst"
    using instant_loop_spec [OF ok _ tree(2), of ?m] tree(1) by auto
  have "slow_ok lens 0 (replicate (MAX_BITS + 1) [])" by (simp add: slow_ok_def len_syms_def nth_replicate)
  then obtain slow where slow: "slow_loop nx 0 tree (replicate (MAX_BITS + 1) []) = Inr slow" "slow_ok lens N slow"
    using slow_loop_spec [OF ok nx(2) tree(2)] tree(1) by auto
  let ?t = "\<lparr>ht_instant_bits = ?m, ht_min_bits = ls_min_bits s, ht_max_bits = ls_max_bits s,
     ht_instant = inst, ht_min_code = nx, ht_slow_table = slow\<rparr>"
  have "huffman_create lens = Done (Inr ?t)"
    using s(1,6) ne inst(1) slow(1) N
    by (simp add: huffman_create_def Let_def build_instant_table_def build_slow_table_def N_def nx_def tree_def)
  moreover have "decodes ?t lens"
    using ok N s(5) maxle inst(2) slow(2) nx(2) unfolding decodes_def by (auto simp: N_def intro!: exI [of _ N])
  ultimately show ?thesis using max by simp
qed

definition msb_val :: "bool list \<Rightarrow> nat" where
  "msb_val bs = bits_val (rev bs)"

lemma bits_val_append: "bits_val (xs @ ys) = bits_val xs + 2 ^ length xs * bits_val ys"
  by (simp add: bits_val_def horner_sum_append)

lemma bits_val_less: "bits_val bs < 2 ^ length bs"
  by (simp add: bits_val_def horner_sum_of_bool_2_less)

lemma nat_bits_bits_val: "nat_bits (length bs) (bits_val bs) = bs"
  by (rule nth_equalityI) (simp_all add: nat_bits_def bits_val_def bit_horner_sum_bit_iff)

lemma msb_val_append: "msb_val (xs @ ys) = msb_val xs * 2 ^ length ys + msb_val ys"
  by (simp add: msb_val_def bits_val_append ac_simps)

lemma msb_val_less: "msb_val bs < 2 ^ length bs"
  using bits_val_less [of "rev bs"] by (simp add: msb_val_def)

lemma reverse_bits_val: "reverse_bits (bits_val bs) (length bs) = msb_val bs"
proof -
  let ?n = "length bs"
  have "nat_bits ?n (reverse_bits (bits_val bs) ?n) = rev bs" by (simp add: nat_bits_reverse_bits nat_bits_bits_val)
  then have "take_bit ?n (reverse_bits (bits_val bs) ?n) = msb_val bs" by (metis bits_val_nat_bits msb_val_def)
  then show ?thesis using reverse_bits_less [of "bits_val bs" ?n] by (simp add: take_bit_nat_eq_self)
qed

lemma codeword_val:
  assumes "lens_ok lens" "s < length lens" "lens ! s \<noteq> 0"
  shows "msb_val (codeword lens s) = sym_code lens s" "length (codeword lens s) = lens ! s"
  using sym_code_less [OF assms] by (simp_all add: codeword_def msb_val_def take_bit_nat_eq_self)

lemma codeword_prefix_val:
  assumes "lens_ok lens" "s < length lens" "lens ! s \<noteq> 0" "n \<le> lens ! s"
  shows "msb_val (take n (codeword lens s)) = sym_code lens s div 2 ^ (lens ! s - n)"
proof -
  let ?c = "codeword lens s"
  have "sym_code lens s = msb_val (take n ?c @ drop n ?c)" by (simp add: codeword_val [OF assms(1-3)])
  also have "\<dots> = msb_val (take n ?c) * 2 ^ (lens ! s - n) + msb_val (drop n ?c)"
    by (simp only: msb_val_append length_drop codeword_val(2) [OF assms(1-3)])
  moreover have "msb_val (drop n ?c) < 2 ^ (lens ! s - n)"
    using msb_val_less [of "drop n ?c"] codeword_val(2) [OF assms(1-3)] by simp
  ultimately show ?thesis by simp
qed

text \<open>No proper prefix of a code is the code of another symbol: it lies behind all codes of its length.\<close>

lemma prefix_after_codes:
  assumes "s < length lens" "lens ! s \<noteq> 0" "n < lens ! s"
  shows "first_code lens n + len_count lens n \<le> sym_code lens s div 2 ^ (lens ! s - n)"
  using codes_after [OF assms(3), of lens] sym_code_bounds(1) [OF assms(1,2)]
  by (simp add: less_eq_div_iff_mult_less_eq)

lemma len_syms_length:
  assumes "N \<le> length lens" "\<forall>s < length lens. lens ! s \<noteq> 0 \<longrightarrow> s < N" "l \<noteq> 0"
  shows "length (len_syms lens N l) = len_count lens l"
proof -
  have "l \<noteq> x" if x: "x \<in> set (drop N lens)" for x
  proof -
    obtain i where "i < length lens - N" "x = lens ! (N + i)" using x assms(1) by (auto simp: in_set_conv_nth)
    then have "x = 0" using assms(2) [rule_format, of "N + i"] by fastforce
    then show ?thesis using assms(3) by simp
  qed
  then have "filter ((=) l) (drop N lens) = []" by (simp add: filter_empty_conv)
  then have "filter ((=) l) lens = filter ((=) l) (take N lens)"
    by (metis append_Nil2 append_take_drop_id filter_append)
  then show ?thesis using assms(1,3) by (simp add: rank_len_syms len_count_def)
qed

lemma get_symbol_short:
  assumes dec: "decodes t lens" and s: "s < length lens" "lens ! s \<noteq> 0" and n: "n < lens ! s" "n \<noteq> 0"
  shows "get_symbol t (sym_code lens s div 2 ^ (lens ! s - n)) n = Done None"
proof -
  obtain N where N: "N \<le> length lens" "\<forall>s < length lens. lens ! s \<noteq> 0 \<longrightarrow> s < N" "ht_max_bits t \<le> MAX_BITS"
      "\<forall>s < length lens. lens ! s \<le> ht_max_bits t" "\<forall>k \<le> MAX_BITS. ht_min_code t ! k = first_code lens k"
      "slow_ok lens N (ht_slow_table t)"
    using dec unfolding decodes_def by blast
  have le: "n \<le> ht_max_bits t" "n \<le> MAX_BITS" using N(3,4) s(1) n(1) by (meson le_trans less_imp_le)+
  have row: "length (ht_slow_table t ! n) = len_count lens n"
    using N(6) le(2) n(2) len_syms_length [OF N(1,2) n(2)] by (simp add: slow_ok_def)
  show ?thesis
    using prefix_after_codes [OF s n(1)] le N(5) row by (simp add: get_symbol_def Let_def)
qed

lemma get_symbol_exact:
  assumes dec: "decodes t lens" and s: "s < length lens" "lens ! s \<noteq> 0"
  shows "get_symbol t (sym_code lens s) (lens ! s) = Done (Some s)"
proof -
  obtain N where N: "N \<le> length lens" "\<forall>s < length lens. lens ! s \<noteq> 0 \<longrightarrow> s < N" "ht_max_bits t \<le> MAX_BITS"
      "\<forall>s < length lens. lens ! s \<le> ht_max_bits t" "\<forall>k \<le> MAX_BITS. ht_min_code t ! k = first_code lens k"
      "slow_ok lens N (ht_slow_table t)"
    using dec unfolding decodes_def by blast
  have le: "lens ! s \<le> ht_max_bits t" "lens ! s \<le> MAX_BITS" using N(3,4) s(1) by (meson le_trans)+
  have sN: "s < N" using N(2) s by blast
  have row: "ht_slow_table t ! (lens ! s) = len_syms lens N (lens ! s)" using N(6) le(2) s(2) by (simp add: slow_ok_def)
  show ?thesis
    using len_syms_nth [OF sN, of lens] sym_code_rank [OF s(1)] le N(5) row
    by (simp add: get_symbol_def Let_def)
qed

lemma read_symbol_slow_correct:
  assumes dec: "decodes t lens" and s: "s < length lens" "lens ! s \<noteq> 0"
    and st: "bi_ok st" "bi_bits st = drop n (codeword lens s) @ rest" and n: "n < lens ! s"
  shows "\<exists>st'. read_symbol_slow t (ht_max_bits t - n) (sym_code lens s div 2 ^ (lens ! s - n)) n st = Done (Inr (st', s)) \<and>
    bi_ok st' \<and> bi_bits st' = rest"
  using st n
proof (induction "lens ! s - n" arbitrary: n st)
  case (Suc d)
  let ?c = "codeword lens s" and ?l = "lens ! s"
  have ok: "lens_ok lens" using dec by (simp add: decodes_def)
  have len: "length ?c = ?l" by (rule codeword_val(2) [OF ok s])
  have max: "?l \<le> ht_max_bits t" using dec s(1) by (auto simp: decodes_def)
  have drop: "drop n ?c = ?c ! n # drop (Suc n) ?c" using Suc.prems(3) len by (simp add: Cons_nth_drop_Suc)
  obtain st' where st': "take_bits 1 st = Done (Inr (st', bits_val (take 1 (bi_bits st))))" "bi_ok st'"
      "bi_bits st' = drop 1 (bi_bits st)"
    using take_bits_spec [OF Suc.prems(1), of 1] Suc.prems(2) drop by auto
  have b: "bits_val (take 1 (bi_bits st)) = of_bool (?c ! n)" "bi_bits st' = drop (Suc n) ?c @ rest"
    using Suc.prems(2) drop st'(3) by (simp_all add: bits_val_def)
  have "take (Suc n) ?c = take n ?c @ [?c ! n]" using Suc.prems(3) len by (simp add: take_Suc_conv_app_nth)
  then have "msb_val (take (Suc n) ?c) = 2 * msb_val (take n ?c) + of_bool (?c ! n)"
    by (simp add: msb_val_append msb_val_def [of "[_]"] bits_val_def)
  then have code: "push_bit 1 (sym_code lens s div 2 ^ (?l - n)) OR of_bool (?c ! n) = sym_code lens s div 2 ^ (?l - Suc n)"
    using codeword_prefix_val [OF ok s, of n] codeword_prefix_val [OF ok s, of "Suc n"] Suc.prems(3)
    by (cases "?c ! n") (simp_all add: push_bit_eq_mult mult.commute or_Suc_0_eq)
  have fuel: "ht_max_bits t - n = Suc (ht_max_bits t - Suc n)" using Suc.prems(3) max by simp
  show ?case
  proof (cases "Suc n = ?l")
    case True
    then show ?thesis
      using fuel st' b code get_symbol_exact [OF dec s] len by (simp add: Let_def)
  next
    case False
    then have less: "Suc n < ?l" using Suc.prems(3) by simp
    have "d = ?l - Suc n" using Suc.hyps(2) by simp
    from Suc.hyps(1) [OF this st'(2) b(2) less] show ?thesis
      using fuel st' b code get_symbol_short [OF dec s less] by (simp add: Let_def)
  qed
qed simp

lemma read_symbol_correct:
  assumes dec: "decodes t lens" and s: "s < length lens" "lens ! s \<noteq> 0"
    and st: "bi_ok st" "bi_bits st = codeword lens s @ rest" "ht_instant_bits t \<le> length (bi_bits st)"
  shows "\<exists>st'. read_symbol t st = Done (Inr (st', s)) \<and> bi_ok st' \<and> bi_bits st' = rest"
proof -
  let ?c = "codeword lens s" and ?l = "lens ! s" and ?m = "ht_instant_bits t"
  obtain N where N: "\<forall>s < length lens. lens ! s \<noteq> 0 \<longrightarrow> s < N" "ht_max_bits t \<le> MAX_BITS"
      "\<forall>s < length lens. lens ! s \<le> ht_max_bits t" "?m = min 9 (ht_max_bits t)" "instant_ok lens ?m N (ht_instant t)"
    using dec unfolding decodes_def by blast
  have ok: "lens_ok lens" using dec by (simp add: decodes_def)
  have len: "length ?c = ?l" by (rule codeword_val(2) [OF ok s])
  have m16: "?m \<le> 16" using N(4) by simp
  have l16: "?l \<le> 16" "?l \<le> length (bi_bits st)" using N(2,3) s(1) st(2) len by (auto simp: MAX_BITS_def dest: le_trans)
  obtain st1 where st1: "peek_bits ?m st = Done (Inr (st1, bits_val (take ?m (bi_bits st))))" "bi_ok st1" "bi_bits st1 = bi_bits st"
    using peek_bits_spec [OF st(1) m16 st(3)] by metis
  define j where "j = msb_val (take ?m (bi_bits st))"
  have j: "reverse_bits (bits_val (take ?m (bi_bits st))) ?m = j" "j < 2 ^ ?m"
    using reverse_bits_val [of "take ?m (bi_bits st)"] msb_val_less [of "take ?m (bi_bits st)"] st(3)
    by (simp_all add: j_def min.absorb2)
  have len_inst: "length (ht_instant t) = 2 ^ ?m" using N(5) by (simp add: instant_ok_def)
  show ?thesis
  proof (cases "?l \<le> ?m")
    case True
    have "take ?m (bi_bits st) = ?c @ take (?m - ?l) rest" using True st(2) len by simp
    moreover have "length (take (?m - ?l) rest) = ?m - ?l" using st(2,3) len by simp
    ultimately have jv: "j = sym_code lens s * 2 ^ (?m - ?l) + msb_val (take (?m - ?l) rest)"
      by (simp only: j_def msb_val_append codeword_val(1) [OF ok s])
    have "msb_val (take (?m - ?l) rest) < 2 ^ (?m - ?l)"
      using msb_val_less [of "take (?m - ?l) rest"] \<open>length (take (?m - ?l) rest) = ?m - ?l\<close> by simp
    then have "j \<in> code_interval lens ?m s" using jv by (simp add: code_interval_def)
    then have entry: "ht_instant t ! j = (s, ?l)" using N(1,5) s True j(2) by (simp add: instant_ok_def short_code_def)
    obtain st2 where "take_bits ?l st1 = Done (Inr (st2, bits_val (take ?l (bi_bits st1))))" "bi_ok st2" "bi_bits st2 = drop ?l (bi_bits st1)"
      using take_bits_spec [OF st1(2) l16(1)] l16(2) st1(3) by metis
    then show ?thesis
      using st1 j len_inst entry s(2) st(2) len by (simp add: read_symbol_def Let_def get_symbol_instant_def)
  next
    case False
    have "take ?m (bi_bits st) = take ?m ?c" using False st(2) len by simp
    then have jv: "j = sym_code lens s div 2 ^ (?l - ?m)" using codeword_prefix_val [OF ok s, of ?m] False by (simp add: j_def)
    have "j \<notin> code_interval lens ?m s'" if "short_code lens ?m s'" for s'
    proof
      assume "j \<in> code_interval lens ?m s'"
      then show False
        using code_interval_before [of s' lens s ?m j] that s False jv by (auto simp: short_code_def)
    qed
    then have entry: "ht_instant t ! j = (0, 0)" using N(5) j(2) by (simp add: instant_ok_def)
    obtain st2 where st2: "take_bits ?m st1 = Done (Inr (st2, bits_val (take ?m (bi_bits st1))))" "bi_ok st2" "bi_bits st2 = drop ?m (bi_bits st1)"
      using take_bits_spec [OF st1(2) m16] st(3) st1(3) by metis
    have "bi_bits st2 = drop ?m ?c @ rest" using st2(3) st1(3) st(2) False len by simp
    from read_symbol_slow_correct [OF dec s st2(2) this] show ?thesis
      using st1 j jv len_inst entry st2(1) False by (simp add: read_symbol_def Let_def get_symbol_instant_def)
  qed
qed

section \<open>Properties\<close>

text \<open>
  C13: For every list of code lengths up to 15 that is not over-subscribed the tables are built without
  tripping an assertion, and \<open>read_symbol\<close> decodes the canonical code of the lengths: on a stream
  that starts with the code of a symbol, most significant bit first, it returns this symbol
  and consumes exactly its code, through the instant table or bit by bit through the slow one.
  This needs the bits that the reader peeks at, 9 or the greatest code length if that is less: on a shorter stream
  the symbol is not decoded, even when its whole code is there, and the error is \<^verbatim>\<open>ENOBUFS\<close>.
\<close>

theorem huffman_decode_correct:
  assumes "lens_ok lens" "s < length lens" "lens ! s \<noteq> 0"
    and "bi_ok st" "bi_bits st = codeword lens s @ rest"
  shows "\<exists>t. huffman_create lens = Done (Inr t) \<and>
    (if min 9 (Max (set lens)) \<le> length (bi_bits st)
     then \<exists>st'. read_symbol t st = Done (Inr (st', s)) \<and> bi_ok st' \<and> bi_bits st' = rest
     else read_symbol t st = Done (Inl ENOBUFS))"
proof -
  obtain t where t: "huffman_create lens = Done (Inr t)" "decodes t lens" "ht_max_bits t = Max (set lens)"
    using huffman_create_decodes [OF assms(1)] by blast
  then have bits: "ht_instant_bits t = min 9 (Max (set lens))" by (auto simp: decodes_def)
  show ?thesis
  proof (cases "ht_instant_bits t \<le> length (bi_bits st)")
    case True
    then show ?thesis using read_symbol_correct [OF t(2) assms(2-5) True] t(1) bits by auto
  next
    case False
    then have "peek_bits (ht_instant_bits t) st = Done (Inl ENOBUFS)" using bits by (intro peek_bits_short [OF assms(4)]) auto
    then have "read_symbol t st = Done (Inl ENOBUFS)" by (simp add: read_symbol_def)
    then show ?thesis using t(1) bits False by simp
  qed
qed

theorem huffman_decode_correct_witness:
  "\<exists>t st'. huffman_create [2, 1, 0, 2] = Done (Inr t) \<and>
     read_symbol t \<lparr>bi_data = [3, 0], bi_buffer = 0, bi_len = 0\<rparr> = Done (Inr (st', 3)) \<and> length (bi_bits st') = 14"
proof -
  let ?lens = "[2, 1, 0, 2 :: nat]" and ?st = "\<lparr>bi_data = [3, 0], bi_buffer = 0, bi_len = 0\<rparr>"
  have lens: "lens_ok ?lens" by (simp add: lens_ok_def kraft_sum_def MAX_BITS_def)
  have code: "sym_code ?lens 3 = 3" by (simp add: sym_code_def len_count_def numeral_2_eq_2 numeral_3_eq_3)
  have "codeword ?lens 3 = [True, True]"
    by (simp add: codeword_def nat_bits_def code [unfolded One_nat_def] upt_rec bit_iff_odd)
  moreover have "take 2 (bi_bits ?st) = [True, True]"
    by (simp add: bi_bits_def nat_bits_def upt_rec bit_iff_odd flip: nat_bits_unat)
  ultimately have bits: "bi_bits ?st = codeword ?lens 3 @ drop 2 (bi_bits ?st)" by (metis append_take_drop_id)
  have len: "length (bi_bits ?st) = 16" by (simp add: bi_bits_def)
  have pre: "bi_ok ?st" "(3::nat) < length ?lens" "?lens ! 3 \<noteq> 0" "min 9 (Max (set ?lens)) \<le> length (bi_bits ?st)" using len by (simp_all add: bi_ok_def)
  obtain t st' where "huffman_create ?lens = Done (Inr t)" "read_symbol t ?st = Done (Inr (st', 3))"
      "bi_bits st' = drop 2 (bi_bits ?st)"
    using huffman_decode_correct [OF lens pre(2,3,1) bits] unfolding if_P [OF pre(4)] by blast
  moreover from this(3) have "length (bi_bits st') = 14" by (simp only: length_drop len)
  ultimately show ?thesis by blast
qed

end
