(* ===== verification/HuffmanEncode.thy ===== *)
theory HuffmanEncode
  imports BAN_Sort HuffmanTree
begin

text \<open>
  \<^verbatim>\<open>create_huffman_tree\<close> of \<^verbatim>\<open>userspace/libraries/LibDEFLATE/Compressor.cpp\<close>: the Huffman tree of the
  symbol frequencies is built with the heap routines of \<^verbatim>\<open>BAN/Heap.h\<close>, the depths of its leaves are
  limited to 15 bits and numbered canonically. The lengths of at least two symbols always fill
  the code space exactly.
\<close>

section \<open>Model\<close>

definition s_max_symbols :: nat where
  "s_max_symbols = 288"

datatype huff_node = HLeaf nat nat | HParent nat huff_node huff_node

fun node_symbol :: "huff_node \<Rightarrow> nat" where
  "node_symbol (HLeaf s f) = s"
| "node_symbol (HParent f l r) = 0"

fun node_freq :: "huff_node \<Rightarrow> nat" where
  "node_freq (HLeaf s f) = f"
| "node_freq (HParent f l r) = f"

definition node_comp :: "huff_node \<Rightarrow> huff_node \<Rightarrow> bool" where
  "node_comp a b =
     (if node_freq a \<noteq> node_freq b then node_freq a > node_freq b else node_symbol a > node_symbol b)"

definition initial_nodes :: "nat list \<Rightarrow> huff_node list" where
  "initial_nodes freq = map (\<lambda>s. HLeaf s (freq ! s)) (filter (\<lambda>s. freq ! s \<noteq> 0) [0..<length freq])"

text \<open>For evaluation: one pass over the frequencies.\<close>

fun nodes_from :: "nat \<Rightarrow> nat list \<Rightarrow> huff_node list" where
  "nodes_from s [] = []"
| "nodes_from s (f # fs) = (if f \<noteq> 0 then HLeaf s f # nodes_from (s + 1) fs else nodes_from (s + 1) fs)"

lemma nodes_from_eq: "nodes_from n fs = map (\<lambda>s. HLeaf (n + s) (fs ! s)) (filter (\<lambda>s. fs ! s \<noteq> 0) [0..<length fs])"
proof (induction fs arbitrary: n)
  case (Cons f fs)
  have "[0..<length (f # fs)] = 0 # map Suc [0..<length fs]" by (simp add: upt_conv_Cons map_Suc_upt del: upt_Suc)
  then show ?case using Cons.IH [of "Suc n"] by (simp add: filter_map o_def)
qed simp

lemma initial_nodes_code [code]: "initial_nodes freq = nodes_from 0 freq"
  by (simp add: initial_nodes_def nodes_from_eq)

lemma length_heapify_down [simp]: "length (heapify_down cmp xs b i len) = length xs"
  by (induction cmp xs b i len rule: heapify_down.induct)
    (simp add: heapify_down.simps split: option.splits)

lemma length_heapify_up [simp]: "length (heapify_up cmp xs b i) = length xs"
proof (induction cmp xs b i rule: heapify_up.induct)
  case (1 cmp xs b i)
  then show ?case by (simp add: heapify_up.simps [of cmp xs b i] Let_def)
qed

lemma length_pop_heap [simp]: "length (pop_heap cmp xs b e) = length xs"
  by (simp add: pop_heap_def Let_def)

lemma length_push_heap [simp]: "length (push_heap cmp xs b e) = length xs"
  by (simp add: push_heap_def)

text \<open>The list is the part of the array \<open>nodes\<close> before \<open>end_it\<close>.\<close>

function merge_nodes :: "huff_node list \<Rightarrow> huff_node list" where
  "merge_nodes nodes =
     (if length nodes \<le> 1 then nodes
      else let node1 = nodes ! 0;
               nodes1 = butlast (pop_heap node_comp nodes 0 (length nodes));
               node2 = nodes1 ! 0;
               nodes2 = butlast (pop_heap node_comp nodes1 0 (length nodes1));
               parent = HParent (node_freq node1 + node_freq node2) node1 node2
           in merge_nodes (push_heap node_comp (nodes2 @ [parent]) 0 (length (nodes2 @ [parent]))))"
  by auto
termination by (relation "measure length") (auto simp: Let_def)

declare merge_nodes.simps [simp del]

text \<open>The number of nodes that are too deep, and the lengths with those of the leaves stored.\<close>

fun gather_lengths :: "huff_node \<Rightarrow> nat list \<Rightarrow> nat \<Rightarrow> nat \<times> nat list" where
  "gather_lengths (HLeaf s f) symbols depth =
     ((if depth > MAX_BITS then 1 else 0), symbols[s := min depth MAX_BITS])"
| "gather_lengths (HParent f l r) symbols depth =
     (let (c1, symbols1) = gather_lengths l symbols (depth + 1);
          (c2, symbols2) = gather_lengths r symbols1 (depth + 1)
      in ((if depth > MAX_BITS then 1 else 0) + c1 + c2, symbols2))"

fun count_lengths :: "nat list \<Rightarrow> nat list \<Rightarrow> nat list" where
  "count_lengths [] bl_count = bl_count"
| "count_lengths (l # ls) bl_count = count_lengths ls (if l \<noteq> 0 then bl_count[l := bl_count ! l + 1] else bl_count)"

text \<open>Below length 0 the search leaves the array.\<close>

fun find_bits :: "nat list \<Rightarrow> nat \<Rightarrow> nat run" where
  "find_bits bl_count 0 = (if bl_count ! 0 = 0 then Halt else Done 0)"
| "find_bits bl_count (Suc b) = (if bl_count ! Suc b = 0 then find_bits bl_count b else Done (Suc b))"

fun limit_loop :: "nat \<Rightarrow> nat list \<Rightarrow> nat list run" where
  "limit_loop 0 bl_count = Done bl_count"
| "limit_loop (Suc n) bl_count =
     rbind (find_bits bl_count (MAX_BITS - 1)) (\<lambda>bits.
       let bl1 = bl_count[bits := bl_count ! bits - 1];
           bl2 = bl1[bits + 1 := bl1 ! (bits + 1) + 2]
       in limit_loop n (bl2[MAX_BITS := (bl2 ! MAX_BITS + 2 ^ 16 - 1) mod 2 ^ 16]))"

definition freq_less :: "nat \<times> nat \<Rightarrow> nat \<times> nat \<Rightarrow> bool" where
  "freq_less a b \<longleftrightarrow> snd a < snd b"

definition symbol_freqs :: "nat list \<Rightarrow> (nat \<times> nat) list" where
  "symbol_freqs freq = map (\<lambda>s. (s, freq ! s)) (filter (\<lambda>s. freq ! s \<noteq> 0) [0..<length freq])"

text \<open>The lengths from the longest on go to the symbols from the rarest on, one for each.\<close>

fun hand_out_lengths :: "nat list \<Rightarrow> (nat \<times> nat) list \<Rightarrow> nat list \<Rightarrow> nat list run" where
  "hand_out_lengths [] sym_freq output = asserting (sym_freq = []) (Done output)"
| "hand_out_lengths (b # bs) [] output = Halt"
| "hand_out_lengths (b # bs) (sf # sym_freq) output = hand_out_lengths bs sym_freq (output[fst sf := b])"

definition limit_lengths :: "nat \<Rightarrow> nat list \<Rightarrow> nat list \<Rightarrow> nat list \<Rightarrow> (nat list \<times> nat list) run" where
  "limit_lengths too_long_count freq output bl_count =
     (if too_long_count > 0 then
        rbind (limit_loop (too_long_count div 2) bl_count) (\<lambda>bl.
          let sym_freq = ban_sort freq_less (symbol_freqs freq) 0 (length (symbol_freqs freq))
          in rbind (hand_out_lengths (concat (map (\<lambda>b. replicate (bl ! b) b) (rev [1..<MAX_BITS + 1]))) sym_freq output)
               (\<lambda>output'. Done (output', bl)))
      else Done (output, bl_count))"

definition create_huffman_tree :: "nat list \<Rightarrow> leaf list run" where
  "create_huffman_tree freq =
     asserting (length freq \<le> s_max_symbols)
       (let nodes = initial_nodes freq; output = replicate (length freq) 0
        in if nodes = [] then Done (map (\<lambda>l. (0, l)) (output[0 := 1]))
           else let root = merge_nodes (make_heap node_comp nodes 0 (length nodes)) ! 0;
                    (too_long_count, lengths) = gather_lengths root output 0;
                    bl_count = count_lengths lengths (replicate (MAX_BITS + 1) 0)
                in rbind (limit_lengths too_long_count freq lengths bl_count) (\<lambda>(lengths', bl).
                     Done (assign_codes lengths' (next_codes bl))))"

section \<open>The tree\<close>

interpretation node_order: strict_weak_order node_comp
  by unfold_locales (auto simp: node_comp_def split: if_splits)

interpretation freq_order: strict_weak_order freq_less
  by unfold_locales (auto simp: freq_less_def)

fun node_syms :: "huff_node \<Rightarrow> nat list" where
  "node_syms (HLeaf s f) = [s]"
| "node_syms (HParent f l r) = node_syms l @ node_syms r"

definition forest_syms :: "huff_node list \<Rightarrow> nat multiset" where
  "forest_syms nodes = (\<Sum>t\<in>#mset nodes. mset (node_syms t))"

lemma merge_nodes_step:
  assumes "heap_from node_comp nodes 0 (length nodes) 0" "2 \<le> length nodes"
  defines "nodes1 \<equiv> butlast (pop_heap node_comp nodes 0 (length nodes))"
  defines "nodes2 \<equiv> butlast (pop_heap node_comp nodes1 0 (length nodes1))"
  defines "parent \<equiv> HParent (node_freq (nodes ! 0) + node_freq (nodes1 ! 0)) (nodes ! 0) (nodes1 ! 0)"
  defines "nodes3 \<equiv> push_heap node_comp (nodes2 @ [parent]) 0 (length (nodes2 @ [parent]))"
  shows "merge_nodes nodes = merge_nodes nodes3" "heap_from node_comp nodes3 0 (length nodes3) 0"
    "forest_syms nodes3 = forest_syms nodes" "length nodes3 = length nodes - 1" "parent \<in> set nodes3"
proof -
  show "merge_nodes nodes = merge_nodes nodes3"
    using assms(2) by (simp add: merge_nodes.simps [of nodes] Let_def nodes3_def nodes2_def nodes1_def parent_def)
  have ne: "nodes \<noteq> []" "nodes1 \<noteq> []" using assms(2) by (auto simp: nodes1_def simp flip: length_0_conv)
  have p1: "heap_from node_comp nodes1 0 (length nodes1) 0" "mset nodes = add_mset (nodes ! 0) (mset nodes1)"
    using node_order.pop_heap_last [OF assms(1) ne(1)] by (simp_all add: nodes1_def)
  have p2: "heap_from node_comp nodes2 0 (length nodes2) 0" "mset nodes1 = add_mset (nodes1 ! 0) (mset nodes2)"
    using node_order.pop_heap_last [OF p1(1) ne(2)] by (simp_all add: nodes2_def)
  have p3: "heap_from node_comp nodes3 0 (length nodes3) 0" "mset nodes3 = add_mset parent (mset nodes2)"
    using node_order.push_heap_correct [OF p2(1), of parent] by (simp_all add: nodes3_def)
  show "heap_from node_comp nodes3 0 (length nodes3) 0" by (rule p3(1))
  show "forest_syms nodes3 = forest_syms nodes"
    unfolding forest_syms_def p3(2) p1(2) p2(2) by (simp add: parent_def)
  show "length nodes3 = length nodes - 1" using assms(2) by (simp add: nodes3_def nodes2_def nodes1_def)
  show "parent \<in> set nodes3" using p3(2) by (metis set_mset_mset union_single_eq_member add_mset_add_single union_commute)
qed

lemma merge_nodes_root:
  assumes "heap_from node_comp nodes 0 (length nodes) 0" "nodes \<noteq> []"
  shows "\<exists>root. merge_nodes nodes = [root] \<and> mset (node_syms root) = forest_syms nodes"
  using assms
proof (induction "length nodes" arbitrary: nodes rule: less_induct)
  case less
  show ?case
  proof (cases "length nodes \<le> 1")
    case True
    then obtain t where "nodes = [t]" using less.prems(2) by (cases nodes) auto
    then show ?thesis by (simp add: merge_nodes.simps forest_syms_def)
  next
    case False
    then have two: "2 \<le> length nodes" by simp
    note step = merge_nodes_step [OF less.prems(1) two]
    show ?thesis
      unfolding step(1) step(3) [symmetric] using two step(4) by (intro less.hyps step(2)) (auto simp flip: length_0_conv)
  qed
qed

fun leaf_depths :: "huff_node \<Rightarrow> nat \<Rightarrow> (nat \<times> nat) list" where
  "leaf_depths (HLeaf s f) d = [(s, min d MAX_BITS)]"
| "leaf_depths (HParent f l r) d = leaf_depths l (d + 1) @ leaf_depths r (d + 1)"

fun deep_count :: "huff_node \<Rightarrow> nat \<Rightarrow> nat" where
  "deep_count (HLeaf s f) d = (if d > MAX_BITS then 1 else 0)"
| "deep_count (HParent f l r) d = (if d > MAX_BITS then 1 else 0) + deep_count l (d + 1) + deep_count r (d + 1)"

definition upds :: "nat list \<Rightarrow> (nat \<times> nat) list \<Rightarrow> nat list" where
  "upds xs ps = foldl (\<lambda>xs p. xs[fst p := snd p]) xs ps"

lemma upds_simps [simp]: "upds xs [] = xs" "upds xs (p # ps) = upds (xs[fst p := snd p]) ps"
    "upds xs (ps @ qs) = upds (upds xs ps) qs"
  by (simp_all add: upds_def)

lemma length_upds [simp]: "length (upds xs ps) = length xs"
  by (induction ps arbitrary: xs) simp_all

lemma gather_lengths_spec: "gather_lengths t xs d = (deep_count t d, upds xs (leaf_depths t d))"
  by (induction t arbitrary: xs d) simp_all

lemma leaf_depths_syms: "map fst (leaf_depths t d) = node_syms t"
  by (induction t arbitrary: d) simp_all

lemma leaf_depths_range: "1 \<le> d \<Longrightarrow> \<forall>p\<in>set (leaf_depths t d). 1 \<le> snd p \<and> snd p \<le> MAX_BITS"
  by (induction t arbitrary: d) (fastforce simp: MAX_BITS_def)+

definition pairs_kraft :: "(nat \<times> nat) list \<Rightarrow> nat" where
  "pairs_kraft ps = sum_list (map (\<lambda>p. 2 ^ (MAX_BITS - snd p)) ps)"

lemma leaves_below_limit:
  assumes "MAX_BITS \<le> d"
  shows "map snd (leaf_depths t d) = replicate (length (node_syms t)) MAX_BITS"
    "MAX_BITS < d \<Longrightarrow> Suc (deep_count t d) = 2 * length (node_syms t)"
  using assms
proof (induction t arbitrary: d)
  case (HParent f l r)
  { case 1 then show ?case using HParent.IH(1,3) [of "d + 1"] by (simp add: replicate_add) }
  { case 2 then show ?case using HParent.IH(2,4) [of "d + 1"] by simp }
qed simp_all

text \<open>
  The leaves that are too deep over-subscribe the code space by half the number of nodes that are
  too deep, and there are more of them than that.
\<close>

lemma tree_excess:
  assumes "d \<le> MAX_BITS"
  shows "\<exists>e. deep_count t d = 2 * e \<and> pairs_kraft (leaf_depths t d) = 2 ^ (MAX_BITS - d) + e \<and>
    (0 < e \<longrightarrow> e < length (filter ((=) MAX_BITS) (map snd (leaf_depths t d))))"
  using assms
proof (induction t arbitrary: d)
  case (HLeaf s f)
  then show ?case by (simp add: pairs_kraft_def min_def)
next
  case (HParent f l r)
  show ?case
  proof (cases "d = MAX_BITS")
    case True
    let ?L = "length (node_syms l) + length (node_syms r)"
    have lens: "map snd (leaf_depths (HParent f l r) d) = replicate ?L MAX_BITS"
      using leaves_below_limit(1) [of d "HParent f l r"] True by simp
    have "pairs_kraft ps = sum_list (map (\<lambda>k. 2 ^ (MAX_BITS - k)) (map snd ps))" for ps
      by (simp add: pairs_kraft_def comp_def)
    then have kraft: "pairs_kraft (leaf_depths (HParent f l r) d) = ?L" by (simp only: lens) (simp add: sum_list_replicate)
    have "Suc (deep_count l (d + 1)) = 2 * length (node_syms l)" "Suc (deep_count r (d + 1)) = 2 * length (node_syms r)"
      using leaves_below_limit(2) [of "d + 1"] True by simp_all
    then have "deep_count (HParent f l r) d = 2 * (?L - 1)" "1 \<le> ?L" using True by auto
    then show ?thesis using kraft lens True by (intro exI [of _ "?L - 1"]) (simp only: lens, simp, linarith)
  next
    case False
    then have d: "d + 1 \<le> MAX_BITS" using HParent.prems by simp
    obtain e1 where e1: "deep_count l (d + 1) = 2 * e1" "pairs_kraft (leaf_depths l (d + 1)) = 2 ^ (MAX_BITS - (d + 1)) + e1"
        "0 < e1 \<longrightarrow> e1 < length (filter ((=) MAX_BITS) (map snd (leaf_depths l (d + 1))))"
      using HParent.IH(1) [OF d] by blast
    obtain e2 where e2: "deep_count r (d + 1) = 2 * e2" "pairs_kraft (leaf_depths r (d + 1)) = 2 ^ (MAX_BITS - (d + 1)) + e2"
        "0 < e2 \<longrightarrow> e2 < length (filter ((=) MAX_BITS) (map snd (leaf_depths r (d + 1))))"
      using HParent.IH(2) [OF d] by blast
    have "(2::nat) ^ (MAX_BITS - d) = 2 * 2 ^ (MAX_BITS - (d + 1))" using d by (simp flip: power_Suc add: Suc_diff_Suc)
    then have "pairs_kraft (leaf_depths (HParent f l r) d) = 2 ^ (MAX_BITS - d) + (e1 + e2)"
      using e1(2) e2(2) by (simp add: pairs_kraft_def)
    then show ?thesis using e1 e2 d by (intro exI [of _ "e1 + e2"]) auto
  qed
qed

section \<open>Lengths stored in an array\<close>

lemma filter_upd:
  assumes "i < length xs" "\<not> P (xs ! i)"
  shows "length (filter P (xs[i := v])) = length (filter P xs) + (if P v then 1 else 0)"
proof -
  have "filter P xs = filter P (take i xs) @ filter P (drop (Suc i) xs)"
    using assms by (subst id_take_nth_drop [OF assms(1)]) (simp only: filter_append filter.simps if_False)
  then show ?thesis using assms(1) by (simp add: upd_conv_take_nth_drop)
qed

lemma kraft_sum_upd:
  assumes "i < length xs" "xs ! i = 0" "v \<noteq> 0"
  shows "kraft_sum (xs[i := v]) = kraft_sum xs + 2 ^ (MAX_BITS - v)"
proof -
  have "kraft_sum xs = kraft_sum (take i xs @ 0 # drop (Suc i) xs)"
    using assms by (metis id_take_nth_drop)
  then show ?thesis using assms(1,3) by (simp add: upd_conv_take_nth_drop kraft_sum_def)
qed

lemma upds_fresh:
  assumes "distinct (map fst ps)" "\<forall>p\<in>set ps. fst p < length xs \<and> xs ! fst p = 0 \<and> snd p \<noteq> 0"
  shows "kraft_sum (upds xs ps) = kraft_sum xs + pairs_kraft ps \<and>
    (\<forall>k. k \<noteq> 0 \<longrightarrow> len_count (upds xs ps) k = len_count xs k + length (filter ((=) k) (map snd ps)))"
  using assms
proof (induction ps arbitrary: xs)
  case (Cons p ps)
  let ?xs = "xs[fst p := snd p]"
  have p: "fst p < length xs" "xs ! fst p = 0" "snd p \<noteq> 0" using Cons.prems by simp_all
  have "fst q < length ?xs \<and> ?xs ! fst q = 0 \<and> snd q \<noteq> 0" if "q \<in> set ps" for q
  proof -
    have "fst q \<noteq> fst p" using Cons.prems(1) that by (auto simp: image_iff)
    then show ?thesis using that Cons.prems(2) by simp
  qed
  then have IH: "kraft_sum (upds ?xs ps) = kraft_sum ?xs + pairs_kraft ps"
      "\<forall>k. k \<noteq> 0 \<longrightarrow> len_count (upds ?xs ps) k = len_count ?xs k + length (filter ((=) k) (map snd ps))"
    using Cons.IH [of ?xs] Cons.prems(1) by simp_all
  show ?case
    using IH kraft_sum_upd [OF p] filter_upd [of "fst p" xs] p by (simp add: pairs_kraft_def len_count_def)
qed (simp_all add: pairs_kraft_def)

lemma nth_upds:
  assumes "distinct (map fst ps)" "i < length xs"
  shows "upds xs ps ! i = (case map_of ps i of None \<Rightarrow> xs ! i | Some v \<Rightarrow> v)"
  using assms
proof (induction ps arbitrary: xs)
  case (Cons p ps)
  have "map_of ps (fst p) = None" using Cons.prems(1) by (simp add: map_of_eq_None_iff)
  then show ?case using Cons by (auto split: option.splits)
qed simp

lemma upds_overwrite:
  assumes "distinct (map fst ps)" "\<forall>i < length xs. xs ! i \<noteq> 0 \<longrightarrow> i \<in> set (map fst ps)"
  shows "upds xs ps = upds (replicate (length xs) 0) ps"
proof (rule nth_equalityI)
  fix i assume i: "i < length (upds xs ps)"
  show "upds xs ps ! i = upds (replicate (length xs) 0) ps ! i"
  proof (cases "map_of ps i")
    case None
    then have "xs ! i = 0" using i assms(2) by (auto simp: map_of_eq_None_iff)
    then show ?thesis using i None by (simp add: nth_upds [OF assms(1)])
  qed (use i in \<open>simp add: nth_upds [OF assms(1)]\<close>)
qed simp

lemma count_lengths_spec:
  assumes "\<forall>l\<in>set ls. l \<le> MAX_BITS" "length bl = MAX_BITS + 1"
  shows "length (count_lengths ls bl) = MAX_BITS + 1 \<and>
    (\<forall>k \<le> MAX_BITS. count_lengths ls bl ! k = bl ! k + len_count ls k)"
  using assms
proof (induction ls arbitrary: bl)
  case (Cons l ls)
  then show ?case by (auto simp: len_count_Cons nth_list_update)
qed (simp add: len_count_def)

section \<open>Limiting the lengths\<close>

definition bl_sum :: "(nat \<Rightarrow> nat) \<Rightarrow> nat list \<Rightarrow> nat" where
  "bl_sum w bl = (\<Sum>k\<in>{1..MAX_BITS}. bl ! k * w k)"

abbreviation code_weight :: "nat \<Rightarrow> nat" where
  "code_weight k \<equiv> 2 ^ (MAX_BITS - k)"

lemma bl_sum_upd:
  assumes "k \<in> {1..MAX_BITS}" "length bl = MAX_BITS + 1"
  shows "bl_sum w (bl[k := v]) + bl ! k * w k = bl_sum w bl + v * w k"
proof -
  have rest: "(\<Sum>j\<in>{1..MAX_BITS} - {k}. bl[k := v] ! j * w j) = (\<Sum>j\<in>{1..MAX_BITS} - {k}. bl ! j * w j)"
    by (rule sum.cong) auto
  show ?thesis
    unfolding bl_sum_def sum.remove [OF finite_atLeastAtMost assms(1)] rest using assms by simp
qed

lemma find_bits_Done:
  assumes "k \<in> {1..b}" "bl ! k \<noteq> 0"
  shows "\<exists>j\<in>{1..b}. find_bits bl b = Done j \<and> bl ! j \<noteq> 0"
  using assms
proof (induction b)
  case (Suc b)
  then show ?case by (cases "bl ! Suc b = 0") (auto simp: le_Suc_eq)
qed simp

lemma mult_pred: "0 < x \<Longrightarrow> x * w = (x - 1) * w + (w::nat)"
  by (cases x) simp_all

lemma limit_step:
  assumes bl: "length bl = MAX_BITS + 1" and b: "b \<in> {1..MAX_BITS - 1}" "bl ! b \<noteq> 0"
    and last: "2 \<le> bl ! MAX_BITS" "bl ! MAX_BITS < 2 ^ 15"
  defines "bl1 \<equiv> bl[b := bl ! b - 1]"
  defines "bl2 \<equiv> bl1[b + 1 := bl1 ! (b + 1) + 2]"
  defines "bl3 \<equiv> bl2[MAX_BITS := (bl2 ! MAX_BITS + 2 ^ 16 - 1) mod 2 ^ 16]"
  shows "length bl3 = MAX_BITS + 1" "bl3 ! 0 = bl ! 0" "bl ! MAX_BITS \<le> bl3 ! MAX_BITS + 1"
    "bl_sum code_weight bl3 + 1 = bl_sum code_weight bl" "bl_sum (\<lambda>k. 1) bl3 = bl_sum (\<lambda>k. 1) bl"
proof -
  have lens: "length bl1 = MAX_BITS + 1" "length bl2 = MAX_BITS + 1" using bl by (simp_all add: bl1_def bl2_def)
  have b': "b \<in> {1..MAX_BITS}" "b + 1 \<in> {1..MAX_BITS}" "b \<noteq> MAX_BITS" "MAX_BITS \<in> {1..MAX_BITS}"
    using b(1) by (auto simp: MAX_BITS_def)
  have top: "bl2 ! MAX_BITS = bl ! MAX_BITS + (if b + 1 = MAX_BITS then 2 else 0)"
    using b' bl by (simp add: bl1_def bl2_def nth_list_update)
  then have top': "(bl2 ! MAX_BITS + 2 ^ 16 - 1) mod 2 ^ 16 = bl2 ! MAX_BITS - 1"
  proof -
    have "bl2 ! MAX_BITS + 2 ^ 16 - 1 = (bl2 ! MAX_BITS - 1) + 2 ^ 16" using top last by simp
    then have "(bl2 ! MAX_BITS + 2 ^ 16 - 1) mod 2 ^ 16 = (bl2 ! MAX_BITS - 1) mod 2 ^ 16" by (simp only: mod_add_self2)
    then show ?thesis using top last by simp
  qed
  show "length bl3 = MAX_BITS + 1" "bl3 ! 0 = bl ! 0" "bl ! MAX_BITS \<le> bl3 ! MAX_BITS + 1"
    using bl b' lens top top' by (simp_all add: bl3_def bl2_def bl1_def MAX_BITS_def)
  have step: "bl_sum w bl3 + w MAX_BITS + w b = bl_sum w bl + 2 * w (b + 1)" for w
  proof -
    have "bl_sum w bl1 + bl ! b * w b = bl_sum w bl + (bl ! b - 1) * w b"
      using bl_sum_upd [OF b'(1) bl] by (simp add: bl1_def)
    moreover have "bl ! b * w b = (bl ! b - 1) * w b + w b" using b(2) by (intro mult_pred) simp
    moreover have "bl_sum w bl2 = bl_sum w bl1 + 2 * w (b + 1)"
      using bl_sum_upd [OF b'(2) lens(1), of w "bl1 ! (b + 1) + 2"] by (simp add: bl2_def add_mult_distrib)
    moreover have "bl_sum w bl3 + bl2 ! MAX_BITS * w MAX_BITS = bl_sum w bl2 + (bl2 ! MAX_BITS - 1) * w MAX_BITS"
      using bl_sum_upd [OF b'(4) lens(2)] top' by (simp add: bl3_def)
    moreover have "bl2 ! MAX_BITS * w MAX_BITS = (bl2 ! MAX_BITS - 1) * w MAX_BITS + w MAX_BITS"
      using top last by (intro mult_pred) simp
    ultimately show ?thesis by linarith
  qed
  have "(2::nat) ^ (MAX_BITS - b) = 2 * 2 ^ (MAX_BITS - (b + 1))" using b' by (simp flip: power_Suc add: Suc_diff_Suc)
  then show "bl_sum code_weight bl3 + 1 = bl_sum code_weight bl" using step [of code_weight] by simp
  show "bl_sum (\<lambda>k. 1) bl3 = bl_sum (\<lambda>k. 1) bl" using step [of "\<lambda>k. 1"] by simp
qed

lemma limit_loop_spec:
  assumes "length bl = MAX_BITS + 1" "bl ! 0 = 0" "bl_sum code_weight bl = 2 ^ MAX_BITS + n"
    and "n < bl ! MAX_BITS \<or> n = 0" "bl_sum (\<lambda>k. 1) bl \<le> s_max_symbols"
  shows "\<exists>bl'. limit_loop n bl = Done bl' \<and> length bl' = MAX_BITS + 1 \<and> bl' ! 0 = 0 \<and>
    bl_sum code_weight bl' = 2 ^ MAX_BITS \<and> bl_sum (\<lambda>k. 1) bl' = bl_sum (\<lambda>k. 1) bl"
  using assms
proof (induction n arbitrary: bl)
  case (Suc n)
  have le: "bl ! MAX_BITS \<le> bl_sum (\<lambda>k. 1) bl"
    unfolding bl_sum_def using member_le_sum [of MAX_BITS "{1..MAX_BITS}" "\<lambda>k. bl ! k * 1"] by (simp add: MAX_BITS_def)
  have "\<exists>k\<in>{1..MAX_BITS - 1}. bl ! k \<noteq> 0"
  proof (rule ccontr)
    assume "\<not> ?thesis"
    then have zero: "\<forall>k\<in>{1..MAX_BITS - 1}. bl ! k = 0" by blast
    have "{1..MAX_BITS} = insert MAX_BITS {1..MAX_BITS - 1}" by (auto simp: MAX_BITS_def)
    then have "bl_sum code_weight bl = bl ! MAX_BITS" using zero by (simp add: bl_sum_def MAX_BITS_def)
    then show False using Suc.prems(3,5) le by (simp add: s_max_symbols_def MAX_BITS_def)
  qed
  then obtain b where b: "b \<in> {1..MAX_BITS - 1}" "find_bits bl (MAX_BITS - 1) = Done b" "bl ! b \<noteq> 0"
    using find_bits_Done by blast
  have last: "2 \<le> bl ! MAX_BITS" "bl ! MAX_BITS < 2 ^ 15" using Suc.prems(4,5) le by (auto simp: s_max_symbols_def)
  note step = limit_step [OF Suc.prems(1) b(1,3) last]
  from Suc.IH [OF step(1)] show ?case
    using step Suc.prems b(2) by (auto simp: Let_def)
qed simp

lemma hand_out_lengths_spec:
  "length bs = length sf \<Longrightarrow> hand_out_lengths bs sf out = Done (upds out (zip (map fst sf) bs))"
proof (induction bs sf out rule: hand_out_lengths.induct)
  case (1 sf out)
  then show ?case by simp
qed simp_all

definition flat_lengths :: "nat list \<Rightarrow> nat list" where
  "flat_lengths bl = concat (map (\<lambda>b. replicate (bl ! b) b) (rev [1..<MAX_BITS + 1]))"

lemma count_concat_replicate:
  "distinct xs \<Longrightarrow> length (filter ((=) k) (concat (map (\<lambda>b. replicate (f b) b) xs))) = (if k \<in> set xs then f k else 0)"
  by (induction xs) (auto simp: filter_replicate)

lemma flat_lengths_count: "k \<in> {1..MAX_BITS} \<Longrightarrow> length (filter ((=) k) (flat_lengths bl)) = bl ! k"
  unfolding flat_lengths_def by (subst count_concat_replicate) auto

lemma flat_lengths_length: "length (flat_lengths bl) = bl_sum (\<lambda>k. 1) bl"
proof -
  have "length (flat_lengths bl) = sum_list (map (\<lambda>b. bl ! b) (rev [1..<MAX_BITS + 1]))"
    by (simp only: flat_lengths_def length_concat map_map comp_def length_replicate)
  also have "\<dots> = (\<Sum>b\<in>set (rev [1..<MAX_BITS + 1]). bl ! b)" by (rule sum_list_distinct_conv_sum_set) simp
  also have "set (rev [1..<MAX_BITS + 1]) = {1..MAX_BITS}" by auto
  finally show ?thesis by (simp add: bl_sum_def)
qed

lemma flat_lengths_range: "set (flat_lengths bl) \<subseteq> {1..MAX_BITS}"
  by (auto simp: flat_lengths_def)

section \<open>Correctness\<close>

definition used_syms :: "nat list \<Rightarrow> nat list" where
  "used_syms freq = filter (\<lambda>s. freq ! s \<noteq> 0) [0..<length freq]"

definition canonical_leaves :: "nat list \<Rightarrow> leaf list" where
  "canonical_leaves lens = map (\<lambda>s. (if lens ! s = 0 then 0 else sym_code lens s, lens ! s)) [0..<length lens]"

text \<open>Lengths for exactly the symbols with a non-zero frequency, which fill the code space.\<close>

definition complete_lens :: "nat list \<Rightarrow> nat list \<Rightarrow> bool" where
  "complete_lens freq lens \<longleftrightarrow> length lens = length freq \<and> (\<forall>s < length freq. lens ! s = 0 \<longleftrightarrow> freq ! s = 0) \<and>
     (\<forall>l\<in>set lens. l \<le> MAX_BITS) \<and> kraft_sum lens = 2 ^ MAX_BITS"

lemma complete_lens_ok: "complete_lens freq lens \<Longrightarrow> freq \<noteq> [] \<Longrightarrow> lens_ok lens"
  by (auto simp: complete_lens_def lens_ok_def)

lemma assign_codes_canonical:
  assumes "lens_ok lens" "\<forall>k \<le> MAX_BITS. bl ! k = len_count lens k"
  shows "assign_codes lens (next_codes bl) = canonical_leaves lens"
proof -
  have "length (assign_codes lens (next_codes bl)) = length lens \<and>
      (\<forall>i < length lens. assign_codes lens (next_codes bl) ! i = (if lens ! i = 0 then (0, 0) else (sym_code lens i, lens ! i)))"
    using assign_codes_spec [OF assms(1), of "[]" lens "[]" "next_codes bl"] next_codes_spec [OF assms] by simp
  then show ?thesis by (intro nth_equalityI) (auto simp: canonical_leaves_def)
qed

lemma upds_zero_complete:
  assumes ps: "mset (map fst ps) = mset (used_syms freq)" "\<forall>p\<in>set ps. 1 \<le> snd p \<and> snd p \<le> MAX_BITS"
  defines "lens \<equiv> upds (replicate (length freq) 0) ps"
  shows "length lens = length freq" "\<forall>s < length freq. lens ! s = 0 \<longleftrightarrow> freq ! s = 0"
    "\<forall>l\<in>set lens. l \<le> MAX_BITS" "kraft_sum lens = pairs_kraft ps"
    "k \<noteq> 0 \<Longrightarrow> len_count lens k = length (filter ((=) k) (map snd ps))"
proof -
  have dist: "distinct (map fst ps)" using ps(1) by (metis distinct_filter distinct_upt mset_eq_imp_distinct_iff used_syms_def)
  have keys: "set (map fst ps) = set (used_syms freq)" using ps(1) by (metis set_mset_mset)
  show len: "length lens = length freq" by (simp add: lens_def)
  have nth: "lens ! i = (case map_of ps i of None \<Rightarrow> 0 | Some v \<Rightarrow> v)" if "i < length freq" for i
    using nth_upds [OF dist, of i "replicate (length freq) 0"] that by (simp add: lens_def split: option.splits)
  have vals: "map_of ps i = Some v \<Longrightarrow> 1 \<le> v \<and> v \<le> MAX_BITS" for i v
    using ps(2) map_of_SomeD [of ps i v] by fastforce
  show "\<forall>s < length freq. lens ! s = 0 \<longleftrightarrow> freq ! s = 0"
  proof (intro allI impI)
    fix s assume s: "s < length freq"
    have "map_of ps s = None \<longleftrightarrow> s \<notin> set (map fst ps)" by (simp add: map_of_eq_None_iff)
    then show "lens ! s = 0 \<longleftrightarrow> freq ! s = 0"
      using nth [OF s] vals [of s] s unfolding keys by (auto simp: used_syms_def split: option.splits)
  qed
  have "lens ! i \<le> MAX_BITS" if "i < length freq" for i using nth [OF that] vals [of i] by (auto split: option.splits)
  then show "\<forall>l\<in>set lens. l \<le> MAX_BITS" using len by (auto simp: in_set_conv_nth)
  have fresh: "\<forall>p\<in>set ps. fst p < length (replicate (length freq) (0::nat)) \<and> replicate (length freq) 0 ! fst p = (0::nat) \<and> snd p \<noteq> 0"
  proof
    fix p assume p: "p \<in> set ps"
    then have "fst p \<in> set (used_syms freq)" using keys by (metis image_eqI set_map)
    then show "fst p < length (replicate (length freq) (0::nat)) \<and> replicate (length freq) 0 ! fst p = (0::nat) \<and> snd p \<noteq> 0"
      using ps(2) p by (auto simp: used_syms_def)
  qed
  show "kraft_sum lens = pairs_kraft ps" "k \<noteq> 0 \<Longrightarrow> len_count lens k = length (filter ((=) k) (map snd ps))"
    using upds_fresh [OF dist fresh] by (simp_all add: lens_def kraft_sum_def len_count_def)
qed

lemma initial_root:
  assumes "used_syms freq \<noteq> []"
  defines "nodes \<equiv> initial_nodes freq"
  shows "\<exists>root. merge_nodes (make_heap node_comp nodes 0 (length nodes)) = [root] \<and> mset (node_syms root) = mset (used_syms freq)"
proof -
  let ?h = "make_heap node_comp nodes 0 (length nodes)"
  have nodes: "nodes = map (\<lambda>s. HLeaf s (freq ! s)) (used_syms freq)" by (simp add: nodes_def initial_nodes_def used_syms_def)
  have h: "heap_from node_comp ?h 0 (length nodes) 0" "perm_on 0 (length nodes) nodes ?h"
    using node_order.make_heap_correct [of 0 "length nodes" nodes] by simp_all
  have len: "length ?h = length nodes" and ms: "mset ?h = mset nodes" using h(2) by (simp_all add: perm_on_def)
  have "forest_syms ?h = (\<Sum>s\<in>#mset (used_syms freq). {#s#})"
    by (simp only: forest_syms_def ms) (simp add: nodes image_mset.compositionality comp_def)
  then have syms: "forest_syms ?h = mset (used_syms freq)" by simp
  show ?thesis
    using merge_nodes_root [of ?h] h(1) len syms assms(1) nodes by (metis length_0_conv map_is_Nil_conv)
qed

lemma limit_lengths_spec:
  assumes lens: "length lens = length freq" "\<forall>s < length freq. lens ! s = 0 \<longleftrightarrow> freq ! s = 0" "\<forall>l\<in>set lens. l \<le> MAX_BITS"
    and kraft: "kraft_sum lens = 2 ^ MAX_BITS + e" and last: "0 < e \<longrightarrow> e < len_count lens MAX_BITS"
    and small: "length (used_syms freq) \<le> s_max_symbols"
    and total: "(\<Sum>k\<in>{1..MAX_BITS}. len_count lens k) = length (used_syms freq)"
  defines "bl \<equiv> count_lengths lens (replicate (MAX_BITS + 1) 0)"
  shows "\<exists>lens' bl'. limit_lengths (2 * e) freq lens bl = Done (lens', bl') \<and> complete_lens freq lens' \<and>
    (\<forall>k \<le> MAX_BITS. bl' ! k = len_count lens' k)"
proof -
  have bl: "length bl = MAX_BITS + 1" "\<forall>k \<le> MAX_BITS. bl ! k = len_count lens k"
    using count_lengths_spec [OF lens(3), of "replicate (MAX_BITS + 1) 0"]
    by (auto simp: bl_def nth_replicate less_Suc_eq_le simp del: replicate_Suc)
  show ?thesis
  proof (cases "e = 0")
    case True
    then show ?thesis using lens kraft bl by (simp add: limit_lengths_def complete_lens_def)
  next
    case False
    have sums: "bl_sum w bl = (\<Sum>k\<in>{1..MAX_BITS}. len_count lens k * w k)" for w
      unfolding bl_sum_def using bl(2) by (intro sum.cong) auto
    have pre: "bl ! 0 = 0" "bl_sum code_weight bl = 2 ^ MAX_BITS + e" "e < bl ! MAX_BITS \<or> e = 0"
        "bl_sum (\<lambda>k. 1) bl \<le> s_max_symbols"
      using bl(2) sums kraft kraft_sum_counts [OF lens(3)] last False small total by (auto simp: len_count_def)
    obtain bl' where bl': "limit_loop e bl = Done bl'" "length bl' = MAX_BITS + 1" "bl' ! 0 = 0"
        "bl_sum code_weight bl' = 2 ^ MAX_BITS" "bl_sum (\<lambda>k. 1) bl' = length (used_syms freq)"
      using limit_loop_spec [OF bl(1) pre] sums [of "\<lambda>k. 1"] total by auto
    define sf where "sf = ban_sort freq_less (symbol_freqs freq) 0 (length (symbol_freqs freq))"
    have "mset sf = mset (symbol_freqs freq)"
      using freq_order.ban_sort_sorts [of 0 "length (symbol_freqs freq)" "symbol_freqs freq"]
      by (simp add: sf_def sorts_range_def perm_on_def)
    then have sf: "mset (map fst sf) = mset (used_syms freq)" "length sf = length (used_syms freq)"
    proof -
      assume m: "mset sf = mset (symbol_freqs freq)"
      have fst: "map fst (symbol_freqs freq) = used_syms freq" by (simp add: symbol_freqs_def used_syms_def comp_def)
      show "mset (map fst sf) = mset (used_syms freq)" using m fst by (metis mset_map)
      show "length sf = length (used_syms freq)" using m fst by (metis length_map mset_eq_length)
    qed
    define ps where "ps = zip (map fst sf) (flat_lengths bl')"
    have len_fl: "length (flat_lengths bl') = length sf" using flat_lengths_length bl'(5) sf(2) by simp
    then have maps: "map fst ps = map fst sf" "map snd ps = flat_lengths bl'" by (simp_all add: ps_def)
    have range: "\<forall>p\<in>set ps. 1 \<le> snd p \<and> snd p \<le> MAX_BITS"
      using flat_lengths_range [of bl'] unfolding ps_def by (auto dest!: set_zip_rightD)
    define lens' where "lens' = upds (replicate (length freq) 0) ps"
    note final = upds_zero_complete [of ps freq, folded lens'_def, unfolded maps(1), OF sf(1) range]
    have dist: "distinct (map fst ps)" using maps(1) sf(1) by (metis distinct_filter distinct_upt mset_eq_imp_distinct_iff used_syms_def)
    have covered: "\<forall>i < length lens. lens ! i \<noteq> 0 \<longrightarrow> i \<in> set (map fst ps)"
    proof (intro allI impI)
      fix i assume "i < length lens" "lens ! i \<noteq> 0"
      then have "i \<in> set (used_syms freq)" using lens(1,2) by (simp add: used_syms_def)
      then show "i \<in> set (map fst ps)" unfolding maps(1) by (metis sf(1) set_mset_mset)
    qed
    have same: "upds lens ps = lens'" using upds_overwrite [OF dist covered] lens(1) by (simp only: lens'_def)
    have counts: "\<forall>k \<le> MAX_BITS. bl' ! k = len_count lens' k"
      using final(5) maps(2) flat_lengths_count bl'(3) by (auto simp: len_count_def)
    have "kraft_sum lens' = bl_sum code_weight bl'"
      unfolding kraft_sum_counts [OF final(3)] bl_sum_def using counts by (intro sum.cong) auto
    then have "complete_lens freq lens'" using final bl'(4) by (simp add: complete_lens_def)
    moreover have "limit_lengths (2 * e) freq lens bl = Done (lens', bl')"
      unfolding limit_lengths_def Let_def sf_def [symmetric] flat_lengths_def [symmetric]
      using False bl'(1) hand_out_lengths_spec [OF len_fl, of lens] same by (simp add: ps_def [symmetric])
    ultimately show ?thesis using counts by blast
  qed
qed

lemma create_huffman_tree_spec:
  assumes "length freq \<le> s_max_symbols" "2 \<le> length (used_syms freq)"
  shows "\<exists>lens. create_huffman_tree freq = Done (canonical_leaves lens) \<and> complete_lens freq lens"
proof -
  have ne: "used_syms freq \<noteq> []" "initial_nodes freq \<noteq> []" "freq \<noteq> []"
    using assms(2) by (auto simp: used_syms_def initial_nodes_def)
  obtain root where root: "merge_nodes (make_heap node_comp (initial_nodes freq) 0 (length (initial_nodes freq))) = [root]"
      "mset (node_syms root) = mset (used_syms freq)"
    using initial_root [OF ne(1)] by blast
  have len: "length (node_syms root) = length (used_syms freq)" using root(2) by (metis mset_eq_length)
  obtain f l r where parent: "root = HParent f l r" using len assms(2) by (cases root) auto
  define ps where "ps = leaf_depths root 0"
  have ps: "map fst ps = node_syms root" "\<forall>p\<in>set ps. 1 \<le> snd p \<and> snd p \<le> MAX_BITS"
    using leaf_depths_syms leaf_depths_range [of 1] by (auto simp: ps_def parent)
  define lens where "lens = upds (replicate (length freq) 0) ps"
  note lens = upds_zero_complete [of ps freq, folded lens_def, unfolded ps(1), OF root(2) ps(2)]
  obtain e where e: "deep_count root 0 = 2 * e" "pairs_kraft ps = 2 ^ MAX_BITS + e"
      "0 < e \<longrightarrow> e < length (filter ((=) MAX_BITS) (map snd ps))"
    using tree_excess [of 0 root] by (auto simp: ps_def)
  have "(\<Sum>k\<in>{1..MAX_BITS}. length (filter ((=) k) (map snd ps))) = length ps"
    using ps(2)
  proof (induction ps)
    case (Cons p ps)
    have "(\<Sum>k\<in>{1..MAX_BITS}. length (filter ((=) k) (map snd (p # ps)))) =
        (\<Sum>k\<in>{1..MAX_BITS}. (if k = snd p then 1 else 0) + length (filter ((=) k) (map snd ps)))" by (intro sum.cong) auto
    also have "\<dots> = 1 + (\<Sum>k\<in>{1..MAX_BITS}. length (filter ((=) k) (map snd ps)))"
      using Cons.prems by (simp add: sum.distrib)
    finally show ?case using Cons by simp
  qed simp
  moreover have "length ps = length (used_syms freq)" using ps(1) len by (metis length_map)
  ultimately have total: "(\<Sum>k\<in>{1..MAX_BITS}. len_count lens k) = length (used_syms freq)"
    using lens(5) by simp
  have small: "length (used_syms freq) \<le> s_max_symbols"
    using assms(1) length_filter_le [of "\<lambda>s. freq ! s \<noteq> 0" "[0..<length freq]"] by (simp add: used_syms_def)
  have "0 < e \<longrightarrow> e < len_count lens MAX_BITS" using e(3) lens(5) by (simp add: MAX_BITS_def)
  then obtain lens' bl' where l: "limit_lengths (2 * e) freq lens (count_lengths lens (replicate (MAX_BITS + 1) 0)) = Done (lens', bl')"
      "complete_lens freq lens'" "\<forall>k \<le> MAX_BITS. bl' ! k = len_count lens' k"
    using limit_lengths_spec [OF lens(1-3) _ _ small total] lens(4) e(2) by metis
  have "gather_lengths root (replicate (length freq) 0) 0 = (2 * e, lens)"
    using e(1) by (simp add: gather_lengths_spec lens_def ps_def)
  then have "create_huffman_tree freq = Done (assign_codes lens' (next_codes bl'))"
    using assms(1) ne(2) root(1) l(1) by (simp add: create_huffman_tree_def Let_def)
  then show ?thesis using assign_codes_canonical [OF complete_lens_ok [OF l(2) ne(3)] l(3)] l(2) by auto
qed

lemma create_huffman_tree_none:
  assumes "length freq \<le> s_max_symbols" "used_syms freq = []"
  shows "create_huffman_tree freq = Done (map (\<lambda>l. (0, l)) ((replicate (length freq) 0)[0 := 1]))"
  using assms by (simp add: create_huffman_tree_def initial_nodes_def used_syms_def)

lemma assign_codes_zeros: "assign_codes (replicate n 0) nx = replicate n (0, 0)"
  by (induction n) simp_all

section \<open>Properties\<close>

text \<open>
  C14: For an alphabet of at most 288 symbols of which at least two occur, \<open>create_huffman_tree\<close>
  trips no assertion and returns the canonical code of lengths between 1 and 15 for exactly the
  symbols that occur, and the lengths fill the code space: their Kraft sum is 1. In
  particular the limiting of the lengths to 15 bits repairs every over-subscription.
\<close>

theorem create_huffman_tree_complete:
  assumes "length freq \<le> s_max_symbols" "2 \<le> length (used_syms freq)"
  shows "\<exists>lens. create_huffman_tree freq = Done (canonical_leaves lens) \<and> length lens = length freq \<and>
    (\<forall>s < length freq. (freq ! s = 0 \<longrightarrow> lens ! s = 0) \<and> (freq ! s \<noteq> 0 \<longrightarrow> 1 \<le> lens ! s \<and> lens ! s \<le> MAX_BITS)) \<and>
    kraft_sum lens = 2 ^ MAX_BITS"
proof -
  obtain lens where lens: "create_huffman_tree freq = Done (canonical_leaves lens)" "complete_lens freq lens"
    using create_huffman_tree_spec [OF assms] by blast
  have "1 \<le> lens ! s \<and> lens ! s \<le> MAX_BITS" if "s < length freq" "freq ! s \<noteq> 0" for s
  proof -
    have "lens ! s \<in> set lens" "lens ! s \<noteq> 0" using that lens(2) by (simp_all add: complete_lens_def)
    then show ?thesis using lens(2) by (simp add: complete_lens_def)
  qed
  then show ?thesis using lens by (auto simp: complete_lens_def intro!: exI [of _ lens])
qed

theorem create_huffman_tree_complete_witness:
  "\<exists>lens. create_huffman_tree [5, 0, 2, 1] = Done (canonical_leaves lens) \<and> lens ! 1 = 0 \<and> kraft_sum lens = 2 ^ 15"
proof -
  have used: "2 \<le> length (used_syms [5, 0, 2, 1])" by (simp add: used_syms_def upt_rec)
  have len: "length [5, 0, 2, 1 :: nat] \<le> s_max_symbols" by (simp add: s_max_symbols_def)
  from create_huffman_tree_complete [OF len used]
  obtain lens where lens: "create_huffman_tree [5, 0, 2, 1] = Done (canonical_leaves lens)" "kraft_sum lens = 2 ^ MAX_BITS"
      "\<forall>s < length [5, 0, 2, 1 :: nat]. ([5, 0, 2, 1 :: nat] ! s = 0 \<longrightarrow> lens ! s = 0) \<and>
        ([5, 0, 2, 1 :: nat] ! s \<noteq> 0 \<longrightarrow> 1 \<le> lens ! s \<and> lens ! s \<le> MAX_BITS)" by blast
  have "lens ! 1 = 0" using lens(3) [rule_format, of 1] by simp
  then show ?thesis using lens(1,2) by (auto simp: MAX_BITS_def)
qed

text \<open>
  C38: An alphabet of which a single symbol occurs gets no code at all: the tree is one leaf at depth
  0, and every symbol, also the one that occurs, has length 0.
\<close>

theorem create_huffman_tree_single_symbol:
  assumes "length freq \<le> s_max_symbols" "used_syms freq = [s]"
  shows "create_huffman_tree freq = Done (replicate (length freq) (0, 0))"
proof -
  have nodes: "initial_nodes freq = [HLeaf s (freq ! s)]" using assms(2) by (simp add: initial_nodes_def used_syms_def)
  have "(replicate (length freq) 0)[s := (0::nat)] = replicate (length freq) 0"
    by (rule nth_equalityI) (simp_all add: nth_list_update_if)
  moreover have "count_lengths (replicate n 0) bl = bl" for n bl by (induction n) simp_all
  ultimately show ?thesis
    using assms(1) nodes
    by (simp add: create_huffman_tree_def make_heap_def merge_nodes.simps limit_lengths_def assign_codes_zeros MAX_BITS_def Let_def)
qed

theorem create_huffman_tree_single_symbol_witness:
  "create_huffman_tree [0, 7, 0] = Done [(0, 0), (0, 0), (0, 0)]"
  using create_huffman_tree_single_symbol [of "[0, 7, 0]" 1]
  by (simp add: s_max_symbols_def used_syms_def upt_rec numeral_3_eq_3)

end
