(* ===== verification/LZ77.thy ===== *)
theory LZ77
  imports BitStream
begin

text \<open>
  The search for repetitions of \<^verbatim>\<open>userspace/libraries/LibDEFLATE/Compressor.cpp\<close>: the hash chains of the
  positions with the same three bytes, the longest match, and the lazy evaluation of
  \<^verbatim>\<open>lz77_compress\<close>. Expanding the entries gives the data back.
\<close>

section \<open>Model\<close>

definition s_max_length :: nat where
  "s_max_length = 258"

definition s_max_distance :: nat where
  "s_max_distance = 32768"

datatype lz77_entry = Literal "8 word" | DistLength nat nat

text \<open>
  A span of the input is the position where it starts: every span in the hash chains reaches to the
  end of the input \<open>input\<close>. \<open>cs_base\<close> is the position of \<open>m_data\<close>, which loses a block after each
  call of \<open>compress_block\<close>, and the map of chains is an association list.
\<close>

record chain_state =
  cs_base :: nat
  cs_index :: nat
  cs_chain :: "(nat \<times> nat list) list"

definition get_hash_key :: "8 word list \<Rightarrow> nat \<Rightarrow> nat" where
  "get_hash_key input pos =
     push_bit 16 (unat (input ! (pos + 2))) OR push_bit 8 (unat (input ! (pos + 1))) OR unat (input ! pos)"

fun chain_insert :: "nat \<Rightarrow> nat \<Rightarrow> (nat \<times> nat list) list \<Rightarrow> (nat \<times> nat list) list" where
  "chain_insert key pos [] = [(key, [pos])]"
| "chain_insert key pos ((k, c) # cs) = (if k = key then (k, pos # c) # cs else (k, c) # chain_insert key pos cs)"

text \<open>\<open>slice\<close> asserts that the span starts inside of \<open>m_data\<close>.\<close>

fun chain_loop :: "8 word list \<Rightarrow> nat \<Rightarrow> nat \<Rightarrow> nat \<Rightarrow> (nat \<times> nat list) list \<Rightarrow> (nat \<times> nat list) list run" where
  "chain_loop input base offset 0 chain = Done chain"
| "chain_loop input base offset (Suc n) chain =
     asserting (offset \<le> length input - base)
       (let pos = base + offset
        in if length input - pos < 3 then Done chain
           else chain_loop input base (offset + 1) n (chain_insert (get_hash_key input pos) pos chain))"

definition chain_evict :: "nat \<Rightarrow> (nat \<times> nat list) list \<Rightarrow> (nat \<times> nat list) list" where
  "chain_evict current chain =
     (if s_max_distance * 2 \<le> length chain
      then map (\<lambda>(k, c). (k, takeWhile (\<lambda>p. p \<le> current \<and> current - p < s_max_distance) c)) chain
      else chain)"

definition update_hash_chain :: "8 word list \<Rightarrow> nat \<Rightarrow> chain_state \<Rightarrow> chain_state run" where
  "update_hash_chain input cnt s =
     rbind (chain_loop input (cs_base s) (cs_index s) cnt
              (chain_evict (cs_base s + cs_index s + cnt) (cs_chain s))) (\<lambda>chain.
       Done (s\<lparr>cs_chain := chain, cs_index := cs_index s + cnt\<rparr>))"

fun match_length :: "8 word list \<Rightarrow> nat \<Rightarrow> nat \<Rightarrow> nat \<Rightarrow> nat \<Rightarrow> nat" where
  "match_length input pos node 0 len = len"
| "match_length input pos node (Suc n) len =
     (if input ! (pos + len) = input ! (node + len) then match_length input pos node n (len + 1) else len)"

text \<open>A node behind the needle has a huge distance.\<close>

fun match_chain :: "8 word list \<Rightarrow> nat \<Rightarrow> nat \<Rightarrow> nat list \<Rightarrow> lz77_entry \<Rightarrow> lz77_entry" where
  "match_chain input pos max_length [] best = best"
| "match_chain input pos max_length (node # nodes) best =
     (if pos < node \<or> s_max_distance < pos - node then best
      else let len = match_length input pos node (max_length - 3) 3;
               best' = (case best of
                          Literal b \<Rightarrow> DistLength len (pos - node)
                        | DistLength l d \<Rightarrow> if len > l then DistLength len (pos - node) else best)
           in match_chain input pos max_length nodes best')"

definition find_longest_match :: "8 word list \<Rightarrow> nat \<Rightarrow> nat \<Rightarrow> chain_state \<Rightarrow> lz77_entry" where
  "find_longest_match input pos size_left s =
     (if size_left < 3 then Literal (input ! pos)
      else case map_of (cs_chain s) (get_hash_key input pos) of
             None \<Rightarrow> Literal (input ! pos)
           | Some chain \<Rightarrow> match_chain input pos (min size_left s_max_length) chain (Literal (input ! pos)))"

lemma match_length_ge: "len \<le> match_length input pos node n len"
  by (induction n arbitrary: len) (auto intro: Suc_leD)

lemma match_chain_length:
  assumes "\<And>l d. best = DistLength l d \<Longrightarrow> 3 \<le> l"
  shows "match_chain input pos max_length nodes best = DistLength l d \<Longrightarrow> 3 \<le> l"
  using assms
proof (induction input pos max_length nodes best rule: match_chain.induct)
  case (2 input pos max_length node nodes best)
  have "3 \<le> match_length input pos node (max_length - 3) 3" by (rule match_length_ge)
  then show ?case
    using 2 by (auto simp: Let_def split: if_splits lz77_entry.splits)
qed auto

lemma find_longest_match_length: "find_longest_match input pos n s = DistLength l d \<Longrightarrow> 3 \<le> l"
  using match_chain_length [of "Literal (input ! pos)"]
  by (auto simp: find_longest_match_def split: if_splits option.splits)

function lz77_loop ::
  "8 word list \<Rightarrow> nat \<Rightarrow> nat \<Rightarrow> nat \<Rightarrow> chain_state \<Rightarrow> lz77_entry list \<Rightarrow> (chain_state \<times> lz77_entry list) run" where
  "lz77_loop input block_size i advance s result =
     (if block_size \<le> i then Done (s, result)
      else rbind (update_hash_chain input advance s) (\<lambda>s'.
        case find_longest_match input (cs_base s + i) (block_size - i) s' of
          Literal b \<Rightarrow> lz77_loop input block_size (i + 1) 1 s' (result @ [Literal b])
        | DistLength l d \<Rightarrow>
            (case find_longest_match input (cs_base s + i + 1) (block_size - (i + 1)) s' of
               DistLength l' d' \<Rightarrow>
                 if l' > l
                 then lz77_loop input block_size (i + (1 + l')) (1 + l') s'
                        (result @ [Literal (input ! (cs_base s + i)), DistLength l' d'])
                 else lz77_loop input block_size (i + l) l s' (result @ [DistLength l d])
             | Literal b \<Rightarrow> lz77_loop input block_size (i + l) l s' (result @ [DistLength l d]))))"
  by pat_completeness auto
termination
  by (relation "measure (\<lambda>(input, n, i, a, s, r). n - i)") (auto dest: find_longest_match_length)

declare lz77_loop.simps [simp del]

definition lz77_compress :: "8 word list \<Rightarrow> nat \<Rightarrow> chain_state \<Rightarrow> (chain_state \<times> lz77_entry list) run" where
  "lz77_compress input block_size s = lz77_loop input block_size 0 0 s []"

section \<open>Expanding the entries\<close>

definition copy_byte :: "nat \<Rightarrow> 8 word list \<Rightarrow> 8 word list" where
  "copy_byte d h = h @ [h ! (length h - d)]"

fun expand_entry :: "8 word list \<Rightarrow> lz77_entry \<Rightarrow> 8 word list" where
  "expand_entry h (Literal b) = h @ [b]"
| "expand_entry h (DistLength l d) = (copy_byte d ^^ l) h"

fun entry_ok :: "nat \<Rightarrow> lz77_entry \<Rightarrow> bool" where
  "entry_ok n (Literal b) = True"
| "entry_ok n (DistLength l d) = (3 \<le> l \<and> l \<le> s_max_length \<and> 1 \<le> d \<and> d \<le> s_max_distance \<and> d \<le> n)"

fun entry_size :: "lz77_entry \<Rightarrow> nat" where
  "entry_size (Literal b) = 1"
| "entry_size (DistLength l d) = l"

fun entries_ok :: "nat \<Rightarrow> lz77_entry list \<Rightarrow> bool" where
  "entries_ok n [] = True"
| "entries_ok n (e # es) = (entry_ok n e \<and> entries_ok (n + entry_size e) es)"

text \<open>An entry that describes the input at a position.\<close>

fun entry_at :: "8 word list \<Rightarrow> nat \<Rightarrow> nat \<Rightarrow> lz77_entry \<Rightarrow> bool" where
  "entry_at input pos n (Literal b) = (b = input ! pos)"
| "entry_at input pos n (DistLength l d) = (3 \<le> l \<and> l \<le> min n s_max_length \<and> 1 \<le> d \<and> d \<le> s_max_distance \<and> d \<le> pos \<and>
     (\<forall>k < l. input ! (pos + k) = input ! (pos - d + k)))"

lemma length_expand_entry [simp]: "length (expand_entry h e) = length h + entry_size e"
proof (cases e)
  case (DistLength l d)
  have "length ((copy_byte d ^^ l) h) = length h + l" by (induction l) (simp_all add: copy_byte_def)
  then show ?thesis using DistLength by simp
qed simp

lemma copy_bytes_take:
  assumes "1 \<le> d" "d \<le> pos" "pos + l \<le> length input" "\<forall>k < l. input ! (pos + k) = input ! (pos - d + k)"
  shows "(copy_byte d ^^ l) (take pos input) = take (pos + l) input"
  using assms(3,4)
proof (induction l)
  case (Suc l)
  then have IH: "(copy_byte d ^^ l) (take pos input) = take (pos + l) input" by simp
  have "input ! (pos + l) = input ! (pos - d + l)" using Suc.prems(2) by blast
  moreover have "pos + l - d = pos - d + l" "pos + l - d < pos + l" using assms(1,2) by simp_all
  ultimately have "take (pos + l) input ! (pos + l - d) = input ! (pos + l)" by simp
  moreover have "length (take (pos + l) input) = pos + l" using Suc.prems(1) by simp
  ultimately have "copy_byte d (take (pos + l) input) = take (Suc (pos + l)) input"
    using Suc.prems(1) by (simp add: copy_byte_def take_Suc_conv_app_nth)
  then show ?case by (simp add: IH)
qed simp

lemma expand_entry_at:
  assumes "entry_at input pos n e" "pos + n \<le> length input" "1 \<le> n"
  shows "expand_entry (take pos input) e = take (pos + entry_size e) input" "entry_ok pos e" "entry_size e \<le> n"
  using assms copy_bytes_take by (cases e; force simp: take_Suc_conv_app_nth)+

section \<open>The hash chains\<close>

lemma get_hash_key_bits:
  "nat_bits 24 (get_hash_key input pos) = byte_bits (input ! pos) @ byte_bits (input ! (pos + 1)) @ byte_bits (input ! (pos + 2))"
proof -
  let ?b = "\<lambda>k. unat (input ! (pos + k))"
  have less: "?b k < 2 ^ 8" for k using unsigned_less [of "input ! (pos + k)"] by simp
  have "get_hash_key input pos = (?b 0 OR push_bit 8 (?b 1)) OR push_bit (8 + 8) (?b 2)"
    by (simp add: get_hash_key_def ac_simps)
  moreover have "nat_bits ((8 + 8) + 8) \<dots> = nat_bits (8 + 8) (?b 0 OR push_bit 8 (?b 1)) @ nat_bits 8 (?b 2)"
    by (rule nat_bits_or_push) (use or_push_less [OF less less, of 0 1] in simp)
  moreover have "nat_bits (8 + 8) (?b 0 OR push_bit 8 (?b 1)) = nat_bits 8 (?b 0) @ nat_bits 8 (?b 1)"
    by (rule nat_bits_or_push [OF less])
  ultimately show ?thesis by (simp add: nat_bits_unat)
qed

lemma byte_bits_inj:
  assumes "byte_bits a = byte_bits b"
  shows "a = b"
proof -
  have "take_bit 8 (unat a) = take_bit 8 (unat b)" using assms by (metis bits_val_nat_bits nat_bits_unat)
  moreover have "unat a < 2 ^ 8" "unat b < 2 ^ 8" using unsigned_less [of a] unsigned_less [of b] by simp_all
  ultimately show ?thesis by (simp add: take_bit_nat_eq_self word_unat_eq_iff)
qed

lemma get_hash_key_eq:
  assumes "get_hash_key input p = get_hash_key input q" "k < 3"
  shows "input ! (p + k) = input ! (q + k)"
proof -
  have "byte_bits (input ! p) = byte_bits (input ! q)" "byte_bits (input ! (p + 1)) = byte_bits (input ! (q + 1))"
      "byte_bits (input ! (p + 2)) = byte_bits (input ! (q + 2))"
    using arg_cong [OF assms(1), of "nat_bits 24"] unfolding get_hash_key_bits by simp_all
  moreover have "k = 0 \<or> k = 1 \<or> k = 2" using assms(2) by linarith
  ultimately show ?thesis by (auto dest: byte_bits_inj)
qed

text \<open>Every chain holds positions before \<open>bound\<close> whose three bytes have the key of the chain.\<close>

definition chain_ok :: "8 word list \<Rightarrow> nat \<Rightarrow> (nat \<times> nat list) list \<Rightarrow> bool" where
  "chain_ok input bound chain \<longleftrightarrow>
     (\<forall>x\<in>set chain. \<forall>p\<in>set (snd x). p < bound \<and> get_hash_key input p = fst x)"

lemma chain_insert_ok:
  assumes "chain_ok input bound chain" "pos < bound" "get_hash_key input pos = key"
  shows "chain_ok input bound (chain_insert key pos chain)"
  using assms
proof (induction chain)
  case (Cons x chain)
  obtain k c where x: "x = (k, c)" by (cases x)
  have tl: "chain_ok input bound chain" using Cons.prems(1) by (simp add: chain_ok_def)
  show ?case
  proof (cases "k = key")
    case True
    then show ?thesis using Cons.prems x by (simp add: chain_ok_def)
  next
    case False
    then show ?thesis using Cons.IH [OF tl Cons.prems(2,3)] Cons.prems(1) x by (simp add: chain_ok_def)
  qed
qed (simp add: chain_ok_def)

lemma length_chain_insert: "length (chain_insert key pos chain) \<le> length chain + 1"
  by (induction chain) auto

lemma chain_loop_ok:
  assumes "chain_ok input bound chain" "base + offset + n \<le> length input" "base + offset + n \<le> bound"
  shows "\<exists>chain'. chain_loop input base offset n chain = Done chain' \<and> chain_ok input bound chain' \<and>
    length chain' \<le> length chain + n"
  using assms
proof (induction n arbitrary: offset chain)
  case (Suc n)
  have slice: "offset \<le> length input - base" using Suc.prems(2) by simp
  show ?case
  proof (cases "length input - (base + offset) < 3")
    case False
    let ?c = "chain_insert (get_hash_key input (base + offset)) (base + offset) chain"
    have "chain_ok input bound ?c" using Suc.prems by (intro chain_insert_ok) auto
    from Suc.IH [OF this, of "offset + 1"] obtain c' where
      "chain_loop input base (offset + 1) n ?c = Done c'" "chain_ok input bound c'" "length c' \<le> length ?c + n"
      using Suc.prems by auto
    then show ?thesis
      using slice False length_chain_insert [of "get_hash_key input (base + offset)" "base + offset" chain] by (simp add: Let_def)
  qed (use Suc.prems(1) slice in simp)
qed simp

lemma chain_ok_mono: "chain_ok input b chain \<Longrightarrow> b \<le> b' \<Longrightarrow> chain_ok input b' chain"
  by (fastforce simp: chain_ok_def)

lemma chain_evict_ok: "chain_ok input b chain \<Longrightarrow> chain_ok input b (chain_evict cur chain)"
  by (fastforce simp: chain_ok_def chain_evict_def dest: set_takeWhileD)

lemma length_chain_evict [simp]: "length (chain_evict cur chain) = length chain"
  by (simp add: chain_evict_def)

section \<open>Matches\<close>

lemma match_length_equal:
  assumes "\<forall>k < len. input ! (pos + k) = input ! (node + k)"
  shows "match_length input pos node n len \<le> len + n \<and>
    (\<forall>k < match_length input pos node n len. input ! (pos + k) = input ! (node + k))"
  using assms
proof (induction n arbitrary: len)
  case (Suc n)
  show ?case
  proof (cases "input ! (pos + len) = input ! (node + len)")
    case True
    then have "\<forall>k < Suc len. input ! (pos + k) = input ! (node + k)" using Suc.prems by (auto simp: less_Suc_eq)
    from Suc.IH [OF this] show ?thesis using True by simp
  qed (use Suc.prems in simp)
qed simp

lemma match_chain_at:
  assumes "\<forall>p\<in>set nodes. p < pos \<and> get_hash_key input p = get_hash_key input pos" "3 \<le> n"
    and "entry_at input pos n best"
  shows "entry_at input pos n (match_chain input pos (min n s_max_length) nodes best)"
  using assms(1,3)
proof (induction nodes arbitrary: best)
  case (Cons node nodes)
  let ?m = "min n s_max_length" and ?len = "match_length input pos node (min n s_max_length - 3) 3"
  have key: "node < pos" "get_hash_key input pos = get_hash_key input node" using Cons.prems(1) by simp_all
  then have node: "node < pos" "\<forall>k < 3. input ! (pos + k) = input ! (node + k)" using get_hash_key_eq by blast+
  have eq: "?len \<le> 3 + (?m - 3)" "\<forall>k < ?len. input ! (pos + k) = input ! (node + k)"
    using match_length_equal [OF node(2)] by blast+
  have "3 \<le> ?m" using assms(2) by (simp add: s_max_length_def)
  then have new: "entry_at input pos n (DistLength ?len (pos - node))" if "pos - node \<le> s_max_distance"
    using eq node(1) that match_length_ge [of 3 input pos node "?m - 3"] by simp
  show ?case
  proof (cases "pos - node \<le> s_max_distance")
    case True
    let ?best = "case best of Literal b \<Rightarrow> DistLength ?len (pos - node)
        | DistLength l d \<Rightarrow> if ?len > l then DistLength ?len (pos - node) else best"
    have "entry_at input pos n ?best" using new [OF True] Cons.prems(2) by (simp split: lz77_entry.split)
    moreover have "match_chain input pos ?m (node # nodes) best = match_chain input pos ?m nodes ?best"
      using True node(1) by (simp add: Let_def)
    ultimately show ?thesis using Cons.IH [of ?best] Cons.prems(1) by simp
  qed (use Cons.prems(2) in simp)
qed simp

lemma find_longest_match_at:
  assumes "chain_ok input bound (cs_chain s)" "bound \<le> pos" "1 \<le> n"
  shows "entry_at input pos n (find_longest_match input pos n s)"
proof -
  have "\<forall>p\<in>set chain. p < pos \<and> get_hash_key input p = get_hash_key input pos"
    if "map_of (cs_chain s) (get_hash_key input pos) = Some chain" for chain
    using that assms(1,2) by (fastforce simp: chain_ok_def dest: map_of_SomeD)
  then show ?thesis
    using match_chain_at [of _ pos input n "Literal (input ! pos)"]
    by (auto simp: find_longest_match_def split: option.splits)
qed

section \<open>The whole block\<close>

lemma entries_ok_append: "entries_ok n (xs @ ys) \<longleftrightarrow> entries_ok n xs \<and> entries_ok (n + sum_list (map entry_size xs)) ys"
  by (induction xs arbitrary: n) (auto simp: ac_simps)

text \<open>
  What holds at the head of the loop: the chains know the positions up to \<open>i - advance\<close>, and the entries
  so far expand to the input up to \<open>i\<close>.
\<close>

definition lz77_inv :: "8 word list \<Rightarrow> nat \<Rightarrow> nat \<Rightarrow> chain_state \<Rightarrow> lz77_entry list \<Rightarrow> bool" where
  "lz77_inv input i advance s result \<longleftrightarrow> cs_base s = 0 \<and> cs_index s + advance = i \<and>
     chain_ok input (cs_index s) (cs_chain s) \<and> length (cs_chain s) \<le> cs_index s \<and>
     foldl expand_entry [] result = take i input \<and> entries_ok 0 result \<and> sum_list (map entry_size result) = i"

lemma lz77_inv_push:
  assumes "lz77_inv input i advance s result" "entry_at input i n e" "i + n \<le> length input" "1 \<le> n"
  shows "lz77_inv input (i + entry_size e) (advance + entry_size e) s (result @ [e])"
  using assms expand_entry_at [OF assms(2-4)] by (simp add: lz77_inv_def entries_ok_append)

lemma lz77_inv_update:
  assumes "lz77_inv input i advance s result" "i \<le> length input"
  shows "\<exists>s'. update_hash_chain input advance s = Done s' \<and> lz77_inv input i 0 s' result"
proof -
  have inv: "cs_base s = 0" "cs_index s + advance = i" "chain_ok input (cs_index s) (cs_chain s)" "length (cs_chain s) \<le> cs_index s"
    using assms(1) by (simp_all add: lz77_inv_def)
  have "chain_ok input i (chain_evict i (cs_chain s))" using inv by (intro chain_evict_ok chain_ok_mono [OF inv(3)]) simp
  from chain_loop_ok [OF this, of 0 "cs_index s" advance] obtain c where
    "chain_loop input 0 (cs_index s) advance (chain_evict i (cs_chain s)) = Done c" "chain_ok input i c"
    "length c \<le> length (cs_chain s) + advance"
    using inv(2) assms(2) by auto
  then show ?thesis using assms(1) inv by (simp add: update_hash_chain_def lz77_inv_def)
qed

lemma lz77_step:
  assumes inv: "lz77_inv input i advance s result" and "i < n" "n \<le> length input"
  shows "\<exists>adv s' result'. lz77_loop input n i advance s result = lz77_loop input n (i + adv) adv s' result' \<and>
    lz77_inv input (i + adv) adv s' result' \<and> 1 \<le> adv \<and> adv \<le> s_max_length + 1 \<and> i + adv \<le> n"
proof -
  obtain s' where s': "update_hash_chain input advance s = Done s'" "lz77_inv input i 0 s' result"
    using lz77_inv_update [OF inv] assms(2,3) by auto
  have base: "cs_base s = 0" using inv by (simp add: lz77_inv_def)
  have chain: "chain_ok input i (cs_chain s')" using s'(2) by (auto simp: lz77_inv_def)
  let ?e = "find_longest_match input i (n - i) s'"
  have at: "entry_at input i (n - i) ?e" using assms(2) chain by (intro find_longest_match_at) auto
  have first: "lz77_inv input (i + entry_size ?e) (entry_size ?e) s' (result @ [?e])"
    using lz77_inv_push [OF s'(2) at] assms(2,3) by simp
  show ?thesis
  proof (cases ?e)
    case (Literal b)
    then have "lz77_loop input n i advance s result = lz77_loop input n (i + 1) 1 s' (result @ [Literal b])"
      using assms(2) s'(1) base by (simp add: lz77_loop.simps [of input n i])
    then show ?thesis
      using first Literal assms(2) by (intro exI [of _ 1] exI [of _ s'] exI [of _ "result @ [Literal b]"]) simp
  next
    case (DistLength l d)
    have l: "3 \<le> l" "l \<le> n - i" "l \<le> s_max_length" using at DistLength by simp_all
    let ?e' = "find_longest_match input (i + 1) (n - (i + 1)) s'"
    have at': "entry_at input (i + 1) (n - (i + 1)) ?e'"
      using l chain by (intro find_longest_match_at [of input i]) auto
    show ?thesis
    proof (cases "\<exists>l' d'. ?e' = DistLength l' d' \<and> l < l'")
      case True
      then obtain l' d' where e': "?e' = DistLength l' d'" "l < l'" by blast
      have "entry_at input i (n - i) (Literal (input ! i))" by simp
      then have "lz77_inv input (i + 1) 1 s' (result @ [Literal (input ! i)])"
        using lz77_inv_push [OF s'(2)] assms(2,3) by fastforce
      then have "lz77_inv input (i + 1 + l') (1 + l') s' ((result @ [Literal (input ! i)]) @ [DistLength l' d'])"
        using lz77_inv_push [of input "i + 1" 1 s' _ "n - (i + 1)" "DistLength l' d'"] at' e' assms(2,3) l by fastforce
      moreover have "l' \<le> n - (i + 1)" "l' \<le> s_max_length" using at' e'(1) by simp_all
      moreover have "lz77_loop input n i advance s result =
          lz77_loop input n (i + (1 + l')) (1 + l') s' (result @ [Literal (input ! i), DistLength l' d'])"
        using assms(2) s'(1) base DistLength e' by (simp add: lz77_loop.simps [of input n i])
      ultimately show ?thesis
        using assms(2) by (intro exI [of _ "1 + l'"] exI [of _ s'] exI [of _ "result @ [Literal (input ! i), DistLength l' d']"]) simp
    next
      case False
      then have "lz77_loop input n i advance s result = lz77_loop input n (i + l) l s' (result @ [DistLength l d])"
        using assms(2) s'(1) base DistLength by (auto simp: lz77_loop.simps [of input n i] split: lz77_entry.splits)
      then show ?thesis
        using first DistLength l by (intro exI [of _ l] exI [of _ s'] exI [of _ "result @ [DistLength l d]"]) simp
    qed
  qed
qed

lemma lz77_loop_correct:
  assumes "lz77_inv input i advance s result" "i \<le> n" "n \<le> length input" "advance \<le> s_max_length + 1"
  shows "\<exists>s' result' advance'. lz77_loop input n i advance s result = Done (s', result') \<and>
    lz77_inv input n advance' s' result' \<and> advance' \<le> s_max_length + 1"
  using assms(1,2,4)
proof (induction "n - i" arbitrary: i advance s result rule: less_induct)
  case less
  show ?case
  proof (cases "i = n")
    case True
    then have "lz77_loop input n i advance s result = Done (s, result)" by (simp add: lz77_loop.simps)
    then show ?thesis using less.prems True by auto
  next
    case False
    then obtain adv s' result' where step: "lz77_loop input n i advance s result = lz77_loop input n (i + adv) adv s' result'"
        "lz77_inv input (i + adv) adv s' result'" "1 \<le> adv" "adv \<le> s_max_length + 1" "i + adv \<le> n"
      using lz77_step [OF less.prems(1) _ assms(3)] less.prems(2) by (meson le_neq_implies_less)
    then show ?thesis using less.hyps [OF _ step(2,5,4)] False less.prems(2) by (simp add: diff_less_mono2)
  qed
qed

definition chain_init :: chain_state where
  "chain_init = \<lparr>cs_base = 0, cs_index = 0, cs_chain = []\<rparr>"

lemma lz77_compress_first:
  assumes "n \<le> length input"
  shows "\<exists>s' entries advance. lz77_compress input n chain_init = Done (s', entries) \<and>
    lz77_inv input n advance s' entries \<and> advance \<le> s_max_length + 1"
proof -
  have "lz77_inv input 0 0 chain_init []" by (simp add: lz77_inv_def chain_init_def chain_ok_def)
  from lz77_loop_correct [OF this _ assms] show ?thesis by (simp add: lz77_compress_def)
qed

section \<open>Properties\<close>

text \<open>
  C15: The entries of the first block describe it: \<open>lz77_compress\<close> trips no assertion, every match has a
  length between 3 and 258 and a distance between 1 and 32768 that stays inside of the bytes
  before it, and expanding the entries in order gives the block back, byte by byte, also where a
  match overlaps the bytes it produces.
\<close>

theorem lz77_compress_correct:
  assumes "n \<le> length input"
  shows "\<exists>s' entries. lz77_compress input n chain_init = Done (s', entries) \<and> entries_ok 0 entries \<and>
    foldl expand_entry [] entries = take n input"
  using lz77_compress_first [OF assms] by (auto simp: lz77_inv_def)

theorem lz77_compress_correct_witness:
  "\<exists>s' entries. lz77_compress [97, 98, 97, 98, 97, 98, 97] 7 chain_init = Done (s', entries) \<and> entries_ok 0 entries \<and>
    foldl expand_entry [] entries = [97, 98, 97, 98, 97, 98, 97]"
  using lz77_compress_correct [of 7 "[97, 98, 97, 98, 97, 98, 97]"] by simp

end
