(* ===== verification/Deflate.thy ===== *)
theory Deflate
  imports HuffmanEncode LZ77
begin

text \<open>
  The rest of \<^verbatim>\<open>userspace/libraries/LibDEFLATE/Compressor.cpp\<close>: the encodings of lengths and distances, the
  run-length encoding of the code lengths, the blocks and the framing of the stream. Allocations
  succeed in the model; a failed one would only return \<^verbatim>\<open>ENOMEM\<close>.
\<close>

section \<open>Model: encodings\<close>

definition u16_sub :: "nat \<Rightarrow> nat \<Rightarrow> nat" where
  "u16_sub a b = (a + 2 ^ 16 - b) mod 2 ^ 16"

record encoding =
  en_symbol :: nat
  en_extra_data :: nat
  en_extra_len :: nat

definition length_base :: "nat list" where
  "length_base = [3, 4, 5, 6, 7, 8, 9, 10, 11, 13, 15, 17, 19, 23, 27, 31, 35, 43, 51, 59, 67, 83, 99, 115, 131, 163, 195, 227, 258]"

definition length_extra_bits :: "nat list" where
  "length_extra_bits = [0, 0, 0, 0, 0, 0, 0, 0, 1, 1, 1, 1, 2, 2, 2, 2, 3, 3, 3, 3, 4, 4, 4, 4, 5, 5, 5, 5, 0]"

definition distance_base :: "nat list" where
  "distance_base = [1, 2, 3, 4, 5, 7, 9, 13, 17, 25, 33, 49, 65, 97, 129, 193, 257, 385, 513, 769, 1025, 1537, 2049, 3073, 4097, 6145, 8193, 12289, 16385, 24577]"

definition distance_extra_bits :: "nat list" where
  "distance_extra_bits = [0, 0, 0, 0, 1, 1, 2, 2, 3, 3, 4, 4, 5, 5, 6, 6, 7, 7, 8, 8, 9, 9, 10, 10, 11, 11, 12, 12, 13, 13]"

text \<open>The loop goes on while the next base is not above the value.\<close>

fun base_index :: "nat list \<Rightarrow> nat \<Rightarrow> nat \<Rightarrow> nat" where
  "base_index (b # b' # bs) v i = (if b' \<le> v then base_index (b' # bs) v (i + 1) else i)"
| "base_index bs v i = i"

definition get_len_encoding :: "nat \<Rightarrow> encoding run" where
  "get_len_encoding len =
     asserting (3 \<le> len \<and> len \<le> s_max_length)
       (let i = base_index length_base len 0
        in Done \<lparr>en_symbol = 257 + i, en_extra_data = len - length_base ! i, en_extra_len = length_extra_bits ! i\<rparr>)"

definition get_dist_encoding :: "nat \<Rightarrow> encoding run" where
  "get_dist_encoding distance =
     asserting (1 \<le> distance \<and> distance \<le> s_max_distance)
       (let i = base_index distance_base distance 0
        in Done \<lparr>en_symbol = i, en_extra_data = distance - distance_base ! i, en_extra_len = distance_extra_bits ! i\<rparr>)"

definition bump :: "nat \<Rightarrow> nat list \<Rightarrow> nat list run" where
  "bump i freq = asserting (i < length freq) (Done (freq[i := freq ! i + 1]))"

fun entry_frequencies :: "lz77_entry list \<Rightarrow> nat list \<Rightarrow> nat list \<Rightarrow> (nat list \<times> nat list) run" where
  "entry_frequencies [] lit_len_freq dist_freq = Done (lit_len_freq, dist_freq)"
| "entry_frequencies (Literal b # es) lit_len_freq dist_freq =
     rbind (bump (unat b) lit_len_freq) (\<lambda>lit_len_freq'. entry_frequencies es lit_len_freq' dist_freq)"
| "entry_frequencies (DistLength l d # es) lit_len_freq dist_freq =
     rbind (get_len_encoding l) (\<lambda>le. rbind (bump (en_symbol le) lit_len_freq) (\<lambda>lit_len_freq'.
       rbind (get_dist_encoding d) (\<lambda>de. rbind (bump (en_symbol de) dist_freq) (\<lambda>dist_freq'.
         entry_frequencies es lit_len_freq' dist_freq'))))"

definition get_frequencies :: "lz77_entry list \<Rightarrow> (nat list \<times> nat list) run" where
  "get_frequencies entries =
     rbind (entry_frequencies entries (replicate 286 0) (replicate 30 0)) (\<lambda>(lit_len_freq, dist_freq).
       rbind (bump 256 lit_len_freq) (\<lambda>lit_len_freq'. Done (lit_len_freq', dist_freq)))"

section \<open>Model: the code lengths\<close>

definition plain_symbol :: "nat \<Rightarrow> encoding" where
  "plain_symbol s = \<lparr>en_symbol = s, en_extra_data = 0, en_extra_len = 0\<rparr>"

text \<open>
  What is appended for a run of equal lengths \<open>l\<close>: how many of them are covered, and the symbols.
\<close>

definition rle_chunk :: "nat \<Rightarrow> nat \<Rightarrow> encoding list \<Rightarrow> nat \<times> encoding list" where
  "rle_chunk l run enc =
     (if l = 0 then
        (let cnt = min run 138
         in (cnt, if cnt < 3 then replicate cnt (plain_symbol 0)
                  else if cnt < 11 then [\<lparr>en_symbol = 17, en_extra_data = cnt - 3, en_extra_len = 3\<rparr>]
                  else [\<lparr>en_symbol = 18, en_extra_data = cnt - 11, en_extra_len = 7\<rparr>]))
      else if 3 \<le> run \<and> enc \<noteq> [] \<and> en_symbol (last enc) = l then
        (let cnt = min run 6 in (cnt, [\<lparr>en_symbol = 16, en_extra_data = cnt - 3, en_extra_len = 2\<rparr>]))
      else (1, [plain_symbol l]))"

function append_lengths :: "nat list \<Rightarrow> encoding list \<Rightarrow> encoding list" where
  "append_lengths [] enc = enc"
| "append_lengths (l # ls) enc =
     (case rle_chunk l (1 + length (takeWhile ((=) l) ls)) enc of (cnt, new) \<Rightarrow>
        append_lengths (drop (cnt - 1) ls) (enc @ new))"
  by pat_completeness auto
termination by (relation "measure (\<lambda>(ls, enc). length ls)") auto

definition strip_tree :: "leaf list \<Rightarrow> leaf list" where
  "strip_tree tree = rev (dropWhile (\<lambda>l. snd l = 0) (rev tree))"

definition append_tree :: "leaf list \<Rightarrow> encoding list \<Rightarrow> encoding list" where
  "append_tree tree enc = append_lengths (map snd (strip_tree tree)) enc"

definition code_length_order :: "nat list" where
  "code_length_order = [16, 17, 18, 0, 8, 7, 9, 6, 10, 5, 11, 4, 12, 3, 13, 2, 14, 1, 15]"

fun trim_hclen :: "nat list \<Rightarrow> nat \<Rightarrow> nat" where
  "trim_hclen code_length 0 = 0"
| "trim_hclen code_length (Suc n) =
     (if Suc n > 4 \<and> code_length ! n = 0 then trim_hclen code_length n else Suc n)"

record code_length_info =
  ci_hlit :: nat
  ci_hdist :: nat
  ci_hclen :: nat
  ci_encoding :: "encoding list"
  ci_code_length :: "nat list"
  ci_code_length_tree :: "leaf list"

fun count_symbols :: "encoding list \<Rightarrow> nat list \<Rightarrow> nat list run" where
  "count_symbols [] freq = Done freq"
| "count_symbols (e # es) freq = rbind (bump (en_symbol e) freq) (count_symbols es)"

definition build_code_length_info :: "leaf list \<Rightarrow> leaf list \<Rightarrow> code_length_info run" where
  "build_code_length_info lit_len_tree dist_tree =
     (let enc = append_tree dist_tree (append_tree lit_len_tree [])
      in rbind (count_symbols enc (replicate 19 0)) (\<lambda>freq.
         rbind (create_huffman_tree freq) (\<lambda>tree.
           let code_length = map (\<lambda>i. snd (tree ! i)) code_length_order
           in Done \<lparr>ci_hlit = length (strip_tree lit_len_tree), ci_hdist = length (strip_tree dist_tree),
                    ci_hclen = trim_hclen code_length 19, ci_encoding = enc, ci_code_length = code_length,
                    ci_code_length_tree = tree\<rparr>)))"

section \<open>Model: blocks and streams\<close>

text \<open>The values and widths that are handed to \<open>write_bits\<close>, in order.\<close>

definition leaf_field :: "leaf \<Rightarrow> nat \<times> nat" where
  "leaf_field l = (reverse_bits (fst l) (snd l), snd l)"

fun entry_fields :: "leaf list \<Rightarrow> leaf list \<Rightarrow> lz77_entry \<Rightarrow> (nat \<times> nat) list run" where
  "entry_fields lit_len_tree dist_tree (Literal b) = Done [leaf_field (lit_len_tree ! unat b)]"
| "entry_fields lit_len_tree dist_tree (DistLength l d) =
     rbind (get_len_encoding l) (\<lambda>le. rbind (get_dist_encoding d) (\<lambda>de.
       Done [leaf_field (lit_len_tree ! en_symbol le), (en_extra_data le, en_extra_len le),
             leaf_field (dist_tree ! en_symbol de), (en_extra_data de, en_extra_len de)]))"

fun entries_fields :: "leaf list \<Rightarrow> leaf list \<Rightarrow> lz77_entry list \<Rightarrow> (nat \<times> nat) list run" where
  "entries_fields lit_len_tree dist_tree [] = Done []"
| "entries_fields lit_len_tree dist_tree (e # es) =
     rbind (entry_fields lit_len_tree dist_tree e) (\<lambda>fs.
       rbind (entries_fields lit_len_tree dist_tree es) (\<lambda>gs. Done (fs @ gs)))"

definition header_fields :: "bool \<Rightarrow> code_length_info \<Rightarrow> (nat \<times> nat) list" where
  "header_fields final info =
     [(of_bool final, 1), (2, 2), (u16_sub (ci_hlit info) 257, 5), (u16_sub (ci_hdist info) 1, 5), (u16_sub (ci_hclen info) 4, 4)] @
     map (\<lambda>i. (ci_code_length info ! i, 3)) [0..<ci_hclen info] @
     concat (map (\<lambda>e. [leaf_field (ci_code_length_tree info ! en_symbol e), (en_extra_data e, en_extra_len e)]) (ci_encoding info))"

definition compress_block ::
  "8 word list \<Rightarrow> nat \<Rightarrow> bool \<Rightarrow> chain_state \<times> bit_output \<Rightarrow> (chain_state \<times> bit_output) run" where
  "compress_block input block_size final = (\<lambda>(s, out).
     rbind (lz77_compress input block_size s) (\<lambda>(s', entries).
     rbind (get_frequencies entries) (\<lambda>(lit_len_freq, dist_freq).
     rbind (create_huffman_tree lit_len_freq) (\<lambda>lit_len_tree.
     rbind (create_huffman_tree dist_freq) (\<lambda>dist_tree.
     rbind (build_code_length_info lit_len_tree dist_tree) (\<lambda>info.
     rbind (write_list (header_fields final info) out) (\<lambda>out.
     rbind (entries_fields lit_len_tree dist_tree entries) (\<lambda>fs.
     rbind (write_list fs out) (\<lambda>out.
     rbind (write_list [leaf_field (lit_len_tree ! 256)] out) (\<lambda>out. Done (s', out)))))))))))"

datatype stream_type = Raw | Zlib | GZip

definition max_block_size :: nat where
  "max_block_size = 16 * 1024"

text \<open>After a block \<open>m_data\<close> starts behind it.\<close>

function compress_blocks :: "8 word list \<Rightarrow> chain_state \<times> bit_output \<Rightarrow> bit_output run" where
  "compress_blocks input (s, out) =
     (let left = length input - cs_base s; block_size = min left max_block_size
      in if left = 0 then Done out
         else rbind (compress_block input block_size (block_size = left) (s, out)) (\<lambda>(s', out').
                compress_blocks input (s'\<lparr>cs_base := cs_base s + block_size\<rparr>, out')))"
  by pat_completeness auto
termination
  by (relation "measure (\<lambda>(input, s, out). length input - cs_base s)") (auto simp: max_block_size_def)

declare compress_blocks.simps [simp del]

definition word_fields :: "nat \<Rightarrow> nat list \<Rightarrow> (nat \<times> nat) list" where
  "word_fields v shifts = map (\<lambda>k. (drop_bit k v mod 2 ^ 16, 8)) shifts"

definition stream_header :: "stream_type \<Rightarrow> nat \<Rightarrow> (nat \<times> nat) list" where
  "stream_header type current_time =
     (case type of
        Raw \<Rightarrow> []
      | Zlib \<Rightarrow> [(0x78, 8), (0x9C, 8)]
      | GZip \<Rightarrow> [(0x1F, 8), (0x8B, 8), (8, 8), (0, 8)] @ word_fields current_time [0, 8, 16, 24] @ [(0, 8), (3, 8)])"

definition stream_footer :: "stream_type \<Rightarrow> 8 word list \<Rightarrow> (nat \<times> nat) list" where
  "stream_footer type data =
     (case type of
        Raw \<Rightarrow> []
      | Zlib \<Rightarrow> word_fields (unat (calculate_adler32 data)) [24, 16, 8, 0]
      | GZip \<Rightarrow> word_fields (unat (calculate_crc32 data)) [0, 8, 16, 24] @
          word_fields (unat (word_of_nat (length data) :: 32 word)) [0, 8, 16, 24])"

definition compress :: "stream_type \<Rightarrow> nat \<Rightarrow> 8 word list \<Rightarrow> 8 word list run" where
  "compress type current_time data =
     rbind (write_list (stream_header type current_time) \<lparr>bo_data = [], bo_buffer = 0, bo_len = 0\<rparr>) (\<lambda>out.
     rbind (compress_blocks data (chain_init, out)) (\<lambda>out.
     rbind (pad_to_byte_boundary out) (\<lambda>out.
     rbind (write_list (stream_footer type data) out) take_buffer)))"

end
