(* ===== verification/Inflate.thy ===== *)
theory Inflate
  imports Deflate
begin

text \<open>
  The decompressor, \<^verbatim>\<open>userspace/libraries/LibDEFLATE/Decompressor.cpp\<close>: the framing of zlib and gzip, the
  block headers, the symbols with the sliding window, and the resumable state machine
  around them. Allocations succeed in the model.
\<close>

section \<open>Model: state\<close>

datatype dec_status = StatusDone | NeedMoreInput | NeedMoreOutput

datatype dec_state =
  StreamHeader | StreamFooter | BlockHeader | LiteralHeader | DynamicHeader | ReadRaw | SymbolState | DoneState

definition total_window_size :: nat where
  "total_window_size = 32 * 1024"

text \<open>
  The fields of \<open>m_stream_info\<close>, a union of which the stream type selects the member.
\<close>

record decompressor =
  d_type :: stream_type
  d_state :: dec_state
  d_stream :: bit_input
  d_window :: "8 word list"
  d_window_size :: nat
  d_window_tail :: nat
  d_produced :: nat
  d_bfinal :: bool
  d_length_tree :: huffman_tree
  d_distance_tree :: huffman_tree
  d_raw_left :: nat
  d_adler :: "nat \<times> nat"
  d_crc32 :: "32 word"
  d_isize :: "32 word"

definition decompressor_init :: "stream_type \<Rightarrow> decompressor" where
  "decompressor_init type =
     \<lparr>d_type = type, d_state = StreamHeader, d_stream = \<lparr>bi_data = [], bi_buffer = 0, bi_len = 0\<rparr>, d_window = [],
      d_window_size = 0, d_window_tail = 0, d_produced = 0, d_bfinal = False, d_length_tree = huffman_default,
      d_distance_tree = huffman_default, d_raw_left = 0, d_adler = (0, 0), d_crc32 = 0, d_isize = 0\<rparr>"

section \<open>Model: header and footer\<close>

fun skip_bytes :: "nat \<Rightarrow> bit_input \<Rightarrow> bit_input error_or run" where
  "skip_bytes 0 s = Done (Inr s)"
| "skip_bytes (Suc n) s = tbind (take_bits 8 s) (\<lambda>(s', _). skip_bytes n s')"

lemma bits_fill_available:
  "bits_fill cnt data buffer len = Inr s \<Longrightarrow> available_bits s = length data * 8 + len \<and> cnt \<le> bi_len s"
  by (induction cnt data buffer len rule: bits_fill.induct)
    (auto simp: available_bits_def unprocessed_bytes_def split: if_splits)

lemma take_bits_available:
  assumes "take_bits n s = Done (Inr (s', v))"
  shows "available_bits s' + n = available_bits s"
proof -
  obtain t where "bits_fill n (bi_data s) (bi_buffer s) (bi_len s) = Inr t" "bi_data s' = bi_data t" "bi_len s' = bi_len t - n"
    using assms
    by (cases "bits_fill n (bi_data s) (bi_buffer s) (bi_len s)")
      (auto simp: take_bits_def peek_bits_def asserting_def split: if_splits)
  then show ?thesis
    using bits_fill_available [of n "bi_data s" "bi_buffer s" "bi_len s" t]
    by (simp add: available_bits_def unprocessed_bytes_def)
qed

text \<open>A zero-terminated string.\<close>

function skip_string :: "bit_input \<Rightarrow> bit_input error_or run" where
  "skip_string s = tbind (take_bits 8 s) (\<lambda>(s', c). if c \<noteq> 0 then skip_string s' else Done (Inr s'))"
  by auto
termination by (relation "measure available_bits") (auto dest!: take_bits_available)

declare skip_string.simps [simp del]

definition zlib_header :: "bit_input \<Rightarrow> bit_input error_or run" where
  "zlib_header s =
     tbind (take_bits 8 s) (\<lambda>(s, raw1). tbind (take_bits 8 s) (\<lambda>(s, raw2).
       if (push_bit 8 raw1 OR raw2) mod 31 \<noteq> 0 then Done (Inl EINVAL)
       else if raw1 AND 15 \<noteq> 8 then Done (Inl EINVAL)
       else if bit raw2 5 then
         tbind (take_bits 16 s) (\<lambda>(s, _). tbind (take_bits 16 s) (\<lambda>(s, _). Done (Inr s)))
       else Done (Inr s)))"

definition gzip_header :: "bit_input \<Rightarrow> bit_input error_or run" where
  "gzip_header s =
     tbind (take_bits 8 s) (\<lambda>(s, id1). tbind (take_bits 8 s) (\<lambda>(s, id2).
       if id1 \<noteq> 0x1F \<or> id2 \<noteq> 0x8B then Done (Inl EINVAL)
       else tbind (take_bits 8 s) (\<lambda>(s, cm).
         if cm \<noteq> 8 then Done (Inl EINVAL)
         else tbind (take_bits 8 s) (\<lambda>(s, flg).
           tbind (take_bits 16 s) (\<lambda>(s, _). tbind (take_bits 16 s) (\<lambda>(s, _).
           tbind (take_bits 8 s) (\<lambda>(s, _). tbind (take_bits 8 s) (\<lambda>(s, _).
           tbind (if bit flg 2 then tbind (take_bits 16 s) (\<lambda>(s, xlen). skip_bytes xlen s) else Done (Inr s)) (\<lambda>s.
           tbind (if bit flg 3 then skip_string s else Done (Inr s)) (\<lambda>s.
           tbind (if bit flg 4 then skip_string s else Done (Inr s)) (\<lambda>s.
           tbind (if bit flg 1 then tbind (take_bits 16 s) (\<lambda>(s, _). Done (Inr s)) else Done (Inr s)) (\<lambda>s.
             Done (Inr s)))))))))))))"

definition handle_header :: "decompressor \<Rightarrow> decompressor error_or run" where
  "handle_header d =
     (case d_type d of
        Raw \<Rightarrow> Done (Inr d)
      | Zlib \<Rightarrow> tbind (zlib_header (d_stream d)) (\<lambda>s. Done (Inr (d\<lparr>d_stream := s, d_adler := (1, 0)\<rparr>)))
      | GZip \<Rightarrow> tbind (gzip_header (d_stream d)) (\<lambda>s. Done (Inr (d\<lparr>d_stream := s, d_crc32 := 0xFFFFFFFF, d_isize := 0\<rparr>))))"

fun take_big_endian :: "nat \<Rightarrow> 32 word \<Rightarrow> bit_input \<Rightarrow> (bit_input \<times> 32 word) error_or run" where
  "take_big_endian 0 v s = Done (Inr (s, v))"
| "take_big_endian (Suc n) v s =
     tbind (take_bits 8 s) (\<lambda>(s', b). take_big_endian n (push_bit 8 v OR word_of_nat b) s')"

definition take_u32 :: "bit_input \<Rightarrow> (bit_input \<times> 32 word) error_or run" where
  "take_u32 s =
     tbind (take_bits 16 s) (\<lambda>(s, lo). tbind (take_bits 16 s) (\<lambda>(s, hi).
       Done (Inr (s, word_of_nat lo OR push_bit 16 (word_of_nat hi)))))"

text \<open>
  The footer changes the checksum before it reads from the stream, so its new state is returned also
  with an error.
\<close>

definition handle_footer :: "decompressor \<Rightarrow> (decompressor \<times> unit error_or) run" where
  "handle_footer d =
     (let s0 = skip_to_byte_boundary (d_stream d)
      in case d_type d of
           Raw \<Rightarrow> Done (d, Inr ())
         | Zlib \<Rightarrow> rbind (take_big_endian 4 0 s0) (\<lambda>r. case r of
               Inl e \<Rightarrow> Done (d, Inl e)
             | Inr (s, adler32) \<Rightarrow>
                 if adler32 \<noteq> push_bit 16 (word_of_nat (snd (d_adler d))) OR word_of_nat (fst (d_adler d))
                 then Done (d\<lparr>d_stream := s\<rparr>, Inl EINVAL) else Done (d\<lparr>d_stream := s\<rparr>, Inr ()))
         | GZip \<Rightarrow>
             (let d' = d\<lparr>d_crc32 := d_crc32 d XOR 0xFFFFFFFF\<rparr>
              in rbind (take_u32 s0) (\<lambda>r. case r of
                     Inl e \<Rightarrow> Done (d', Inl e)
                   | Inr (s, crc32) \<Rightarrow>
                       if crc32 \<noteq> d_crc32 d' then Done (d'\<lparr>d_stream := s\<rparr>, Inl EINVAL)
                       else rbind (take_u32 s) (\<lambda>r. case r of
                                Inl e \<Rightarrow> Done (d', Inl e)
                              | Inr (s', isize) \<Rightarrow>
                                  if isize \<noteq> d_isize d' then Done (d'\<lparr>d_stream := s'\<rparr>, Inl EINVAL)
                                  else Done (d'\<lparr>d_stream := s'\<rparr>, Inr ())))))"

section \<open>Model: dynamic trees\<close>

fun read_code_lengths :: "nat list \<Rightarrow> nat list \<Rightarrow> bit_input \<Rightarrow> (bit_input \<times> nat list) error_or run" where
  "read_code_lengths [] lens s = Done (Inr (s, lens))"
| "read_code_lengths (i # is) lens s =
     tbind (take_bits 3 s) (\<lambda>(s', l). read_code_lengths is (lens[i := l]) s')"

text \<open>The repetition that a symbol of the code length code stands for.\<close>

definition code_length_run :: "nat \<Rightarrow> nat \<Rightarrow> bit_input \<Rightarrow> (bit_input \<times> nat \<times> nat) error_or run" where
  "code_length_run symb last_symb s =
     (if symb \<le> 15 then Done (Inr (s, symb, 1))
      else if symb = 16 then tbind (take_bits 2 s) (\<lambda>(s', n). Done (Inr (s', last_symb, n + 3)))
      else if symb = 17 then tbind (take_bits 3 s) (\<lambda>(s', n). Done (Inr (s', 0, n + 3)))
      else tbind (take_bits 7 s) (\<lambda>(s', n). Done (Inr (s', 0, n + 11))))"

lemma code_length_run_pos: "code_length_run symb last_symb s = Done (Inr (s', v, cnt)) \<Longrightarrow> 1 \<le> cnt"
  by (auto simp: code_length_run_def elim!: tbind_eq_InrD split: if_splits prod.splits)

text \<open>
  The list is the filled part of the array \<open>bit_lengths\<close> of 286 + 32 bytes; a store behind it is outside of
  the array.
\<close>

function dynamic_loop ::
  "huffman_tree \<Rightarrow> nat \<Rightarrow> nat list \<Rightarrow> nat \<Rightarrow> bit_input \<Rightarrow> (bit_input \<times> nat list) error_or run" where
  "dynamic_loop t total_len bit_lengths last_symb s =
     (if length bit_lengths < total_len then
        tbind (read_symbol t s) (\<lambda>(s', symb).
          if symb > 18 then Done (Inl EINVAL)
          else tbind (code_length_run symb last_symb s') (\<lambda>(s'', v, cnt).
            asserting (length bit_lengths + cnt \<le> total_len)
              (asserting (length bit_lengths + cnt \<le> 286 + 32)
                 (dynamic_loop t total_len (bit_lengths @ replicate cnt v) v s''))))
      else Done (Inr (s, bit_lengths)))"
  by pat_completeness auto
termination
  by (relation "measure (\<lambda>(t, n, ls, l, s). n - length ls)") (auto dest!: code_length_run_pos)

declare dynamic_loop.simps [simp del]

definition handle_dynamic_header :: "bit_input \<Rightarrow> (bit_input \<times> huffman_tree \<times> huffman_tree) error_or run" where
  "handle_dynamic_header s =
     tbind (take_bits 5 s) (\<lambda>(s, v). let hlit = v + 257 in
     tbind (take_bits 5 s) (\<lambda>(s, v). let hdist = v + 1 in
     tbind (take_bits 4 s) (\<lambda>(s, v). let hclen = v + 4 in
     tbind (read_code_lengths (take hclen code_length_order) (replicate 19 0) s) (\<lambda>(s, code_lengths).
     tbind (huffman_create code_lengths) (\<lambda>code_length_tree.
     tbind (dynamic_loop code_length_tree (hlit + hdist) [] 0 s) (\<lambda>(s, bit_lengths).
     tbind (huffman_create (take hlit bit_lengths)) (\<lambda>length_tree.
     tbind (huffman_create (take hdist (drop hlit bit_lengths))) (\<lambda>distance_tree.
       Done (Inr (s, length_tree, distance_tree))))))))))"

section \<open>Model: symbols and the window\<close>

fun window_copy :: "nat \<Rightarrow> nat \<Rightarrow> nat \<Rightarrow> 8 word list \<Rightarrow> 8 word list" where
  "window_copy to from 0 w = w"
| "window_copy to from (Suc n) w =
     window_copy (to + 1) (from + 1) n (w[to mod total_window_size := w ! (from mod total_window_size)])"

text \<open>The window keeps at most its own size.\<close>

definition window_advance :: "nat \<Rightarrow> decompressor \<Rightarrow> decompressor" where
  "window_advance n d =
     (let window_size = d_window_size d + n
      in d\<lparr>d_produced := d_produced d + n,
           d_window_tail := (if window_size > total_window_size
             then (d_window_tail d + (window_size - total_window_size)) mod total_window_size else d_window_tail d),
           d_window_size := min window_size total_window_size\<rparr>)"

definition push_literal :: "nat \<Rightarrow> decompressor \<Rightarrow> decompressor" where
  "push_literal symb d =
     (let d' = d\<lparr>d_window := (d_window d)[(d_window_tail d + d_window_size d) mod total_window_size := word_of_nat symb],
                 d_produced := d_produced d + 1\<rparr>
      in if d_window_size d < total_window_size then d'\<lparr>d_window_size := d_window_size d + 1\<rparr>
         else d'\<lparr>d_window_tail := (d_window_tail d + 1) mod total_window_size\<rparr>)"

definition handle_symbol :: "decompressor \<Rightarrow> decompressor error_or run" where
  "handle_symbol d =
     tbind (read_symbol (d_length_tree d) (d_stream d)) (\<lambda>(s, symb).
       if symb = 256 then Done (Inr (d\<lparr>d_stream := s, d_state := BlockHeader\<rparr>))
       else if symb < 256 then Done (Inr (push_literal symb (d\<lparr>d_stream := s\<rparr>)))
       else if symb > 285 then Done (Inl EINVAL)
       else tbind (take_bits (length_extra_bits ! (symb - 257)) s) (\<lambda>(s, v).
         let len = length_base ! (symb - 257) + v
         in tbind (if huffman_empty (d_distance_tree d)
                   then tbind (take_bits 5 s) (\<lambda>(s, v). Done (Inr (s, reverse_bits v 5)))
                   else read_symbol (d_distance_tree d) s) (\<lambda>(s, distance_code).
              if distance_code > 29 then Done (Inl EINVAL)
              else tbind (take_bits (distance_extra_bits ! distance_code) s) (\<lambda>(s, v).
                let distance = distance_base ! distance_code + v
                in if distance > d_window_size d then Done (Inl EINVAL)
                   else let offset = d_window_size d - distance;
                            w = window_copy (d_window_tail d + d_window_size d) (d_window_tail d + offset) len (d_window d)
                        in Done (Inr (window_advance len (d\<lparr>d_stream := s, d_window := w\<rparr>)))))))"

definition checksum_output :: "8 word list \<Rightarrow> decompressor \<Rightarrow> decompressor" where
  "checksum_output bytes d =
     (case d_type d of
        Raw \<Rightarrow> d
      | Zlib \<Rightarrow> d\<lparr>d_adler := foldl adler32_step (d_adler d) bytes\<rparr>
      | GZip \<Rightarrow> d\<lparr>d_isize := d_isize d + word_of_nat (length bytes), d_crc32 := foldl crc32_table_step (d_crc32 d) bytes\<rparr>)"

text \<open>The output span is the space left in it, and what is written to it is returned.\<close>

definition write_data_to_output :: "nat \<Rightarrow> decompressor \<Rightarrow> (decompressor \<times> 8 word list) run" where
  "write_data_to_output space d =
     (if d_produced d = 0 then Done (d, [])
      else asserting (d_produced d \<le> d_window_size d)
        (let unwritten_tail = (d_window_tail d + d_window_size d - d_produced d) mod total_window_size;
             to_write = min space (d_produced d);
             before_wrap = min (total_window_size - unwritten_tail) to_write;
             bytes = take before_wrap (drop unwritten_tail (d_window d)) @ take (to_write - before_wrap) (d_window d)
         in Done ((checksum_output bytes d)\<lparr>d_produced := d_produced d - to_write\<rparr>, bytes)))"

lemma handle_symbol_progress:
  assumes "handle_symbol d = Done (Inr d')" "d_state d' = SymbolState" "d_state d = SymbolState"
  shows "d_produced d < d_produced d'"
proof -
  have "3 \<le> length_base ! k" if "k \<le> 28" for k
  proof -
    have "\<forall>b\<in>set length_base. 3 \<le> b" by (simp add: length_base_def)
    moreover have "k < length length_base" using that by (simp add: length_base_def)
    ultimately show ?thesis by simp
  qed
  moreover have "symb - 257 \<le> 28" if "\<not> symb > 285" for symb :: nat using that by simp
  ultimately show ?thesis
    using assms
    by (auto simp: handle_symbol_def push_literal_def window_advance_def Let_def elim!: tbind_eq_InrD split: if_splits prod.splits)
      (metis add_gr_0 le_add1 less_le_trans zero_less_numeral)+
qed

function symbol_loop :: "decompressor \<Rightarrow> (decompressor \<times> bool) error_or run" where
  "symbol_loop d =
     (if d_produced d + 258 < total_window_size \<and> d_state d = SymbolState then
        rbind (handle_symbol d) (\<lambda>r. case r of
            Inl e \<Rightarrow> if e \<noteq> ENOBUFS then Done (Inl e) else Done (Inr (d, True))
          | Inr d' \<Rightarrow> symbol_loop d')
      else Done (Inr (d, False)))"
  by auto
termination
proof (relation "measures [\<lambda>d. if d_state d = SymbolState then 1 else 0, \<lambda>d. total_window_size - d_produced d]")
  fix d x d'
  assume c: "d_produced d + 258 < total_window_size \<and> d_state d = SymbolState" "handle_symbol d = Done x" "x = Inr d'"
  then show "(d', d) \<in> measures [\<lambda>d. if d_state d = SymbolState then 1 else 0, \<lambda>d. total_window_size - d_produced d]"
    using handle_symbol_progress [of d d'] by auto
qed simp

declare symbol_loop.simps [simp del]

section \<open>Model: the state machine\<close>

definition read_raw :: "decompressor \<Rightarrow> (decompressor \<times> bool) error_or run" where
  "read_raw d =
     (let window_head = (d_window_tail d + d_window_size d) mod total_window_size;
          max_bytes_to_read = min (d_raw_left d) total_window_size;
          can_read = min max_bytes_to_read (available_bytes (d_stream d));
          before_wrap = min (total_window_size - window_head) can_read
      in must (take_byte_aligned before_wrap (d_stream d)) (\<lambda>(s, bytes1).
           must (if can_read - before_wrap \<noteq> 0 then take_byte_aligned (can_read - before_wrap) s else Done (Inr (s, [])))
             (\<lambda>(s, bytes2).
               let w1 = take window_head (d_window d) @ bytes1 @ drop (window_head + length bytes1) (d_window d);
                   w2 = bytes2 @ drop (length bytes2) w1;
                   d1 = window_advance can_read (d\<lparr>d_stream := s, d_window := w2\<rparr>);
                   d2 = d1\<lparr>d_raw_left := d_raw_left d - can_read\<rparr>
               in if d_raw_left d2 = 0 then Done (Inr (d2\<lparr>d_state := BlockHeader\<rparr>, False))
                  else Done (Inr (d2, available_bytes s = 0)))))"

definition literal_header :: "decompressor \<Rightarrow> (decompressor \<times> bool) error_or run" where
  "literal_header d =
     (if available_bytes (d_stream d) < 4 then Done (Inr (d, True))
      else must (take_bits 16 (skip_to_byte_boundary (d_stream d))) (\<lambda>(s, len).
           must (take_bits 16 s) (\<lambda>(s, nlen).
             if len \<noteq> 0xFFFF - nlen then Done (Inl EINVAL)
             else Done (Inr (d\<lparr>d_stream := s, d_raw_left := len, d_state := ReadRaw\<rparr>, False)))))"

definition block_header :: "decompressor \<Rightarrow> (decompressor \<times> bool) error_or run" where
  "block_header d =
     (if d_bfinal d then Done (Inr (d\<lparr>d_state := StreamFooter\<rparr>, False))
      else if available_bits (d_stream d) < 3 then Done (Inr (d, True))
      else must (take_bits 1 (d_stream d)) (\<lambda>(s, bfinal).
           must (take_bits 2 s) (\<lambda>(s, btype).
             let d' = d\<lparr>d_stream := s, d_bfinal := (bfinal \<noteq> 0)\<rparr>
             in if btype = 0 then Done (Inr (d'\<lparr>d_state := LiteralHeader\<rparr>, False))
                else if btype = 1 then
                  tbind fixed_tree (\<lambda>t.
                    Done (Inr (d'\<lparr>d_length_tree := t, d_distance_tree := huffman_default, d_state := SymbolState\<rparr>, False)))
                else if btype = 2 then Done (Inr (d'\<lparr>d_state := DynamicHeader\<rparr>, False))
                else Done (Inl EINVAL))))"

text \<open>
  One round of the loop up to the test of \<open>need_more_input\<close>, which is the flag of the result; the saved
  stream is put back when a handler runs out of input.
\<close>

definition dec_round :: "decompressor \<Rightarrow> (decompressor \<times> bool) error_or run" where
  "dec_round d =
     (case d_state d of
        DoneState \<Rightarrow> Halt
      | StreamHeader \<Rightarrow>
          rbind (handle_header d) (\<lambda>r. case r of
              Inr d' \<Rightarrow> Done (Inr (d'\<lparr>d_state := BlockHeader\<rparr>, False))
            | Inl e \<Rightarrow> if e \<noteq> ENOBUFS then Done (Inl e) else Done (Inr (d, True)))
      | StreamFooter \<Rightarrow>
          rbind (handle_footer d) (\<lambda>(d', r). case r of
              Inr _ \<Rightarrow> Done (Inr (d'\<lparr>d_state := DoneState\<rparr>, False))
            | Inl e \<Rightarrow> if e \<noteq> ENOBUFS then Done (Inl e) else Done (Inr (d'\<lparr>d_stream := d_stream d\<rparr>, True)))
      | BlockHeader \<Rightarrow> block_header d
      | LiteralHeader \<Rightarrow> literal_header d
      | DynamicHeader \<Rightarrow>
          rbind (handle_dynamic_header (d_stream d)) (\<lambda>r. case r of
              Inr (s, lt, dt) \<Rightarrow>
                Done (Inr (d\<lparr>d_stream := s, d_length_tree := lt, d_distance_tree := dt, d_state := SymbolState\<rparr>, False))
            | Inl e \<Rightarrow> if e \<noteq> ENOBUFS then Done (Inl e) else Done (Inr (d, True)))
      | ReadRaw \<Rightarrow> read_raw d
      | SymbolState \<Rightarrow> symbol_loop d)"

text \<open>
  The loop of \<open>decompress\<close>; the result is the status with the bytes written to the output. \<open>space\<close> is what
  is left of the output span. Each round consumes input, fills the output or moves towards the
  end of the stream; the fuel is the number of rounds.
\<close>

fun dec_loop :: "nat \<Rightarrow> nat \<Rightarrow> decompressor \<Rightarrow> 8 word list \<Rightarrow> (decompressor \<times> dec_status \<times> 8 word list) error_or run" where
  "dec_loop 0 space d out = Halt"
| "dec_loop (Suc fuel) space d out =
     (if d_state d = DoneState then Done (Inr (d, StatusDone, out))
      else tbind (dec_round d) (\<lambda>(d', need_more_input).
        if need_more_input then Done (Inr (d', NeedMoreInput, out))
        else rbind (write_data_to_output space d') (\<lambda>(d'', bytes).
          if d_produced d'' > 0 then Done (Inr (d'', NeedMoreOutput, out @ bytes))
          else dec_loop fuel (space - length bytes) d'' (out @ bytes))))"

text \<open>The guard object reports how much input was consumed and drops the rest of it.\<close>

definition finish_call :: "8 word list \<Rightarrow> decompressor \<times> dec_status \<times> 8 word list \<Rightarrow> decompressor \<times> nat \<times> dec_status \<times> 8 word list" where
  "finish_call input = (\<lambda>(d, status, out).
     (d\<lparr>d_stream := drop_unprocessed_data (d_stream d)\<rparr>, length input - unprocessed_bytes (d_stream d), status, out))"

definition decompress_call ::
  "nat \<Rightarrow> 8 word list \<Rightarrow> nat \<Rightarrow> decompressor \<Rightarrow> (decompressor \<times> nat \<times> dec_status \<times> 8 word list) error_or run" where
  "decompress_call fuel input space d =
     (let d1 = d\<lparr>d_stream := set_data input (d_stream d),
                 d_window := (if d_window d = [] then replicate total_window_size 0 else d_window d)\<rparr>
      in rbind (write_data_to_output space d1) (\<lambda>(d2, bytes).
           if d_produced d2 > 0 then Done (Inr (finish_call input (d2, NeedMoreOutput, bytes)))
           else tbind (dec_loop fuel (space - length bytes) d2 bytes) (\<lambda>r. Done (Inr (finish_call input r)))))"

text \<open>
  \<open>decompress\<close> of a whole buffer: \<open>output_size\<close> is the size of \<open>full_output\<close>, which doubles when it is full.
\<close>

fun decompress_loop :: "nat \<Rightarrow> 8 word list \<Rightarrow> nat \<Rightarrow> 8 word list \<Rightarrow> decompressor \<Rightarrow> 8 word list error_or run" where
  "decompress_loop 0 input output_size full_output d = Halt"
| "decompress_loop (Suc fuel) input output_size full_output d =
     tbind (decompress_call (8 * length input + 64) input (output_size - length full_output) d) (\<lambda>(d', consumed, status, out).
       case status of
         StatusDone \<Rightarrow> Done (Inr (full_output @ out))
       | NeedMoreOutput \<Rightarrow> decompress_loop fuel (drop consumed input) (output_size * 2) (full_output @ out) d'
       | NeedMoreInput \<Rightarrow> Done (Inl EINVAL))"

definition decompress :: "nat \<Rightarrow> stream_type \<Rightarrow> 8 word list \<Rightarrow> 8 word list error_or run" where
  "decompress fuel type input = decompress_loop fuel input (2 * length input) [] (decompressor_init type)"

text \<open>
  \<open>decompress\<close> of input in pieces: the input buffer has a fixed capacity and is refilled from the pieces; \<open>index\<close>
  is how much of the first piece is already in it.
\<close>

function append_input_data ::
  "nat \<Rightarrow> 8 word list list \<Rightarrow> nat \<Rightarrow> 8 word list \<Rightarrow> bool \<Rightarrow> 8 word list list \<times> nat \<times> 8 word list \<times> bool" where
  "append_input_data capacity [] index buffer did_append = ([], index, buffer, did_append)"
| "append_input_data capacity (piece # input) index buffer did_append =
     (if length buffer < capacity then
        if length piece \<le> index then append_input_data capacity input 0 buffer did_append
        else let to_copy = min (length piece - index) (capacity - length buffer)
             in append_input_data capacity (piece # input) (index + to_copy) (buffer @ take to_copy (drop index piece)) True
      else (piece # input, index, buffer, did_append))"
  by pat_completeness auto
termination
  by (relation "measures [\<lambda>(c, input, i, b, a). length input, \<lambda>(c, input, i, b, a). c - length b]") auto

fun decompress_spans_loop ::
  "nat \<Rightarrow> nat \<Rightarrow> 8 word list list \<Rightarrow> nat \<Rightarrow> 8 word list \<Rightarrow> nat \<Rightarrow> 8 word list \<Rightarrow> decompressor \<Rightarrow> 8 word list error_or run" where
  "decompress_spans_loop 0 capacity input index buffer output_size full_output d = Halt"
| "decompress_spans_loop (Suc fuel) capacity input index buffer output_size full_output d =
     tbind (decompress_call (8 * length buffer + 64) buffer (output_size - length full_output) d) (\<lambda>(d', consumed, status, out).
       let buffer' = drop consumed buffer; full' = full_output @ out
       in case status of
            StatusDone \<Rightarrow> Done (Inr full')
          | NeedMoreOutput \<Rightarrow> decompress_spans_loop fuel capacity input index buffer' (output_size * 2) full' d'
          | NeedMoreInput \<Rightarrow>
              (let (input', index', buffer'', did_append) = append_input_data capacity input index buffer' False
               in if \<not> did_append then Done (Inl EINVAL)
                  else decompress_spans_loop fuel capacity input' index' buffer'' output_size full' d'))"

definition decompress_spans :: "nat \<Rightarrow> stream_type \<Rightarrow> 8 word list list \<Rightarrow> 8 word list error_or run" where
  "decompress_spans fuel type input =
     (let total_input_size = sum_list (map length input);
          capacity = min (32 * 1024) total_input_size;
          (input', index, buffer, _) = append_input_data capacity input 0 [] False
      in decompress_spans_loop fuel capacity input' index buffer (2 * total_input_size) [] (decompressor_init type))"

end
