(* ===== verification/DeflateRoundtrip.thy ===== *)
theory DeflateRoundtrip
  imports Inflate
begin

text \<open>
  What the compressor writes is what the decompressor reads: the encodings of lengths and distances, the
  code lengths, the entries and the framing are decoded one after the other, and the window
  of the decompressor holds the bytes that the entries stand for.
\<close>

section \<open>Lengths and distances\<close>

lemma base_index_spec:
  assumes "b \<le> v"
  shows "\<exists>j. base_index (b # bs) v i = i + j \<and> j < length (b # bs) \<and> (b # bs) ! j \<le> v \<and>
    (Suc j < length (b # bs) \<longrightarrow> v < (b # bs) ! Suc j)"
  using assms
proof (induction bs arbitrary: b i)
  case (Cons b' bs)
  show ?case
  proof (cases "b' \<le> v")
    case True
    from Cons.IH [OF True, of "i + 1"] obtain j where j: "base_index (b' # bs) v (i + 1) = i + 1 + j"
        "j < length (b' # bs)" "(b' # bs) ! j \<le> v" "Suc j < length (b' # bs) \<longrightarrow> v < (b' # bs) ! Suc j" by blast
    then show ?thesis using True by (intro exI [of _ "Suc j"]) simp
  next
    case False
    then show ?thesis using Cons.prems by (intro exI [of _ 0]) simp
  qed
qed simp

text \<open>The gaps between the bases are what the extra bits can hold.\<close>

lemma length_gaps: "j < 28 \<Longrightarrow> length_base ! Suc j \<le> length_base ! j + 2 ^ (length_extra_bits ! j)"
proof -
  have "list_all (\<lambda>j. length_base ! Suc j \<le> length_base ! j + 2 ^ (length_extra_bits ! j)) [0..<28]" by code_simp
  then show "j < 28 \<Longrightarrow> length_base ! Suc j \<le> length_base ! j + 2 ^ (length_extra_bits ! j)" by (simp add: list_all_iff)
qed

lemma distance_gaps: "j < 29 \<Longrightarrow> distance_base ! Suc j \<le> distance_base ! j + 2 ^ (distance_extra_bits ! j)"
proof -
  have "list_all (\<lambda>j. distance_base ! Suc j \<le> distance_base ! j + 2 ^ (distance_extra_bits ! j)) [0..<29]"
    by (simp add: upt_rec distance_base_def distance_extra_bits_def)
  then show "j < 29 \<Longrightarrow> distance_base ! Suc j \<le> distance_base ! j + 2 ^ (distance_extra_bits ! j)"
    by (simp add: list_all_iff)
qed

lemma get_len_encoding_spec:
  assumes "3 \<le> l" "l \<le> s_max_length"
  shows "\<exists>k x. k \<le> 28 \<and> get_len_encoding l = Done \<lparr>en_symbol = 257 + k, en_extra_data = x, en_extra_len = length_extra_bits ! k\<rparr> \<and>
    x < 2 ^ (length_extra_bits ! k) \<and> length_base ! k + x = l"
proof -
  obtain bs where bs: "length_base = 3 # bs" "length bs = 28" by (simp add: length_base_def)
  obtain k where k: "base_index length_base l 0 = k" "k \<le> 28" "length_base ! k \<le> l" "k < 28 \<longrightarrow> l < length_base ! Suc k"
  proof -
    obtain k where "base_index (3 # bs) l 0 = 0 + k" "k < length (3 # bs)" "(3 # bs) ! k \<le> l"
        "Suc k < length (3 # bs) \<longrightarrow> l < (3 # bs) ! Suc k"
      using base_index_spec [OF assms(1), of bs 0] by blast
    then show ?thesis using that [of k] bs(2) unfolding bs(1) [symmetric] by (simp add: bs(1))
  qed
  have "l - length_base ! k < 2 ^ (length_extra_bits ! k)"
  proof (cases "k < 28")
    case True
    then show ?thesis using k(3,4) length_gaps [OF True] by linarith
  next
    case False
    then have "k = 28" using k(2) by simp
    then show ?thesis using k(3) assms(2) by (simp add: length_base_def length_extra_bits_def s_max_length_def)
  qed
  then show ?thesis using assms k by (intro exI [of _ k] exI [of _ "l - length_base ! k"]) (simp add: get_len_encoding_def Let_def)
qed

lemma get_dist_encoding_spec:
  assumes "1 \<le> d" "d \<le> s_max_distance"
  shows "\<exists>k x. k \<le> 29 \<and> get_dist_encoding d = Done \<lparr>en_symbol = k, en_extra_data = x, en_extra_len = distance_extra_bits ! k\<rparr> \<and>
    x < 2 ^ (distance_extra_bits ! k) \<and> distance_base ! k + x = d"
proof -
  obtain bs where bs: "distance_base = 1 # bs" "length bs = 29" by (simp add: distance_base_def)
  obtain k where k: "base_index distance_base d 0 = k" "k \<le> 29" "distance_base ! k \<le> d" "k < 29 \<longrightarrow> d < distance_base ! Suc k"
  proof -
    obtain k where "base_index (1 # bs) d 0 = 0 + k" "k < length (1 # bs)" "(1 # bs) ! k \<le> d"
        "Suc k < length (1 # bs) \<longrightarrow> d < (1 # bs) ! Suc k"
      using base_index_spec [OF assms(1), of bs 0] by blast
    then show ?thesis using that [of k] bs(2) unfolding bs(1) [symmetric] by (simp add: bs(1))
  qed
  have "d - distance_base ! k < 2 ^ (distance_extra_bits ! k)"
  proof (cases "k < 29")
    case True
    then show ?thesis using k(3,4) distance_gaps [OF True] by linarith
  next
    case False
    then have "k = 29" using k(2) by simp
    then show ?thesis using k(3) assms(2) by (simp add: distance_base_def distance_extra_bits_def s_max_distance_def)
  qed
  then show ?thesis using assms k by (intro exI [of _ k] exI [of _ "d - distance_base ! k"]) (simp add: get_dist_encoding_def Let_def)
qed

lemma extra_bits_le_16:
  "k \<le> 28 \<Longrightarrow> length_extra_bits ! k \<le> 16" "k \<le> 29 \<Longrightarrow> distance_extra_bits ! k \<le> 16"
proof -
  have "\<forall>b\<in>set length_extra_bits. b \<le> 16" "\<forall>b\<in>set distance_extra_bits. b \<le> 16"
      "length length_extra_bits = 29" "length distance_extra_bits = 30"
    by (simp_all add: length_extra_bits_def distance_extra_bits_def)
  then show "k \<le> 28 \<Longrightarrow> length_extra_bits ! k \<le> 16" "k \<le> 29 \<Longrightarrow> distance_extra_bits ! k \<le> 16" by simp_all
qed

section \<open>Frequencies\<close>

text \<open>The symbols of an entry in the two alphabets.\<close>

definition len_symbol :: "nat \<Rightarrow> nat" where
  "len_symbol l = 257 + base_index length_base l 0"

definition dist_symbol :: "nat \<Rightarrow> nat" where
  "dist_symbol d = base_index distance_base d 0"

fun lit_symbol :: "lz77_entry \<Rightarrow> nat" where
  "lit_symbol (Literal b) = unat b"
| "lit_symbol (DistLength l d) = len_symbol l"

fun dist_symbols :: "lz77_entry \<Rightarrow> nat list" where
  "dist_symbols (Literal b) = []"
| "dist_symbols (DistLength l d) = [dist_symbol d]"

lemma get_len_encoding_symbol: "get_len_encoding l = Done e \<Longrightarrow> en_symbol e = len_symbol l"
  by (auto simp: get_len_encoding_def asserting_def Let_def len_symbol_def split: if_splits)

lemma get_dist_encoding_symbol: "get_dist_encoding d = Done e \<Longrightarrow> en_symbol e = dist_symbol d"
  by (auto simp: get_dist_encoding_def asserting_def Let_def dist_symbol_def split: if_splits)

lemma bump_Done: "i < length freq \<Longrightarrow> bump i freq = Done (freq[i := freq ! i + 1])"
  by (simp add: bump_def)

definition bumps :: "nat list \<Rightarrow> nat list \<Rightarrow> nat list" where
  "bumps is freq = foldl (\<lambda>freq i. freq[i := freq ! i + 1]) freq is"

lemma bumps_Nil [simp]: "bumps [] freq = freq"
  by (simp add: bumps_def)

lemma length_bumps [simp]: "length (bumps is freq) = length freq"
  by (induction "is" arbitrary: freq) (simp_all add: bumps_def)

lemma nth_bumps: "k < length freq \<Longrightarrow> bumps is freq ! k = freq ! k + length (filter ((=) k) is)"
  by (induction "is" arbitrary: freq) (auto simp: bumps_def nth_list_update)

lemma bumps_append: "bumps (xs @ ys) freq = bumps ys (bumps xs freq)"
  by (simp add: bumps_def)

lemma bumps_Cons: "bumps (i # is) freq = bumps is (freq[i := freq ! i + 1])"
  by (simp add: bumps_def)

lemma unat_byte_less: "unat (b :: 8 word) < 256"
  using unsigned_less [of b] by simp

lemma entry_frequencies_spec:
  assumes "\<forall>e\<in>set es. \<exists>n. entry_ok n e" "length lf = 286" "length df = 30"
  shows "entry_frequencies es lf df = Done (bumps (map lit_symbol es) lf, bumps (concat (map dist_symbols es)) df)"
  using assms
proof (induction es arbitrary: lf df)
  case (Cons e es)
  show ?case
  proof (cases e)
    case (Literal b)
    then show ?thesis using Cons unat_byte_less [of b] by (simp add: bump_Done bumps_Cons)
  next
    case (DistLength l d)
    then have ok: "3 \<le> l" "l \<le> s_max_length" "1 \<le> d" "d \<le> s_max_distance" using Cons.prems(1) by auto
    obtain k x where k: "k \<le> 28" "get_len_encoding l = Done \<lparr>en_symbol = 257 + k, en_extra_data = x, en_extra_len = length_extra_bits ! k\<rparr>"
      using get_len_encoding_spec [OF ok(1,2)] by blast
    obtain m y where m: "m \<le> 29" "get_dist_encoding d = Done \<lparr>en_symbol = m, en_extra_data = y, en_extra_len = distance_extra_bits ! m\<rparr>"
      using get_dist_encoding_spec [OF ok(3,4)] by blast
    show ?thesis
      using Cons DistLength k m get_len_encoding_symbol [OF k(2)] get_dist_encoding_symbol [OF m(2)]
      by (simp add: bump_Done bumps_Cons)
  qed
qed (simp add: bumps_def)

lemma get_frequencies_spec:
  assumes "\<forall>e\<in>set es. \<exists>n. entry_ok n e"
  shows "get_frequencies es =
    Done (bumps (map lit_symbol es @ [256]) (replicate 286 0), bumps (concat (map dist_symbols es)) (replicate 30 0))"
  unfolding get_frequencies_def
  by (simp add: entry_frequencies_spec [OF assms] bump_Done bumps_append bumps_Cons)


lemma two_used:
  assumes "x < length freq" "y < length freq" "x \<noteq> y" "freq ! x \<noteq> 0" "freq ! y \<noteq> 0"
  shows "2 \<le> length (used_syms freq)"
proof -
  have "{x, y} \<subseteq> set (used_syms freq)" using assms by (simp add: used_syms_def)
  then have "card {x, y} \<le> card (set (used_syms freq))" by (intro card_mono) simp_all
  also have "\<dots> \<le> length (used_syms freq)" by (rule card_length)
  finally show ?thesis using assms(3) by simp
qed

lemma literal_freq:
  assumes "e \<in> set es" "lit_symbol e < 286"
  shows "bumps (map lit_symbol es @ [256]) (replicate 286 0) ! lit_symbol e \<noteq> 0"
  using assms by (auto simp: nth_bumps filter_empty_conv)

section \<open>Stripped trees\<close>

definition strip_lens :: "nat list \<Rightarrow> nat list" where
  "strip_lens lens = rev (dropWhile (\<lambda>l. l = 0) (rev lens))"

lemma strip_lens_split: "\<exists>k. lens = strip_lens lens @ replicate k 0"
proof -
  have "takeWhile (\<lambda>l. l = 0) (rev lens) = replicate (length (takeWhile (\<lambda>l. l = 0) (rev lens))) 0"
    by (rule replicate_length_same [symmetric]) (auto dest: set_takeWhileD)
  then have "rev lens = replicate (length (takeWhile (\<lambda>l. l = 0) (rev lens))) 0 @ dropWhile (\<lambda>l. l = 0) (rev lens)"
    by (metis takeWhile_dropWhile_id)
  then have "lens = rev (dropWhile (\<lambda>l. l = 0) (rev lens)) @ replicate (length (takeWhile (\<lambda>l. l = 0) (rev lens))) 0"
    by (metis rev_append rev_replicate rev_rev_ident)
  then show ?thesis by (auto simp: strip_lens_def)
qed

lemma map_snd_canonical [simp]: "map snd (canonical_leaves lens) = lens"
  by (simp add: canonical_leaves_def comp_def map_nth)

lemma strip_tree_lens: "map snd (strip_tree tree) = strip_lens (map snd tree)"
  by (simp add: strip_tree_def strip_lens_def rev_map dropWhile_map comp_def)

lemma length_strip_tree: "length (strip_tree tree) = length (strip_lens (map snd tree))"
  by (metis length_map strip_tree_lens)

lemma first_code_cong: "(\<And>l. len_count xs l = len_count ys l) \<Longrightarrow> first_code xs n = first_code ys n"
  by (induction n) simp_all

lemma zero_tail:
  assumes lens: "lens = xs @ replicate k 0"
  shows "len_count lens l = len_count xs l" "kraft_sum lens = kraft_sum xs"
    "s < length xs \<Longrightarrow> codeword lens s = codeword xs s"
    "s < length lens \<Longrightarrow> lens ! s \<noteq> 0 \<Longrightarrow> s < length xs \<and> xs ! s = lens ! s"
proof -
  show count: "len_count lens l = len_count xs l" for l by (auto simp: lens len_count_def filter_empty_conv)
  have "sum_list (map (\<lambda>l. if l = 0 then 0 else 2 ^ (MAX_BITS - l)) (replicate k 0)) = (0::nat)" by (induction k) simp_all
  then show "kraft_sum lens = kraft_sum xs" by (simp add: lens kraft_sum_def)
  show "codeword lens s = codeword xs s" if "s < length xs"
    using that first_code_cong [OF count] by (simp add: codeword_def sym_code_def lens nth_append)
  show "s < length lens \<Longrightarrow> lens ! s \<noteq> 0 \<Longrightarrow> s < length xs \<and> xs ! s = lens ! s"
    by (auto simp: lens nth_append split: if_splits)
qed

lemma strip_lens_ok:
  assumes "lens_ok lens" "s < length lens" "lens ! s \<noteq> 0"
  shows "lens_ok (strip_lens lens)" "s < length (strip_lens lens)" "strip_lens lens ! s = lens ! s"
    "codeword (strip_lens lens) s = codeword lens s"
proof -
  obtain k where k: "lens = strip_lens lens @ replicate k 0" using strip_lens_split by blast
  show s: "s < length (strip_lens lens)" "strip_lens lens ! s = lens ! s" using zero_tail(4) [OF k assms(2,3)] by simp_all
  show "codeword (strip_lens lens) s = codeword lens s" using zero_tail(3) [OF k s(1)] by simp
  have "set (strip_lens lens) \<subseteq> set lens" using k by (metis Un_upper1 set_append)
  then show "lens_ok (strip_lens lens)"
    using assms(1) s(1) zero_tail(2) [OF k] by (auto simp: lens_ok_def)
qed

lemma length_strip_lens: "length (strip_lens lens) \<le> length lens"
  using strip_lens_split [of lens] by (metis le_add1 length_append)

section \<open>Code lengths\<close>

definition enc_ok :: "encoding \<Rightarrow> bool" where
  "enc_ok e \<longleftrightarrow> (en_symbol e \<le> 15 \<and> en_extra_len e = 0 \<and> en_extra_data e = 0) \<or>
     (en_symbol e = 16 \<and> en_extra_len e = 2 \<and> en_extra_data e < 4) \<or>
     (en_symbol e = 17 \<and> en_extra_len e = 3 \<and> en_extra_data e < 8) \<or>
     (en_symbol e = 18 \<and> en_extra_len e = 7 \<and> en_extra_data e < 128)"

definition rle_step :: "nat list \<Rightarrow> encoding \<Rightarrow> nat list" where
  "rle_step acc e = acc @ (if en_symbol e \<le> 15 then [en_symbol e]
     else if en_symbol e = 16 then replicate (en_extra_data e + 3) (last acc)
     else if en_symbol e = 17 then replicate (en_extra_data e + 3) 0
     else replicate (en_extra_data e + 11) 0)"

abbreviation rle_decode :: "encoding list \<Rightarrow> nat list" where
  "rle_decode \<equiv> foldl rle_step []"

definition rle_valid :: "encoding list \<Rightarrow> bool" where
  "rle_valid enc \<longleftrightarrow> (\<forall>e\<in>set enc. enc_ok e) \<and> (enc \<noteq> [] \<longrightarrow> en_symbol (hd enc) \<noteq> 16)"

lemma takeWhile_eq_replicate: "takeWhile ((=) l) ls = replicate (length (takeWhile ((=) l) ls)) l"
  by (rule replicate_length_same [symmetric]) (auto dest: set_takeWhileD)

lemma run_split:
  assumes "1 \<le> c" "c \<le> 1 + length (takeWhile ((=) l) ls)"
  shows "l # ls = replicate c l @ drop (c - 1) ls"
proof -
  let ?r = "length (takeWhile ((=) l) ls)"
  have "take (c - 1) ls = take (c - 1) (takeWhile ((=) l) ls @ dropWhile ((=) l) ls)" by simp
  also have "\<dots> = take (c - 1) (takeWhile ((=) l) ls)" using assms(2) by (simp only: take_append) simp
  also have "\<dots> = replicate (c - 1) l" using assms(2) by (subst takeWhile_eq_replicate) simp
  finally have "ls = replicate (c - 1) l @ drop (c - 1) ls" by (metis append_take_drop_id)
  then show ?thesis using assms(1) by (cases c) simp_all
qed

lemma rle_plain: "l \<le> 15 \<Longrightarrow> rle_step acc (plain_symbol l) = acc @ [l]"
  by (simp add: rle_step_def plain_symbol_def)

lemma rle_plain_zeros: "foldl rle_step acc (replicate n (plain_symbol 0)) = acc @ replicate n 0"
  by (induction n arbitrary: acc) (simp_all add: rle_plain)

lemma rle_last:
  assumes "enc \<noteq> []" "en_symbol (last enc) = l" "l \<le> 15"
  shows "last (rle_decode enc) = l"
proof -
  have "rle_decode enc = rle_step (rle_decode (butlast enc)) (last enc)"
    using assms(1) by (metis append_butlast_last_id foldl_append foldl_Cons foldl_Nil)
  then show ?thesis using assms(2,3) by (simp add: rle_step_def)
qed

lemma rle_valid_append:
  assumes "rle_valid enc" "\<forall>e\<in>set new. enc_ok e" "enc \<noteq> [] \<or> (\<forall>e\<in>set new. en_symbol e \<noteq> 16)"
  shows "rle_valid (enc @ new)"
  using assms by (cases "enc = []") (auto simp: rle_valid_def)

lemma rle_chunk_spec:
  assumes "l \<le> 15" "1 \<le> run" "rle_valid enc" "rle_chunk l run enc = (c, new)"
  shows "1 \<le> c" "c \<le> run" "rle_valid (enc @ new)" "rle_decode (enc @ new) = rle_decode enc @ replicate c l"
proof -
  have "1 \<le> c \<and> c \<le> run \<and> rle_valid (enc @ new) \<and> rle_decode (enc @ new) = rle_decode enc @ replicate c l"
  proof (cases "l = 0")
    case True
    then have c: "c = min run 138" using assms(4) by (simp add: rle_chunk_def Let_def)
    consider "c < 3" "new = replicate c (plain_symbol 0)"
      | "3 \<le> c" "c < 11" "new = [\<lparr>en_symbol = 17, en_extra_data = c - 3, en_extra_len = 3\<rparr>]"
      | "11 \<le> c" "new = [\<lparr>en_symbol = 18, en_extra_data = c - 11, en_extra_len = 7\<rparr>]"
      using assms(4) True c by (force simp: rle_chunk_def Let_def split: if_splits)
    then have "(\<forall>e\<in>set new. enc_ok e) \<and> (\<forall>e\<in>set new. en_symbol e \<noteq> 16) \<and> rle_decode (enc @ new) = rle_decode enc @ replicate c 0"
    proof cases
      case 1
      then show ?thesis by (simp add: rle_plain_zeros) (simp add: enc_ok_def plain_symbol_def)
    next
      case 2
      then show ?thesis by (simp add: enc_ok_def rle_step_def)
    next
      case 3
      then show ?thesis using c by (simp add: enc_ok_def rle_step_def)
    qed
    then show ?thesis using rle_valid_append [OF assms(3)] True c assms(2) by simp
  next
    case False
    show ?thesis
    proof (cases "3 \<le> run \<and> enc \<noteq> [] \<and> en_symbol (last enc) = l")
      case True
      then have c: "c = min run 6" "new = [\<lparr>en_symbol = 16, en_extra_data = c - 3, en_extra_len = 2\<rparr>]"
        using assms(4) False by (auto simp: rle_chunk_def Let_def)
      have "last (rle_decode enc) = l" using True assms(1) by (intro rle_last) auto
      then show ?thesis
        using c True rle_valid_append [OF assms(3), of new] by (simp add: enc_ok_def rle_step_def)
    next
      case no: False
      then have "c = 1" "new = [plain_symbol l]" using assms(4) False by (auto simp: rle_chunk_def)
      moreover have "enc_ok (plain_symbol l)" "en_symbol (plain_symbol l) \<noteq> 16" using assms(1) by (simp_all add: enc_ok_def plain_symbol_def)
      ultimately show ?thesis using rle_valid_append [OF assms(3), of new] rle_plain [OF assms(1)] assms(2) by simp
    qed
  qed
  then show "1 \<le> c" "c \<le> run" "rle_valid (enc @ new)" "rle_decode (enc @ new) = rle_decode enc @ replicate c l" by simp_all
qed

lemma append_lengths_spec:
  assumes "\<forall>l\<in>set ls. l \<le> 15" "rle_valid enc"
  shows "\<exists>more. append_lengths ls enc = enc @ more \<and> rle_valid (enc @ more) \<and> rle_decode (enc @ more) = rle_decode enc @ ls"
  using assms
proof (induction ls enc rule: append_lengths.induct)
  case (2 l ls enc)
  obtain c new where chunk: "rle_chunk l (1 + length (takeWhile ((=) l) ls)) enc = (c, new)" by fastforce
  note c = rle_chunk_spec [OF _ _ "2.prems"(2) chunk]
  have "\<forall>l\<in>set (drop (c - 1) ls). l \<le> 15" using "2.prems"(1) by (auto dest: in_set_dropD)
  then obtain more where more: "append_lengths (drop (c - 1) ls) (enc @ new) = (enc @ new) @ more"
      "rle_valid ((enc @ new) @ more)" "rle_decode ((enc @ new) @ more) = rle_decode (enc @ new) @ drop (c - 1) ls"
    using "2.IH" [OF chunk [symmetric]] c(3) "2.prems"(1) by fastforce
  have "rle_decode (enc @ (new @ more)) = rle_decode enc @ (replicate c l @ drop (c - 1) ls)"
    using more(3) c(4) "2.prems"(1) by simp
  also have "replicate c l @ drop (c - 1) ls = l # ls"
    using run_split [of c l ls, symmetric] c(1,2) "2.prems"(1) by simp
  finally show ?case using more chunk by (intro exI [of _ "new @ more"]) simp
qed simp

lemma rle_decode_nonempty: "rle_valid enc \<Longrightarrow> enc \<noteq> [] \<Longrightarrow> rle_decode enc \<noteq> []"
proof (induction enc rule: rev_induct)
  case (snoc e enc)
  then show ?case by (simp add: rle_step_def)
qed simp

text \<open>Every length that is decoded comes from its own symbol, or is a zero from a run of zeros.\<close>

lemma rle_symbols:
  assumes "rle_valid enc" "v \<in> set (rle_decode enc)"
  shows "v \<in> en_symbol ` set enc \<or> v = 0 \<and> (17 \<in> en_symbol ` set enc \<or> 18 \<in> en_symbol ` set enc)"
  using assms
proof (induction enc rule: rev_induct)
  case (snoc e enc)
  have valid: "rle_valid enc" using snoc.prems(1) by (cases "enc = []") (auto simp: rle_valid_def)
  show ?case
  proof (cases "v \<in> set (rle_decode enc)")
    case True
    then show ?thesis using snoc.IH [OF valid] by auto
  next
    case False
    have new: "v \<in> set (rle_step (rle_decode enc) e) - set (rle_decode enc)" using False snoc.prems(2) by simp
    have "enc_ok e" using snoc.prems(1) by (simp add: rle_valid_def)
    moreover have "en_symbol e \<noteq> 16"
    proof
      assume e: "en_symbol e = 16"
      then have "enc \<noteq> []" using snoc.prems(1) by (auto simp: rle_valid_def)
      then have "last (rle_decode enc) \<in> set (rle_decode enc)" using rle_decode_nonempty [OF valid] by simp
      then show False using new e by (auto simp: rle_step_def)
    qed
    ultimately show ?thesis using new by (auto simp: rle_step_def enc_ok_def split: if_splits)
  qed
qed simp

lemma append_lengths_prefix: "\<exists>more. append_lengths ls enc = enc @ more"
proof (induction ls enc rule: append_lengths.induct)
  case (2 l ls enc)
  obtain c new where chunk: "rle_chunk l (1 + length (takeWhile ((=) l) ls)) enc = (c, new)" by fastforce
  then show ?case using "2.IH" [OF chunk [symmetric]] by auto
qed simp

lemma constant_lengths_repeat:
  assumes "l \<noteq> 0"
  shows "{l, 16} \<subseteq> en_symbol ` set (append_lengths (l # l # l # l # ls) [])"
proof -
  let ?e = "\<lparr>en_symbol = 16, en_extra_data = min (1 + length (takeWhile ((=) l) (l # l # ls))) 6 - 3, en_extra_len = 2\<rparr>"
  have "append_lengths (l # l # l # l # ls) [] = append_lengths (l # l # l # ls) [plain_symbol l]"
    using assms by (simp add: rle_chunk_def)
  also have "\<dots> = append_lengths (drop (min (1 + length (takeWhile ((=) l) (l # l # ls))) 6 - 1) (l # l # ls)) [plain_symbol l, ?e]"
    using assms by (simp add: rle_chunk_def plain_symbol_def Let_def)
  finally obtain more where "append_lengths (l # l # l # l # ls) [] = [plain_symbol l, ?e] @ more"
    using append_lengths_prefix by metis
  then show ?thesis by (simp add: plain_symbol_def)
qed

lemma two_code_length_symbols:
  assumes "4 \<le> length L" "\<forall>l\<in>set L. l \<le> 15" "l0 \<in> set L" "l0 \<noteq> 0"
  shows "\<exists>x\<in>en_symbol ` set (append_lengths L []). \<exists>y\<in>en_symbol ` set (append_lengths L []). x \<noteq> y"
proof -
  let ?S = "en_symbol ` set (append_lengths L [])"
  have "rle_valid []" by (simp add: rle_valid_def)
  then have enc: "rle_valid (append_lengths L [])" "rle_decode (append_lengths L []) = L"
    using append_lengths_spec [OF assms(2), of "[]"] by auto
  have sym: "v \<in> ?S \<or> v = 0 \<and> (17 \<in> ?S \<or> 18 \<in> ?S)" if "v \<in> set L" for v
    using rle_symbols [OF enc(1)] that enc(2) by simp
  show ?thesis
  proof (cases "\<exists>v\<in>set L. v \<noteq> l0")
    case True
    then obtain v where v: "v \<in> set L" "v \<noteq> l0" by blast
    have "l0 \<in> ?S" using sym [OF assms(3)] assms(4) by blast
    moreover have "l0 \<le> 15" using assms(2,3) by blast
    moreover have "\<exists>y\<in>?S. y = v \<or> y = 17 \<or> y = 18" using sym [OF v(1)] by blast
    ultimately show ?thesis using v(2) by force
  next
    case False
    then have "L = replicate (length L) l0" by (intro replicate_length_same [symmetric]) auto
    then obtain ls where "L = l0 # l0 # l0 # l0 # ls"
    proof -
      have "length L = Suc (Suc (Suc (Suc (length L - 4))))" using assms(1) by simp
      then have "L = l0 # l0 # l0 # l0 # replicate (length L - 4) l0"
        using \<open>L = replicate (length L) l0\<close> by (metis replicate_Suc)
      then show ?thesis by (rule that)
    qed
    then have "{l0, 16} \<subseteq> ?S" using constant_lengths_repeat [OF assms(4)] by simp
    moreover have "l0 \<le> 15" using assms(2,3) by blast
    ultimately show ?thesis by (intro bexI [of _ l0] bexI [of _ 16]) auto
  qed
qed

lemma count_symbols_spec:
  "\<forall>e\<in>set es. en_symbol e < length freq \<Longrightarrow> count_symbols es freq = Done (bumps (map en_symbol es) freq)"
  by (induction es arbitrary: freq) (simp_all add: bump_Done bumps_Cons)

lemma enc_ok_symbol: "enc_ok e \<Longrightarrow> en_symbol e \<le> 18"
  by (auto simp: enc_ok_def)

lemma code_length_order_facts:
  "length code_length_order = 19" "distinct code_length_order" "set code_length_order = {0..<19}"
proof -
  show "length code_length_order = 19" "distinct code_length_order" by (simp_all add: code_length_order_def)
  have "sort code_length_order = [0..<19]" by (simp add: code_length_order_def upt_rec)
  then show "set code_length_order = {0..<19}" by (metis set_sort set_upt)
qed

lemma build_code_length_info_spec:
  assumes "\<forall>l\<in>set L. l \<le> 15" "\<forall>l\<in>set D. l \<le> 15" "4 \<le> length L" "l0 \<in> set L" "l0 \<noteq> 0"
    and "strip_lens (map snd lt) = L" "strip_lens (map snd dt) = D"
  shows "\<exists>enc clens. build_code_length_info lt dt =
      Done \<lparr>ci_hlit = length L, ci_hdist = length D, ci_hclen = trim_hclen (map ((!) clens) code_length_order) 19,
            ci_encoding = enc, ci_code_length = map ((!) clens) code_length_order, ci_code_length_tree = canonical_leaves clens\<rparr> \<and>
    rle_valid enc \<and> rle_decode enc = L @ D \<and> lens_ok clens \<and> length clens = 19 \<and> (\<forall>e\<in>set enc. clens ! en_symbol e \<noteq> 0)"
proof -
  define enc where "enc = append_lengths D (append_lengths L [])"
  have "rle_valid []" by (simp add: rle_valid_def)
  then have e1: "rle_valid (append_lengths L [])" "rle_decode (append_lengths L []) = L"
    using append_lengths_spec [OF assms(1), of "[]"] by auto
  from append_lengths_spec [OF assms(2) e1(1)] obtain more where more: "enc = append_lengths L [] @ more"
      "rle_valid enc" "rle_decode enc = L @ D"
    using e1(2) by (auto simp: enc_def)
  have small: "\<forall>e\<in>set enc. en_symbol e < 19" using more(2) enc_ok_symbol by (fastforce simp: rle_valid_def)
  define freq where "freq = bumps (map en_symbol enc) (replicate 19 0)"
  have freq: "freq ! s = length (filter ((=) s) (map en_symbol enc))" if "s < 19" for s
    using that by (simp add: freq_def nth_bumps)
  have used: "freq ! en_symbol e \<noteq> 0" if "e \<in> set enc" for e
    using freq [of "en_symbol e"] small that by (auto simp: filter_empty_conv)
  obtain x y where xy: "x \<in> en_symbol ` set enc" "y \<in> en_symbol ` set enc" "x \<noteq> y"
    using two_code_length_symbols [OF assms(3,1,4,5)] more(1) by auto
  have "2 \<le> length (used_syms freq)"
    using xy small used by (intro two_used [of x _ y]) (auto simp: freq_def)
  moreover have len: "length freq = 19" by (simp add: freq_def)
  ultimately obtain clens where clens: "create_huffman_tree freq = Done (canonical_leaves clens)" "complete_lens freq clens"
    using create_huffman_tree_spec [of freq] by (auto simp: s_max_symbols_def)
  have "freq \<noteq> []" using len by auto
  then have cl: "length clens = 19" "lens_ok clens" "\<forall>e\<in>set enc. clens ! en_symbol e \<noteq> 0"
    using clens(2) len used small complete_lens_ok [OF clens(2)] by (auto simp: complete_lens_def)
  have snd: "map (\<lambda>i. snd (canonical_leaves clens ! i)) code_length_order = map ((!) clens) code_length_order"
    using code_length_order_facts(3) cl(1) by (intro map_cong) (auto simp: canonical_leaves_def)
  have "append_tree dt (append_tree lt []) = enc" by (simp add: append_tree_def strip_tree_lens assms(6,7) enc_def)
  then have "build_code_length_info lt dt =
      Done \<lparr>ci_hlit = length L, ci_hdist = length D, ci_hclen = trim_hclen (map ((!) clens) code_length_order) 19,
            ci_encoding = enc, ci_code_length = map ((!) clens) code_length_order, ci_code_length_tree = canonical_leaves clens\<rparr>"
    using count_symbols_spec [of enc "replicate 19 0"] small clens(1)
    by (simp add: build_code_length_info_def Let_def freq_def length_strip_tree assms(6,7) snd)
  then show ?thesis using more(2,3) cl by blast
qed

section \<open>Reading the code lengths\<close>

lemma take_bits_prefix:
  assumes "bi_ok s" "bi_bits s = nat_bits n v @ rest" "n \<le> 16"
  obtains s' where "take_bits n s = Done (Inr (s', take_bit n v))" "bi_ok s'" "bi_bits s' = rest"
  using take_bits_spec [OF assms(1,3)] assms(2) by (metis append_eq_conv_conj bits_val_nat_bits length_append length_nat_bits le_add1)

lemma trim_hclen_spec:
  "trim_hclen cl n \<le> n \<and> (4 \<le> n \<longrightarrow> 4 \<le> trim_hclen cl n) \<and> (\<forall>i. trim_hclen cl n \<le> i \<and> i < n \<longrightarrow> cl ! i = 0)"
proof (induction n)
  case (Suc n)
  show ?case
  proof (cases "Suc n > 4 \<and> cl ! n = 0")
    case True
    then show ?thesis using Suc by (auto simp: less_Suc_eq)
  qed auto
qed simp

lemma read_code_lengths_spec:
  assumes "bi_ok s" "bi_bits s = concat (map (nat_bits 3) vs) @ rest" "length is = length vs" "\<forall>v\<in>set vs. v < 8"
  shows "\<exists>s'. read_code_lengths is lens s = Done (Inr (s', upds lens (zip is vs))) \<and> bi_ok s' \<and> bi_bits s' = rest"
  using assms
proof (induction "is" arbitrary: vs lens s)
  case (Cons i "is")
  obtain v vs' where vs: "vs = v # vs'" using Cons.prems(3) by (cases vs) auto
  have bits: "bi_bits s = nat_bits 3 v @ (concat (map (nat_bits 3) vs') @ rest)" using Cons.prems(2) vs by simp
  obtain s1 where s1: "take_bits 3 s = Done (Inr (s1, take_bit 3 v))" "bi_ok s1" "bi_bits s1 = concat (map (nat_bits 3) vs') @ rest"
    using take_bits_prefix [OF Cons.prems(1) bits] by auto
  have "take_bit 3 v = v" using Cons.prems(4) vs by (simp add: take_bit_nat_eq_self)
  then show ?case using Cons.IH [OF s1(2,3), of "lens[i := v]"] Cons.prems(3,4) vs s1(1) by simp
qed simp

lemma code_lengths_restored:
  assumes "length clens = 19"
  defines "cl \<equiv> map ((!) clens) code_length_order"
  defines "h \<equiv> trim_hclen cl 19"
  shows "upds (replicate 19 0) (zip (take h code_length_order) (take h cl)) = clens"
proof (rule nth_equalityI)
  let ?ps = "zip (take h code_length_order) (take h cl)"
  have h: "h \<le> 19" "\<forall>i. h \<le> i \<and> i < 19 \<longrightarrow> cl ! i = 0" using trim_hclen_spec [of cl 19] by (simp_all add: h_def)
  have lens: "length cl = 19" "length code_length_order = 19" by (simp_all add: cl_def code_length_order_facts)
  have fst: "map fst ?ps = take h code_length_order" using h(1) lens by simp
  have dist: "distinct (map fst ?ps)" unfolding fst using code_length_order_facts(2) by simp
  fix j assume "j < length (upds (replicate 19 0) ?ps)"
  then have j: "j < 19" by simp
  then obtain i where i: "i < 19" "code_length_order ! i = j"
    using code_length_order_facts by (metis atLeastLessThan_iff in_set_conv_nth zero_le)
  have clj: "cl ! i = clens ! j" using i lens by (simp add: cl_def code_length_order_facts)
  show "upds (replicate 19 0) ?ps ! j = clens ! j"
  proof (cases "i < h")
    case True
    have "(j, clens ! j) \<in> set ?ps"
      using True i clj h(1) lens by (auto simp: in_set_zip intro!: exI [of _ i])
    then have "map_of ?ps j = Some (clens ! j)" using dist by (simp add: map_of_is_SomeI)
    then show ?thesis using nth_upds [OF dist] j by simp
  next
    case False
    have "j \<notin> set (map fst ?ps)"
    proof
      assume "j \<in> set (map fst ?ps)"
      then obtain k where "k < h" "code_length_order ! k = j" unfolding fst using h(1) lens by (auto simp: in_set_conv_nth)
      then show False using i False h(1) code_length_order_facts(1,2) by (metis less_le_trans nth_eq_iff_index_eq)
    qed
    then have "map_of ?ps j = None" by (metis list.set_map map_of_eq_None_iff)
    moreover have "clens ! j = 0" using h(2) False i clj by simp
    ultimately show ?thesis using nth_upds [OF dist] j by simp
  qed
qed (simp add: assms(1))

definition enc_bits :: "nat list \<Rightarrow> encoding \<Rightarrow> bool list" where
  "enc_bits clens e = codeword clens (en_symbol e) @ nat_bits (en_extra_len e) (en_extra_data e)"

lemma code_length_run_spec:
  assumes "enc_ok e" "bi_ok s" "bi_bits s = nat_bits (en_extra_len e) (en_extra_data e) @ rest" "en_symbol e = 16 \<longrightarrow> lst = last acc"
  shows "\<exists>s' v cnt. code_length_run (en_symbol e) lst s = Done (Inr (s', v, cnt)) \<and> bi_ok s' \<and> bi_bits s' = rest \<and>
    1 \<le> cnt \<and> rle_step acc e = acc @ replicate cnt v"
proof -
  have "en_extra_len e \<le> 16" using assms(1) by (auto simp: enc_ok_def)
  then obtain s' where s': "take_bits (en_extra_len e) s = Done (Inr (s', take_bit (en_extra_len e) (en_extra_data e)))"
      "bi_ok s'" "bi_bits s' = rest"
    using take_bits_prefix [OF assms(2,3)] by blast
  have "en_extra_data e < 2 ^ en_extra_len e" using assms(1) by (auto simp: enc_ok_def)
  then have x: "take_bit (en_extra_len e) (en_extra_data e) = en_extra_data e" by (simp add: take_bit_nat_eq_self)
  consider "en_symbol e \<le> 15" "en_extra_len e = 0" | "en_symbol e = 16" "en_extra_len e = 2"
    | "en_symbol e = 17" "en_extra_len e = 3" | "en_symbol e = 18" "en_extra_len e = 7"
    using assms(1) by (auto simp: enc_ok_def)
  then show ?thesis
  proof cases
    case 1
    then show ?thesis using assms(2,3) by (intro exI [of _ s] exI [of _ "en_symbol e"] exI [of _ 1]) (simp add: code_length_run_def rle_step_def)
  next
    case 2
    then show ?thesis using s' x assms(4)
      by (intro exI [of _ s'] exI [of _ "last acc"] exI [of _ "en_extra_data e + 3"]) (simp add: code_length_run_def rle_step_def)
  next
    case 3
    then show ?thesis using s' x
      by (intro exI [of _ s'] exI [of _ 0] exI [of _ "en_extra_data e + 3"]) (simp add: code_length_run_def rle_step_def)
  next
    case 4
    then show ?thesis using s' x
      by (intro exI [of _ s'] exI [of _ 0] exI [of _ "en_extra_data e + 11"]) (simp add: code_length_run_def rle_step_def)
  qed
qed

lemma length_rle_mono: "length acc \<le> length (foldl rle_step acc es)"
proof (induction es arbitrary: acc)
  case (Cons e es)
  have "length acc \<le> length (rle_step acc e)" by (simp add: rle_step_def)
  also have "\<dots> \<le> length (foldl rle_step (rle_step acc e) es)" by (rule Cons.IH)
  finally show ?case by simp
qed simp

lemma dynamic_loop_spec:
  assumes dec: "decodes t clens" "length clens = 19"
    and es: "\<forall>e\<in>set es. enc_ok e \<and> clens ! en_symbol e \<noteq> 0" "es \<noteq> [] \<and> acc = [] \<longrightarrow> en_symbol (hd es) \<noteq> 16"
    and lst: "acc \<noteq> [] \<longrightarrow> lst = last acc"
    and s: "bi_ok s" "bi_bits s = concat (map (enc_bits clens) es) @ rest" "9 \<le> length rest"
    and total_len: "total_len = length (foldl rle_step acc es)" "total_len \<le> 318"
  shows "\<exists>s'. dynamic_loop t total_len acc lst s = Done (Inr (s', foldl rle_step acc es)) \<and> bi_ok s' \<and> bi_bits s' = rest"
  using es lst s(1,2) total_len
proof (induction es arbitrary: acc lst s)
  case Nil
  then show ?case by (simp add: dynamic_loop.simps [of t _ acc])
next
  case (Cons e es)
  let ?bits = "nat_bits (en_extra_len e) (en_extra_data e) @ concat (map (enc_bits clens) es) @ rest"
  have e: "enc_ok e" "clens ! en_symbol e \<noteq> 0" "en_symbol e < length clens"
    using Cons.prems(1) dec(2) enc_ok_symbol [of e] by auto
  have bits: "bi_bits s = codeword clens (en_symbol e) @ ?bits" using Cons.prems(5) by (simp add: enc_bits_def [of clens e])
  have "ht_instant_bits t \<le> 9" using dec(1) by (auto simp: decodes_def)
  then have "ht_instant_bits t \<le> length (bi_bits s)" using bits s(3) by simp
  then obtain s1 where s1: "read_symbol t s = Done (Inr (s1, en_symbol e))" "bi_ok s1" "bi_bits s1 = ?bits"
    using read_symbol_correct [OF dec(1) e(3,2) Cons.prems(4) bits] by blast
  have "en_symbol e = 16 \<longrightarrow> lst = last acc" using Cons.prems(2,3) by auto
  then obtain s2 v cnt where s2: "code_length_run (en_symbol e) lst s1 = Done (Inr (s2, v, cnt))" "bi_ok s2"
      "bi_bits s2 = concat (map (enc_bits clens) es) @ rest" "1 \<le> cnt" "rle_step acc e = acc @ replicate cnt v"
    using code_length_run_spec [OF e(1) s1(2,3)] by blast
  have total': "total_len = length (foldl rle_step (acc @ replicate cnt v) es)" using Cons.prems(6) s2(5) by simp
  have le: "length acc + cnt \<le> total_len" using length_rle_mono [of "acc @ replicate cnt v" es] total' by simp
  have next_acc: "acc @ replicate cnt v \<noteq> []" "v = last (acc @ replicate cnt v)" using s2(4) by (cases cnt; simp)+
  obtain s' where s': "dynamic_loop t total_len (acc @ replicate cnt v) v s2 = Done (Inr (s', foldl rle_step (acc @ replicate cnt v) es))"
      "bi_ok s'" "bi_bits s' = rest"
    using Cons.IH [of "acc @ replicate cnt v" v s2] Cons.prems(1,7) next_acc s2(2,3) total' by auto
  have "dynamic_loop t total_len acc lst s = dynamic_loop t total_len (acc @ replicate cnt v) v s2"
    using le s2(4) s1(1) s2(1) enc_ok_symbol [OF e(1)] Cons.prems(7) by (simp add: dynamic_loop.simps [of t total_len acc])
  then show ?case using s' s2(5) by simp
qed

lemma fields_bits_append: "fields_bits (xs @ ys) = fields_bits xs @ fields_bits ys"
  by (simp add: fields_bits_def)

lemma fields_bits_Cons: "fields_bits ((v, n) # xs) = nat_bits n v @ fields_bits xs"
  by (simp add: fields_bits_def)

lemma fields_bits_Nil [simp]: "fields_bits [] = []"
  by (simp add: fields_bits_def)

lemma leaf_field_bits:
  assumes "s < length lens" "lens ! s \<noteq> 0"
  shows "fields_bits (leaf_field (canonical_leaves lens ! s) # fs) = codeword lens s @ fields_bits fs"
  using assms by (simp add: leaf_field_def canonical_leaves_def fields_bits_Cons codeword_def nat_bits_reverse_bits)

lemma u16_sub_small: "b \<le> a \<Longrightarrow> a < 2 ^ 16 \<Longrightarrow> u16_sub a b = a - b"
proof -
  assume le: "b \<le> a" "a < 2 ^ 16"
  then have "a + 2 ^ 16 - b = (a - b) + 2 ^ 16" by simp
  then have "u16_sub a b = (a - b) mod 2 ^ 16" by (simp only: u16_sub_def mod_add_self2)
  then show ?thesis using le by simp
qed

lemma header_fields_bits:
  assumes info: "info = \<lparr>ci_hlit = length L, ci_hdist = length D, ci_hclen = h, ci_encoding = enc,
      ci_code_length = cl, ci_code_length_tree = canonical_leaves clens\<rparr>"
    and "length clens = 19" "\<forall>e\<in>set enc. en_symbol e < 19 \<and> clens ! en_symbol e \<noteq> 0" "h \<le> length cl"
  shows "fields_bits (header_fields final info) = nat_bits 1 (of_bool final) @ nat_bits 2 2 @
    nat_bits 5 (u16_sub (length L) 257) @ nat_bits 5 (u16_sub (length D) 1) @ nat_bits 4 (u16_sub h 4) @
    concat (map (nat_bits 3) (take h cl)) @ concat (map (enc_bits clens) enc)"
proof -
  have "fields_bits (map (\<lambda>i. (cl ! i, 3)) [0..<h]) = concat (map (nat_bits 3) (map ((!) cl) [0..<h]))"
    by (simp add: fields_bits_def comp_def)
  also have "map ((!) cl) [0..<h] = take h cl" using assms(4) by (intro nth_equalityI) simp_all
  finally have lens: "fields_bits (map (\<lambda>i. (cl ! i, 3)) [0..<h]) = concat (map (nat_bits 3) (take h cl))" .
  have "fields_bits (concat (map (\<lambda>e. [leaf_field (canonical_leaves clens ! en_symbol e), (en_extra_data e, en_extra_len e)]) enc)) =
      concat (map (enc_bits clens) enc)"
    using assms(3)
  proof (induction enc)
    case (Cons e enc)
    then show ?case using assms(2) by (simp add: leaf_field_bits fields_bits_Cons enc_bits_def)
  qed simp
  then show ?thesis using lens by (simp add: header_fields_def info fields_bits_append fields_bits_Cons)
qed

lemma handle_dynamic_header_spec:
  assumes L: "lens_ok L" "257 \<le> length L" "length L \<le> 286" and D: "lens_ok D" "1 \<le> length D" "length D \<le> 30"
    and enc: "rle_valid enc" "rle_decode enc = L @ D" "\<forall>e\<in>set enc. clens ! en_symbol e \<noteq> 0"
    and clens: "lens_ok clens" "length clens = 19" "\<forall>l\<in>set clens. l < 8"
  defines "cl \<equiv> map ((!) clens) code_length_order"
  defines "h \<equiv> trim_hclen cl 19"
  assumes s: "bi_ok s" "bi_bits s = nat_bits 5 (u16_sub (length L) 257) @ nat_bits 5 (u16_sub (length D) 1) @ nat_bits 4 (u16_sub h 4) @
      concat (map (nat_bits 3) (take h cl)) @ concat (map (enc_bits clens) enc) @ rest" "9 \<le> length rest"
  shows "\<exists>s' lt dt. handle_dynamic_header s = Done (Inr (s', lt, dt)) \<and> decodes lt L \<and> decodes dt D \<and> bi_ok s' \<and> bi_bits s' = rest"
proof -
  have cl: "length cl = 19" by (simp add: cl_def code_length_order_facts)
  have h: "4 \<le> h" "h \<le> 19" using trim_hclen_spec [of cl 19] by (simp_all add: h_def)
  have v1: "take_bit 5 (u16_sub (length L) 257) + 257 = length L" using L by (simp add: u16_sub_small take_bit_nat_eq_self)
  have v2: "take_bit 5 (u16_sub (length D) 1) + 1 = length D" using D by (simp add: u16_sub_small take_bit_nat_eq_self)
  have v3: "take_bit 4 (u16_sub h 4) + 4 = h" using h by (simp add: u16_sub_small take_bit_nat_eq_self)
  obtain s1 where s1: "take_bits 5 s = Done (Inr (s1, take_bit 5 (u16_sub (length L) 257)))" "bi_ok s1"
      "bi_bits s1 = nat_bits 5 (u16_sub (length D) 1) @ nat_bits 4 (u16_sub h 4) @
      concat (map (nat_bits 3) (take h cl)) @ concat (map (enc_bits clens) enc) @ rest"
    using take_bits_prefix [OF s(1,2)] by auto
  obtain s2 where s2: "take_bits 5 s1 = Done (Inr (s2, take_bit 5 (u16_sub (length D) 1)))" "bi_ok s2"
      "bi_bits s2 = nat_bits 4 (u16_sub h 4) @ concat (map (nat_bits 3) (take h cl)) @ concat (map (enc_bits clens) enc) @ rest"
    using take_bits_prefix [OF s1(2,3)] by auto
  obtain s3 where s3: "take_bits 4 s2 = Done (Inr (s3, take_bit 4 (u16_sub h 4)))" "bi_ok s3"
      "bi_bits s3 = concat (map (nat_bits 3) (take h cl)) @ concat (map (enc_bits clens) enc) @ rest"
    using take_bits_prefix [OF s2(2,3)] by auto
  have small: "\<forall>v\<in>set (take h cl). v < 8"
  proof
    fix v assume "v \<in> set (take h cl)"
    then have "v \<in> set cl" by (rule in_set_takeD)
    then show "v < 8" using clens(2,3) code_length_order_facts(3) by (auto simp: cl_def)
  qed
  obtain s4 where s4: "read_code_lengths (take h code_length_order) (replicate 19 0) s3 = Done (Inr (s4, clens))" "bi_ok s4"
      "bi_bits s4 = concat (map (enc_bits clens) enc) @ rest"
    using read_code_lengths_spec [OF s3(2,3) _ small, of "take h code_length_order" "replicate 19 0"]
      code_lengths_restored [OF clens(2)] cl code_length_order_facts(1)
    by (auto simp: cl_def [symmetric] h_def [symmetric])
  obtain t where t: "huffman_create clens = Done (Inr t)" "decodes t clens" using huffman_create_decodes [OF clens(1)] by blast
  have es: "\<forall>e\<in>set enc. enc_ok e \<and> clens ! en_symbol e \<noteq> 0" "enc \<noteq> [] \<and> [] = [] \<longrightarrow> en_symbol (hd enc) \<noteq> 16"
    using enc(1,3) by (auto simp: rle_valid_def)
  obtain s5 where s5: "dynamic_loop t (length L + length D) [] 0 s4 = Done (Inr (s5, L @ D))" "bi_ok s5" "bi_bits s5 = rest"
    using dynamic_loop_spec [OF t(2) clens(2) es _ s4(2,3) s(3)] enc(2) L(3) D(3) by auto
  obtain lt where lt: "huffman_create L = Done (Inr lt)" "decodes lt L" using huffman_create_decodes [OF L(1)] by blast
  obtain dt where dt: "huffman_create D = Done (Inr dt)" "decodes dt D" using huffman_create_decodes [OF D(1)] by blast
  have "handle_dynamic_header s = Done (Inr (s5, lt, dt))"
    unfolding handle_dynamic_header_def s1(1) tbind_simps prod.case Let_def v1 s2(1) v2 s3(1) v3 s4(1) t(1) s5(1)
    using lt(1) dt(1) by simp
  then show ?thesis using lt(2) dt(2) s5(2,3) by blast
qed

lemma scan_lengths_min: "scan_lengths n ls s = Done s' \<Longrightarrow> ls_min_bits s \<noteq> 0 \<Longrightarrow> ls_min_bits s' \<noteq> 0"
  by (induction ls arbitrary: n s) (auto simp: asserting_eq_Done_iff split: if_splits)

lemma huffman_create_not_empty: "huffman_create lens = Done (Inr t) \<Longrightarrow> \<not> huffman_empty t"
  by (auto simp: huffman_create_def huffman_empty_def Let_def rbind_eq_Done_iff asserting_eq_Done_iff MAX_BITS_def
      elim!: tbind_eq_InrD dest!: scan_lengths_min split: prod.splits)

section \<open>The window\<close>

abbreviation window_len :: nat where
  "window_len \<equiv> total_window_size"

definition win_ok :: "8 word list \<Rightarrow> 8 word list \<Rightarrow> bool" where
  "win_ok w hist \<longleftrightarrow> length w = window_len \<and>
     (\<forall>n < length hist. length hist \<le> n + window_len \<longrightarrow> w ! (n mod window_len) = hist ! n)"

definition window_inv :: "decompressor \<Rightarrow> 8 word list \<Rightarrow> bool" where
  "window_inv d hist \<longleftrightarrow> win_ok (d_window d) hist \<and> d_window_size d = min window_len (length hist) \<and>
     (d_window_tail d + d_window_size d) mod window_len = length hist mod window_len"

lemma window_len_pos: "0 < window_len"
  by (simp add: total_window_size_def)

lemma mod_window_neq:
  assumes "n < m" "m < n + window_len"
  shows "n mod window_len \<noteq> m mod window_len"
proof
  assume "n mod window_len = m mod window_len"
  then have "window_len dvd m - n" using assms(1) by (metis less_imp_le mod_eq_dvd_iff_nat)
  then show False using assms by (auto dest: dvd_imp_le)
qed

lemma window_inv_fields [simp]:
  "window_inv (d\<lparr>d_stream := s\<rparr>) hist = window_inv d hist"
  "window_inv (d\<lparr>d_state := st\<rparr>) hist = window_inv d hist"
  "window_inv (d\<lparr>d_produced := n\<rparr>) hist = window_inv d hist"
  "window_inv (d\<lparr>d_bfinal := b\<rparr>) hist = window_inv d hist"
  "window_inv (d\<lparr>d_adler := a\<rparr>) hist = window_inv d hist"
  "window_inv (d\<lparr>d_crc32 := c\<rparr>) hist = window_inv d hist"
  "window_inv (d\<lparr>d_isize := i\<rparr>) hist = window_inv d hist"
  "window_inv (d\<lparr>d_length_tree := lt\<rparr>) hist = window_inv d hist"
  "window_inv (d\<lparr>d_distance_tree := dt\<rparr>) hist = window_inv d hist"
  by (simp_all add: window_inv_def)

lemma mod_add_cancel_nat:
  assumes "(a + c) mod m = (b + c) mod (m::nat)"
  shows "a mod m = b mod m"
proof (cases "a \<le> b")
  case True
  then have "m dvd (b + c) - (a + c)" using assms mod_eq_dvd_iff_nat [of "a + c" "b + c" m] by simp
  then show ?thesis using True mod_eq_dvd_iff_nat [of a b m] by simp
next
  case False
  then have "m dvd (a + c) - (b + c)" using assms mod_eq_dvd_iff_nat [of "b + c" "a + c" m] by simp
  then show ?thesis using False mod_eq_dvd_iff_nat [of b a m] by simp
qed

lemma win_ok_push:
  assumes "win_ok w hist"
  shows "win_ok (w[length hist mod window_len := b]) (hist @ [b])"
proof -
  have len: "length hist mod window_len < length w" using assms window_len_pos by (simp add: win_ok_def)
  have "w[length hist mod window_len := b] ! (n mod window_len) = (hist @ [b]) ! n"
    if n: "n < length (hist @ [b])" "length (hist @ [b]) \<le> n + window_len" for n
  proof (cases "n = length hist")
    case True
    then show ?thesis using len by simp
  next
    case False
    then have "n mod window_len \<noteq> length hist mod window_len" using n by (intro mod_window_neq) auto
    then show ?thesis using n False assms by (simp add: win_ok_def nth_append)
  qed
  then show ?thesis using assms unfolding win_ok_def by simp
qed

lemma window_copy_spec:
  assumes "win_ok w hist" "to mod window_len = length hist mod window_len"
    and "from mod window_len = (length hist - d) mod window_len" "1 \<le> d" "d \<le> length hist" "d \<le> window_len"
  shows "win_ok (window_copy to from n w) ((copy_byte d ^^ n) hist)"
  using assms(1-3,5)
proof (induction n arbitrary: w hist to "from")
  case (Suc n)
  have "w ! (from mod window_len) = hist ! (length hist - d)"
    using Suc.prems assms(4,6) unfolding Suc.prems(3) by (simp add: win_ok_def)
  then have "win_ok (w[to mod window_len := w ! (from mod window_len)]) (copy_byte d hist)"
    using win_ok_push [OF Suc.prems(1)] Suc.prems(2) by (simp add: copy_byte_def)
  moreover have "(to + 1) mod window_len = length (copy_byte d hist) mod window_len"
    using mod_add_cong [OF Suc.prems(2) refl, of 1] by (simp add: copy_byte_def)
  moreover have "(from + 1) mod window_len = (length (copy_byte d hist) - d) mod window_len"
    using mod_add_cong [OF Suc.prems(3) refl, of 1] Suc.prems(4) by (simp add: copy_byte_def Suc_diff_le)
  moreover have "d \<le> length (copy_byte d hist)" using Suc.prems(4) by (simp add: copy_byte_def)
  ultimately have "win_ok (window_copy (to + 1) (from + 1) n (w[to mod window_len := w ! (from mod window_len)])) ((copy_byte d ^^ n) (copy_byte d hist))"
    by (rule Suc.IH)
  then show ?case by (simp add: funpow_swap1)
qed simp

lemma window_advance_inv:
  assumes "win_ok w' hist'" "length hist' = length hist + n" "window_inv d hist"
  shows "window_inv (window_advance n (d\<lparr>d_stream := s, d_window := w'\<rparr>)) hist'"
proof -
  have inv: "d_window_size d = min window_len (length hist)"
      "(d_window_tail d + d_window_size d) mod window_len = length hist mod window_len"
    using assms(3) unfolding window_inv_def by blast+
  have head: "(d_window_tail d + (d_window_size d + n)) mod window_len = length hist' mod window_len"
    using mod_add_cong [OF inv(2) refl, of n] assms(2) by (simp add: add.assoc)
  show ?thesis
  proof (cases "d_window_size d + n > window_len")
    case True
    have "d_window_tail d + (d_window_size d + n - window_len) + window_len = d_window_tail d + (d_window_size d + n)" using True by simp
    then have "((d_window_tail d + (d_window_size d + n - window_len)) mod window_len + window_len) mod window_len = length hist' mod window_len"
      using head by (metis mod_add_left_eq mod_add_self2 mod_mod_trivial)
    moreover have "min window_len (length hist') = window_len" using True inv(1) assms(2) by (auto simp: min_def split: if_splits)
    ultimately show ?thesis using True assms(1) by (simp add: window_inv_def window_advance_def Let_def)
  next
    case False
    then show ?thesis using assms(1,2) inv(1) head by (simp add: window_inv_def window_advance_def Let_def min_def split: if_splits)
  qed
qed

lemma push_literal_inv:
  assumes "window_inv d hist"
  shows "window_inv (push_literal symb d) (hist @ [word_of_nat symb])"
proof -
  have inv: "win_ok (d_window d) hist" "d_window_size d = min window_len (length hist)"
      "(d_window_tail d + d_window_size d) mod window_len = length hist mod window_len"
    using assms unfolding window_inv_def by blast+
  have win: "win_ok ((d_window d)[(d_window_tail d + d_window_size d) mod window_len := word_of_nat symb]) (hist @ [word_of_nat symb])"
    using win_ok_push [OF inv(1)] inv(3) by simp
  have head: "(d_window_tail d + d_window_size d + 1) mod window_len = (length hist + 1) mod window_len"
    using mod_add_cong [OF inv(3) refl, of 1] by simp
  show ?thesis
  proof (cases "d_window_size d < window_len")
    case True
    then show ?thesis using win inv(2) head by (simp add: window_inv_def push_literal_def Let_def)
  next
    case False
    then have full: "d_window_size d = window_len" "window_len \<le> length hist" using inv(2) by (auto simp: min_def split: if_splits)
    have "((d_window_tail d + 1) mod window_len + window_len) mod window_len = (length hist + 1) mod window_len"
      using head unfolding full(1) by (metis add.assoc add.commute mod_add_left_eq mod_add_self2)
    then show ?thesis using win full by (simp add: window_inv_def push_literal_def Let_def)
  qed
qed

section \<open>Symbols\<close>

definition len_bits :: "nat list \<Rightarrow> nat \<Rightarrow> bool list" where
  "len_bits L l = (let k = len_symbol l - 257
     in codeword L (len_symbol l) @ nat_bits (length_extra_bits ! k) (l - length_base ! k))"

definition dist_bits :: "nat list \<Rightarrow> nat \<Rightarrow> bool list" where
  "dist_bits D d = (let k = dist_symbol d
     in codeword D k @ nat_bits (distance_extra_bits ! k) (d - distance_base ! k))"

fun entry_bits :: "nat list \<Rightarrow> nat list \<Rightarrow> lz77_entry \<Rightarrow> bool list" where
  "entry_bits L D (Literal b) = codeword L (unat b)"
| "entry_bits L D (DistLength l d) = len_bits L l @ dist_bits D d"

text \<open>Every symbol of the entry has a code.\<close>

definition entry_coded :: "nat list \<Rightarrow> nat list \<Rightarrow> lz77_entry \<Rightarrow> bool" where
  "entry_coded L D e \<longleftrightarrow> lit_symbol e < length L \<and> L ! lit_symbol e \<noteq> 0 \<and>
     (\<forall>k\<in>set (dist_symbols e). k < length D \<and> D ! k \<noteq> 0)"

lemma len_symbol_spec:
  assumes "3 \<le> l" "l \<le> s_max_length"
  shows "257 \<le> len_symbol l" "len_symbol l \<le> 285" "length_base ! (len_symbol l - 257) \<le> l"
    "l - length_base ! (len_symbol l - 257) < 2 ^ (length_extra_bits ! (len_symbol l - 257))"
    "length_extra_bits ! (len_symbol l - 257) \<le> 16"
    "get_len_encoding l = Done \<lparr>en_symbol = len_symbol l, en_extra_data = l - length_base ! (len_symbol l - 257),
       en_extra_len = length_extra_bits ! (len_symbol l - 257)\<rparr>"
proof -
  obtain k x where k: "k \<le> 28" "get_len_encoding l = Done \<lparr>en_symbol = 257 + k, en_extra_data = x, en_extra_len = length_extra_bits ! k\<rparr>"
      "x < 2 ^ (length_extra_bits ! k)" "length_base ! k + x = l"
    using get_len_encoding_spec [OF assms] by blast
  have s: "len_symbol l = 257 + k" using get_len_encoding_symbol [OF k(2)] by simp
  show "257 \<le> len_symbol l" "len_symbol l \<le> 285" "length_base ! (len_symbol l - 257) \<le> l"
    "l - length_base ! (len_symbol l - 257) < 2 ^ (length_extra_bits ! (len_symbol l - 257))"
    "length_extra_bits ! (len_symbol l - 257) \<le> 16"
    "get_len_encoding l = Done \<lparr>en_symbol = len_symbol l, en_extra_data = l - length_base ! (len_symbol l - 257),
       en_extra_len = length_extra_bits ! (len_symbol l - 257)\<rparr>"
    using k s extra_bits_le_16(1) [OF k(1)] by auto
qed

lemma dist_symbol_spec:
  assumes "1 \<le> d" "d \<le> s_max_distance"
  shows "dist_symbol d \<le> 29" "distance_base ! dist_symbol d \<le> d"
    "d - distance_base ! dist_symbol d < 2 ^ (distance_extra_bits ! dist_symbol d)" "distance_extra_bits ! dist_symbol d \<le> 16"
    "get_dist_encoding d = Done \<lparr>en_symbol = dist_symbol d, en_extra_data = d - distance_base ! dist_symbol d,
       en_extra_len = distance_extra_bits ! dist_symbol d\<rparr>"
proof -
  obtain k x where k: "k \<le> 29" "get_dist_encoding d = Done \<lparr>en_symbol = k, en_extra_data = x, en_extra_len = distance_extra_bits ! k\<rparr>"
      "x < 2 ^ (distance_extra_bits ! k)" "distance_base ! k + x = d"
    using get_dist_encoding_spec [OF assms] by blast
  have s: "dist_symbol d = k" using get_dist_encoding_symbol [OF k(2)] by simp
  show "dist_symbol d \<le> 29" "distance_base ! dist_symbol d \<le> d"
    "d - distance_base ! dist_symbol d < 2 ^ (distance_extra_bits ! dist_symbol d)" "distance_extra_bits ! dist_symbol d \<le> 16"
    "get_dist_encoding d = Done \<lparr>en_symbol = dist_symbol d, en_extra_data = d - distance_base ! dist_symbol d,
       en_extra_len = distance_extra_bits ! dist_symbol d\<rparr>"
    using k s extra_bits_le_16(2) [OF k(1)] by auto
qed

text \<open>A decompressor in the middle of a block: its trees, the bytes so far and the bits to come.\<close>

definition symbol_ready :: "decompressor \<Rightarrow> nat list \<Rightarrow> nat list \<Rightarrow> 8 word list \<Rightarrow> bool list \<Rightarrow> bool" where
  "symbol_ready d L D hist bs \<longleftrightarrow> decodes (d_length_tree d) L \<and> decodes (d_distance_tree d) D \<and>
     \<not> huffman_empty (d_distance_tree d) \<and> window_inv d hist \<and> bi_ok (d_stream d) \<and> bi_bits (d_stream d) = bs"

lemma decodes_instant_bits: "decodes t lens \<Longrightarrow> ht_instant_bits t \<le> 9"
  by (auto simp: decodes_def)

lemma handle_literal:
  assumes "symbol_ready d L D hist (entry_bits L D (Literal b) @ rest)" "9 \<le> length rest" "entry_coded L D (Literal b)"
  shows "\<exists>d'. handle_symbol d = Done (Inr d') \<and> symbol_ready d' L D (hist @ [b]) rest \<and> d_produced d' = d_produced d + 1 \<and>
    d' = d\<lparr>d_stream := d_stream d', d_window := d_window d', d_window_size := d_window_size d', d_window_tail := d_window_tail d',
      d_produced := d_produced d'\<rparr>"
proof -
  have pre: "decodes (d_length_tree d) L" "bi_ok (d_stream d)" "bi_bits (d_stream d) = codeword L (unat b) @ rest"
      "unat b < length L" "L ! unat b \<noteq> 0"
    using assms(1,3) by (simp_all add: symbol_ready_def entry_coded_def)
  have "ht_instant_bits (d_length_tree d) \<le> length (bi_bits (d_stream d))"
    using decodes_instant_bits [OF pre(1)] assms(2) pre(3) by simp
  then obtain s where s: "read_symbol (d_length_tree d) (d_stream d) = Done (Inr (s, unat b))" "bi_ok s" "bi_bits s = rest"
    using read_symbol_correct [OF pre(1,4,5,2,3)] by blast
  let ?d = "push_literal (unat b) (d\<lparr>d_stream := s\<rparr>)"
  have "handle_symbol d = Done (Inr ?d)" using s(1) unat_byte_less [of b] by (simp add: handle_symbol_def)
  moreover have "window_inv (d\<lparr>d_stream := s\<rparr>) hist" using assms(1) by (simp add: symbol_ready_def)
  then have "window_inv ?d (hist @ [b])" using push_literal_inv [of "d\<lparr>d_stream := s\<rparr>" hist "unat b"] by simp
  ultimately show ?thesis
    using assms(1) s(2,3) by (intro exI [of _ ?d]) (simp add: symbol_ready_def push_literal_def Let_def)
qed

lemma handle_match:
  assumes "symbol_ready d L D hist (entry_bits L D (DistLength l dist) @ rest)" "9 \<le> length rest"
    and "entry_coded L D (DistLength l dist)" "entry_ok (length hist) (DistLength l dist)"
  shows "\<exists>d'. handle_symbol d = Done (Inr d') \<and> symbol_ready d' L D ((copy_byte dist ^^ l) hist) rest \<and> d_produced d' = d_produced d + l \<and>
    d' = d\<lparr>d_stream := d_stream d', d_window := d_window d', d_window_size := d_window_size d', d_window_tail := d_window_tail d',
      d_produced := d_produced d'\<rparr>"
proof -
  have ok: "3 \<le> l" "l \<le> s_max_length" "1 \<le> dist" "dist \<le> s_max_distance" "dist \<le> length hist" using assms(4) by simp_all
  note ls = len_symbol_spec [OF ok(1,2)] and ds = dist_symbol_spec [OF ok(3,4)]
  let ?k = "len_symbol l - 257" and ?m = "dist_symbol dist"
  let ?b3 = "nat_bits (distance_extra_bits ! ?m) (dist - distance_base ! ?m) @ rest"
  let ?b2 = "codeword D ?m @ ?b3"
  let ?b1 = "nat_bits (length_extra_bits ! ?k) (l - length_base ! ?k) @ ?b2"
  have pre: "decodes (d_length_tree d) L" "decodes (d_distance_tree d) D" "\<not> huffman_empty (d_distance_tree d)" "window_inv d hist"
      "bi_ok (d_stream d)" "bi_bits (d_stream d) = codeword L (len_symbol l) @ ?b1"
      "len_symbol l < length L" "L ! len_symbol l \<noteq> 0" "?m < length D" "D ! ?m \<noteq> 0"
    using assms(1,3) by (simp_all add: symbol_ready_def entry_coded_def len_bits_def dist_bits_def Let_def)
  obtain s1 where s1: "read_symbol (d_length_tree d) (d_stream d) = Done (Inr (s1, len_symbol l))" "bi_ok s1" "bi_bits s1 = ?b1"
    using read_symbol_correct [OF pre(1,7,8,5,6)] decodes_instant_bits [OF pre(1)] assms(2) pre(6) by auto
  obtain s2 where s2: "take_bits (length_extra_bits ! ?k) s1 = Done (Inr (s2, take_bit (length_extra_bits ! ?k) (l - length_base ! ?k)))"
      "bi_ok s2" "bi_bits s2 = ?b2"
    using take_bits_prefix [OF s1(2,3) ls(5)] by blast
  have x: "take_bit (length_extra_bits ! ?k) (l - length_base ! ?k) = l - length_base ! ?k" using ls(4) by (simp add: take_bit_nat_eq_self)
  obtain s3 where s3: "read_symbol (d_distance_tree d) s2 = Done (Inr (s3, ?m))" "bi_ok s3" "bi_bits s3 = ?b3"
    using read_symbol_correct [OF pre(2,9,10) s2(2,3)] decodes_instant_bits [OF pre(2)] assms(2) s2(3) by auto
  obtain s4 where s4: "take_bits (distance_extra_bits ! ?m) s3 = Done (Inr (s4, take_bit (distance_extra_bits ! ?m) (dist - distance_base ! ?m)))"
      "bi_ok s4" "bi_bits s4 = rest"
    using take_bits_prefix [OF s3(2,3) ds(4)] by blast
  have y: "take_bit (distance_extra_bits ! ?m) (dist - distance_base ! ?m) = dist - distance_base ! ?m" using ds(3) by (simp add: take_bit_nat_eq_self)
  have inv: "win_ok (d_window d) hist" "d_window_size d = min window_len (length hist)"
      "(d_window_tail d + d_window_size d) mod window_len = length hist mod window_len"
    using pre(4) unfolding window_inv_def by blast+
  have dw: "dist \<le> window_len" "dist \<le> d_window_size d" using ok(4,5) inv(2) by (simp_all add: s_max_distance_def total_window_size_def)
  let ?w = "window_copy (d_window_tail d + d_window_size d) (d_window_tail d + (d_window_size d - dist)) l (d_window d)"
  have "(d_window_tail d + (d_window_size d - dist)) mod window_len = (length hist - dist) mod window_len"
  proof -
    have "(d_window_tail d + (d_window_size d - dist) + dist) mod window_len = (length hist - dist + dist) mod window_len"
      using inv(3) dw(2) ok(5) by (simp add: add.assoc)
    then show ?thesis by (rule mod_add_cancel_nat)
  qed
  then have "win_ok ?w ((copy_byte dist ^^ l) hist)" using window_copy_spec [OF inv(1,3) _ ok(3,5) dw(1)] by blast
  moreover have "length ((copy_byte dist ^^ l) hist) = length hist + l" using length_expand_entry [of hist "DistLength l dist"] by simp
  ultimately have win: "window_inv (window_advance l (d\<lparr>d_stream := s4, d_window := ?w\<rparr>)) ((copy_byte dist ^^ l) hist)"
    using window_advance_inv pre(4) by blast
  let ?d = "window_advance l (d\<lparr>d_stream := s4, d_window := ?w\<rparr>)"
  have "\<not> 285 < len_symbol l" "\<not> 29 < ?m" "\<not> d_window_size d < dist" "len_symbol l \<noteq> 256" "\<not> len_symbol l < 256"
    using ls(1,2) ds(1) dw(2) by simp_all
  then have "handle_symbol d = Done (Inr ?d)"
    using s1(1) s2(1) s3(1) s4(1) x y pre(3) ls(3) ds(2) by (simp add: handle_symbol_def Let_def)
  then show ?thesis
    using win pre(1-3) s4(2,3) by (intro exI [of _ ?d]) (simp add: symbol_ready_def window_advance_def Let_def)
qed

lemma handle_entry:
  assumes "symbol_ready d L D hist (entry_bits L D e @ rest)" "9 \<le> length rest" "entry_coded L D e" "entry_ok (length hist) e"
  shows "\<exists>d'. handle_symbol d = Done (Inr d') \<and> symbol_ready d' L D (expand_entry hist e) rest \<and> d_produced d' = d_produced d + entry_size e \<and>
    d' = d\<lparr>d_stream := d_stream d', d_window := d_window d', d_window_size := d_window_size d', d_window_tail := d_window_tail d',
      d_produced := d_produced d'\<rparr>"
  using assms handle_literal handle_match by (cases e) fastforce+

lemma handle_end_of_block:
  assumes "symbol_ready d L D hist (codeword L 256 @ rest)" "9 \<le> length rest" "256 < length L" "L ! 256 \<noteq> 0"
  shows "\<exists>s. handle_symbol d = Done (Inr (d\<lparr>d_stream := s, d_state := BlockHeader\<rparr>)) \<and> bi_ok s \<and> bi_bits s = rest"
proof -
  have pre: "decodes (d_length_tree d) L" "bi_ok (d_stream d)" "bi_bits (d_stream d) = codeword L 256 @ rest"
    using assms(1) by (simp_all add: symbol_ready_def)
  obtain s where "read_symbol (d_length_tree d) (d_stream d) = Done (Inr (s, 256))" "bi_ok s" "bi_bits s = rest"
    using read_symbol_correct [OF pre(1) assms(3,4) pre(2,3)] decodes_instant_bits [OF pre(1)] assms(2) pre(3) by auto
  then show ?thesis by (intro exI [of _ s]) (simp add: handle_symbol_def)
qed

text \<open>All entries of a block and the end of it in one go, if the window has room for them.\<close>

lemma symbol_loop_spec:
  assumes "symbol_ready d L D hist (concat (map (entry_bits L D) es) @ codeword L 256 @ rest)" "9 \<le> length rest"
    and "d_state d = SymbolState" "\<forall>e\<in>set es. entry_coded L D e" "entries_ok (length hist) es" "256 < length L" "L ! 256 \<noteq> 0"
    and "d_produced d + sum_list (map entry_size es) + 258 < window_len"
  shows "\<exists>d'. symbol_loop d = Done (Inr (d', False)) \<and> d_state d' = BlockHeader \<and> window_inv d' (foldl expand_entry hist es) \<and>
    bi_ok (d_stream d') \<and> bi_bits (d_stream d') = rest \<and> d_produced d' = d_produced d + sum_list (map entry_size es) \<and>
    d' = d\<lparr>d_stream := d_stream d', d_window := d_window d', d_window_size := d_window_size d', d_window_tail := d_window_tail d',
      d_produced := d_produced d', d_state := BlockHeader\<rparr>"
  using assms(1,3,4,5,8)
proof (induction es arbitrary: d hist)
  case Nil
  obtain s where s: "handle_symbol d = Done (Inr (d\<lparr>d_stream := s, d_state := BlockHeader\<rparr>))" "bi_ok s" "bi_bits s = rest"
    using handle_end_of_block [of d L D hist rest] assms(2,6,7) Nil.prems(1) by auto
  have "symbol_loop (d\<lparr>d_stream := s, d_state := BlockHeader\<rparr>) = Done (Inr (d\<lparr>d_stream := s, d_state := BlockHeader\<rparr>, False))"
    by (simp add: symbol_loop.simps)
  then have "symbol_loop d = Done (Inr (d\<lparr>d_stream := s, d_state := BlockHeader\<rparr>, False))"
    using Nil.prems(2,5) s(1) by (simp add: symbol_loop.simps [of d])
  moreover have "window_inv (d\<lparr>d_stream := s, d_state := BlockHeader\<rparr>) hist"
    using Nil.prems(1) by (simp add: symbol_ready_def)
  ultimately show ?case using s(2,3) by (intro exI [of _ "d\<lparr>d_stream := s, d_state := BlockHeader\<rparr>"]) simp
next
  case (Cons e es)
  have "9 \<le> length (concat (map (entry_bits L D) es) @ codeword L 256 @ rest)" using assms(2) by simp
  then obtain d1 where d1: "handle_symbol d = Done (Inr d1)"
      "symbol_ready d1 L D (expand_entry hist e) (concat (map (entry_bits L D) es) @ codeword L 256 @ rest)"
      "d_produced d1 = d_produced d + entry_size e"
      "d1 = d\<lparr>d_stream := d_stream d1, d_window := d_window d1, d_window_size := d_window_size d1, d_window_tail := d_window_tail d1,
        d_produced := d_produced d1\<rparr>"
    using handle_entry [of d L D hist e] Cons.prems(1,3,4) by fastforce
  have "d_state d1 = SymbolState" using arg_cong [OF d1(4), of d_state] Cons.prems(2) by simp
  then obtain d' where d': "symbol_loop d1 = Done (Inr (d', False))" "d_state d' = BlockHeader"
      "window_inv d' (foldl expand_entry (expand_entry hist e) es)" "bi_ok (d_stream d')" "bi_bits (d_stream d') = rest"
      "d_produced d' = d_produced d1 + sum_list (map entry_size es)"
      "d' = d1\<lparr>d_stream := d_stream d', d_window := d_window d', d_window_size := d_window_size d', d_window_tail := d_window_tail d',
        d_produced := d_produced d', d_state := BlockHeader\<rparr>"
    using Cons.IH [OF d1(2)] Cons.prems(3-5) d1(3) by auto
  have "symbol_loop d = symbol_loop d1" using Cons.prems(2,5) d1(1) by (simp add: symbol_loop.simps [of d])
  moreover have "d' = d\<lparr>d_stream := d_stream d', d_window := d_window d', d_window_size := d_window_size d', d_window_tail := d_window_tail d',
        d_produced := d_produced d', d_state := BlockHeader\<rparr>"
    by (subst d'(7), subst d1(4)) simp
  ultimately show ?case using d'(1-6) d1(3) by (intro exI [of _ d']) simp
qed

end
