(* ===== verification/DeflateStream.thy ===== *)
theory DeflateStream
  imports DeflateRoundtrip "HOL-Library.Code_Target_Numeral"
begin

text \<open>
  The whole stream: what \<open>compress\<close> produces for an input of one block is decompressed to this input by
  \<open>decompress\<close>, and an input of more than one block stops the compressor.
\<close>

section \<open>The bits of a block\<close>

lemma entries_ok_each: "entries_ok n es \<Longrightarrow> \<forall>e\<in>set es. \<exists>n. entry_ok n e"
  by (induction es arbitrary: n) auto

lemma leaf_field_width: "s < length lens \<Longrightarrow> snd (leaf_field (canonical_leaves lens ! s)) = lens ! s"
  by (simp add: leaf_field_def canonical_leaves_def)

lemma nth_le_15: "s < length lens \<Longrightarrow> \<forall>l\<in>set lens. l \<le> 15 \<Longrightarrow> lens ! s \<le> (16::nat)"
  using nth_mem [of s lens] by fastforce

lemma entry_fields_spec:
  assumes "\<exists>n. entry_ok n e" "entry_coded L D e" "\<forall>l\<in>set L. l \<le> 15" "\<forall>l\<in>set D. l \<le> 15"
  shows "\<exists>fs. entry_fields (canonical_leaves L) (canonical_leaves D) e = Done fs \<and> fields_bits fs = entry_bits L D e \<and>
    (\<forall>(v, n)\<in>set fs. n \<le> 16)"
proof (cases e)
  case (Literal b)
  then have b: "unat b < length L" "L ! unat b \<noteq> 0" using assms(2) by (simp_all add: entry_coded_def)
  obtain v n where f: "leaf_field (canonical_leaves L ! unat b) = (v, n)" by fastforce
  then have "n \<le> 16" using leaf_field_width [OF b(1)] nth_le_15 [OF b(1) assms(3)] by simp
  then show ?thesis using Literal f leaf_field_bits [OF b, of "[]"] by simp
next
  case (DistLength l d)
  then have ok: "3 \<le> l" "l \<le> s_max_length" "1 \<le> d" "d \<le> s_max_distance" using assms(1) by auto
  note le = len_symbol_spec [OF ok(1,2)] and de = dist_symbol_spec [OF ok(3,4)]
  have s: "len_symbol l < length L" "L ! len_symbol l \<noteq> 0" "dist_symbol d < length D" "D ! dist_symbol d \<noteq> 0"
    using assms(2) DistLength by (simp_all add: entry_coded_def)
  obtain v n v' n' where f: "leaf_field (canonical_leaves L ! len_symbol l) = (v, n)"
      "leaf_field (canonical_leaves D ! dist_symbol d) = (v', n')"
    by fastforce
  then have n: "n \<le> 16" "n' \<le> 16"
    using leaf_field_width [OF s(1)] leaf_field_width [OF s(3)] nth_le_15 [OF s(1) assms(3)] nth_le_15 [OF s(3) assms(4)] by simp_all
  show ?thesis
    using DistLength f n le(5,6) de(4,5) leaf_field_bits [OF s(1,2)] leaf_field_bits [OF s(3,4)]
    by (simp add: fields_bits_Cons len_bits_def dist_bits_def Let_def)
qed

lemma entries_fields_spec:
  assumes "\<forall>e\<in>set es. \<exists>n. entry_ok n e" "\<forall>e\<in>set es. entry_coded L D e" "\<forall>l\<in>set L. l \<le> 15" "\<forall>l\<in>set D. l \<le> 15"
  shows "\<exists>fs. entries_fields (canonical_leaves L) (canonical_leaves D) es = Done fs \<and>
    fields_bits fs = concat (map (entry_bits L D) es) \<and> (\<forall>(v, n)\<in>set fs. n \<le> 16)"
  using assms(1,2)
proof (induction es)
  case (Cons e es)
  obtain fs where "entry_fields (canonical_leaves L) (canonical_leaves D) e = Done fs" "fields_bits fs = entry_bits L D e"
      "\<forall>(v, n)\<in>set fs. n \<le> 16"
    using entry_fields_spec [of e L D] Cons.prems assms(3,4) by auto
  then show ?case using Cons by (auto simp: fields_bits_append)
qed simp

lemma header_fields_width:
  assumes "info = \<lparr>ci_hlit = a, ci_hdist = b, ci_hclen = h, ci_encoding = enc, ci_code_length = cl,
      ci_code_length_tree = canonical_leaves clens\<rparr>"
    and "\<forall>e\<in>set enc. enc_ok e" "length clens = 19" "\<forall>l\<in>set clens. l \<le> 15"
  shows "\<forall>(v, n)\<in>set (header_fields final info). n \<le> 16"
proof -
  have "snd (leaf_field (canonical_leaves clens ! en_symbol e)) \<le> 16 \<and> en_extra_len e \<le> 16" if "e \<in> set enc" for e
  proof -
    have "enc_ok e" using that assms(2) by blast
    then show ?thesis
      using enc_ok_symbol [of e] leaf_field_width [of "en_symbol e" clens] nth_le_15 [of "en_symbol e" clens] assms(3,4)
      by (auto simp: enc_ok_def)
  qed
  then have "\<forall>f\<in>set (header_fields final info). snd f \<le> 16" using assms(1) by (auto simp: header_fields_def)
  then show ?thesis by auto
qed

text \<open>
  A block as the decoder needs it: the lengths of the three codes, the code of the lengths and the
  entries, and the bits they are sent as.
\<close>

record block_code =
  bc_lit :: "nat list"
  bc_dist :: "nat list"
  bc_clens :: "nat list"
  bc_enc :: "encoding list"
  bc_entries :: "lz77_entry list"

definition tree_bits :: "block_code \<Rightarrow> bool list" where
  "tree_bits b =
     (let cl = map ((!) (bc_clens b)) code_length_order; h = trim_hclen cl 19
      in nat_bits 5 (u16_sub (length (bc_lit b)) 257) @ nat_bits 5 (u16_sub (length (bc_dist b)) 1) @ nat_bits 4 (u16_sub h 4) @
         concat (map (nat_bits 3) (take h cl)) @ concat (map (enc_bits (bc_clens b)) (bc_enc b)))"

definition entries_bits :: "block_code \<Rightarrow> bool list" where
  "entries_bits b = concat (map (entry_bits (bc_lit b) (bc_dist b)) (bc_entries b)) @ codeword (bc_lit b) 256"

definition block_bits :: "bool \<Rightarrow> block_code \<Rightarrow> bool list" where
  "block_bits final b = nat_bits 1 (of_bool final) @ nat_bits 2 2 @ tree_bits b @ entries_bits b"

definition block_ok :: "8 word list \<Rightarrow> block_code \<Rightarrow> bool" where
  "block_ok data b \<longleftrightarrow>
     lens_ok (bc_lit b) \<and> 257 \<le> length (bc_lit b) \<and> length (bc_lit b) \<le> 286 \<and> bc_lit b ! 256 \<noteq> 0 \<and>
     lens_ok (bc_dist b) \<and> 1 \<le> length (bc_dist b) \<and> length (bc_dist b) \<le> 30 \<and>
     rle_valid (bc_enc b) \<and> rle_decode (bc_enc b) = bc_lit b @ bc_dist b \<and> (\<forall>e\<in>set (bc_enc b). bc_clens b ! en_symbol e \<noteq> 0) \<and>
     lens_ok (bc_clens b) \<and> length (bc_clens b) = 19 \<and> (\<forall>l\<in>set (bc_clens b). l < 8) \<and>
     (\<forall>e\<in>set (bc_entries b). entry_coded (bc_lit b) (bc_dist b) e) \<and> entries_ok 0 (bc_entries b) \<and>
     foldl expand_entry [] (bc_entries b) = data \<and> sum_list (map entry_size (bc_entries b)) = length data"

text \<open>
  The inputs of one block that the format written by the compressor can represent: there is not
  exactly one distance code, and the lengths of the code length code fit into their three
  bits.
\<close>

definition block_representable :: "8 word list \<Rightarrow> bool" where
  "block_representable data =
     (case rbind (lz77_compress data (length data) chain_init) (\<lambda>(s, entries).
             rbind (get_frequencies entries) (\<lambda>(lit_len_freq, dist_freq).
             rbind (create_huffman_tree lit_len_freq) (\<lambda>lit_len_tree.
             rbind (create_huffman_tree dist_freq) (\<lambda>dist_tree.
             rbind (build_code_length_info lit_len_tree dist_tree) (\<lambda>info.
               Done (length (used_syms dist_freq) \<noteq> 1 \<and> (\<forall>l\<in>set (ci_code_length info). l < 8))))))) of
        Done b \<Rightarrow> b | Halt \<Rightarrow> False)"

lemma dist_tree_spec:
  assumes "length freq = 30" "length (used_syms freq) \<noteq> 1"
  shows "\<exists>D. create_huffman_tree freq = Done (canonical_leaves D) \<and> lens_ok D \<and> length D = 30 \<and>
    (\<exists>s < 30. D ! s \<noteq> 0) \<and> (\<forall>s < 30. freq ! s \<noteq> 0 \<longrightarrow> D ! s \<noteq> 0)"
proof (cases "used_syms freq = []")
  case True
  let ?D = "(replicate 30 0)[0 := 1]"
  have D: "?D = 1 # replicate 29 0" by (simp add: numeral_eq_Suc)
  have "create_huffman_tree freq = Done (map (\<lambda>l. (0, l)) ?D)"
    using create_huffman_tree_none [of freq] True assms(1) by (simp add: s_max_symbols_def)
  moreover have "map (\<lambda>l. (0, l)) ?D = canonical_leaves ?D"
    by (rule nth_equalityI)
      (auto simp: canonical_leaves_def sym_code_def nth_list_update len_count_def)
  moreover have "lens_ok ?D" unfolding D by (simp add: lens_ok_def kraft_sum_def MAX_BITS_def sum_list_replicate)
  moreover have "\<forall>s < 30. freq ! s = 0" using True assms(1) by (auto simp: used_syms_def filter_empty_conv)
  ultimately show ?thesis by (intro exI [of _ ?D]) (auto intro!: exI [of _ "0::nat"])
next
  case False
  then have "length (used_syms freq) \<noteq> 0" by simp
  then have "2 \<le> length (used_syms freq)" using assms(2) by linarith
  then obtain D where D: "create_huffman_tree freq = Done (canonical_leaves D)" "complete_lens freq D"
    using create_huffman_tree_spec [of freq] assms(1) by (auto simp: s_max_symbols_def)
  obtain s where "s \<in> set (used_syms freq)" using False by (cases "used_syms freq") auto
  then have "s < 30" "D ! s \<noteq> 0" using D(2) assms(1) by (auto simp: used_syms_def complete_lens_def)
  moreover have "lens_ok D" using complete_lens_ok [OF D(2)] assms(1) by (cases freq) auto
  ultimately show ?thesis using D assms(1) by (intro exI [of _ D]) (auto simp: complete_lens_def)
qed

lemma block_representableD:
  assumes "block_representable data"
  shows "\<exists>s entries lf df lt dt info. lz77_compress data (length data) chain_init = Done (s, entries) \<and>
    get_frequencies entries = Done (lf, df) \<and> create_huffman_tree lf = Done lt \<and> create_huffman_tree df = Done dt \<and>
    build_code_length_info lt dt = Done info \<and> length (used_syms df) \<noteq> 1 \<and> (\<forall>l\<in>set (ci_code_length info). l < 8)"
  using assms by (auto simp: block_representable_def rbind_eq_Done_iff split: run.splits prod.splits)

text \<open>The code of an entry is not changed when the trailing zero lengths are left out.\<close>

lemma entry_coded_strip:
  assumes "lens_ok L" "lens_ok D" "entry_coded L D e"
  shows "entry_coded (strip_lens L) (strip_lens D) e" "entry_bits (strip_lens L) (strip_lens D) e = entry_bits L D e"
proof -
  have l: "lit_symbol e < length L" "L ! lit_symbol e \<noteq> 0" using assms(3) by (simp_all add: entry_coded_def)
  have d: "k < length D" "D ! k \<noteq> 0" if "k \<in> set (dist_symbols e)" for k
    using assms(3) that by (simp_all add: entry_coded_def)
  note sl = strip_lens_ok [OF assms(1) l]
  show "entry_coded (strip_lens L) (strip_lens D) e"
    using sl l(2) d strip_lens_ok [OF assms(2)] by (simp add: entry_coded_def)
  show "entry_bits (strip_lens L) (strip_lens D) e = entry_bits L D e"
    using sl d strip_lens_ok(4) [OF assms(2)] by (cases e) (simp_all add: len_bits_def dist_bits_def Let_def)
qed

lemma entries_coded:
  assumes "\<forall>e\<in>set es. \<exists>n. entry_ok n e" "e \<in> set es"
    and "complete_lens (bumps (map lit_symbol es @ [256]) (replicate 286 0)) L"
    and "length D = 30" "\<forall>s < 30. bumps (concat (map dist_symbols es)) (replicate 30 0) ! s \<noteq> 0 \<longrightarrow> D ! s \<noteq> 0"
  shows "entry_coded L D e"
proof -
  have lit: "lit_symbol e < 286"
    using assms(1,2) len_symbol_spec(2) unat_byte_less by (cases e) (fastforce simp: less_Suc_eq_le intro: less_trans)+
  have "k < 30 \<and> D ! k \<noteq> 0" if k: "k \<in> set (dist_symbols e)" for k
  proof -
    have "k < 30" using k assms(1,2) dist_symbol_spec(1) by (cases e) fastforce+
    moreover have "k \<in> set (concat (map dist_symbols es))" using k assms(2) by auto
    then have "filter ((=) k) (concat (map dist_symbols es)) \<noteq> []" by (simp add: filter_empty_conv)
    ultimately show ?thesis using assms(5) by (simp add: nth_bumps)
  qed
  then show ?thesis
    using lit literal_freq [OF assms(2) lit] assms(3,4) by (simp add: entry_coded_def complete_lens_def)
qed

lemma strip_lens_le: "\<forall>l\<in>set lens. l \<le> n \<Longrightarrow> \<forall>l\<in>set (strip_lens lens). l \<le> n"
  unfolding strip_lens_def by (auto dest: set_dropWhileD)

lemma end_of_block_used: "bumps (map lit_symbol es @ [256]) (replicate 286 0) ! 256 \<noteq> 0"
  by (simp add: nth_bumps)

lemma two_literals_used:
  assumes "es \<noteq> []" "\<forall>e\<in>set es. \<exists>n. entry_ok n e"
  shows "2 \<le> length (used_syms (bumps (map lit_symbol es @ [256]) (replicate 286 0)))"
proof -
  obtain e where e: "e \<in> set es" using assms(1) by (cases es) auto
  have "lit_symbol e < 286 \<and> lit_symbol e \<noteq> 256"
  proof (cases e)
    case (Literal b)
    then show ?thesis using unat_byte_less [of b] by simp
  next
    case (DistLength l d)
    then show ?thesis using len_symbol_spec(1,2) [of l] e assms(2) by fastforce
  qed
  then show ?thesis
    using two_used [of 256 _ "lit_symbol e"] end_of_block_used literal_freq [OF e] by simp
qed

text \<open>The trees of a block and what they encode.\<close>

lemma block_trees:
  assumes "data \<noteq> []" "block_representable data"
  obtains s adv es lf df L D info b where "lz77_compress data (length data) chain_init = Done (s, es)" "lz77_inv data (length data) adv s es"
    "adv \<le> s_max_length + 1" "get_frequencies es = Done (lf, df)"
    "create_huffman_tree lf = Done (canonical_leaves L)" "create_huffman_tree df = Done (canonical_leaves D)"
    "build_code_length_info (canonical_leaves L) (canonical_leaves D) = Done info"
    "block_ok data b" "bc_lit b = strip_lens L" "bc_dist b = strip_lens D" "bc_entries b = es" "lens_ok L" "lens_ok D"
    "\<forall>e\<in>set es. entry_coded L D e" "256 < length L" "L ! 256 \<noteq> 0"
    "info = \<lparr>ci_hlit = length (bc_lit b), ci_hdist = length (bc_dist b),
       ci_hclen = trim_hclen (map ((!) (bc_clens b)) code_length_order) 19, ci_encoding = bc_enc b,
       ci_code_length = map ((!) (bc_clens b)) code_length_order, ci_code_length_tree = canonical_leaves (bc_clens b)\<rparr>"
proof -
  obtain s es adv where lz: "lz77_compress data (length data) chain_init = Done (s, es)" "lz77_inv data (length data) adv s es"
      "adv \<le> s_max_length + 1"
    using lz77_compress_first [of "length data" data] by auto
  then have inv: "entries_ok 0 es" "foldl expand_entry [] es = data" "sum_list (map entry_size es) = length data"
    by (simp_all add: lz77_inv_def)
  note each = entries_ok_each [OF inv(1)]
  have ne: "es \<noteq> []" using inv(2) assms(1) by auto
  let ?lf = "bumps (map lit_symbol es @ [256]) (replicate 286 0)" and ?df = "bumps (concat (map dist_symbols es)) (replicate 30 0)"
  note freqs = get_frequencies_spec [OF each]
  obtain L where L: "create_huffman_tree ?lf = Done (canonical_leaves L)" "complete_lens ?lf L"
    using create_huffman_tree_spec [OF _ two_literals_used [OF ne each]] by (auto simp: s_max_symbols_def)
  have Lok: "lens_ok L" using complete_lens_ok [OF L(2)] by (metis length_bumps length_replicate list.size(3) zero_neq_numeral)
  have L256: "256 < length L" "L ! 256 \<noteq> 0" "length L = 286" using L(2) end_of_block_used [of es] by (simp_all add: complete_lens_def)
  obtain lt dt info where r: "create_huffman_tree ?lf = Done lt" "create_huffman_tree ?df = Done dt"
      "build_code_length_info lt dt = Done info" "length (used_syms ?df) \<noteq> 1" "\<forall>l\<in>set (ci_code_length info). l < 8"
    using block_representableD [OF assms(2)] lz(1) freqs by auto
  obtain D where D: "create_huffman_tree ?df = Done (canonical_leaves D)" "lens_ok D" "length D = 30" "\<exists>s < 30. D ! s \<noteq> 0"
      "\<forall>s < 30. ?df ! s \<noteq> 0 \<longrightarrow> D ! s \<noteq> 0"
    using dist_tree_spec [of ?df] r(4) by auto
  then obtain k where k: "k < length D" "D ! k \<noteq> 0" by auto
  have coded: "\<forall>e\<in>set es. entry_coded L D e" using entries_coded [OF each _ L(2) D(3,5)] by blast
  note sL = strip_lens_ok [OF Lok L256(1,2)] and sD = strip_lens_ok [OF D(2) k]
  have "\<forall>l\<in>set (strip_lens L). l \<le> 15" "\<forall>l\<in>set (strip_lens D). l \<le> 15"
    using sL(1) sD(1) by (simp_all add: lens_ok_def MAX_BITS_def)
  moreover have "strip_lens L ! 256 \<in> set (strip_lens L)" "strip_lens L ! 256 \<noteq> 0" using nth_mem [OF sL(2)] sL(3) L256(2) by simp_all
  ultimately obtain enc clens where e: "build_code_length_info (canonical_leaves L) (canonical_leaves D) =
      Done \<lparr>ci_hlit = length (strip_lens L), ci_hdist = length (strip_lens D), ci_hclen = trim_hclen (map ((!) clens) code_length_order) 19,
        ci_encoding = enc, ci_code_length = map ((!) clens) code_length_order, ci_code_length_tree = canonical_leaves clens\<rparr>"
      "rle_valid enc" "rle_decode enc = strip_lens L @ strip_lens D" "lens_ok clens" "length clens = 19" "\<forall>e\<in>set enc. clens ! en_symbol e \<noteq> 0"
    using build_code_length_info_spec [of "strip_lens L" "strip_lens D" "strip_lens L ! 256" "canonical_leaves L" "canonical_leaves D"] sL(2) by auto
  define b where "b = \<lparr>bc_lit = strip_lens L, bc_dist = strip_lens D, bc_clens = clens, bc_enc = enc, bc_entries = es\<rparr>"
  have "\<forall>i < 19. clens ! i < 8" using r(1,2,3,5) L(1) D(1) e(1) code_length_order_facts(3) by auto
  then have "\<forall>l\<in>set clens. l < 8" using e(5) by (metis in_set_conv_nth)
  then have "block_ok data b"
    using e(2-6) sL sD L256(2,3) D(3) length_strip_lens [of L] length_strip_lens [of D] coded inv entry_coded_strip(1) [OF Lok D(2)]
    by (auto simp: block_ok_def b_def)
  then show ?thesis
    using that [OF lz freqs L(1) D(1) e(1), of b] Lok D(2) coded L256 by (simp add: b_def)
qed

lemma compress_block_spec:
  assumes "data \<noteq> []" "block_representable data" "bo_ok out"
  shows "\<exists>b s out'. block_ok data b \<and> compress_block data (length data) final (chain_init, out) = Done (s, out') \<and> bo_ok out' \<and>
    bo_bits out' = bo_bits out @ block_bits final b"
proof -
  obtain s adv es lf df L D info b where t: "lz77_compress data (length data) chain_init = Done (s, es)"
    "get_frequencies es = Done (lf, df)"
    "create_huffman_tree lf = Done (canonical_leaves L)" "create_huffman_tree df = Done (canonical_leaves D)"
    "build_code_length_info (canonical_leaves L) (canonical_leaves D) = Done info"
    and b: "block_ok data b" "bc_lit b = strip_lens L" "bc_dist b = strip_lens D" "bc_entries b = es"
    and LD: "lens_ok L" "lens_ok D" "\<forall>e\<in>set es. entry_coded L D e" "256 < length L" "L ! 256 \<noteq> 0"
    and info: "info = \<lparr>ci_hlit = length (bc_lit b), ci_hdist = length (bc_dist b),
       ci_hclen = trim_hclen (map ((!) (bc_clens b)) code_length_order) 19, ci_encoding = bc_enc b,
       ci_code_length = map ((!) (bc_clens b)) code_length_order, ci_code_length_tree = canonical_leaves (bc_clens b)\<rparr>"
    using block_trees [OF assms(1,2)] by metis
  let ?cl = "map ((!) (bc_clens b)) code_length_order"
  have bits15: "\<forall>l\<in>set L. l \<le> 15" "\<forall>l\<in>set D. l \<le> 15" "\<forall>l\<in>set (bc_clens b). l \<le> 15"
    using LD(1,2) b(1) by (simp_all add: lens_ok_def block_ok_def MAX_BITS_def)
  have enc: "\<forall>e\<in>set (bc_enc b). enc_ok e" "length (bc_clens b) = 19" "\<forall>e\<in>set (bc_enc b). en_symbol e < 19 \<and> bc_clens b ! en_symbol e \<noteq> 0"
    using b(1) enc_ok_symbol by (fastforce simp: block_ok_def rle_valid_def)+
  obtain o1 where o1: "write_list (header_fields final info) out = Done o1" "bo_ok o1"
      "bo_bits o1 = bo_bits out @ fields_bits (header_fields final info)"
    using write_list_spec [OF assms(3) header_fields_width [OF info enc(1,2) bits15(3)]] by blast
  have "trim_hclen ?cl 19 \<le> length ?cl" using trim_hclen_spec [of ?cl 19] code_length_order_facts(1) by simp
  then have h: "fields_bits (header_fields final info) = nat_bits 1 (of_bool final) @ nat_bits 2 2 @ tree_bits b"
    using header_fields_bits [OF info enc(2,3)] by (simp add: tree_bits_def Let_def)
  have "\<forall>e\<in>set es. \<exists>n. entry_ok n e" using b(1,4) entries_ok_each by (auto simp: block_ok_def)
  then obtain fs where fs: "entries_fields (canonical_leaves L) (canonical_leaves D) es = Done fs"
      "fields_bits fs = concat (map (entry_bits L D) es)" "\<forall>(v, n)\<in>set fs. n \<le> 16"
    using entries_fields_spec [OF _ LD(3) bits15(1,2)] by blast
  obtain o2 where o2: "write_list fs o1 = Done o2" "bo_ok o2" "bo_bits o2 = bo_bits o1 @ fields_bits fs"
    using write_list_spec [OF o1(2) fs(3)] by blast
  have "\<forall>(v, n)\<in>set [leaf_field (canonical_leaves L ! 256)]. n \<le> 16"
    using leaf_field_width [OF LD(4)] nth_le_15 [OF LD(4) bits15(1)] by auto
  then obtain o3 where o3: "write_list [leaf_field (canonical_leaves L ! 256)] o2 = Done o3" "bo_ok o3"
      "bo_bits o3 = bo_bits o2 @ fields_bits [leaf_field (canonical_leaves L ! 256)]"
    using write_list_spec [OF o2(2)] by blast
  have "map (entry_bits (bc_lit b) (bc_dist b)) es = map (entry_bits L D) es"
    using entry_coded_strip(2) [OF LD(1,2)] LD(3) b(2,3) by simp
  then have "entries_bits b = fields_bits fs @ fields_bits [leaf_field (canonical_leaves L ! 256)]"
    using fs(2) leaf_field_bits [OF LD(4,5), of "[]"] b(2,4) strip_lens_ok(4) [OF LD(1,4,5)] unfolding entries_bits_def by (metis append_Nil2 fields_bits_Nil)
  then have "bo_bits o3 = bo_bits out @ block_bits final b" using o1(3) o2(3) o3(3) h by (simp add: block_bits_def)
  moreover have "compress_block data (length data) final (chain_init, out) = Done (s, o3)"
    using t o1(1) fs(1) o2(1) o3(1) by (simp add: compress_block_def del: write_list.simps)
  ultimately show ?thesis using b(1) o3(2) by blast
qed

section \<open>The bytes of a stream\<close>

lemma bo_len_mod: "bo_ok s \<Longrightarrow> bo_len s = length (bo_bits s) mod 8"
  by (simp add: bo_ok_def bo_bits_def)

lemma word_fields_width: "\<forall>(v, n)\<in>set (word_fields x ks). n \<le> 16"
  by (auto simp: word_fields_def)

lemma stream_header_width: "\<forall>(v, n)\<in>set (stream_header type time). n \<le> 16"
  using word_fields_width [of time] by (auto simp: stream_header_def split: stream_type.splits)

lemma stream_footer_width: "\<forall>(v, n)\<in>set (stream_footer type data). n \<le> 16"
  using word_fields_width by (auto simp: stream_footer_def word_fields_def split: stream_type.splits)

lemma length_word_fields: "length (fields_bits (word_fields x ks)) = 8 * length ks"
  by (induction ks) (simp_all add: word_fields_def fields_bits_def)

lemma length_stream_footer: "length (fields_bits (stream_footer type data)) = (case type of Raw \<Rightarrow> 0 | Zlib \<Rightarrow> 32 | GZip \<Rightarrow> 64)"
  by (simp add: stream_footer_def length_word_fields fields_bits_append split: stream_type.splits)

lemma chain_init_base [simp]: "cs_base chain_init = 0"
  by (simp add: chain_init_def)

lemma compress_blocks_spec:
  assumes "data \<noteq> []" "length data \<le> max_block_size" "block_representable data" "bo_ok out"
  shows "\<exists>b out'. block_ok data b \<and> compress_blocks data (chain_init, out) = Done out' \<and> bo_ok out' \<and>
    bo_bits out' = bo_bits out @ block_bits True b"
proof -
  obtain b s out' where b: "block_ok data b" "compress_block data (length data) True (chain_init, out) = Done (s, out')" "bo_ok out'"
      "bo_bits out' = bo_bits out @ block_bits True b"
    using compress_block_spec [OF assms(1,3,4), of True] by blast
  have "compress_blocks data (s\<lparr>cs_base := length data\<rparr>, out') = Done out'" by (simp add: compress_blocks.simps)
  then have "compress_blocks data (chain_init, out) = Done out'"
    using assms(1,2) b(2) by (simp add: compress_blocks.simps [of data chain_init] min_absorb1)
  then show ?thesis using b by blast
qed

lemma compress_spec:
  assumes "data \<noteq> []" "length data \<le> max_block_size" "block_representable data"
  shows "\<exists>b bytes. block_ok data b \<and> compress type time data = Done bytes \<and>
    concat (map byte_bits bytes) = pad_bits (fields_bits (stream_header type time) @ block_bits True b) @ fields_bits (stream_footer type data)"
proof -
  let ?o = "\<lparr>bo_data = [], bo_buffer = 0, bo_len = 0\<rparr>"
  have "bo_ok ?o" "bo_bits ?o = []" by (simp_all add: bo_ok_def bo_bits_def)
  then obtain o1 where o1: "write_list (stream_header type time) ?o = Done o1" "bo_ok o1" "bo_bits o1 = fields_bits (stream_header type time)"
    using write_list_spec [OF _ stream_header_width, of ?o type time] by auto
  obtain b o2 where b: "block_ok data b" "compress_blocks data (chain_init, o1) = Done o2" "bo_ok o2"
      "bo_bits o2 = bo_bits o1 @ block_bits True b"
    using compress_blocks_spec [OF assms o1(2)] by blast
  obtain o3 where o3: "pad_to_byte_boundary o2 = Done o3" "bo_ok o3" "bo_len o3 = 0" "bo_bits o3 = pad_bits (bo_bits o2)"
    using pad_to_byte_boundary_spec [OF b(3)] by blast
  obtain o4 where o4: "write_list (stream_footer type data) o3 = Done o4" "bo_ok o4" "bo_bits o4 = bo_bits o3 @ fields_bits (stream_footer type data)"
    using write_list_spec [OF o3(2) stream_footer_width] by blast
  have "length (bo_bits o4) mod 8 = 0"
    using o4(3) bo_len_mod [OF o3(2)] o3(3) length_stream_footer [of type data] by (simp add: mod_add_eq [symmetric] split: stream_type.splits)
  then have len: "bo_len o4 = 0" using bo_len_mod [OF o4(2)] by simp
  then have "compress type time data = Done (bo_data o4)"
    using o1(1) b(2) o3(1) o4(1) by (simp add: compress_def take_buffer_def)
  moreover have "concat (map byte_bits (bo_data o4)) = bo_bits o4" using len by (simp add: bo_bits_def)
  ultimately show ?thesis using b(1,4) o1(3) o3(4) o4(3) by auto
qed

section \<open>Header and footer\<close>

text \<open>The checksums of the decompressor after it has written some bytes.\<close>

definition checksum_state :: "decompressor \<Rightarrow> 8 word list \<Rightarrow> bool" where
  "checksum_state d written \<longleftrightarrow>
     (case d_type d of
        Raw \<Rightarrow> True
      | Zlib \<Rightarrow> d_adler d = foldl adler32_step (1, 0) written
      | GZip \<Rightarrow> d_crc32 d = foldl crc32_table_step 0xFFFFFFFF written \<and> d_isize d = word_of_nat (length written))"

lemma take_bits_any:
  assumes "bi_ok s" "bi_bits s = xs @ rest" "length xs = n" "n \<le> 16"
  shows "\<exists>s' v. take_bits n s = Done (Inr (s', v)) \<and> bi_ok s' \<and> bi_bits s' = rest"
proof -
  have "n \<le> length (bi_bits s)" using assms(2,3) by simp
  then show ?thesis using take_bits_spec [OF assms(1,4)] assms(2,3) by (metis append_eq_conv_conj)
qed

lemma zlib_header_spec:
  assumes "bi_ok s" "bi_bits s = nat_bits 8 0x78 @ nat_bits 8 0x9C @ rest"
  shows "\<exists>s'. zlib_header s = Done (Inr s') \<and> bi_ok s' \<and> bi_bits s' = rest"
proof -
  obtain s1 where s1: "take_bits 8 s = Done (Inr (s1, take_bit 8 0x78))" "bi_ok s1" "bi_bits s1 = nat_bits 8 0x9C @ rest"
    using take_bits_prefix [OF assms] by auto
  obtain s2 where s2: "take_bits 8 s1 = Done (Inr (s2, take_bit 8 0x9C))" "bi_ok s2" "bi_bits s2 = rest"
    using take_bits_prefix [OF s1(2,3)] by auto
  have "(push_bit 8 0x78 OR 0x9C) mod 31 = (0::nat)" "0x78 AND 15 = (8::nat)" "\<not> bit (0x9C :: nat) 5"
    by (simp_all add: push_bit_eq_mult bit_iff_odd)
  moreover have "take_bit 8 0x78 = (0x78::nat)" "take_bit 8 0x9C = (0x9C::nat)" by (simp_all add: take_bit_eq_mod)
  ultimately show ?thesis using s1(1) s2 by (simp add: zlib_header_def)
qed

lemma gzip_header_spec:
  assumes "bi_ok s"
    and "bi_bits s = nat_bits 8 0x1F @ nat_bits 8 0x8B @ nat_bits 8 8 @ nat_bits 8 0 @ mtime @ nat_bits 8 0 @ nat_bits 8 3 @ rest"
    and "length mtime = 32"
  shows "\<exists>s'. gzip_header s = Done (Inr s') \<and> bi_ok s' \<and> bi_bits s' = rest"
proof -
  obtain s1 where s1: "take_bits 8 s = Done (Inr (s1, take_bit 8 0x1F))" "bi_ok s1"
      "bi_bits s1 = nat_bits 8 0x8B @ nat_bits 8 8 @ nat_bits 8 0 @ mtime @ nat_bits 8 0 @ nat_bits 8 3 @ rest"
    using take_bits_prefix [OF assms(1,2)] by auto
  obtain s2 where s2: "take_bits 8 s1 = Done (Inr (s2, take_bit 8 0x8B))" "bi_ok s2"
      "bi_bits s2 = nat_bits 8 8 @ nat_bits 8 0 @ mtime @ nat_bits 8 0 @ nat_bits 8 3 @ rest"
    using take_bits_prefix [OF s1(2,3)] by auto
  obtain s3 where s3: "take_bits 8 s2 = Done (Inr (s3, take_bit 8 8))" "bi_ok s3"
      "bi_bits s3 = nat_bits 8 0 @ mtime @ nat_bits 8 0 @ nat_bits 8 3 @ rest"
    using take_bits_prefix [OF s2(2,3)] by auto
  obtain s4 where s4: "take_bits 8 s3 = Done (Inr (s4, take_bit 8 0))" "bi_ok s4" "bi_bits s4 = mtime @ nat_bits 8 0 @ nat_bits 8 3 @ rest"
    using take_bits_prefix [OF s3(2,3)] by auto
  obtain s5 v5 where s5: "take_bits 16 s4 = Done (Inr (s5, v5))" "bi_ok s5" "bi_bits s5 = drop 16 mtime @ nat_bits 8 0 @ nat_bits 8 3 @ rest"
    using take_bits_any [OF s4(2), of "take 16 mtime" "drop 16 mtime @ nat_bits 8 0 @ nat_bits 8 3 @ rest"] s4(3) assms(3) by auto
  obtain s6 v6 where s6: "take_bits 16 s5 = Done (Inr (s6, v6))" "bi_ok s6" "bi_bits s6 = nat_bits 8 0 @ nat_bits 8 3 @ rest"
    using take_bits_any [OF s5(2,3)] assms(3) by auto
  obtain s7 where s7: "take_bits 8 s6 = Done (Inr (s7, take_bit 8 0))" "bi_ok s7" "bi_bits s7 = nat_bits 8 3 @ rest"
    using take_bits_prefix [OF s6(2,3)] by auto
  obtain s8 where s8: "take_bits 8 s7 = Done (Inr (s8, take_bit 8 3))" "bi_ok s8" "bi_bits s8 = rest"
    using take_bits_prefix [OF s7(2,3)] by auto
  have "take_bit 8 0x1F = (0x1F::nat)" "take_bit 8 0x8B = (0x8B::nat)" "take_bit 8 8 = (8::nat)"
    by (simp_all add: take_bit_eq_mod)
  then show ?thesis using s1(1) s2(1) s3(1) s4(1) s5(1) s6(1) s7(1) s8 by (simp add: gzip_header_def)
qed

lemma handle_header_spec:
  assumes "d_type d = type" "bi_ok (d_stream d)" "bi_bits (d_stream d) = fields_bits (stream_header type time) @ rest"
  shows "\<exists>s a c i. handle_header d = Done (Inr (d\<lparr>d_stream := s, d_adler := a, d_crc32 := c, d_isize := i\<rparr>)) \<and> bi_ok s \<and> bi_bits s = rest \<and>
    checksum_state (d\<lparr>d_stream := s, d_adler := a, d_crc32 := c, d_isize := i\<rparr>) []"
proof (cases type)
  case Raw
  then show ?thesis using assms
    by (intro exI [of _ "d_stream d"] exI [of _ "d_adler d"] exI [of _ "d_crc32 d"] exI [of _ "d_isize d"])
      (simp add: handle_header_def checksum_state_def stream_header_def)
next
  case Zlib
  then obtain s where "zlib_header (d_stream d) = Done (Inr s)" "bi_ok s" "bi_bits s = rest"
    using zlib_header_spec [OF assms(2)] assms(3) by (auto simp: stream_header_def fields_bits_Cons)
  then show ?thesis using assms(1) Zlib
    by (intro exI [of _ s] exI [of _ "(1, 0)"] exI [of _ "d_crc32 d"] exI [of _ "d_isize d"])
      (simp add: handle_header_def checksum_state_def)
next
  case GZip
  let ?m = "fields_bits (word_fields time [0, 8, 16, 24])"
  have "length ?m = 32" by (simp add: length_word_fields)
  then obtain s where "gzip_header (d_stream d) = Done (Inr s)" "bi_ok s" "bi_bits s = rest"
    using gzip_header_spec [OF assms(2), of ?m rest] assms(3) GZip
    by (auto simp: stream_header_def fields_bits_Cons fields_bits_append)
  then show ?thesis using assms(1) GZip
    by (intro exI [of _ s] exI [of _ "d_adler d"] exI [of _ "0xFFFFFFFF"] exI [of _ 0])
      (simp add: handle_header_def checksum_state_def)
qed

lemma take_byte_fields:
  assumes "bi_ok s" "bi_bits s = fields_bits (word_fields v (k # ks)) @ rest"
  obtains s' where "take_bits 8 s = Done (Inr (s', take_bit 8 (drop_bit k v)))" "bi_ok s'"
    "bi_bits s' = fields_bits (word_fields v ks) @ rest"
proof -
  have "bi_bits s = nat_bits 8 (drop_bit k v mod 2 ^ 16) @ fields_bits (word_fields v ks) @ rest"
    using assms(2) by (simp add: word_fields_def fields_bits_Cons)
  moreover have "take_bit 8 (drop_bit k v mod 2 ^ 16) = take_bit 8 (drop_bit k v)"
    by (simp add: take_bit_eq_mod mod_mod_cancel)
  ultimately show ?thesis using take_bits_prefix [OF assms(1)] that by (metis eval_nat_numeral(1) numeral_le_iff semiring_norm(68,71))
qed

lemma word32_bytes:
  fixes w :: "32 word"
  defines "b \<equiv> (\<lambda>k. word_of_nat (take_bit 8 (drop_bit k (unat w))))"
  shows "push_bit 8 (push_bit 8 (push_bit 8 (push_bit 8 0 OR b 24) OR b 16) OR b 8) OR b 0 = w"
proof (rule bit_word_eqI)
  fix n assume "n < LENGTH(32)"
  then show "bit (push_bit 8 (push_bit 8 (push_bit 8 (push_bit 8 0 OR b 24) OR b 16) OR b 8) OR b 0) n = bit w n"
    by (cases "n < 8"; cases "n < 16"; cases "n < 24") (auto simp: b_def bit_simps)
qed

lemma word32_halves:
  fixes w :: "32 word"
  shows "word_of_nat (take_bit 16 (unat w)) OR push_bit 16 (word_of_nat (take_bit 16 (drop_bit 16 (unat w)))) = w" (is "?l = w")
proof (rule bit_word_eqI)
  fix n assume "n < LENGTH(32)"
  then show "bit ?l n = bit w n" by (cases "n < 16") (auto simp: bit_simps)
qed

lemma take_big_endian_spec:
  assumes "bi_ok s" "bi_bits s = fields_bits (word_fields (unat w) [24, 16, 8, 0]) @ rest"
  shows "\<exists>s'. take_big_endian 4 0 s = Done (Inr (s', w)) \<and> bi_ok s' \<and> bi_bits s' = rest"
proof -
  let ?b = "\<lambda>k. take_bit 8 (drop_bit k (unat w))"
  obtain s1 where s1: "take_bits 8 s = Done (Inr (s1, ?b 24))" "bi_ok s1" "bi_bits s1 = fields_bits (word_fields (unat w) [16, 8, 0]) @ rest"
    using take_byte_fields [OF assms] by blast
  obtain s2 where s2: "take_bits 8 s1 = Done (Inr (s2, ?b 16))" "bi_ok s2" "bi_bits s2 = fields_bits (word_fields (unat w) [8, 0]) @ rest"
    using take_byte_fields [OF s1(2,3)] by blast
  obtain s3 where s3: "take_bits 8 s2 = Done (Inr (s3, ?b 8))" "bi_ok s3" "bi_bits s3 = fields_bits (word_fields (unat w) [0]) @ rest"
    using take_byte_fields [OF s2(2,3)] by blast
  obtain s4 where s4: "take_bits 8 s3 = Done (Inr (s4, ?b 0))" "bi_ok s4" "bi_bits s4 = fields_bits (word_fields (unat w) []) @ rest"
    using take_byte_fields [OF s3(2,3)] by blast
  have "take_big_endian 4 0 s = Done (Inr (s4, push_bit 8 (push_bit 8 (push_bit 8 (push_bit 8 0 OR word_of_nat (?b 24)) OR
      word_of_nat (?b 16)) OR word_of_nat (?b 8)) OR word_of_nat (?b 0)))"
    using s1(1) s2(1) s3(1) s4(1) by (simp add: numeral_eq_Suc del: push_bit_of_0)
  then show ?thesis using s4(2,3) word32_bytes [of w] by (simp add: word_fields_def del: push_bit_of_0)
qed

lemma nat_bits_16_split: "nat_bits 8 (drop_bit k v mod 2 ^ 16) @ nat_bits 8 (drop_bit (k + 8) v mod 2 ^ 16) = nat_bits 16 (drop_bit k v)"
  unfolding take_bit_eq_mod [symmetric] by (rule nth_equalityI) (auto simp: nat_bits_def nth_append bit_simps)

lemma take_u32_spec:
  assumes "bi_ok s" "bi_bits s = fields_bits (word_fields (unat w) [0, 8, 16, 24]) @ rest"
  shows "\<exists>s'. take_u32 s = Done (Inr (s', w)) \<and> bi_ok s' \<and> bi_bits s' = rest"
proof -
  have "fields_bits (word_fields (unat w) [0, 8, 16, 24]) = nat_bits 16 (drop_bit 0 (unat w)) @ nat_bits 16 (drop_bit 16 (unat w))"
    using nat_bits_16_split [of 0 "unat w"] nat_bits_16_split [of 16 "unat w"] by (simp add: word_fields_def fields_bits_Cons)
  then have bits: "bi_bits s = nat_bits 16 (unat w) @ nat_bits 16 (drop_bit 16 (unat w)) @ rest" using assms(2) by simp
  obtain s1 where s1: "take_bits 16 s = Done (Inr (s1, take_bit 16 (unat w)))" "bi_ok s1" "bi_bits s1 = nat_bits 16 (drop_bit 16 (unat w)) @ rest"
    using take_bits_prefix [OF assms(1) bits] by auto
  obtain s2 where "take_bits 16 s1 = Done (Inr (s2, take_bit 16 (drop_bit 16 (unat w))))" "bi_ok s2" "bi_bits s2 = rest"
    using take_bits_prefix [OF s1(2,3)] by auto
  then show ?thesis using s1(1) word32_halves [of w] by (simp add: take_u32_def)
qed

lemma not_eq_xor: "NOT x = x XOR (0xFFFFFFFF :: 32 word)"
proof -
  have "(0xFFFFFFFF :: 32 word) = - 1" by code_simp
  then show ?thesis by (simp only: bit.xor_one_right)
qed

lemma xor_ones_neq: "x XOR 0xFFFFFFFF \<noteq> (x :: 32 word)"
proof
  assume "x XOR 0xFFFFFFFF = x"
  then have "x XOR (x XOR 0xFFFFFFFF) = 0" by simp
  then show False by (simp flip: xor.assoc)
qed

lemma crc32_fold: "foldl crc32_table_step c bs = foldl crc32_step c bs"
  by (induction bs arbitrary: c) (simp_all add: crc32_step_table)

lemma handle_footer_spec:
  assumes "checksum_state d data" "bi_ok (d_stream d)"
    and "bi_bits (d_stream d) = pad @ fields_bits (stream_footer (d_type d) data)" "length pad < 8"
  shows "\<exists>d'. handle_footer d = Done (d', Inr ()) \<and> d_produced d' = d_produced d"
proof -
  let ?s = "skip_to_byte_boundary (d_stream d)" and ?f = "fields_bits (stream_footer (d_type d) data)"
  have "length (bi_bits (d_stream d)) mod 8 = length pad"
    using assms(3,4) length_stream_footer [of "d_type d" data] by (cases "d_type d") (simp_all add: mod_add_eq [symmetric])
  then have s: "bi_ok ?s" "bi_bits ?s = ?f @ []" using skip_to_byte_boundary_spec [OF assms(2)] assms(3) by simp_all
  show ?thesis
  proof (cases "d_type d")
    case Raw
    then show ?thesis by (simp add: handle_footer_def)
  next
    case Zlib
    then obtain s' where "take_big_endian 4 0 ?s = Done (Inr (s', calculate_adler32 data))"
      using take_big_endian_spec [OF s(1), of "calculate_adler32 data" "[]"] s(2) by (auto simp: stream_footer_def)
    then show ?thesis
      using assms(1) Zlib by (auto simp: handle_footer_def checksum_state_def calculate_adler32_def split: prod.splits)
  next
    case GZip
    let ?n = "word_of_nat (length data) :: 32 word"
    have "bi_bits ?s = fields_bits (word_fields (unat (calculate_crc32 data)) [0, 8, 16, 24]) @
        fields_bits (word_fields (unat ?n) [0, 8, 16, 24]) @ []"
      using s(2) GZip by (simp add: stream_footer_def fields_bits_append)
    then obtain s1 where s1: "take_u32 ?s = Done (Inr (s1, calculate_crc32 data))" "bi_ok s1"
        "bi_bits s1 = fields_bits (word_fields (unat ?n) [0, 8, 16, 24]) @ []"
      using take_u32_spec [OF s(1)] by blast
    obtain s2 where "take_u32 s1 = Done (Inr (s2, ?n))" using take_u32_spec [OF s1(2,3)] by blast
    moreover have "calculate_crc32 data = d_crc32 d XOR 0xFFFFFFFF"
      using assms(1) GZip by (simp add: checksum_state_def calculate_crc32_def crc32_fold not_eq_xor)
    ultimately show ?thesis using s1(1) assms(1) GZip by (simp add: handle_footer_def checksum_state_def)
  qed
qed

lemma take_u32_short:
  assumes "bi_ok s" "length (bi_bits s) < 32"
  shows "take_u32 s = Done (Inl ENOBUFS)"
proof (cases "length (bi_bits s) < 16")
  case True
  then show ?thesis using take_bits_short [OF assms(1), of 16] by (simp add: take_u32_def)
next
  case False
  then obtain s1 v where s1: "take_bits 16 s = Done (Inr (s1, v))" "bi_ok s1" "bi_bits s1 = drop 16 (bi_bits s)"
    using take_bits_spec [OF assms(1), of 16] by (metis linorder_not_less order_refl)
  then have "take_bits 16 s1 = Done (Inl ENOBUFS)" using take_bits_short [OF s1(2), of 16] assms(2) False by simp
  then show ?thesis using s1(1) by (simp add: take_u32_def)
qed

section \<open>Writing the output\<close>

text \<open>
  A decompressor behind the only block of a stream, with \<open>k\<close> bytes of the data written to the output.
\<close>

definition writing :: "decompressor \<Rightarrow> 8 word list \<Rightarrow> nat \<Rightarrow> bool list \<Rightarrow> bool" where
  "writing d data k rest \<longleftrightarrow> d_state d = BlockHeader \<and> d_bfinal d \<and> window_inv d data \<and> length data \<le> window_len \<and>
     k \<le> length data \<and> d_produced d = length data - k \<and> checksum_state d (take k data) \<and>
     bi_ok (d_stream d) \<and> bi_bits (d_stream d) = rest"

lemma checksum_output_spec:
  assumes "checksum_state d bs"
  shows "checksum_state ((checksum_output cs d)\<lparr>d_produced := n\<rparr>) (bs @ cs)"
  using assms by (auto simp: checksum_state_def checksum_output_def split: stream_type.splits)

lemma checksum_output_fields [simp]:
  "d_state (checksum_output cs d) = d_state d" "d_bfinal (checksum_output cs d) = d_bfinal d"
  "d_stream (checksum_output cs d) = d_stream d" "d_type (checksum_output cs d) = d_type d"
  "d_window (checksum_output cs d) = d_window d" "d_produced (checksum_output cs d) = d_produced d"
  "window_inv (checksum_output cs d) hist = window_inv d hist"
  by (simp_all add: checksum_output_def split: stream_type.splits)

lemma window_content:
  assumes "window_inv d data" "length data \<le> window_len" "k + n \<le> length data"
  shows "take n (drop k (d_window d)) = take n (drop k data)"
proof -
  have w: "length (d_window d) = window_len"
    "\<forall>i < length data. length data \<le> i + window_len \<longrightarrow> d_window d ! (i mod window_len) = data ! i"
    using assms(1) by (simp_all add: window_inv_def win_ok_def)
  have "d_window d ! i = data ! i" if "i < length data" for i using w(2) that assms(2) by force
  then show ?thesis using assms(2,3) w(1) by (intro nth_equalityI) simp_all
qed

lemma write_data_to_output_spec:
  assumes "writing d data k rest"
  obtains d' where "write_data_to_output space d = Done (d', take space (drop k data))"
    "writing d' data (min (k + space) (length data)) rest" "d_stream d' = d_stream d" "d_type d' = d_type d"
    "d_window d' = d_window d"
proof (cases "d_produced d = 0")
  case True
  then have "k = length data" using assms by (simp add: writing_def)
  then show ?thesis using that [of d] True assms by (simp add: write_data_to_output_def writing_def)
next
  case False
  let ?W = window_len
  have w: "window_inv d data" "length data \<le> ?W" "k \<le> length data" "d_produced d = length data - k" "checksum_state d (take k data)"
    using assms by (simp_all add: writing_def)
  have size: "d_window_size d = length data" "(d_window_tail d + d_window_size d) mod ?W = length data mod ?W"
    using w(1,2) unfolding window_inv_def by (metis min.absorb2, blast)
  have "((d_window_tail d + d_window_size d - d_produced d) + d_produced d) mod ?W = (k + d_produced d) mod ?W"
    using size w(3,4) by simp
  from mod_add_cancel_nat [OF this]
  have tail: "(d_window_tail d + d_window_size d - d_produced d) mod ?W = k" using False w(2-4) by simp
  let ?n = "min space (d_produced d)"
  have "min (?W - k) ?n = ?n" using w(2-4) by simp
  then have "write_data_to_output space d =
      Done ((checksum_output (take ?n (drop k data)) d)\<lparr>d_produced := d_produced d - ?n\<rparr>, take ?n (drop k data))"
    using False tail size(1) w(4) window_content [OF w(1,2), of k ?n] w(3)
    by (simp add: write_data_to_output_def Let_def asserting_def)
  moreover have "take ?n (drop k data) = take space (drop k data)" using w(4) by (simp add: min_def)
  moreover have "take k data @ take ?n (drop k data) = take (min (k + space) (length data)) data"
    using w(3,4) by (simp add: take_add [symmetric] min_def)
  ultimately show ?thesis
    using that [of "(checksum_output (take ?n (drop k data)) d)\<lparr>d_produced := d_produced d - ?n\<rparr>"] assms
      checksum_output_spec [OF w(5), where cs = "take ?n (drop k data)" and n = "d_produced d - ?n"] w(3,4)
    by (simp add: writing_def min_def split: if_splits)
qed

section \<open>The rounds of the state machine\<close>

lemma dec_loop_step:
  assumes "d_state d \<noteq> DoneState" "dec_round d = Done (Inr (d', False))" "d_produced d' = 0"
  shows "dec_loop (Suc fuel) space d out = dec_loop fuel space d' out"
  using assms by (simp add: write_data_to_output_def)

lemma dec_loop_finish:
  assumes "writing d data (length data) (pad @ fields_bits (stream_footer (d_type d) data))" "length pad < 8"
  shows "\<exists>d'. dec_loop (fuel + 3) space d out = Done (Inr (d', StatusDone, out))"
proof -
  have w: "d_state d = BlockHeader" "d_bfinal d" "d_produced d = 0" "checksum_state d data" "bi_ok (d_stream d)"
      "bi_bits (d_stream d) = pad @ fields_bits (stream_footer (d_type d) data)"
    using assms(1) by (simp_all add: writing_def)
  let ?d1 = "d\<lparr>d_state := StreamFooter\<rparr>"
  have "dec_round d = Done (Inr (?d1, False))" using w(1,2) by (simp add: dec_round_def block_header_def)
  then have 1: "dec_loop (Suc (Suc (Suc fuel))) space d out = dec_loop (Suc (Suc fuel)) space ?d1 out"
    using dec_loop_step [of d] w(1,3) by simp
  have "checksum_state ?d1 data" using w(4) by (simp add: checksum_state_def split: stream_type.splits)
  then obtain d2 where d2: "handle_footer ?d1 = Done (d2, Inr ())" "d_produced d2 = 0"
    using handle_footer_spec [of ?d1 data pad] w(3,5,6) assms(2) by auto
  then have "dec_round ?d1 = Done (Inr (d2\<lparr>d_state := DoneState\<rparr>, False))" by (simp add: dec_round_def)
  then have 2: "dec_loop (Suc (Suc fuel)) space ?d1 out = dec_loop (Suc fuel) space (d2\<lparr>d_state := DoneState\<rparr>) out"
    using dec_loop_step [of ?d1] d2(2) by simp
  have "dec_loop (Suc (Suc (Suc fuel))) space d out = Done (Inr (d2\<lparr>d_state := DoneState\<rparr>, StatusDone, out))"
    unfolding 1 2 by simp
  moreover have "fuel + 3 = Suc (Suc (Suc fuel))" by simp
  ultimately show ?thesis by metis
qed

text \<open>The header of the block, its trees and its symbols take three rounds.\<close>

lemma block_rounds:
  assumes d: "d_state d = BlockHeader" "\<not> d_bfinal d" "d_produced d = 0" "window_inv d []" "checksum_state d []"
    and s: "bi_ok (d_stream d)" "bi_bits (d_stream d) = block_bits True b @ rest" "9 \<le> length rest"
    and b: "block_ok data b" "length data + 258 < window_len"
  obtains d2 d3 where "\<And>fuel. dec_loop (Suc (Suc fuel)) space d out = dec_loop fuel space d2 out" "d_state d2 = SymbolState"
    "dec_round d2 = Done (Inr (d3, False))" "writing d3 data 0 rest" "d_type d3 = d_type d"
proof -
  obtain s1 where s1: "take_bits 1 (d_stream d) = Done (Inr (s1, 1))" "bi_ok s1" "bi_bits s1 = nat_bits 2 2 @ tree_bits b @ entries_bits b @ rest"
    using take_bits_prefix [OF s(1), of 1 "of_bool True"] s(2) by (auto simp: block_bits_def take_bit_eq_mod)
  obtain s2 where s2: "take_bits 2 s1 = Done (Inr (s2, 2))" "bi_ok s2" "bi_bits s2 = tree_bits b @ entries_bits b @ rest"
    using take_bits_prefix [OF s1(2,3)] by (auto simp: take_bit_eq_mod)
  have av: "\<not> available_bits (d_stream d) < 3" using s(2) by (simp add: available_bits_length block_bits_def)
  let ?d1 = "d\<lparr>d_stream := s2, d_bfinal := True, d_state := DynamicHeader\<rparr>"
  have 1: "dec_round d = Done (Inr (?d1, False))"
    using d(1,2) av s1(1) s2(1) by (simp add: dec_round_def block_header_def)
  have ok: "lens_ok (bc_lit b)" "257 \<le> length (bc_lit b)" "length (bc_lit b) \<le> 286" "lens_ok (bc_dist b)" "1 \<le> length (bc_dist b)"
      "length (bc_dist b) \<le> 30" "rle_valid (bc_enc b)" "rle_decode (bc_enc b) = bc_lit b @ bc_dist b"
      "\<forall>e\<in>set (bc_enc b). bc_clens b ! en_symbol e \<noteq> 0" "lens_ok (bc_clens b)" "length (bc_clens b) = 19" "\<forall>l\<in>set (bc_clens b). l < 8"
    using b(1) by (simp_all add: block_ok_def)
  have len: "9 \<le> length (entries_bits b @ rest)" using s(3) by simp
  obtain s3 lt dt where s3: "handle_dynamic_header s2 = Done (Inr (s3, lt, dt))" "decodes lt (bc_lit b)" "decodes dt (bc_dist b)" "bi_ok s3"
      "bi_bits s3 = entries_bits b @ rest"
    using handle_dynamic_header_spec [OF ok s2(2) _ len] s2(3) by (auto simp: tree_bits_def Let_def)
  let ?d2 = "?d1\<lparr>d_stream := s3, d_length_tree := lt, d_distance_tree := dt, d_state := SymbolState\<rparr>"
  have 2: "dec_round ?d1 = Done (Inr (?d2, False))" using s3(1) by (simp add: dec_round_def)
  have loop: "dec_loop (Suc (Suc fuel)) space d out = dec_loop fuel space ?d2 out" for fuel
    using dec_loop_step [OF _ 1] dec_loop_step [OF _ 2] d(1,3) by simp
  have "\<not> huffman_empty dt" using s3(1) huffman_create_not_empty
    by (auto simp: handle_dynamic_header_def Let_def elim!: tbind_eq_InrD split: prod.splits)
  then have ready: "symbol_ready ?d2 (bc_lit b) (bc_dist b) []
      (concat (map (entry_bits (bc_lit b) (bc_dist b)) (bc_entries b)) @ codeword (bc_lit b) 256 @ rest)"
    using s3(2-5) d(4) by (simp add: symbol_ready_def entries_bits_def)
  have es: "\<forall>e\<in>set (bc_entries b). entry_coded (bc_lit b) (bc_dist b) e" "entries_ok 0 (bc_entries b)" "256 < length (bc_lit b)"
      "bc_lit b ! 256 \<noteq> 0" "foldl expand_entry [] (bc_entries b) = data" "sum_list (map entry_size (bc_entries b)) = length data"
    using b(1) by (simp_all add: block_ok_def)
  obtain d3 where d3: "symbol_loop ?d2 = Done (Inr (d3, False))" "d_state d3 = BlockHeader" "window_inv d3 data" "bi_ok (d_stream d3)"
      "bi_bits (d_stream d3) = rest" "d_produced d3 = length data"
      "d3 = ?d2\<lparr>d_stream := d_stream d3, d_window := d_window d3, d_window_size := d_window_size d3, d_window_tail := d_window_tail d3,
        d_produced := d_produced d3, d_state := BlockHeader\<rparr>"
    using symbol_loop_spec [OF ready s(3) _ es(1) _ es(3,4)] es(2,5,6) d(3) b(2) by auto
  have "d_bfinal d3" "checksum_state d3 []" "d_type d3 = d_type d"
    using arg_cong [OF d3(7), of d_bfinal] arg_cong [OF d3(7), of d_type] arg_cong [OF d3(7), of d_adler]
      arg_cong [OF d3(7), of d_crc32] arg_cong [OF d3(7), of d_isize] d(5)
    by (simp_all add: checksum_state_def split: stream_type.splits)
  then have "writing d3 data 0 rest" using d3(2-6) b(2) by (simp add: writing_def)
  moreover have "dec_round ?d2 = Done (Inr (d3, False))" using d3(1) by (simp add: dec_round_def)
  ultimately show ?thesis using that [of ?d2 d3] loop \<open>d_type d3 = d_type d\<close> by simp
qed

section \<open>The calls\<close>

lemma byte_bits_concat_inj: "concat (map byte_bits xs) = concat (map byte_bits ys) \<Longrightarrow> xs = ys"
proof (induction xs arbitrary: ys)
  case Nil
  then have "length (concat (map byte_bits ys)) = 0" by (metis concat.simps(1) list.map(1) list.size(3))
  then show ?case unfolding length_concat_byte_bits by simp
next
  case (Cons x xs)
  have "length (concat (map byte_bits ys)) \<noteq> 0" using Cons.prems by (metis length_concat_byte_bits length_greater_0_conv list.distinct(1) mult_eq_0_iff neq0_conv zero_neq_numeral)
  then obtain y ys' where ys: "ys = y # ys'" by (cases ys) auto
  then have "byte_bits x = byte_bits y" "concat (map byte_bits xs) = concat (map byte_bits ys')" using Cons.prems by simp_all
  then show ?case using ys Cons.IH byte_bits_inj by simp
qed

text \<open>The bytes that are not yet in the bit buffer are the end of the input.\<close>

lemma unprocessed_suffix:
  assumes "concat (map byte_bits input) = pre @ bi_bits s"
  shows "drop (length input - length (bi_data s)) input = bi_data s"
proof -
  let ?k = "length input - length (bi_data s)" and ?p = "pre @ nat_bits (bi_len s) (bi_buffer s)"
  have eq: "concat (map byte_bits input) = ?p @ concat (map byte_bits (bi_data s))" using assms by (simp add: bi_bits_def)
  from arg_cong [OF eq, of length] have len: "length ?p = 8 * ?k" by simp
  have "concat (map byte_bits input) = concat (map byte_bits (take ?k input)) @ concat (map byte_bits (drop ?k input))"
    by (metis append_take_drop_id concat_append map_append)
  moreover have "length (concat (map byte_bits (take ?k input))) = length ?p" using len by simp
  ultimately show ?thesis using eq byte_bits_concat_inj by (metis append_eq_append_conv)
qed

text \<open>A decompressor between two calls, with the input that is left.\<close>

definition paused :: "decompressor \<Rightarrow> 8 word list \<Rightarrow> 8 word list \<Rightarrow> nat \<Rightarrow> bool list \<Rightarrow> bool" where
  "paused d input data k rest \<longleftrightarrow> writing (d\<lparr>d_stream := set_data input (d_stream d)\<rparr>) data k rest \<and> d_window d \<noteq> []"

lemma writing_window: "writing d data k rest \<Longrightarrow> d_window d \<noteq> []"
  using window_len_pos by (auto simp: writing_def window_inv_def win_ok_def)

lemma paused_finish_call:
  assumes "writing d data k rest" "concat (map byte_bits input) = pre @ bi_bits (d_stream d)"
    and "finish_call input (d, status, out) = (d', consumed, status', out')"
  shows "paused d' (drop consumed input) data k rest" "status' = status" "out' = out" "d_type d' = d_type d"
proof -
  have d': "d' = d\<lparr>d_stream := drop_unprocessed_data (d_stream d)\<rparr>" "consumed = length input - length (bi_data (d_stream d))"
      "status' = status" "out' = out"
    using assms(3) by (simp_all add: finish_call_def unprocessed_bytes_def)
  have "set_data (drop consumed input) (drop_unprocessed_data (d_stream d)) = d_stream d"
    using unprocessed_suffix [OF assms(2)] d'(2) by (simp add: set_data_def drop_unprocessed_data_def)
  then show "paused d' (drop consumed input) data k rest"
    using assms(1) writing_window [OF assms(1)] d'(1) by (simp add: paused_def)
  show "status' = status" "out' = out" "d_type d' = d_type d" using d' by simp_all
qed

text \<open>A call that continues with the output: it ends the stream or fills its whole output.\<close>

lemma decompress_call_resumed:
  assumes "paused d input data k rest" "rest = pad @ fields_bits (stream_footer (d_type d) data)" "length pad < 8" "k < length data"
  shows "if length data - k \<le> space
    then \<exists>d' c. decompress_call (fuel + 3) input space d = Done (Inr (d', c, StatusDone, drop k data))
    else \<exists>d' c. decompress_call (fuel + 3) input space d = Done (Inr (d', c, NeedMoreOutput, take space (drop k data))) \<and>
      paused d' (drop c input) data (k + space) rest \<and> d_type d' = d_type d"
proof -
  let ?d = "d\<lparr>d_stream := set_data input (d_stream d)\<rparr>"
  have w: "writing ?d data k rest" "d_window d \<noteq> []" using assms(1) by (simp_all add: paused_def)
  obtain d1 where d1: "write_data_to_output space ?d = Done (d1, take space (drop k data))"
      "writing d1 data (min (k + space) (length data)) rest" "d_stream d1 = set_data input (d_stream d)" "d_type d1 = d_type d"
    using write_data_to_output_spec [OF w(1), of space] by auto
  have prod: "d_produced d1 = length data - min (k + space) (length data)" using d1(2) by (simp add: writing_def)
  have call: "decompress_call (fuel + 3) input space d =
      (if d_produced d1 > 0 then Done (Inr (finish_call input (d1, NeedMoreOutput, take space (drop k data))))
       else tbind (dec_loop (fuel + 3) (space - length (take space (drop k data))) d1 (take space (drop k data)))
         (\<lambda>r. Done (Inr (finish_call input r))))"
    using w(2) d1(1) by (simp add: decompress_call_def Let_def)
  show ?thesis
  proof (cases "length data - k \<le> space")
    case True
    then have "writing d1 data (length data) (pad @ fields_bits (stream_footer (d_type d1) data))" "d_produced d1 = 0"
        "take space (drop k data) = drop k data"
      using d1(2,4) assms(2,4) prod by (simp_all add: min_absorb2)
    moreover from this obtain d2 where "dec_loop (fuel + 3) (space - length (drop k data)) d1 (drop k data) =
        Done (Inr (d2, StatusDone, drop k data))"
      using dec_loop_finish [of d1 data pad fuel] assms(3) by blast
    ultimately show ?thesis using call True by (simp add: finish_call_def)
  next
    case False
    then have "d_produced d1 > 0" "min (k + space) (length data) = k + space" using prod by simp_all
    moreover have "bi_data (d_stream d1) = input" using d1(3) by (simp add: set_data_def)
    moreover have "writing (d1\<lparr>d_stream := set_data input (d_stream d)\<rparr>) data (k + space) rest"
      using d1(2) calculation(2) unfolding d1(3) [symmetric] by simp
    ultimately show ?thesis using call False d1(2,3,4) writing_window [OF d1(2)]
      by (auto simp: finish_call_def paused_def unprocessed_bytes_def set_data_def drop_unprocessed_data_def)
  qed
qed

lemma decompress_call_first:
  assumes b: "block_ok data b" "length data + 258 < window_len" "data \<noteq> []" and type: "type \<noteq> Raw"
    and input: "concat (map byte_bits input) = fields_bits (stream_header type time) @ block_bits True b @ pad @ fields_bits (stream_footer type data)"
    and pad: "length pad < 8"
  shows "if length data \<le> space
    then \<exists>d' c. decompress_call (fuel + 7) input space (decompressor_init type) = Done (Inr (d', c, StatusDone, data))
    else \<exists>d' c. decompress_call (fuel + 7) input space (decompressor_init type) = Done (Inr (d', c, NeedMoreOutput, take space data)) \<and>
      paused d' (drop c input) data space (pad @ fields_bits (stream_footer type data)) \<and> d_type d' = type"
proof -
  let ?rest = "pad @ fields_bits (stream_footer type data)"
  let ?d = "(decompressor_init type)\<lparr>d_stream := \<lparr>bi_data = input, bi_buffer = 0, bi_len = 0\<rparr>, d_window := replicate window_len 0\<rparr>"
  have s: "bi_ok (d_stream ?d)" "bi_bits (d_stream ?d) = fields_bits (stream_header type time) @ block_bits True b @ ?rest" "d_type ?d = type"
    using input by (simp_all add: bi_ok_def bi_bits_def decompressor_init_def)
  have init: "d_state ?d = StreamHeader" "\<not> d_bfinal ?d" "d_produced ?d = 0" "window_inv ?d []"
    by (simp_all add: decompressor_init_def window_inv_def win_ok_def)
  obtain s1 a c i where h: "handle_header ?d = Done (Inr (?d\<lparr>d_stream := s1, d_adler := a, d_crc32 := c, d_isize := i\<rparr>))" "bi_ok s1"
      "bi_bits s1 = block_bits True b @ ?rest" "checksum_state (?d\<lparr>d_stream := s1, d_adler := a, d_crc32 := c, d_isize := i\<rparr>) []"
    using handle_header_spec [OF s(3,1,2)] by blast
  define d1 where "d1 = ?d\<lparr>d_stream := s1, d_adler := a, d_crc32 := c, d_isize := i, d_state := BlockHeader\<rparr>"
  have "dec_round ?d = Done (Inr (d1, False))" using h(1) init(1) by (simp add: dec_round_def d1_def)
  then have first: "dec_loop (Suc f) space ?d [] = dec_loop f space d1 []" for f
    using dec_loop_step [of ?d d1] init(1,3) by (simp add: d1_def decompressor_init_def)
  have "window_inv d1 []" by (simp add: d1_def window_inv_def win_ok_def decompressor_init_def)
  moreover have "checksum_state d1 []" using h(4) by (simp add: d1_def checksum_state_def split: stream_type.splits)
  ultimately have d1: "d_state d1 = BlockHeader" "\<not> d_bfinal d1" "d_produced d1 = 0" "window_inv d1 []" "checksum_state d1 []"
      "bi_ok (d_stream d1)" "bi_bits (d_stream d1) = block_bits True b @ ?rest" "d_type d1 = type"
    using init h(2,3) s(3) by (simp_all add: d1_def)
  have "9 \<le> length ?rest" using type by (cases type) (simp_all add: length_stream_footer)
  then obtain d2 d3 where d2: "\<And>f. dec_loop (Suc (Suc f)) space d1 [] = dec_loop f space d2 []" "d_state d2 = SymbolState"
      "dec_round d2 = Done (Inr (d3, False))" "writing d3 data 0 ?rest" "d_type d3 = d_type d1"
    using block_rounds [OF d1(1-7) _ b(1,2), of space "[]"] by metis
  obtain d4 where d4: "write_data_to_output space d3 = Done (d4, take space data)" "writing d4 data (min space (length data)) ?rest"
      "d_stream d4 = d_stream d3" "d_type d4 = d_type d3"
    using write_data_to_output_spec [OF d2(4), of space] by auto
  have "fuel + 7 = Suc (Suc (Suc (Suc (fuel + 3))))" by simp
  then have "dec_loop (fuel + 7) space ?d [] = dec_loop (Suc (fuel + 3)) space d2 []" by (simp only: first d2(1))
  moreover have "dec_loop (Suc (fuel + 3)) space d2 [] =
      (if d_produced d4 > 0 then Done (Inr (d4, NeedMoreOutput, take space data))
       else dec_loop (fuel + 3) (space - length (take space data)) d4 (take space data))"
    using d2(2,3) d4(1) by (subst dec_loop.simps(2)) simp
  ultimately have loop: "dec_loop (fuel + 7) space ?d [] =
      (if d_produced d4 > 0 then Done (Inr (d4, NeedMoreOutput, take space data))
       else dec_loop (fuel + 3) (space - length (take space data)) d4 (take space data))"
    by simp
  have call: "decompress_call (fuel + 7) input space (decompressor_init type) =
      tbind (dec_loop (fuel + 7) space ?d []) (\<lambda>r. Done (Inr (finish_call input r)))"
    by (simp add: decompress_call_def decompressor_init_def set_data_def write_data_to_output_def)
  have prod: "d_produced d4 = length data - min space (length data)" using d4(2) by (simp add: writing_def)
  show ?thesis
  proof (cases "length data \<le> space")
    case True
    then have "writing d4 data (length data) (pad @ fields_bits (stream_footer (d_type d4) data))"
      using d4(2,4) d2(5) d1(8) by (simp add: min_absorb2)
    then obtain d5 where "dec_loop (fuel + 3) (space - length data) d4 data = Done (Inr (d5, StatusDone, data))"
      using dec_loop_finish [OF _ pad] by blast
    then have "dec_loop (fuel + 7) space ?d [] = Done (Inr (d5, StatusDone, data))" using True prod loop by simp
    then show ?thesis using True call by (simp add: finish_call_def)
  next
    case False
    then have "dec_loop (fuel + 7) space ?d [] = Done (Inr (d4, NeedMoreOutput, take space data))" using prod loop by simp
    moreover obtain d' c st out where f: "finish_call input (d4, NeedMoreOutput, take space data) = (d', c, st, out)"
      by (cases "finish_call input (d4, NeedMoreOutput, take space data)") auto
    moreover have "concat (map byte_bits input) = (fields_bits (stream_header type time) @ block_bits True b) @ bi_bits (d_stream d4)"
      using input d4(2) by (simp add: writing_def)
    note paused_finish_call [OF d4(2) this f]
    ultimately show ?thesis using False call d4(4) d2(5) d1(8) by (auto simp: min_def)
  qed
qed

lemma decompress_loop_resumed:
  assumes "paused d input data k (pad @ fields_bits (stream_footer (d_type d) data))" "length pad < 8"
    and "k < output_size" "k < length data" "length data < k + fuel"
  shows "decompress_loop fuel input output_size (take k data) d = Done (Inr data)"
  using assms(1,3-5)
proof (induction fuel arbitrary: d input k output_size)
  case (Suc fuel)
  let ?space = "output_size - k"
  have fuel: "8 * length input + 64 = (8 * length input + 61) + 3" by simp
  have len: "length (take k data) = k" using Suc.prems(3) by simp
  note call = decompress_call_resumed [OF Suc.prems(1) refl assms(2) Suc.prems(3), of ?space "8 * length input + 61"]
  show ?case
  proof (cases "length data - k \<le> ?space")
    case True
    then show ?thesis using call len by (auto simp: add.commute)
  next
    case False
    then obtain d' c where d': "decompress_call (8 * length input + 64) input ?space d =
          Done (Inr (d', c, NeedMoreOutput, take ?space (drop k data)))"
        "paused d' (drop c input) data (k + ?space) (pad @ fields_bits (stream_footer (d_type d) data))" "d_type d' = d_type d"
      using call unfolding fuel by auto
    have k: "k + ?space = output_size" using Suc.prems(2) by simp
    have "take k data @ take ?space (drop k data) = take output_size data" by (metis k take_add)
    moreover have "decompress_loop fuel (drop c input) (output_size * 2) (take output_size data) d' = Done (Inr data)"
      using Suc.IH [of d' "drop c input" output_size "output_size * 2"] d'(2,3) k False Suc.prems(2,4) by simp
    ultimately show ?thesis using d'(1) len by simp
  qed
qed simp

section \<open>A second block\<close>

lemma match_length_le: "match_length input pos node n len \<le> len + n"
proof (induction n arbitrary: len)
  case (Suc n)
  then show ?case using Suc.IH [of "Suc len"] by simp
qed simp

lemma match_chain_le:
  assumes "3 \<le> m" "\<And>l d. best = DistLength l d \<Longrightarrow> l \<le> m"
  shows "match_chain input pos m nodes best = DistLength l d \<Longrightarrow> l \<le> m"
  using assms
proof (induction input pos m nodes best rule: match_chain.induct)
  case (2 input pos m node nodes best)
  have "match_length input pos node (m - 3) 3 \<le> m" using match_length_le [of input pos node "m - 3" 3] "2.prems"(2) by simp
  then show ?case using 2 by (auto simp: Let_def split: if_splits lz77_entry.splits)
qed auto

lemma find_longest_match_le: "find_longest_match input pos n s = DistLength l d \<Longrightarrow> l \<le> s_max_length"
  using match_chain_le [of "min n s_max_length" "Literal (input ! pos)" input pos _ l d]
  by (auto simp: find_longest_match_def s_max_length_def split: if_splits option.splits)

text \<open>
  The index of the hash chains still counts from the start of the first block, where a block of
  fewer bytes has no span.
\<close>

lemma lz77_loop_out_of_range:
  assumes "length input - cs_base s < cs_index s" "0 < advance" "i < block_size"
  shows "lz77_loop input block_size i advance s result = Halt"
proof -
  obtain n where "advance = Suc n" using assms(2) by (cases advance) auto
  then have "update_hash_chain input advance s = Halt" using assms(1) by (simp add: update_hash_chain_def)
  then show ?thesis using assms(3) by (simp add: lz77_loop.simps [of input block_size i advance])
qed

lemma lz77_compress_out_of_range:
  assumes "length input - cs_base s < cs_index s" "s_max_length + 1 < block_size"
  shows "lz77_compress input block_size s = Halt"
proof -
  obtain s' where s': "update_hash_chain input 0 s = Done s'" "cs_base s' = cs_base s" "cs_index s' = cs_index s"
    by (simp add: update_hash_chain_def)
  have halt: "lz77_loop input block_size a a s' r = Halt" if "0 < a" "a \<le> s_max_length + 1" for a r
    using lz77_loop_out_of_range [of input s' a a] assms s'(2,3) that by simp
  let ?m = "find_longest_match input (cs_base s) block_size s'" and ?l = "find_longest_match input (Suc (cs_base s)) (block_size - Suc 0) s'"
  have m: "0 < l \<and> l \<le> s_max_length" if "?m = DistLength l d" for l d
    using find_longest_match_le [OF that] find_longest_match_length [OF that] by simp
  have l: "0 < l \<and> l \<le> s_max_length" if "?l = DistLength l d" for l d
    using find_longest_match_le [OF that] find_longest_match_length [OF that] by simp
  show ?thesis
    using s'(1) assms(2) halt [of 1]
    by (auto simp: lz77_compress_def lz77_loop.simps [of input block_size 0 0 s "[]"] split: lz77_entry.splits
        intro!: halt dest!: m l)
qed

section \<open>Properties\<close>

text \<open>
  C1: Compression and decompression are inverse to each other: for the zlib and gzip formats and a non-empty
  input of at most one block that the format written by the compressor can represent,
  \<open>compress\<close> returns a stream that \<open>decompress\<close> returns the input for. More rounds of
  output doubling than the number of bytes are never needed.
\<close>

theorem deflate_roundtrip:
  assumes "type \<noteq> Raw" "data \<noteq> []" "length data \<le> max_block_size" "block_representable data" "length data < fuel"
  shows "\<exists>bytes. compress type time data = Done bytes \<and> decompress fuel type bytes = Done (Inr data)"
proof -
  obtain b bytes where b: "block_ok data b" "compress type time data = Done bytes"
      "concat (map byte_bits bytes) = pad_bits (fields_bits (stream_header type time) @ block_bits True b) @ fields_bits (stream_footer type data)"
    using compress_spec [OF assms(2-4)] by blast
  define pad where "pad = replicate ((8 - length (fields_bits (stream_header type time) @ block_bits True b) mod 8) mod 8) False"
  have pad: "length pad < 8" by (simp add: pad_def)
  have bits: "concat (map byte_bits bytes) = fields_bits (stream_header type time) @ block_bits True b @ pad @ fields_bits (stream_footer type data)"
    using b(3) by (simp add: pad_bits_def pad_def)
  have len: "length data + 258 < window_len" using assms(3) by (simp add: max_block_size_def total_window_size_def)
  have ne: "bytes \<noteq> []" using bits assms(1) length_stream_footer [of type data] by (cases type) auto
  obtain f where f: "fuel = Suc f" using assms(5) by (cases fuel) auto
  have fuel: "8 * length bytes + 64 = (8 * length bytes + 57) + 7" by simp
  note call = decompress_call_first [OF b(1) len assms(2,1) bits pad, of "2 * length bytes" "8 * length bytes + 57"]
  have "decompress fuel type bytes = Done (Inr data)"
  proof (cases "length data \<le> 2 * length bytes")
    case True
    then show ?thesis using call by (auto simp: decompress_def f add.commute)
  next
    case False
    then obtain d' c where d': "decompress_call (8 * length bytes + 64) bytes (2 * length bytes) (decompressor_init type) =
          Done (Inr (d', c, NeedMoreOutput, take (2 * length bytes) data))"
        "paused d' (drop c bytes) data (2 * length bytes) (pad @ fields_bits (stream_footer type data))" "d_type d' = type"
      using call unfolding fuel by auto
    have "length data < 2 * length bytes + f" using assms(5) f ne by (cases bytes) auto
    then have "decompress_loop f (drop c bytes) (2 * length bytes * 2) (take (2 * length bytes) data) d' = Done (Inr data)"
      using decompress_loop_resumed [of d' "drop c bytes" data "2 * length bytes" pad "2 * length bytes * 2" f] d'(2,3) pad False ne by simp
    then show ?thesis using d'(1) by (simp add: decompress_def f)
  qed
  then show ?thesis using b(2) by blast
qed

theorem deflate_roundtrip_witness:
  "\<exists>bytes. compress GZip 0 [97] = Done bytes \<and> decompress 2 GZip bytes = Done (Inr [97])"
proof -
  have rep: "block_representable [97]" by code_simp
  show ?thesis by (rule deflate_roundtrip [OF _ _ _ rep]) (simp_all add: max_block_size_def)
qed

text \<open>
  C39: The compressor does not survive its second block: the index of the hash chains is not reset when
  the data moves on to the next block. For every input that is longer than one block by more
  than the longest match and by less than what the first block leaves in the index, \<open>compress\<close>
  stops at an assertion.
\<close>

theorem compress_second_block_halts:
  assumes "max_block_size + s_max_length + 1 < length data" "length data + s_max_length + 1 < 2 * max_block_size"
  shows "compress type time data = Halt"
proof -
  let ?n = "max_block_size" and ?r = "length data - max_block_size"
  have ne: "data \<noteq> []" using assms(1) by auto
  have "compress_blocks data (chain_init, out) = Halt" for out
  proof (cases "compress_block data ?n False (chain_init, out)")
    case (Done x)
    obtain s out' where x: "x = (s, out')" by (cases x)
    obtain s' es adv where lz: "lz77_compress data ?n chain_init = Done (s', es)" "lz77_inv data ?n adv s' es" "adv \<le> s_max_length + 1"
      using lz77_compress_first [of ?n data] assms(1) by auto
    have "s = s'" using Done x lz(1) by (auto simp: compress_block_def run_iffs split: prod.splits)
    then have idx: "?n \<le> cs_index s + s_max_length + 1" using lz(2,3) by (simp add: lz77_inv_def)
    have "lz77_compress data ?r (s\<lparr>cs_base := ?n\<rparr>) = Halt"
      by (rule lz77_compress_out_of_range) (use idx assms in simp_all)
    then have "compress_blocks data (s\<lparr>cs_base := ?n\<rparr>, out') = Halt"
      using assms by (simp add: compress_blocks.simps [of data "s\<lparr>cs_base := ?n\<rparr>"] compress_block_def min_absorb1)
    then show ?thesis
      using Done x assms ne by (simp add: compress_blocks.simps [of data chain_init] min_absorb2)
  qed (use assms ne in \<open>simp add: compress_blocks.simps [of data chain_init] min_absorb2\<close>)
  then show ?thesis by (simp add: compress_def rbind_def split: run.splits)
qed

theorem compress_second_block_halts_witness: "compress Zlib 0 (replicate 20000 7) = Halt"
  by (rule compress_second_block_halts) (simp_all add: max_block_size_def s_max_length_def)

text \<open>
  C40: A gzip footer that arrives in two pieces is rejected. With fewer than four bytes of it the
  decompressor asks for more input, but it has already complemented its checksum; with the rest
  of a correct footer, which it accepts when it is there at once, it fails with \<open>EINVAL\<close>.
\<close>

theorem gzip_footer_in_pieces_fails:
  assumes "d_type d = GZip" "d_state d = StreamFooter" "checksum_state d data" "bi_ok (d_stream d)" "length (bi_bits (d_stream d)) < 32"
    and "bi_ok s" "bi_bits s = pad @ fields_bits (stream_footer GZip data)" "length pad < 8"
  shows "\<exists>d1 d2. dec_round (d\<lparr>d_stream := s\<rparr>) = Done (Inr (d1, False)) \<and> d_state d1 = DoneState \<and>
    dec_round d = Done (Inr (d2, True)) \<and> dec_round (d2\<lparr>d_stream := s\<rparr>) = Done (Inl EINVAL)"
proof -
  let ?c = "foldl crc32_table_step 0xFFFFFFFF data"
  have crc: "d_crc32 d = ?c" "calculate_crc32 data = ?c XOR 0xFFFFFFFF"
    using assms(1,3) by (simp_all add: checksum_state_def calculate_crc32_def crc32_fold not_eq_xor)
  have "checksum_state (d\<lparr>d_stream := s\<rparr>) data" using assms(1,3) by (simp add: checksum_state_def)
  then obtain d1 where d1: "handle_footer (d\<lparr>d_stream := s\<rparr>) = Done (d1, Inr ())"
    using handle_footer_spec [of "d\<lparr>d_stream := s\<rparr>" data pad] assms(1,6-8) by auto
  let ?s = "skip_to_byte_boundary (d_stream d)" and ?t = "skip_to_byte_boundary s"
  have "length (bi_bits ?s) < 32" using skip_to_byte_boundary_spec(2) [OF assms(4)] assms(5) by simp
  then have short: "take_u32 ?s = Done (Inl ENOBUFS)" using take_u32_short skip_to_byte_boundary_spec(1) [OF assms(4)] by blast
  let ?d2 = "d\<lparr>d_crc32 := ?c XOR 0xFFFFFFFF\<rparr>"
  have retry: "dec_round d = Done (Inr (?d2, True))" using assms(1,2) crc(1) short by (simp add: dec_round_def handle_footer_def)
  have "length (bi_bits s) mod 8 = length pad"
    using assms(7,8) length_stream_footer [of GZip data] by (simp add: mod_add_eq [symmetric])
  then have t: "bi_ok ?t" "bi_bits ?t = fields_bits (word_fields (unat (calculate_crc32 data)) [0, 8, 16, 24]) @
      fields_bits (word_fields (unat (word_of_nat (length data) :: 32 word)) [0, 8, 16, 24])"
    using skip_to_byte_boundary_spec [OF assms(6)] assms(7) by (simp_all add: stream_footer_def fields_bits_append)
  obtain s1 where "take_u32 ?t = Done (Inr (s1, calculate_crc32 data))" using take_u32_spec [OF t] by blast
  moreover have "?c XOR 0xFFFFFFFF \<noteq> ?c" by (rule xor_ones_neq)
  ultimately have "dec_round (?d2\<lparr>d_stream := s\<rparr>) = Done (Inl EINVAL)"
    using assms(1,2) crc(2) by (simp add: dec_round_def handle_footer_def Let_def xor.assoc)
  then show ?thesis
    using retry d1 assms(2) by (intro exI [of _ "d1\<lparr>d_state := DoneState\<rparr>"] exI [of _ ?d2]) (simp add: dec_round_def)
qed

theorem gzip_footer_in_pieces_fails_witness:
  "\<exists>d1 d2. dec_round ((decompressor_init GZip)\<lparr>d_state := StreamFooter, d_crc32 := 0xFFFFFFFF,
       d_stream := \<lparr>bi_data = [0, 0, 0, 0, 0, 0, 0, 0], bi_buffer = 0, bi_len = 0\<rparr>\<rparr>) = Done (Inr (d1, False)) \<and> d_state d1 = DoneState \<and>
     dec_round ((decompressor_init GZip)\<lparr>d_state := StreamFooter, d_crc32 := 0xFFFFFFFF\<rparr>) = Done (Inr (d2, True)) \<and>
     dec_round (d2\<lparr>d_stream := \<lparr>bi_data = [0, 0, 0, 0, 0, 0, 0, 0], bi_buffer = 0, bi_len = 0\<rparr>\<rparr>) = Done (Inl EINVAL)"
proof -
  let ?d = "(decompressor_init GZip)\<lparr>d_state := StreamFooter, d_crc32 := 0xFFFFFFFF\<rparr>"
    and ?s = "\<lparr>bi_data = [0, 0, 0, 0, 0, 0, 0, 0], bi_buffer = 0, bi_len = 0\<rparr>"
  have "calculate_crc32 [] = 0" by (simp add: calculate_crc32_def not_eq_xor)
  moreover have "byte_bits 0 = nat_bits 8 0" using byte_bits_word_of_nat [of 0] by simp
  ultimately have "bi_bits ?s = [] @ fields_bits (stream_footer GZip [])"
    by (simp add: bi_bits_def stream_footer_def word_fields_def fields_bits_Cons)
  then show ?thesis
    using gzip_footer_in_pieces_fails [of ?d "[]" ?s "[]"] by (simp add: decompressor_init_def checksum_state_def bi_ok_def bi_bits_def)
qed

end
