(* ===== verification/HashSet.thy ===== *)
theory HashSet
  imports BAN_Math "HOL-Library.Code_Target_Numeral"
begin

text \<open>
  The hash set of \<^verbatim>\<open>BAN/HashSet.h\<close> with the integer hashes of \<^verbatim>\<open>BAN/Hash.h\<close>: open addressing with a
  linear congruential probe sequence, removed buckets and the chain-start flag that cuts searches
  short. The elements have a key, which the hash and the comparison of the class look at;
  for a set it is the element itself, for a map (theory \<open>HashMap\<close>) the key of the entry.
\<close>

section \<open>Model: hashes\<close>

definition u32_hash :: "32 word \<Rightarrow> 32 word" where
  "u32_hash val =
     (let val = (drop_bit 16 val XOR val) * 0x119de1f3;
          val = (drop_bit 16 val XOR val) * 0x119de1f3
      in drop_bit 16 val XOR val)"

definition u64_hash :: "64 word \<Rightarrow> 32 word" where
  "u64_hash val = u32_hash (ucast val) XOR u32_hash (ucast (drop_bit 32 val))"

section \<open>Model: buckets\<close>

datatype bucket_state = UNUSED | USED | REMOVED

text \<open>
  The storage of a bucket holds an element only while it is used. The bucket behind the last one,
  which ends iterations, is the end of the list.
\<close>

record 'a bucket =
  bk_element :: "'a option"
  bk_hash :: "32 word"
  bk_state :: bucket_state
  bk_chain_start :: bool

record 'a hash_set =
  hs_buckets :: "'a bucket list"
  hs_size :: nat
  hs_removed :: nat

definition hs_empty :: "'a hash_set" where
  "hs_empty = \<lparr>hs_buckets = [], hs_size = 0, hs_removed = 0\<rparr>"

definition hs_capacity :: "'a hash_set \<Rightarrow> nat" where
  "hs_capacity s = length (hs_buckets s)"

definition should_rehash_with_size :: "nat \<Rightarrow> 'a hash_set \<Rightarrow> bool" where
  "should_rehash_with_size n s =
     (if hs_capacity s < 16 then True
      else if n + hs_removed s > hs_capacity s div 4 * 3 then True else False)"

definition get_next_hash_in_chain :: "32 word \<Rightarrow> 32 word \<Rightarrow> 32 word" where
  "get_next_hash_in_chain prev_hash orig_hash = prev_hash * 1103515245 + (orig_hash OR 1)"

definition bucket_index :: "'a bucket list \<Rightarrow> 32 word \<Rightarrow> nat" where
  "bucket_index bs h = unat h AND (length bs - 1)"

section \<open>Model: search and insertion\<close>

text \<open>
  \<open>eq\<close> is the comparison with the value that is looked for. An iterator is the index of its
  bucket, or \<open>None\<close> for the end. The loops have no bound of their own; the fuel is the number of
  probes, and a search that needs more of them never ends.
\<close>

fun find_loop :: "nat \<Rightarrow> 'a bucket list \<Rightarrow> ('a \<Rightarrow> bool) \<Rightarrow> 32 word \<Rightarrow> 32 word \<Rightarrow> bool \<Rightarrow> nat option run" where
  "find_loop 0 bs eq orig_hash h first = Halt"
| "find_loop (Suc fuel) bs eq orig_hash h first =
     (let i = bucket_index bs h; bucket = bs ! i
      in if bk_state bucket = USED \<and> bk_hash bucket = orig_hash \<and> eq (the (bk_element bucket)) then Done (Some i)
         else if bk_state bucket = UNUSED then Done None
         else if \<not> first \<and> bk_chain_start bucket then Done None
         else find_loop fuel bs eq orig_hash (get_next_hash_in_chain h orig_hash) False)"

definition find_impl :: "('a \<Rightarrow> bool) \<Rightarrow> 32 word \<Rightarrow> 'a hash_set \<Rightarrow> nat option run" where
  "find_impl eq orig_hash s =
     (if hs_capacity s = 0 then Done None
      else find_loop (hs_capacity s) (hs_buckets s) eq orig_hash orig_hash True)"

fun insert_loop ::
  "nat \<Rightarrow> 'a bucket list \<Rightarrow> ('a \<Rightarrow> bool) \<Rightarrow> 32 word \<Rightarrow> 32 word \<Rightarrow> bool \<Rightarrow> nat option \<Rightarrow> ('a bucket list \<times> nat \<times> bool) run" where
  "insert_loop 0 bs eq orig_hash h first target = Halt"
| "insert_loop (Suc fuel) bs eq orig_hash h first target =
     (let i = bucket_index bs h;
          bs = (if \<not> first then bs[i := (bs ! i)\<lparr>bk_chain_start := False\<rparr>] else bs);
          bucket = bs ! i;
          next_hash = get_next_hash_in_chain h orig_hash
      in if bk_state bucket = USED then
           if bk_hash bucket \<noteq> orig_hash \<or> \<not> eq (the (bk_element bucket))
           then insert_loop fuel bs eq orig_hash next_hash False target
           else Done (bs, i, first)
         else let t = (case target of None \<Rightarrow> i | Some t \<Rightarrow> t)
              in if bk_state bucket = UNUSED then Done (bs, t, first)
                 else insert_loop fuel bs eq orig_hash next_hash False (Some t))"

declare find_loop.simps [simp del] insert_loop.simps [simp del]

definition insert_impl :: "('a \<Rightarrow> 'k) \<Rightarrow> 'a \<Rightarrow> 32 word \<Rightarrow> 'a hash_set \<Rightarrow> ('a hash_set \<times> nat) run" where
  "insert_impl key val orig_hash s =
     asserting (\<not> should_rehash_with_size (hs_size s + 1) s)
       (rbind (insert_loop (hs_capacity s) (hs_buckets s) (\<lambda>x. key x = key val) orig_hash orig_hash True None) (\<lambda>(bs, t, first).
          let target = bs ! t;
              bucket = \<lparr>bk_element = Some val, bk_hash = orig_hash, bk_state = USED,
                        bk_chain_start = (first \<and> bk_state target = UNUSED)\<rparr>;
              removed = (if bk_state target = REMOVED then hs_removed s - 1 else hs_removed s);
              size = (if bk_state target = USED then hs_size s else hs_size s + 1)
          in Done (\<lparr>hs_buckets = bs[t := bucket], hs_size = size, hs_removed = removed\<rparr>, t)))"

definition unused_bucket :: "'a bucket" where
  "unused_bucket = \<lparr>bk_element = None, bk_hash = 0, bk_state = UNUSED, bk_chain_start = False\<rparr>"

fun rehash_loop :: "('a \<Rightarrow> 'k) \<Rightarrow> 'a bucket list \<Rightarrow> 'a hash_set \<Rightarrow> 'a hash_set run" where
  "rehash_loop key [] s = Done s"
| "rehash_loop key (b # bs) s =
     (if bk_state b \<noteq> USED then rehash_loop key bs s
      else rbind (insert_impl key (the (bk_element b)) (bk_hash b) s) (\<lambda>(s', _). rehash_loop key bs s'))"

text \<open>\<open>alloc n\<close> tells whether the memory for \<open>n\<close> buckets can be allocated. The products wrap around at 64 bits.\<close>

definition rehash_capacity :: "nat \<Rightarrow> nat \<Rightarrow> nat" where
  "rehash_capacity new_capacity cnt =
     unat (round_up_to_power_of_two (word_of_nat (max 16 (max (new_capacity mod 2 ^ 64) (cnt + 1)))))"

definition rehash :: "(nat \<Rightarrow> bool) \<Rightarrow> ('a \<Rightarrow> 'k) \<Rightarrow> nat \<Rightarrow> 'a hash_set \<Rightarrow> 'a hash_set error_or run" where
  "rehash alloc key new_capacity s =
     (let new_capacity = rehash_capacity new_capacity (hs_size s)
      in if \<not> alloc (new_capacity + 1) then Done (Inl ENOMEM)
         else rbind (rehash_loop key (hs_buckets s)
                \<lparr>hs_buckets = replicate new_capacity unused_bucket, hs_size = 0, hs_removed = 0\<rparr>) (\<lambda>s'. Done (Inr s')))"

section \<open>Model: the interface\<close>

definition hs_insert :: "(nat \<Rightarrow> bool) \<Rightarrow> ('k \<Rightarrow> 32 word) \<Rightarrow> ('a \<Rightarrow> 'k) \<Rightarrow> 'a \<Rightarrow> 'a hash_set \<Rightarrow> ('a hash_set \<times> nat) error_or run" where
  "hs_insert alloc hash key val s =
     tbind (if should_rehash_with_size (hs_size s + 1) s then rehash alloc key (hs_size s * 2) s else Done (Inr s)) (\<lambda>s'.
       rbind (insert_impl key val (hash (key val)) s') (\<lambda>r. Done (Inr r)))"

definition hs_find :: "('k \<Rightarrow> 32 word) \<Rightarrow> ('a \<Rightarrow> 'k) \<Rightarrow> 'k \<Rightarrow> 'a hash_set \<Rightarrow> nat option run" where
  "hs_find hash key k s = find_impl (\<lambda>x. key x = k) (hash k) s"

definition hs_contains :: "('k \<Rightarrow> 32 word) \<Rightarrow> ('a \<Rightarrow> 'k) \<Rightarrow> 'k \<Rightarrow> 'a hash_set \<Rightarrow> bool run" where
  "hs_contains hash key k s = rbind (hs_find hash key k s) (\<lambda>it. Done (it \<noteq> None))"

function skip_to_valid_bucket :: "'a bucket list \<Rightarrow> nat \<Rightarrow> nat option" where
  "skip_to_valid_bucket bs i =
     (if length bs \<le> i then None
      else if bk_state (bs ! i) = USED then Some i
      else skip_to_valid_bucket bs (i + 1))"
  by auto
termination by (relation "measure (\<lambda>(bs, i). length bs - i)") auto

declare skip_to_valid_bucket.simps [simp del]

definition hs_begin :: "'a hash_set \<Rightarrow> nat option" where
  "hs_begin s = (if hs_buckets s = [] then None else skip_to_valid_bucket (hs_buckets s) 0)"

definition hs_next :: "'a hash_set \<Rightarrow> nat option \<Rightarrow> nat option run" where
  "hs_next s it = (case it of None \<Rightarrow> Halt | Some i \<Rightarrow> Done (skip_to_valid_bucket (hs_buckets s) (i + 1)))"

definition hs_deref :: "'a hash_set \<Rightarrow> nat option \<Rightarrow> 'a run" where
  "hs_deref s it = (case it of None \<Rightarrow> Halt | Some i \<Rightarrow> Done (the (bk_element (hs_buckets s ! i))))"

definition hs_remove_at :: "nat \<Rightarrow> 'a hash_set \<Rightarrow> 'a hash_set \<times> nat option" where
  "hs_remove_at i s =
     (let bs = (hs_buckets s)[i := (hs_buckets s ! i)\<lparr>bk_element := None, bk_state := REMOVED\<rparr>]
      in (\<lparr>hs_buckets = bs, hs_size = hs_size s - 1, hs_removed = hs_removed s + 1\<rparr>, skip_to_valid_bucket bs i))"

definition hs_remove :: "('k \<Rightarrow> 32 word) \<Rightarrow> ('a \<Rightarrow> 'k) \<Rightarrow> 'k \<Rightarrow> 'a hash_set \<Rightarrow> 'a hash_set run" where
  "hs_remove hash key k s =
     rbind (hs_find hash key k s) (\<lambda>it. case it of None \<Rightarrow> Done s | Some i \<Rightarrow> Done (fst (hs_remove_at i s)))"

definition hs_clear :: "'a hash_set \<Rightarrow> 'a hash_set" where
  "hs_clear s = (if hs_buckets s = [] then s else hs_empty)"

definition hs_reserve :: "(nat \<Rightarrow> bool) \<Rightarrow> ('a \<Rightarrow> 'k) \<Rightarrow> nat \<Rightarrow> 'a hash_set \<Rightarrow> 'a hash_set error_or run" where
  "hs_reserve alloc key n s =
     (if should_rehash_with_size n s then rehash alloc key (n * 2) s else Done (Inr s))"

fun hs_insert_all :: "(nat \<Rightarrow> bool) \<Rightarrow> ('k \<Rightarrow> 32 word) \<Rightarrow> ('a \<Rightarrow> 'k) \<Rightarrow> 'a list \<Rightarrow> 'a hash_set \<Rightarrow> 'a hash_set run" where
  "hs_insert_all alloc hash key [] s = Done s"
| "hs_insert_all alloc hash key (v # vs) s = must (hs_insert alloc hash key v s) (\<lambda>(s', _). hs_insert_all alloc hash key vs s')"

text \<open>The elements in the order of an iteration.\<close>

definition hs_elements :: "'a hash_set \<Rightarrow> 'a list" where
  "hs_elements s = map (\<lambda>b. the (bk_element b)) (filter (\<lambda>b. bk_state b = USED) (hs_buckets s))"

definition hs_copy :: "(nat \<Rightarrow> bool) \<Rightarrow> ('k \<Rightarrow> 32 word) \<Rightarrow> ('a \<Rightarrow> 'k) \<Rightarrow> 'a hash_set \<Rightarrow> 'a hash_set \<Rightarrow> 'a hash_set run" where
  "hs_copy alloc hash key other s =
     must (hs_reserve alloc key (hs_size other) (hs_clear s)) (\<lambda>s'. hs_insert_all alloc hash key (hs_elements other) s')"

text \<open>The move leaves the other set empty.\<close>

definition hs_move :: "'a hash_set \<Rightarrow> 'a hash_set \<Rightarrow> 'a hash_set \<times> 'a hash_set" where
  "hs_move other s = (other, hs_empty)"

section \<open>The probe sequence\<close>

text \<open>
  The linear congruential step with a multiplier of the form \<open>4 m + 1\<close> and an odd increment: repeating it
  \<open>2 ^ k\<close> times is again such a step, with a multiplier that is 1 modulo \<open>2 ^ (k + 2)\<close> and an
  increment that is an odd multiple of \<open>2 ^ k\<close>.
\<close>

definition lcg :: "nat \<Rightarrow> nat \<Rightarrow> nat \<Rightarrow> nat" where
  "lcg a c x = a * x + c"

lemma lcg_funpow_power:
  assumes "a mod 4 = 1" "odd c"
  shows "\<exists>A C. (lcg a c ^^ (2 ^ k)) = lcg A (2 ^ k * C) \<and> A mod 2 ^ (k + 2) = 1 \<and> odd C"
proof (induction k)
  case 0
  then show ?case using assms by (intro exI [of _ a] exI [of _ c]) simp
next
  case (Suc k)
  then obtain A C where IH: "lcg a c ^^ (2 ^ k) = lcg A (2 ^ k * C)" "A mod 2 ^ (k + 2) = 1" "odd C" by blast
  define m where "m = A div 2 ^ (k + 2)"
  have A: "A = 2 ^ (k + 2) * m + 1" using mult_div_mod_eq [of "2 ^ (k + 2)" A] IH(2) unfolding m_def by metis
  define t where "t = 2 ^ (k + 1) * m + 1"
  have t: "A + 1 = 2 * t" "odd t" by (simp_all add: A t_def)
  have "lcg a c ^^ (2 ^ Suc k) = (lcg a c ^^ (2 ^ k)) \<circ> (lcg a c ^^ (2 ^ k))" by (simp add: mult_2 funpow_add)
  also have "\<dots> = lcg (A * A) (2 ^ Suc k * (C * t))"
  proof
    fix x
    have "A * (2 ^ k * C) + 2 ^ k * C = 2 ^ k * C * (A + 1)" by (simp add: algebra_simps)
    then show "(lcg a c ^^ 2 ^ k \<circ> lcg a c ^^ 2 ^ k) x = lcg (A * A) (2 ^ Suc k * (C * t)) x"
      unfolding IH(1) t(1) by (simp add: lcg_def algebra_simps)
  qed
  finally have "lcg a c ^^ (2 ^ Suc k) = lcg (A * A) (2 ^ Suc k * (C * t))" .
  moreover have "A * A = 2 ^ (Suc k + 2) * (2 ^ (k + 1) * m * m + m) + 1" by (simp add: A power_add algebra_simps)
  then have "A * A mod 2 ^ (Suc k + 2) = 1 mod 2 ^ (Suc k + 2)" by (metis mod_mult_self4 add.commute mod_mult_self2)
  then have "A * A mod 2 ^ (Suc k + 2) = 1" by simp
  ultimately show ?case using IH(3) t(2) by (intro exI [of _ "A * A"] exI [of _ "C * t"]) simp
qed

lemma lcg_moves:
  assumes "a mod 4 = 1" "odd c" "odd q"
  shows "(lcg a c ^^ (2 ^ k * q)) x mod 2 ^ Suc k \<noteq> x mod 2 ^ Suc k"
proof -
  obtain A C where f: "lcg a c ^^ (2 ^ k) = lcg A (2 ^ k * C)" "A mod 2 ^ (k + 2) = 1" "odd C"
    using lcg_funpow_power [OF assms(1,2)] by blast
  have "A mod 2 ^ Suc k = 1 mod 2 ^ Suc k" using f(2) mod_mod_cancel [of "2 ^ Suc k" "2 ^ (k + 2)" A] by (simp add: le_imp_power_dvd)
  then have A: "A * y mod 2 ^ Suc k = y mod 2 ^ Suc k" for y by (metis mod_mult_left_eq mult_1)
  obtain e where e: "C = 2 * e + 1" using f(3) by (auto elim: oddE)
  have step: "lcg A (2 ^ k * C) y mod 2 ^ Suc k = (y + 2 ^ k) mod 2 ^ Suc k" for y
  proof -
    have "lcg A (2 ^ k * C) y = A * y + 2 ^ k + 2 ^ Suc k * e" by (simp add: lcg_def e algebra_simps)
    then have "lcg A (2 ^ k * C) y mod 2 ^ Suc k = (A * y + 2 ^ k) mod 2 ^ Suc k" by (metis mod_mult_self2)
    then show ?thesis by (metis A mod_add_left_eq)
  qed
  have iter: "(lcg A (2 ^ k * C) ^^ n) x mod 2 ^ Suc k = (x + n * 2 ^ k) mod 2 ^ Suc k" for n
  proof (induction n)
    case (Suc n)
    have "(lcg A (2 ^ k * C) ^^ Suc n) x mod 2 ^ Suc k = ((lcg A (2 ^ k * C) ^^ n) x + 2 ^ k) mod 2 ^ Suc k"
      by (simp only: funpow.simps o_apply step)
    also have "\<dots> = (x + n * 2 ^ k + 2 ^ k) mod 2 ^ Suc k" by (metis Suc.IH mod_add_left_eq)
    finally show ?case by (simp add: algebra_simps)
  qed simp
  obtain p where "q = 2 * p + 1" using assms(3) by (auto elim: oddE)
  then have "x + q * 2 ^ k = x + 2 ^ k + 2 ^ Suc k * p" by (simp add: algebra_simps)
  then have "(x + q * 2 ^ k) mod 2 ^ Suc k = (x + 2 ^ k) mod 2 ^ Suc k" by (metis mod_mult_self2)
  moreover have "lcg a c ^^ (2 ^ k * q) = lcg A (2 ^ k * C) ^^ q" by (simp only: funpow_mult [symmetric] f(1))
  ultimately have "(lcg a c ^^ (2 ^ k * q)) x mod 2 ^ Suc k = (x + 2 ^ k) mod 2 ^ Suc k" using iter [of q] by simp
  moreover have "(x + 2 ^ k) mod 2 ^ Suc k \<noteq> x mod 2 ^ Suc k"
  proof
    assume "(x + 2 ^ k) mod 2 ^ Suc k = x mod 2 ^ Suc k"
    then have "(2::nat) ^ Suc k dvd 2 ^ k" using mod_eq_dvd_iff_nat [of x "x + 2 ^ k" "2 ^ Suc k"] by simp
    then show False by (simp add: power_dvd_imp_le)
  qed
  ultimately show ?thesis by simp
qed

lemma odd_part: "0 < n \<Longrightarrow> \<exists>k q. n = 2 ^ k * q \<and> odd (q::nat)"
proof (induction n rule: less_induct)
  case (less n)
  show ?case
  proof (cases "odd n")
    case True
    then show ?thesis by (intro exI [of _ 0] exI [of _ n]) simp
  next
    case False
    then obtain m where m: "n = 2 * m" by (auto elim: evenE)
    then obtain k q where "m = 2 ^ k * q" "odd q" using less.IH [of m] less.prems by auto
    then show ?thesis using m by (intro exI [of _ "Suc k"] exI [of _ q]) simp
  qed
qed

lemma lcg_distinct:
  assumes "a mod 4 = 1" "odd c" "i < j" "j < i + 2 ^ K"
  shows "(lcg a c ^^ i) x mod 2 ^ K \<noteq> (lcg a c ^^ j) x mod 2 ^ K"
proof
  assume eq: "(lcg a c ^^ i) x mod 2 ^ K = (lcg a c ^^ j) x mod 2 ^ K"
  let ?y = "(lcg a c ^^ i) x"
  obtain k q where d: "j - i = 2 ^ k * q" "odd q" using odd_part [of "j - i"] assms(3) by auto
  have "2 ^ k \<le> j - i" using d by (cases q) auto
  moreover have "j - i < 2 ^ K" using assms(3,4) by simp
  ultimately have "(2::nat) ^ k < 2 ^ K" by (rule le_less_trans)
  then have k: "Suc k \<le> K" by simp
  have "j = (j - i) + i" using assms(3) by simp
  then have "(lcg a c ^^ j) x = (lcg a c ^^ (2 ^ k * q)) ?y" using d(1) by (metis comp_apply funpow_add)
  then have "(lcg a c ^^ j) x mod 2 ^ Suc k \<noteq> ?y mod 2 ^ Suc k" using lcg_moves [OF assms(1,2) d(2)] by metis
  moreover have dvd: "(2::nat) ^ Suc k dvd 2 ^ K" using k by (rule le_imp_power_dvd)
  ultimately show False using eq mod_mod_cancel [OF dvd, of "(lcg a c ^^ j) x"] mod_mod_cancel [OF dvd, of ?y] by argo
qed

definition probe :: "32 word \<Rightarrow> nat \<Rightarrow> 32 word" where
  "probe orig_hash n = ((\<lambda>h. get_next_hash_in_chain h orig_hash) ^^ n) orig_hash"

lemma probe_simps [simp]:
  "probe orig_hash 0 = orig_hash"
  "probe orig_hash (Suc n) = get_next_hash_in_chain (probe orig_hash n) orig_hash"
  by (simp_all add: probe_def)

lemma unat_next_hash:
  "unat (get_next_hash_in_chain h orig_hash) = (unat h * 1103515245 + unat (orig_hash OR 1)) mod 2 ^ 32"
proof -
  have "unat (1103515245 :: 32 word) = 1103515245" by simp
  then have "unat (h * 1103515245) = (unat h * 1103515245) mod 2 ^ 32" by (simp only: unat_word_ariths(2) len_num1) simp
  then show ?thesis unfolding get_next_hash_in_chain_def unat_word_ariths(1) by (simp add: mod_add_left_eq)
qed

lemma probe_lcg:
  assumes "K \<le> 32"
  shows "unat (probe orig_hash n) mod 2 ^ K = (lcg 1103515245 (unat (orig_hash OR 1)) ^^ n) (unat orig_hash) mod 2 ^ K"
proof (induction n)
  case (Suc n)
  let ?c = "unat (orig_hash OR 1)" and ?f = "lcg 1103515245 (unat (orig_hash OR 1))"
  have "unat (probe orig_hash (Suc n)) = (unat (probe orig_hash n) * 1103515245 + ?c) mod 2 ^ 32"
    by (simp only: probe_simps unat_next_hash)
  moreover have dvd: "(2::nat) ^ K dvd 2 ^ 32" using assms by (rule le_imp_power_dvd)
  ultimately have "unat (probe orig_hash (Suc n)) mod 2 ^ K = (unat (probe orig_hash n) * 1103515245 + ?c) mod 2 ^ K"
    by (simp only: mod_mod_cancel [OF dvd])
  also have "\<dots> = ((?f ^^ n) (unat orig_hash) * 1103515245 + ?c) mod 2 ^ K"
    by (intro mod_add_cong mod_mult_cong Suc.IH refl)
  also have "(?f ^^ n) (unat orig_hash) * 1103515245 + ?c = (?f ^^ Suc n) (unat orig_hash)"
    unfolding funpow.simps o_apply lcg_def [of _ _ "(?f ^^ n) (unat orig_hash)"] by (simp only: mult.commute)
  finally show ?case .
qed simp

lemma odd_or_one: "odd (unat (w OR 1 :: 32 word))"
  by (simp add: unsigned_or_eq even_or_iff)

text \<open>The buckets that a search looks at, as long as there are \<open>2 ^ K\<close> of them.\<close>

definition slot :: "nat \<Rightarrow> 32 word \<Rightarrow> nat \<Rightarrow> nat" where
  "slot capacity orig_hash n = unat (probe orig_hash n) mod capacity"

lemma slot_distinct:
  assumes "K \<le> 32" "i < j" "j < i + 2 ^ K"
  shows "slot (2 ^ K) orig_hash i \<noteq> slot (2 ^ K) orig_hash j"
proof -
  have "(1103515245::nat) mod 4 = 1" by simp
  then show ?thesis
    unfolding slot_def probe_lcg [OF assms(1)] by (intro lcg_distinct odd_or_one assms(2,3)) simp
qed

lemma slot_inj: "K \<le> 32 \<Longrightarrow> inj_on (slot (2 ^ K) orig_hash) {..<2 ^ K}"
  by (rule linorder_inj_onI) (auto simp: slot_distinct)

lemma slot_onto:
  assumes "K \<le> 32" "i < 2 ^ K"
  obtains n where "n < 2 ^ K" "slot (2 ^ K) orig_hash n = i"
proof -
  have "slot (2 ^ K) orig_hash ` {..<2 ^ K} \<subseteq> {..<2 ^ K}" by (auto simp: slot_def)
  then have "slot (2 ^ K) orig_hash ` {..<2 ^ K} = {..<2 ^ K}"
    using slot_inj [OF assms(1)] by (intro card_subset_eq) (simp_all add: card_image)
  then have "i \<in> slot (2 ^ K) orig_hash ` {..<2 ^ K}" using assms(2) by simp
  then show ?thesis using that by blast
qed

lemma bucket_index_slot:
  assumes "length bs = 2 ^ K"
  shows "bucket_index bs (probe orig_hash n) = slot (2 ^ K) orig_hash n"
  using assms by (simp add: bucket_index_def slot_def take_bit_eq_mask mask_eq_exp_minus_1 flip: take_bit_eq_mod)

section \<open>The invariant\<close>

definition slots_in :: "bucket_state \<Rightarrow> 'a bucket list \<Rightarrow> nat set" where
  "slots_in st bs = {i. i < length bs \<and> bk_state (bs ! i) = st}"

definition key_at :: "('a \<Rightarrow> 'k) \<Rightarrow> 'a bucket list \<Rightarrow> nat \<Rightarrow> 'k" where
  "key_at key bs i = key (the (bk_element (bs ! i)))"

text \<open>A search for a hash gets as far as the \<open>n\<close>-th bucket of its sequence.\<close>

definition path_ok :: "'a bucket list \<Rightarrow> 32 word \<Rightarrow> nat \<Rightarrow> bool" where
  "path_ok bs h n \<longleftrightarrow> (\<forall>m < n. bk_state (bs ! slot (length bs) h m) \<noteq> UNUSED) \<and>
     (\<forall>m. 0 < m \<and> m \<le> n \<longrightarrow> \<not> bk_chain_start (bs ! slot (length bs) h m))"

definition table_ok :: "('k \<Rightarrow> 32 word) \<Rightarrow> ('a \<Rightarrow> 'k) \<Rightarrow> 'a bucket list \<Rightarrow> bool" where
  "table_ok hash key bs \<longleftrightarrow> (\<exists>K. 4 \<le> K \<and> K \<le> 32 \<and> length bs = 2 ^ K) \<and>
     (\<forall>i\<in>slots_in USED bs. bk_element (bs ! i) \<noteq> None \<and> bk_hash (bs ! i) = hash (key_at key bs i) \<and>
        (\<exists>n < length bs. slot (length bs) (bk_hash (bs ! i)) n = i \<and> path_ok bs (bk_hash (bs ! i)) n)) \<and>
     inj_on (key_at key bs) (slots_in USED bs)"

definition hs_ok :: "('k \<Rightarrow> 32 word) \<Rightarrow> ('a \<Rightarrow> 'k) \<Rightarrow> 'a hash_set \<Rightarrow> bool" where
  "hs_ok hash key s \<longleftrightarrow> s = hs_empty \<or>
     table_ok hash key (hs_buckets s) \<and> hs_size s = card (slots_in USED (hs_buckets s)) \<and>
     hs_removed s = card (slots_in REMOVED (hs_buckets s)) \<and> hs_size s + hs_removed s \<le> hs_capacity s div 4 * 3"

text \<open>The set as a finite map from the keys to the elements.\<close>

definition hs_map :: "('a \<Rightarrow> 'k) \<Rightarrow> 'a hash_set \<Rightarrow> 'k \<rightharpoonup> 'a" where
  "hs_map key s = map_of (map (\<lambda>v. (key v, v)) (hs_elements s))"

lemma finite_slots_in [simp]: "finite (slots_in st bs)"
  by (simp add: slots_in_def)

lemma table_ok_slots:
  assumes "table_ok hash key bs"
  shows "slot (length bs) h n < length bs" "bucket_index bs (probe h n) = slot (length bs) h n"
    "inj_on (slot (length bs) h) {..<length bs}" "i < length bs \<Longrightarrow> \<exists>n < length bs. slot (length bs) h n = i"
proof -
  obtain K where K: "K \<le> 32" "length bs = 2 ^ K" using assms by (auto simp: table_ok_def)
  show "slot (length bs) h n < length bs" using K(2) by (simp add: slot_def)
  show "bucket_index bs (probe h n) = slot (length bs) h n" using bucket_index_slot [OF K(2)] K(2) by simp
  show "inj_on (slot (length bs) h) {..<length bs}" using slot_inj [OF K(1)] K(2) by simp
  show "\<exists>n < length bs. slot (length bs) h n = i" if "i < length bs" using slot_onto [OF K(1), of i h] that K(2) by auto
qed

section \<open>Searching\<close>

definition matches :: "'a bucket list \<Rightarrow> ('a \<Rightarrow> bool) \<Rightarrow> 32 word \<Rightarrow> nat \<Rightarrow> bool" where
  "matches bs eq h i \<longleftrightarrow> bk_state (bs ! i) = USED \<and> bk_hash (bs ! i) = h \<and> eq (the (bk_element (bs ! i)))"

lemma find_loop_spec:
  assumes "\<And>n. bucket_index bs (probe h n) = slot c h n"
    and "\<forall>m. n \<le> m \<and> m < N \<longrightarrow> \<not> matches bs eq h (slot c h m) \<and> bk_state (bs ! slot c h m) \<noteq> UNUSED \<and>
      (m \<noteq> 0 \<longrightarrow> \<not> bk_chain_start (bs ! slot c h m))"
    and "matches bs eq h (slot c h N) \<or> bk_state (bs ! slot c h N) = UNUSED \<or> N \<noteq> 0 \<and> bk_chain_start (bs ! slot c h N)"
    and "n \<le> N" "N < n + fuel"
  shows "find_loop fuel bs eq h (probe h n) (n = 0) = Done (if matches bs eq h (slot c h N) then Some (slot c h N) else None)"
  using assms(2,4,5)
proof (induction fuel arbitrary: n)
  case (Suc fuel)
  show ?case
  proof (cases "n = N")
    case True
    then show ?thesis using assms(1,3) by (auto simp: find_loop.simps matches_def Let_def)
  next
    case False
    then have stop: "\<not> matches bs eq h (slot c h n)" "bk_state (bs ! slot c h n) \<noteq> UNUSED" "n \<noteq> 0 \<longrightarrow> \<not> bk_chain_start (bs ! slot c h n)"
      using Suc.prems(1,2) by auto
    have "find_loop fuel bs eq h (probe h (Suc n)) (Suc n = 0) = Done (if matches bs eq h (slot c h N) then Some (slot c h N) else None)"
      using Suc.IH [of "Suc n"] Suc.prems False by auto
    then show ?thesis using stop assms(1) by (auto simp: find_loop.simps(2) matches_def Let_def)
  qed
qed simp

text \<open>A used bucket is the one that its own sequence finds: no other bucket before it has the key.\<close>

lemma used_path:
  assumes "table_ok hash key bs" "i \<in> slots_in USED bs"
  obtains n where "n < length bs" "slot (length bs) (hash (key_at key bs i)) n = i" "path_ok bs (hash (key_at key bs i)) n"
    "\<And>m. m < length bs \<Longrightarrow> matches bs (\<lambda>x. key x = key_at key bs i) (hash (key_at key bs i)) (slot (length bs) (hash (key_at key bs i)) m) \<longleftrightarrow> m = n"
proof -
  let ?k = "key_at key bs i" let ?h = "hash ?k"
  have i: "bk_hash (bs ! i) = ?h" "inj_on (key_at key bs) (slots_in USED bs)" using assms by (auto simp: table_ok_def)
  have "\<exists>n < length bs. slot (length bs) (bk_hash (bs ! i)) n = i \<and> path_ok bs (bk_hash (bs ! i)) n"
    using assms unfolding table_ok_def by blast
  then obtain n where n: "n < length bs" "slot (length bs) ?h n = i" "path_ok bs ?h n" unfolding i(1) by blast
  note slots = table_ok_slots [OF assms(1)]
  have "matches bs (\<lambda>x. key x = ?k) ?h (slot (length bs) ?h m) \<longleftrightarrow> m = n" if m: "m < length bs" for m
  proof
    assume mt: "matches bs (\<lambda>x. key x = ?k) ?h (slot (length bs) ?h m)"
    then have "slot (length bs) ?h m \<in> slots_in USED bs" "key_at key bs (slot (length bs) ?h m) = ?k"
      using slots(1) by (simp_all add: matches_def slots_in_def key_at_def)
    then have "slot (length bs) ?h m = slot (length bs) ?h n" using i(2) assms(2) n(2) by (simp add: inj_on_def)
    then show "m = n" using slots(3) m n(1) by (simp add: inj_on_def)
  next
    assume "m = n"
    then show "matches bs (\<lambda>x. key x = ?k) ?h (slot (length bs) ?h m)"
      using n(2) assms(2) i(1) by (simp add: matches_def slots_in_def key_at_def)
  qed
  then show ?thesis using that n by blast
qed

lemma find_used:
  assumes "table_ok hash key bs" "i \<in> slots_in USED bs" "key_at key bs i = k"
  shows "find_loop (length bs) bs (\<lambda>x. key x = k) (hash k) (hash k) True = Done (Some i)"
proof -
  obtain n where n: "n < length bs" "slot (length bs) (hash k) n = i" "path_ok bs (hash k) n"
      "\<And>m. m < length bs \<Longrightarrow> matches bs (\<lambda>x. key x = k) (hash k) (slot (length bs) (hash k) m) \<longleftrightarrow> m = n"
    using used_path [OF assms(1,2)] assms(3) by metis
  have "find_loop (length bs) bs (\<lambda>x. key x = k) (hash k) (probe (hash k) 0) (0 = (0::nat)) =
      Done (if matches bs (\<lambda>x. key x = k) (hash k) (slot (length bs) (hash k) n) then Some (slot (length bs) (hash k) n) else None)"
    using n(1,3) n(4) by (intro find_loop_spec table_ok_slots(2) [OF assms(1)]) (auto simp: path_ok_def)
  moreover have "matches bs (\<lambda>x. key x = k) (hash k) (slot (length bs) (hash k) n)" using n(1,4) by blast
  ultimately show ?thesis using n(2) by simp
qed

lemma first_index:
  assumes "P (n::nat)"
  obtains N where "N \<le> n" "P N" "\<And>m. m < N \<Longrightarrow> \<not> P m"
proof -
  show ?thesis by (rule that [of "LEAST m. P m"]) (use assms not_less_Least in \<open>auto intro: LeastI Least_le\<close>)
qed

lemma find_missing:
  assumes "table_ok hash key bs" "slots_in UNUSED bs \<noteq> {}" "\<forall>i\<in>slots_in USED bs. key_at key bs i \<noteq> k"
  shows "find_loop (length bs) bs (\<lambda>x. key x = k) (hash k) (hash k) True = Done None"
proof -
  let ?s = "slot (length bs) (hash k)"
  let ?stop = "\<lambda>m. bk_state (bs ! ?s m) = UNUSED \<or> m \<noteq> 0 \<and> bk_chain_start (bs ! ?s m)"
  note slots = table_ok_slots [OF assms(1)]
  have no: "\<not> matches bs (\<lambda>x. key x = k) (hash k) (?s m)" for m
    using assms(3) slots(1) by (auto simp: matches_def slots_in_def key_at_def)
  obtain i where "i < length bs" "bk_state (bs ! i) = UNUSED" using assms(2) by (auto simp: slots_in_def)
  then obtain n where n: "n < length bs" "?stop n" using slots(4) [of i "hash k"] by auto
  obtain N where N: "N \<le> n" "?stop N" "\<And>m. m < N \<Longrightarrow> \<not> ?stop m" using first_index [of ?stop, OF n(2)] by blast
  have "find_loop (length bs) bs (\<lambda>x. key x = k) (hash k) (probe (hash k) 0) (0 = (0::nat)) =
      Done (if matches bs (\<lambda>x. key x = k) (hash k) (?s N) then Some (?s N) else None)"
    using N n(1) no by (intro find_loop_spec slots(2)) auto
  then show ?thesis using no by simp
qed

section \<open>Insertion\<close>

text \<open>The buckets with the chain-start flag of some of them cleared.\<close>

definition cleared :: "nat set \<Rightarrow> 'a bucket list \<Rightarrow> 'a bucket list" where
  "cleared S bs = map (\<lambda>i. if i \<in> S then (bs ! i)\<lparr>bk_chain_start := False\<rparr> else bs ! i) [0..<length bs]"

lemma length_cleared [simp]: "length (cleared S bs) = length bs"
  by (simp add: cleared_def)

lemma nth_cleared:
  "i < length bs \<Longrightarrow> cleared S bs ! i = (if i \<in> S then (bs ! i)\<lparr>bk_chain_start := False\<rparr> else bs ! i)"
  by (simp add: cleared_def)

lemma cleared_fields [simp]:
  assumes "i < length bs"
  shows "bk_state (cleared S bs ! i) = bk_state (bs ! i)" "bk_hash (cleared S bs ! i) = bk_hash (bs ! i)"
    "bk_element (cleared S bs ! i) = bk_element (bs ! i)"
    "bk_chain_start (cleared S bs ! i) \<longleftrightarrow> bk_chain_start (bs ! i) \<and> i \<notin> S"
  using assms by (simp_all add: nth_cleared)

lemma cleared_empty [simp]: "cleared {} bs = bs"
  by (simp add: cleared_def map_nth)

lemma cleared_cleared: "cleared S (cleared T bs) = cleared (S \<union> T) bs"
  by (rule nth_equalityI) (auto simp: nth_cleared)

lemma cleared_single: "i < length bs \<Longrightarrow> bs[i := (bs ! i)\<lparr>bk_chain_start := False\<rparr>] = cleared {i} bs"
  by (rule nth_equalityI) (auto simp: nth_cleared nth_list_update)

definition passed :: "nat \<Rightarrow> 32 word \<Rightarrow> nat \<Rightarrow> nat \<Rightarrow> nat set" where
  "passed c h n N = slot c h ` {m. n \<le> m \<and> m \<le> N \<and> m \<noteq> 0}"

lemma passed_step: "n \<le> N \<Longrightarrow> passed c h n N = passed c h (Suc n) N \<union> (if n = 0 then {} else {slot c h n})"
  by (auto simp: passed_def le_eq_less_or_eq [of n])

text \<open>
  The loop ends at the first bucket \<open>N\<close> that is unused or holds the key. The target is this bucket if it
  holds the key, and otherwise a bucket up to it that is not used.
\<close>

lemma insert_loop_spec:
  assumes idx': "\<forall>n. bucket_index bs (probe h n) = slot c h n" and lt': "\<forall>n. slot c h n < c"
    and before: "\<forall>m. n \<le> m \<and> m < N \<longrightarrow> \<not> matches bs eq h (slot c h m) \<and> bk_state (bs ! slot c h m) \<noteq> UNUSED"
    and at: "matches bs eq h (slot c h N) \<or> bk_state (bs ! slot c h N) = UNUSED"
    and len: "length bs = c" and "n \<le> N" "N < n + fuel"
  shows "\<exists>t. insert_loop fuel bs eq h (probe h n) (n = 0) target = Done (cleared (passed c h n N) bs, t, N = 0) \<and>
    (if matches bs eq h (slot c h N) then t = slot c h N
     else (case target of Some t' \<Rightarrow> t = t' | None \<Rightarrow> \<exists>M. n \<le> M \<and> M \<le> N \<and> t = slot c h M \<and> bk_state (bs ! t) \<noteq> USED))"
  using idx' before at len assms(6,7)
proof (induction fuel arbitrary: bs n target)
  case (Suc fuel)
  have lt: "slot c h m < c" for m using lt' by blast
  let ?i = "slot c h n"
  define B where "B = (if \<not> (n = 0) then bs[?i := (bs ! ?i)\<lparr>bk_chain_start := False\<rparr>] else bs)"
  have bs: "B = cleared (if n = 0 then {} else {?i}) bs" unfolding B_def using cleared_single [of ?i bs] lt [of n] Suc.prems(4) by simp
  have len: "length B = c" using Suc.prems(4) bs by simp
  have fields: "bk_state (B ! slot c h m) = bk_state (bs ! slot c h m)" "bk_hash (B ! slot c h m) = bk_hash (bs ! slot c h m)"
      "bk_element (B ! slot c h m) = bk_element (bs ! slot c h m)" for m
    unfolding bs using lt [of m] Suc.prems(4) by simp_all
  then have same: "matches B eq h (slot c h m) = matches bs eq h (slot c h m)" for m by (simp add: matches_def)
  have passed: "cleared (passed c h (Suc n) N) B = cleared (passed c h n N) bs" if "n < N"
    unfolding bs cleared_cleared using passed_step [of n N c h] that by simp
  let ?t = "case target of None \<Rightarrow> ?i | Some t \<Rightarrow> t"
  have unfold: "insert_loop (Suc fuel) bs eq h (probe h n) (n = 0) target =
      (if bk_state (bs ! ?i) = USED then
         if matches bs eq h ?i then Done (B, ?i, n = 0)
         else insert_loop fuel B eq h (probe h (Suc n)) (Suc n = 0) target
       else if bk_state (bs ! ?i) = UNUSED then Done (B, ?t, n = 0)
       else insert_loop fuel B eq h (probe h (Suc n)) (Suc n = 0) (Some ?t))"
    unfolding insert_loop.simps Let_def Suc.prems(1) [rule_format] B_def [symmetric] using fields [of n] by (simp add: matches_def)
  show ?case
  proof (cases "n = N")
    case True
    then have "passed c h n N = (if n = 0 then {} else {?i})" by (auto simp: passed_def)
    then show ?thesis unfolding unfold using True Suc.prems(3) bs by (auto simp: matches_def split: option.splits)
  next
    case False
    then have n: "n < N" "Suc n \<le> N" "N < Suc n + fuel" "\<not> matches bs eq h ?i" "bk_state (bs ! ?i) \<noteq> UNUSED"
      using Suc.prems(2,5,6) by auto
    have before: "\<forall>m. Suc n \<le> m \<and> m < N \<longrightarrow> \<not> matches B eq h (slot c h m) \<and> bk_state (B ! slot c h m) \<noteq> UNUSED"
      using Suc.prems(2) unfolding same fields by simp
    have at: "matches B eq h (slot c h N) \<or> bk_state (B ! slot c h N) = UNUSED" using Suc.prems(3) unfolding same fields .
    have "\<forall>n. bucket_index B (probe h n) = slot c h n" using Suc.prems(1,4) len by (simp add: bucket_index_def)
    note IH = Suc.IH [OF this before at len n(2,3), unfolded same passed [OF n(1)]]
    show ?thesis
    proof (cases "bk_state (bs ! ?i) = USED")
      case True
      obtain t where t: "insert_loop fuel B eq h (probe h (Suc n)) (Suc n = 0) target = Done (cleared (passed c h n N) bs, t, N = 0)"
          "if matches bs eq h (slot c h N) then t = slot c h N
           else (case target of Some t' \<Rightarrow> t = t' | None \<Rightarrow> \<exists>M. Suc n \<le> M \<and> M \<le> N \<and> t = slot c h M \<and> bk_state (B ! t) \<noteq> USED)"
        using IH [of target] by blast
      have "\<exists>M. n \<le> M \<and> M \<le> N \<and> t = slot c h M \<and> bk_state (bs ! t) \<noteq> USED"
        if "\<exists>M. Suc n \<le> M \<and> M \<le> N \<and> t = slot c h M \<and> bk_state (B ! t) \<noteq> USED"
        using that fields(1) by (metis Suc_leD)
      then show ?thesis unfolding unfold using t True n(4) by (auto split: option.splits if_splits)
    next
      case False
      obtain t where "insert_loop fuel B eq h (probe h (Suc n)) (Suc n = 0) (Some ?t) = Done (cleared (passed c h n N) bs, t, N = 0)"
          "if matches bs eq h (slot c h N) then t = slot c h N else t = ?t"
        using IH [of "Some ?t", unfolded option.case] by blast
      moreover have "\<exists>M. n \<le> M \<and> M \<le> N \<and> ?i = slot c h M \<and> bk_state (bs ! ?i) \<noteq> USED" using False n(1) by auto
      ultimately show ?thesis unfolding unfold using False n(5) by (auto split: option.splits if_splits)
    qed
  qed
qed simp

lemma hs_map_iff:
  assumes "table_ok hash key (hs_buckets s)"
  shows "hs_map key s k = Some v \<longleftrightarrow> (\<exists>i\<in>slots_in USED (hs_buckets s). bk_element (hs_buckets s ! i) = Some v \<and> key v = k)"
proof -
  let ?bs = "hs_buckets s"
  let ?is = "filter (\<lambda>i. bk_state (?bs ! i) = USED) [0..<length ?bs]"
  have ix: "set ?is = slots_in USED ?bs" "distinct ?is" by (auto simp: slots_in_def)
  have "hs_elements s = map (\<lambda>i. the (bk_element (?bs ! i))) ?is"
  proof -
    have "filter (\<lambda>b. bk_state b = USED) ?bs = filter (\<lambda>b. bk_state b = USED) (map ((!) ?bs) [0..<length ?bs])" by (simp add: map_nth)
    then show ?thesis unfolding hs_elements_def by (simp add: filter_map o_def)
  qed
  then have m: "map (\<lambda>v. (key v, v)) (hs_elements s) = map (\<lambda>i. (key_at key ?bs i, the (bk_element (?bs ! i)))) ?is"
    by (simp add: key_at_def o_def)
  have "inj_on (key_at key ?bs) (set ?is)" using assms ix(1) by (simp add: table_ok_def)
  then have "distinct (map fst (map (\<lambda>i. (key_at key ?bs i, the (bk_element (?bs ! i)))) ?is))" using ix(2) by (simp add: distinct_map o_def)
  then have "hs_map key s k = Some v \<longleftrightarrow> (k, v) \<in> set (map (\<lambda>i. (key_at key ?bs i, the (bk_element (?bs ! i)))) ?is)"
    unfolding hs_map_def m by (rule map_of_eq_Some_iff)
  also have "\<dots> \<longleftrightarrow> (\<exists>i\<in>slots_in USED ?bs. key_at key ?bs i = k \<and> the (bk_element (?bs ! i)) = v)"
    unfolding set_map ix(1) by auto
  also have "\<dots> \<longleftrightarrow> (\<exists>i\<in>slots_in USED ?bs. bk_element (?bs ! i) = Some v \<and> key v = k)"
    using assms by (intro bex_cong refl) (auto simp: table_ok_def key_at_def)
  finally show ?thesis .
qed

text \<open>A used bucket that is placed on the path of its hash keeps the table in order.\<close>

lemma table_ok_place:
  assumes ok: "table_ok hash key bs" and h: "h = hash (key val)" and M: "M \<le> N" "M < length bs" "t = slot (length bs) h M"
    and path: "\<forall>m < N. bk_state (bs ! slot (length bs) h m) \<noteq> UNUSED"
    and others: "\<forall>i\<in>slots_in USED bs. i \<noteq> t \<longrightarrow> key_at key bs i \<noteq> key val"
    and chain: "cs \<longrightarrow> N = 0 \<and> bk_state (bs ! t) = UNUSED"
  defines "bs2 \<equiv> (cleared (passed (length bs) h 0 N) bs)[t := \<lparr>bk_element = Some val, bk_hash = h, bk_state = USED, bk_chain_start = cs\<rparr>]"
  shows "table_ok hash key bs2" "slots_in USED bs2 = insert t (slots_in USED bs)" "slots_in REMOVED bs2 = slots_in REMOVED bs - {t}"
    "\<And>i. i < length bs \<Longrightarrow> bk_element (bs2 ! i) = (if i = t then Some val else bk_element (bs ! i))"
proof -
  note slots = table_ok_slots [OF ok]
  have t: "t < length bs" using M(3) slots(1) by simp
  have len: "length bs2 = length bs" by (simp add: bs2_def)
  have nth: "bk_state (bs2 ! i) = (if i = t then USED else bk_state (bs ! i))" "bk_hash (bs2 ! i) = (if i = t then h else bk_hash (bs ! i))"
      "bk_element (bs2 ! i) = (if i = t then Some val else bk_element (bs ! i))"
      "bk_chain_start (bs2 ! i) = (if i = t then cs else bk_chain_start (bs ! i) \<and> i \<notin> passed (length bs) h 0 N)" if "i < length bs" for i
    using that by (simp_all add: bs2_def nth_list_update)
  show elem: "\<And>i. i < length bs \<Longrightarrow> bk_element (bs2 ! i) = (if i = t then Some val else bk_element (bs ! i))" by (rule nth(3))
  show used: "slots_in USED bs2 = insert t (slots_in USED bs)" using t len nth(1) by (auto simp: slots_in_def)
  show "slots_in REMOVED bs2 = slots_in REMOVED bs - {t}" using t len nth(1) by (auto simp: slots_in_def split: if_splits)
  have key: "key_at key bs2 i = (if i = t then key val else key_at key bs i)" if "i < length bs" for i
    using nth(3) [OF that] by (simp add: key_at_def)
  have lt: "i < length bs" if "i \<in> slots_in USED bs" for i using that by (simp add: slots_in_def)
  have "path_ok bs2 h M"
  proof -
    have "\<not> bk_chain_start (bs2 ! slot (length bs) h m)" if "0 < m" "m \<le> M" for m
      using nth(4) [OF slots(1)] that chain M(1) by (auto simp: passed_def)
    then show ?thesis using nth(1) [OF slots(1)] path M(1) len by (simp add: path_ok_def)
  qed
  moreover have kept: "path_ok bs2 g n" if "path_ok bs g n" "slot (length bs) g n \<in> slots_in USED bs" for g n
  proof -
    have "\<not> bk_chain_start (bs2 ! slot (length bs) g m)" if "0 < m" "m \<le> n" for m
    proof (cases "slot (length bs) g m = t")
      case True
      have "bk_state (bs ! t) \<noteq> UNUSED"
        using \<open>path_ok bs g n\<close> \<open>slot (length bs) g n \<in> slots_in USED bs\<close> that(2) True
        by (cases "m = n") (auto simp: path_ok_def slots_in_def)
      then show ?thesis using nth(4) [OF slots(1), of g m] True chain by auto
    next
      case False
      then show ?thesis using nth(4) [OF slots(1)] that \<open>path_ok bs g n\<close> by (simp add: path_ok_def)
    qed
    then show ?thesis using nth(1) [OF slots(1)] that(1) len by (simp add: path_ok_def)
  qed
  moreover have old: "bk_element (bs ! i) \<noteq> None \<and> bk_hash (bs ! i) = hash (key_at key bs i) \<and>
      (\<exists>n < length bs. slot (length bs) (bk_hash (bs ! i)) n = i \<and> path_ok bs (bk_hash (bs ! i)) n)" if "i \<in> slots_in USED bs" for i
    using ok that unfolding table_ok_def by blast
  ultimately have "bk_element (bs2 ! i) \<noteq> None \<and> bk_hash (bs2 ! i) = hash (key_at key bs2 i) \<and>
      (\<exists>n < length bs2. slot (length bs2) (bk_hash (bs2 ! i)) n = i \<and> path_ok bs2 (bk_hash (bs2 ! i)) n)"
    if "i \<in> slots_in USED bs2" for i
  proof (cases "i = t")
    case True
    then show ?thesis using nth(2,3) [OF t] key [OF t] h M(2,3) \<open>path_ok bs2 h M\<close> len by auto
  next
    case False
    then have i: "i \<in> slots_in USED bs" using that used by simp
    note i_old = old [OF this] and i_lt = lt [OF this]
    then obtain n where n: "n < length bs" "slot (length bs) (bk_hash (bs ! i)) n = i" "path_ok bs (bk_hash (bs ! i)) n" by blast
    then have "path_ok bs2 (bk_hash (bs ! i)) n" using kept i by simp
    then show ?thesis using False nth(2,3) [OF i_lt] key [OF i_lt] i_old n(1,2) len by auto
  qed
  moreover have "inj_on (key_at key bs2) (slots_in USED bs2)"
    unfolding used using ok others key lt t by (auto simp: table_ok_def inj_on_def)
  moreover have "\<exists>K. 4 \<le> K \<and> K \<le> 32 \<and> length bs2 = 2 ^ K" using ok len by (auto simp: table_ok_def)
  ultimately show "table_ok hash key bs2" unfolding table_ok_def by blast
qed

lemma slots_in_partition:
  "card (slots_in USED bs) + card (slots_in REMOVED bs) + card (slots_in UNUSED bs) = length bs"
proof -
  have "{..<length bs} = slots_in USED bs \<union> slots_in REMOVED bs \<union> slots_in UNUSED bs"
    using bucket_state.exhaust by (auto simp: slots_in_def)
  moreover have "(slots_in USED bs \<union> slots_in REMOVED bs) \<inter> slots_in UNUSED bs = {}" "slots_in USED bs \<inter> slots_in REMOVED bs = {}"
    by (auto simp: slots_in_def)
  ultimately show ?thesis by (metis card_Un_disjoint card_lessThan finite_Un finite_slots_in)
qed

lemma hs_ok_table:
  assumes "hs_ok hash key s" "hs_buckets s \<noteq> []"
  shows "table_ok hash key (hs_buckets s)" "hs_size s = card (slots_in USED (hs_buckets s))"
    "hs_removed s = card (slots_in REMOVED (hs_buckets s))" "hs_size s + hs_removed s \<le> hs_capacity s div 4 * 3"
    "slots_in UNUSED (hs_buckets s) \<noteq> {}"
proof -
  show t: "table_ok hash key (hs_buckets s)" "hs_size s = card (slots_in USED (hs_buckets s))"
      "hs_removed s = card (slots_in REMOVED (hs_buckets s))" "hs_size s + hs_removed s \<le> hs_capacity s div 4 * 3"
    using assms by (auto simp: hs_ok_def hs_empty_def)
  have "hs_size s + hs_removed s < length (hs_buckets s)"
    using t(4) assms(2) mult_div_mod_eq [of 4 "length (hs_buckets s)"] by (cases "hs_buckets s") (simp_all add: hs_capacity_def)
  then have "card (slots_in UNUSED (hs_buckets s)) \<noteq> 0" using slots_in_partition [of "hs_buckets s"] t(2,3) by linarith
  then show "slots_in UNUSED (hs_buckets s) \<noteq> {}" by auto
qed

lemma insert_target:
  assumes ok: "table_ok hash key bs" and free: "slots_in UNUSED bs \<noteq> {}"
  obtains N M t where
    "insert_loop (length bs) bs (\<lambda>x. key x = k) (hash k) (hash k) True None = Done (cleared (passed (length bs) (hash k) 0 N) bs, t, N = 0)"
    "M \<le> N" "M < length bs" "t = slot (length bs) (hash k) M" "t < length bs"
    "\<forall>m < N. bk_state (bs ! slot (length bs) (hash k) m) \<noteq> UNUSED"
    "\<forall>i\<in>slots_in USED bs. key_at key bs i = k \<longleftrightarrow> i = t"
proof -
  let ?h = "hash k" and ?eq = "\<lambda>x. key x = k" let ?s = "slot (length bs) ?h"
  note slots = table_ok_slots [OF ok]
  have idx: "\<forall>n. bucket_index bs (probe ?h n) = ?s n" "\<forall>n. ?s n < length bs" using slots(1,2) by simp_all
  obtain n where n: "n < length bs" "bk_state (bs ! ?s n) = UNUSED" using free slots(4) [of _ ?h] by (fastforce simp: slots_in_def)
  let ?stop = "\<lambda>m. matches bs ?eq ?h (?s m) \<or> bk_state (bs ! ?s m) = UNUSED"
  obtain N where N: "N \<le> n" "?stop N" "\<And>m. m < N \<Longrightarrow> \<not> ?stop m" using first_index [of ?stop n] n(2) by blast
  have before: "\<forall>m. 0 \<le> m \<and> m < N \<longrightarrow> \<not> matches bs ?eq ?h (?s m) \<and> bk_state (bs ! ?s m) \<noteq> UNUSED" using N(3) by blast
  have Nc: "N < 0 + length bs" using N(1) n(1) by simp
  from insert_loop_spec [OF idx before N(2) refl le0 this, of None]
  obtain t M where loop: "insert_loop (length bs) bs ?eq ?h ?h True None = Done (cleared (passed (length bs) ?h 0 N) bs, t, N = 0)"
      and M: "M \<le> N" "t = ?s M" and target: "if matches bs ?eq ?h (?s N) then M = N else bk_state (bs ! t) \<noteq> USED"
    by (auto split: if_splits)
  have "key_at key bs i = k \<longleftrightarrow> i = t" if i: "i \<in> slots_in USED bs" for i
  proof
    assume k: "key_at key bs i = k"
    obtain m where m: "m < length bs" "?s m = i" "path_ok bs ?h m" "\<And>m'. m' < length bs \<Longrightarrow> matches bs ?eq ?h (?s m') \<longleftrightarrow> m' = m"
      using used_path [OF ok i] k by metis
    have "N = m"
    proof (rule ccontr)
      assume "N \<noteq> m"
      then have "bk_state (bs ! ?s N) = UNUSED" using N(2) m(4) Nc by auto
      then have "\<not> N < m" using m(3) by (auto simp: path_ok_def)
      moreover have "\<not> m < N" using N(3) m(1,4) by blast
      ultimately show False using \<open>N \<noteq> m\<close> by simp
    qed
    then show "i = t" using target m(1,2,4) M(2) by auto
  next
    assume "i = t"
    then have "matches bs ?eq ?h t" using target i M(2) by (auto simp: slots_in_def split: if_splits)
    then show "key_at key bs i = k" using \<open>i = t\<close> by (simp add: matches_def key_at_def)
  qed
  then show ?thesis using that [OF loop M(1) _ M(2)] M N(3) Nc slots(1) by force
qed

lemma hs_map_place:
  assumes "table_ok hash key (hs_buckets s)" "table_ok hash key (hs_buckets s')" "slots_in USED (hs_buckets s') = insert t (slots_in USED (hs_buckets s))"
    and elem: "\<And>i. i < length (hs_buckets s) \<Longrightarrow> bk_element (hs_buckets s' ! i) = (if i = t then Some val else bk_element (hs_buckets s ! i))"
    and "t < length (hs_buckets s)" and t: "\<forall>i\<in>slots_in USED (hs_buckets s). key_at key (hs_buckets s) i = key val \<longleftrightarrow> i = t"
  shows "hs_map key s' = (hs_map key s)(key val \<mapsto> val)"
proof
  fix k
  let ?U = "slots_in USED (hs_buckets s)" and ?e = "\<lambda>i. bk_element (hs_buckets s ! i)"
  have key: "key v = key val \<longleftrightarrow> i = t" if "i \<in> ?U" "?e i = Some v" for i v
  proof -
    have "key_at key (hs_buckets s) i = key v" using that(2) by (simp add: key_at_def)
    then show ?thesis using t that(1) by metis
  qed
  have lt: "i < length (hs_buckets s)" if "i \<in> ?U" for i using that by (simp add: slots_in_def)
  have "hs_map key s' k = Some v \<longleftrightarrow> (\<exists>i\<in>insert t ?U. bk_element (hs_buckets s' ! i) = Some v \<and> key v = k)" for v
    using hs_map_iff [OF assms(2)] assms(3) by simp
  also have "\<dots> v \<longleftrightarrow> v = val \<and> key val = k \<or> (\<exists>i\<in>?U. i \<noteq> t \<and> ?e i = Some v \<and> key v = k)" for v
    using elem assms(5) lt by (auto split: if_splits)
  also have "\<dots> v \<longleftrightarrow> (if k = key val then v = val else \<exists>i\<in>?U. ?e i = Some v \<and> key v = k)" for v using key by auto
  also have "\<dots> v \<longleftrightarrow> ((hs_map key s)(key val \<mapsto> val)) k = Some v" for v using hs_map_iff [OF assms(1), of k v] by auto
  finally have "hs_map key s' k = Some v \<longleftrightarrow> ((hs_map key s)(key val \<mapsto> val)) k = Some v" for v .
  then show "hs_map key s' k = ((hs_map key s)(key val \<mapsto> val)) k" by (metis not_None_eq)
qed

lemma insert_impl_spec:
  assumes "hs_ok hash key s" "\<not> should_rehash_with_size (hs_size s + 1) s"
  shows "\<exists>s' t. insert_impl key val (hash (key val)) s = Done (s', t) \<and> hs_ok hash key s' \<and> hs_map key s' = (hs_map key s)(key val \<mapsto> val) \<and>
    hs_size s' \<le> hs_size s + 1 \<and> hs_removed s' \<le> hs_removed s \<and> hs_capacity s' = hs_capacity s \<and>
    t \<in> slots_in USED (hs_buckets s') \<and> bk_element (hs_buckets s' ! t) = Some val"
proof -
  let ?bs = "hs_buckets s" and ?h = "hash (key val)" let ?c = "length ?bs"
  have cap: "16 \<le> ?c" "hs_size s + 1 + hs_removed s \<le> ?c div 4 * 3"
    using assms(2) by (auto simp: should_rehash_with_size_def hs_capacity_def split: if_splits)
  then have ne: "?bs \<noteq> []" by auto
  note ok = hs_ok_table [OF assms(1) ne]
  obtain N M t where loop: "insert_loop ?c ?bs (\<lambda>x. key x = key val) ?h ?h True None = Done (cleared (passed ?c ?h 0 N) ?bs, t, N = 0)"
      and M: "M \<le> N" "M < ?c" "t = slot ?c ?h M" "t < ?c" and path: "\<forall>m < N. bk_state (?bs ! slot ?c ?h m) \<noteq> UNUSED"
      and t: "\<forall>i\<in>slots_in USED ?bs. key_at key ?bs i = key val \<longleftrightarrow> i = t"
    by (rule insert_target [OF ok(1,5), where k = "key val"])
  let ?cs = "N = 0 \<and> bk_state (?bs ! t) = UNUSED"
  have "\<forall>i\<in>slots_in USED ?bs. i \<noteq> t \<longrightarrow> key_at key ?bs i \<noteq> key val" "?cs \<longrightarrow> ?cs" using t by auto
  note place = table_ok_place [OF ok(1) refl M(1-3) path this]
  let ?s = "\<lparr>hs_buckets = (cleared (passed ?c ?h 0 N) ?bs)[t := \<lparr>bk_element = Some val, bk_hash = ?h, bk_state = USED, bk_chain_start = ?cs\<rparr>],
    hs_size = if bk_state (?bs ! t) = USED then hs_size s else hs_size s + 1,
    hs_removed = if bk_state (?bs ! t) = REMOVED then hs_removed s - 1 else hs_removed s\<rparr>"
  have res: "insert_impl key val ?h s = Done (?s, t)"
    using assms(2) loop M(4) by (simp add: insert_impl_def hs_capacity_def Let_def)
  have mem: "t \<in> slots_in USED ?bs \<longleftrightarrow> bk_state (?bs ! t) = USED" "t \<in> slots_in REMOVED ?bs \<longleftrightarrow> bk_state (?bs ! t) = REMOVED"
    using M(4) by (simp_all add: slots_in_def)
  have size: "hs_size ?s = card (slots_in USED (hs_buckets ?s))" using place(2) mem(1) ok(2) by (simp add: card_insert_if)
  have removed: "hs_removed ?s = card (slots_in REMOVED (hs_buckets ?s))" using place(3) mem(2) ok(3) by (simp add: card_Diff_singleton_if)
  have cap': "hs_capacity ?s = ?c" "hs_size ?s \<le> hs_size s + 1" "hs_removed ?s \<le> hs_removed s" by (simp_all add: hs_capacity_def)
  then have "hs_ok hash key ?s" using place(1) size removed cap(2) unfolding hs_ok_def by simp
  moreover have "hs_map key ?s = (hs_map key s)(key val \<mapsto> val)"
    by (rule hs_map_place [OF ok(1) _ _ _ M(4) t]) (use place in simp_all)
  ultimately show ?thesis using res cap' place(2) place(4) [OF M(4)] by (auto simp: hs_capacity_def)
qed

section \<open>Growing\<close>

lemma new_table_ok:
  assumes "4 \<le> K" "K \<le> 32" "s = \<lparr>hs_buckets = replicate (2 ^ K) unused_bucket, hs_size = 0, hs_removed = 0\<rparr>"
  shows "hs_ok hash key s" "hs_map key s = Map.empty" "hs_capacity s = 2 ^ K"
proof -
  have none: "slots_in st (hs_buckets s) = {}" if "st \<noteq> UNUSED" for st
    using that assms(3) by (auto simp: slots_in_def unused_bucket_def)
  have "\<exists>K. 4 \<le> K \<and> K \<le> 32 \<and> length (hs_buckets s) = 2 ^ K" using assms by auto
  then have "table_ok hash key (hs_buckets s)" unfolding table_ok_def by (simp add: none)
  then show "hs_ok hash key s" using assms(3) none by (simp add: hs_ok_def)
  show "hs_map key s = Map.empty" using assms(3) by (simp add: hs_map_def hs_elements_def unused_bucket_def)
  show "hs_capacity s = 2 ^ K" using assms(3) by (simp add: hs_capacity_def)
qed

abbreviation used_elements :: "'a bucket list \<Rightarrow> 'a list" where
  "used_elements bs \<equiv> map (\<lambda>b. the (bk_element b)) (filter (\<lambda>b. bk_state b = USED) bs)"

lemma rehash_loop_spec:
  assumes "\<forall>b\<in>set bs. bk_state b = USED \<longrightarrow> bk_hash b = hash (key (the (bk_element b)))"
    and "hs_ok hash key s" "16 \<le> hs_capacity s" "hs_size s + length (used_elements bs) + hs_removed s \<le> hs_capacity s div 4 * 3"
  shows "\<exists>s'. rehash_loop key bs s = Done s' \<and> hs_ok hash key s' \<and> hs_capacity s' = hs_capacity s \<and>
    hs_map key s' = foldl (\<lambda>m v. m(key v \<mapsto> v)) (hs_map key s) (used_elements bs) \<and>
    hs_size s' \<le> hs_size s + length (used_elements bs) \<and> hs_removed s' \<le> hs_removed s"
  using assms
proof (induction bs arbitrary: s)
  case (Cons b bs)
  show ?case
  proof (cases "bk_state b = USED")
    case True
    let ?v = "the (bk_element b)"
    have "\<not> should_rehash_with_size (hs_size s + 1) s" using Cons.prems(3,4) True by (simp add: should_rehash_with_size_def)
    then obtain s1 t where s1: "insert_impl key ?v (bk_hash b) s = Done (s1, t)" "hs_ok hash key s1" "hs_map key s1 = (hs_map key s)(key ?v \<mapsto> ?v)"
        "hs_size s1 \<le> hs_size s + 1" "hs_removed s1 \<le> hs_removed s" "hs_capacity s1 = hs_capacity s"
      using insert_impl_spec [OF Cons.prems(2), of ?v] Cons.prems(1) True by auto
    then show ?thesis using Cons.IH [OF _ s1(2)] Cons.prems True by auto
  qed (use Cons in simp)
qed simp

lemma foldl_map_upd:
  assumes "distinct (map key vs)"
  shows "foldl (\<lambda>m v. m(key v \<mapsto> v)) m vs = m ++ map_of (map (\<lambda>v. (key v, v)) vs)"
  using assms
proof (induction vs arbitrary: m)
  case (Cons v vs)
  have "key v \<notin> dom (map_of (map (\<lambda>v. (key v, v)) vs))" using Cons.prems by (auto simp: dom_map_of_conv_image_fst)
  then show ?case using Cons by (auto simp: map_add_def dom_def fun_eq_iff split: option.splits)
qed simp

lemma hs_elements_facts:
  assumes "table_ok hash key (hs_buckets s)"
  shows "distinct (map key (hs_elements s))" "length (hs_elements s) = card (slots_in USED (hs_buckets s))"
    "\<forall>b\<in>set (hs_buckets s). bk_state b = USED \<longrightarrow> bk_hash b = hash (key (the (bk_element b)))"
proof -
  let ?bs = "hs_buckets s"
  let ?is = "filter (\<lambda>i. bk_state (?bs ! i) = USED) [0..<length ?bs]"
  have ix: "set ?is = slots_in USED ?bs" "distinct ?is" by (auto simp: slots_in_def)
  have "filter (\<lambda>b. bk_state b = USED) ?bs = map ((!) ?bs) ?is"
    using filter_map [of "\<lambda>b. bk_state b = USED" "(!) ?bs" "[0..<length ?bs]"] by (simp add: map_nth o_def)
  then have e: "hs_elements s = map (\<lambda>i. the (bk_element (?bs ! i))) ?is" by (simp add: hs_elements_def)
  have "inj_on (key_at key ?bs) (set ?is)" using assms ix(1) by (simp add: table_ok_def)
  moreover have "map key (hs_elements s) = map (key_at key ?bs) ?is" using e by (simp add: key_at_def)
  ultimately show "distinct (map key (hs_elements s))" using ix(2) by (simp add: distinct_map)
  show "length (hs_elements s) = card (slots_in USED ?bs)" using e ix by (metis distinct_card length_map)
  show "\<forall>b\<in>set ?bs. bk_state b = USED \<longrightarrow> bk_hash b = hash (key (the (bk_element b)))"
    using assms by (auto simp: table_ok_def in_set_conv_nth slots_in_def key_at_def)
qed

lemma rehash_capacity_spec:
  assumes "n \<le> 2 ^ 63" "cnt < 2 ^ 63"
  shows "\<exists>k. rehash_capacity n cnt = 2 ^ k \<and> 4 \<le> k \<and> n \<le> 2 ^ k \<and> cnt + 1 \<le> 2 ^ k"
proof -
  let ?x = "max 16 (max n (cnt + 1))"
  let ?w = "word_of_nat ?x :: 64 word"
  have n: "n mod 2 ^ 64 = n" using assms(1) by simp
  have x: "?x \<le> 2 ^ 63" using assms by simp
  then have u: "unat ?w = ?x" by (simp add: unat_of_nat)
  then have "?w \<noteq> 0" "?w \<le> 2 ^ 63" using x by (auto simp: word_le_nat_alt unat_eq_zero simp del: word_of_nat_eq_iff)
  then obtain k where k: "k < 64" "round_up_to_power_of_two ?w = 2 ^ k" "unat ?w \<le> 2 ^ k"
    using round_up_to_power_of_two_bounds by blast
  have "unat (word_of_nat (2 ^ k) :: 64 word) = 2 ^ k" using power_strict_increasing [OF k(1), of "2::nat"] by (simp add: unat_of_nat del: of_nat_power)
  then have "rehash_capacity n cnt = 2 ^ k" using k(2) n by (simp add: rehash_capacity_def)
  moreover have "(2::nat) ^ 4 \<le> 2 ^ k" using k(3) u by simp
  then have "4 \<le> k" by (rule power_le_imp_le_exp [rotated]) simp
  ultimately show ?thesis using k(3) u by auto
qed

text \<open>
  The allocator cannot provide more than \<open>2 ^ 32\<close> buckets, the number of values of a hash.
\<close>

lemma rehash_spec:
  assumes ok: "hs_ok hash key s" and alloc: "\<forall>n. alloc n \<longrightarrow> n \<le> 2 ^ 32 + 1" and n: "2 * hs_size s \<le> n" "n \<le> 2 ^ 63"
  shows "rehash alloc key n s = Done (Inl ENOMEM) \<or>
    (\<exists>s'. rehash alloc key n s = Done (Inr s') \<and> hs_ok hash key s' \<and> hs_map key s' = hs_map key s \<and> hs_size s' \<le> hs_size s \<and>
       hs_removed s' = 0 \<and> n \<le> hs_capacity s' \<and> 16 \<le> hs_capacity s' \<and> hs_size s + 4 \<le> hs_capacity s' div 4 * 3)"
proof (cases "alloc (rehash_capacity n (hs_size s) + 1)")
  case True
  obtain k where k: "rehash_capacity n (hs_size s) = 2 ^ k" "4 \<le> k" "n \<le> 2 ^ k"
    using rehash_capacity_spec [of n "hs_size s"] n by auto
  then have "(2::nat) ^ k \<le> 2 ^ 32" using alloc True by fastforce
  then have k32: "k \<le> 32" by (rule power_le_imp_le_exp [rotated]) simp
  define s0 :: "'b hash_set" where "s0 = \<lparr>hs_buckets = replicate (2 ^ k) unused_bucket, hs_size = 0, hs_removed = 0\<rparr>"
  note s0 = new_table_ok [OF k(2) k32 s0_def]
  have s0_size: "hs_size s0 = 0" "hs_removed s0 = 0" by (simp_all add: s0_def)
  define j where "j = k - 2"
  have j: "k = j + 2" "2 \<le> j" using k(2) by (simp_all add: j_def)
  have four: "(2::nat) ^ 2 \<le> 2 ^ j" using j(2) by (rule power_increasing) simp
  then have room: "hs_size s + 4 \<le> 2 ^ k div 4 * 3" using k(3) n(1) j(1) by (simp add: power_add)
  have cap: "16 \<le> (2::nat) ^ k" using four j(1) by (simp add: power_add)
  have els: "length (hs_elements s) = hs_size s" "distinct (map key (hs_elements s))"
      "\<forall>b\<in>set (hs_buckets s). bk_state b = USED \<longrightarrow> bk_hash b = hash (key (the (bk_element b)))"
    using ok hs_elements_facts [of hash key s] by (auto simp: hs_ok_def hs_empty_def hs_elements_def)
  obtain s' where s': "rehash_loop key (hs_buckets s) s0 = Done s'" "hs_ok hash key s'" "hs_capacity s' = 2 ^ k"
      "hs_map key s' = foldl (\<lambda>m v. m(key v \<mapsto> v)) Map.empty (hs_elements s)" "hs_size s' \<le> hs_size s" "hs_removed s' = 0"
    using rehash_loop_spec [of "hs_buckets s" hash key s0] els(1,3) s0(1) [of hash key] s0(2) [of key] s0(3) s0_size cap room
    by (auto simp: hs_elements_def)
  have "hs_map key s' = hs_map key s" using s'(4) foldl_map_upd [OF els(2), of Map.empty] by (simp add: hs_map_def)
  then show ?thesis using True k(1,3) s' room cap by (simp add: rehash_def s0_def)
qed (simp add: rehash_def)

lemma hs_map_empty [simp]: "hs_map key hs_empty = Map.empty"
  by (simp add: hs_map_def hs_elements_def hs_empty_def)

lemma hs_size_bound:
  assumes "hs_ok hash key s"
  shows "hs_size s \<le> 2 ^ 32" "hs_capacity s < 16 \<longrightarrow> s = hs_empty"
proof -
  have "hs_size s \<le> hs_capacity s \<and> hs_capacity s \<le> 2 ^ 32 \<and> 16 \<le> hs_capacity s" if "s \<noteq> hs_empty"
  proof -
    have t: "table_ok hash key (hs_buckets s)" "hs_size s + hs_removed s \<le> hs_capacity s div 4 * 3"
      using assms that by (auto simp: hs_ok_def)
    obtain K where K: "4 \<le> K" "K \<le> 32" "hs_capacity s = 2 ^ K" using t(1) by (auto simp: table_ok_def hs_capacity_def)
    have "(2::nat) ^ 4 \<le> 2 ^ K" "(2::nat) ^ K \<le> 2 ^ 32" using power_increasing [OF K(1), of "2::nat"] power_increasing [OF K(2), of "2::nat"] by simp_all
    then show ?thesis using t(2) K(3) mult_div_mod_eq [of 4 "hs_capacity s"] by auto
  qed
  then show "hs_size s \<le> 2 ^ 32" "hs_capacity s < 16 \<longrightarrow> s = hs_empty" by (fastforce simp: hs_empty_def)+
qed

section \<open>The operations\<close>

lemma hs_insert_spec:
  assumes "hs_ok hash key s" "\<forall>n. alloc n \<longrightarrow> n \<le> 2 ^ 32 + 1"
  shows "hs_insert alloc hash key val s = Done (Inl ENOMEM) \<or>
    (\<exists>s' t. hs_insert alloc hash key val s = Done (Inr (s', t)) \<and> hs_ok hash key s' \<and> hs_map key s' = (hs_map key s)(key val \<mapsto> val) \<and>
       hs_deref s' (Some t) = Done val)"
proof (cases "should_rehash_with_size (hs_size s + 1) s")
  case True
  have "2 * hs_size s \<le> hs_size s * 2" "hs_size s * 2 \<le> 2 ^ 63" using hs_size_bound(1) [OF assms(1)] by simp_all
  then consider "rehash alloc key (hs_size s * 2) s = Done (Inl ENOMEM)"
    | s1 where "rehash alloc key (hs_size s * 2) s = Done (Inr s1)" "hs_ok hash key s1" "hs_map key s1 = hs_map key s"
        "\<not> should_rehash_with_size (hs_size s1 + 1) s1"
    using rehash_spec [OF assms, of "hs_size s * 2"] by (fastforce simp: should_rehash_with_size_def)
  then show ?thesis
  proof cases
    case 2
    then show ?thesis using insert_impl_spec [OF 2(2,4), of val] True by (fastforce simp: hs_insert_def hs_deref_def)
  qed (use True in \<open>simp add: hs_insert_def\<close>)
next
  case False
  then show ?thesis using insert_impl_spec [OF assms(1) False, of val] by (fastforce simp: hs_insert_def hs_deref_def)
qed

lemma hs_insert_fails:
  assumes "hs_insert alloc hash key val s = Done (Inl e)"
  shows "\<not> alloc (rehash_capacity (hs_size s * 2) (hs_size s) + 1)"
  using assms by (auto simp: hs_insert_def rehash_def tbind_def rbind_eq_Done_iff Let_def split: if_splits sum.splits)
    (metis old.sum.exhaust)

lemma hs_find_spec:
  assumes "hs_ok hash key s"
  shows "\<exists>it. hs_find hash key k s = Done it \<and> (case it of None \<Rightarrow> hs_map key s k = None
    | Some i \<Rightarrow> i \<in> slots_in USED (hs_buckets s) \<and> hs_map key s k = bk_element (hs_buckets s ! i) \<and> hs_map key s k \<noteq> None)"
proof (cases "hs_buckets s = []")
  case True
  then show ?thesis by (simp add: hs_find_def find_impl_def hs_capacity_def hs_map_def hs_elements_def)
next
  case False
  note t = hs_ok_table [OF assms False]
  note map = hs_map_iff [OF t(1)]
  have find: "hs_find hash key k s = find_loop (length (hs_buckets s)) (hs_buckets s) (\<lambda>x. key x = k) (hash k) (hash k) True"
    using False by (simp add: hs_find_def find_impl_def hs_capacity_def)
  show ?thesis
  proof (cases "\<exists>i\<in>slots_in USED (hs_buckets s). key_at key (hs_buckets s) i = k")
    case True
    then obtain i where i: "i \<in> slots_in USED (hs_buckets s)" "key_at key (hs_buckets s) i = k" by blast
    then obtain v where "bk_element (hs_buckets s ! i) = Some v" "key v = k" using t(1) by (auto simp: table_ok_def key_at_def)
    then show ?thesis using find_used [OF t(1) i] find i(1) map [of k v] by auto
  next
    case no: False
    then have "hs_map key s k = None" using map [of k] by (metis key_at_def not_None_eq option.sel)
    then show ?thesis using find_missing [OF t(1,5)] find no by auto
  qed
qed

lemma hs_remove_at_spec:
  assumes ok: "hs_ok hash key s" and i: "i \<in> slots_in USED (hs_buckets s)"
  shows "hs_ok hash key (fst (hs_remove_at i s))"
    "hs_map key (fst (hs_remove_at i s)) = (hs_map key s)(key_at key (hs_buckets s) i := None)"
proof -
  let ?bs = "hs_buckets s" and ?s = "fst (hs_remove_at i s)"
  have ne: "?bs \<noteq> []" and lt: "i < length ?bs" using i by (auto simp: slots_in_def)
  note t = hs_ok_table [OF ok ne]
  define bs where "bs = ?bs[i := (?bs ! i)\<lparr>bk_element := None, bk_state := REMOVED\<rparr>]"
  have s: "hs_buckets ?s = bs" "hs_size ?s = hs_size s - 1" "hs_removed ?s = hs_removed s + 1"
    by (simp_all add: hs_remove_at_def Let_def bs_def)
  have len: "length bs = length ?bs" by (simp add: bs_def)
  have nth: "bk_state (bs ! j) = (if j = i then REMOVED else bk_state (?bs ! j))" "bk_hash (bs ! j) = bk_hash (?bs ! j)"
      "bk_chain_start (bs ! j) = bk_chain_start (?bs ! j)" "j \<noteq> i \<Longrightarrow> bk_element (bs ! j) = bk_element (?bs ! j)" if "j < length ?bs" for j
    using that by (cases "j = i"; simp add: bs_def)+
  have used: "slots_in USED bs = slots_in USED ?bs - {i}" and removed: "slots_in REMOVED bs = insert i (slots_in REMOVED ?bs)"
    using nth(1) len lt by (auto simp: slots_in_def split: if_splits)
  note slots = table_ok_slots [OF t(1)]
  have path: "path_ok bs h n" if "path_ok ?bs h n" for h n
    using that nth(1,3) [OF slots(1)] len by (auto simp: path_ok_def)
  have key: "key_at key bs j = key_at key ?bs j" if "j \<in> slots_in USED ?bs - {i}" for j
    using that nth(4) [of j] by (auto simp: key_at_def slots_in_def)
  have entry: "bk_element (bs ! j) \<noteq> None \<and> bk_hash (bs ! j) = hash (key_at key bs j) \<and>
      (\<exists>n < length bs. slot (length bs) (bk_hash (bs ! j)) n = j \<and> path_ok bs (bk_hash (bs ! j)) n)" if j: "j \<in> slots_in USED bs" for j
  proof -
    have j': "j \<in> slots_in USED ?bs" "j \<noteq> i" "j < length ?bs" using j used by (auto simp: slots_in_def)
    then have "bk_element (?bs ! j) \<noteq> None \<and> bk_hash (?bs ! j) = hash (key_at key ?bs j) \<and>
        (\<exists>n < length ?bs. slot (length ?bs) (bk_hash (?bs ! j)) n = j \<and> path_ok ?bs (bk_hash (?bs ! j)) n)"
      using t(1) unfolding table_ok_def by blast
    then show ?thesis using nth(2,4) [OF j'(3)] key j'(1,2) len path by auto
  qed
  moreover have "inj_on (key_at key bs) (slots_in USED bs)"
    using t(1) key unfolding used table_ok_def inj_on_def by auto
  moreover have "\<exists>K. 4 \<le> K \<and> K \<le> 32 \<and> length bs = 2 ^ K" using t(1) len by (auto simp: table_ok_def)
  ultimately have table: "table_ok hash key bs" unfolding table_ok_def by blast
  have i_rem: "i \<notin> slots_in REMOVED ?bs" using i by (simp add: slots_in_def)
  have size: "0 < hs_size s" using i t(2) card_gt_0_iff by fastforce
  then show "hs_ok hash key ?s"
    using table t(2-4) s used removed i i_rem len unfolding hs_ok_def by (simp add: hs_capacity_def)
  show "hs_map key ?s = (hs_map key s)(key_at key ?bs i := None)"
  proof
    fix k
    have inj: "key_at key ?bs j = key_at key ?bs i \<longleftrightarrow> j = i" if "j \<in> slots_in USED ?bs" for j
      using t(1) i that by (auto simp: table_ok_def inj_on_def)
    have "j \<in> slots_in USED bs \<and> bk_element (bs ! j) = Some v \<longleftrightarrow> j \<in> slots_in USED ?bs \<and> j \<noteq> i \<and> bk_element (?bs ! j) = Some v" for j v
      using nth(4) [of j] unfolding used by (cases "j = i") (auto simp: slots_in_def)
    then have 1: "hs_map key ?s k = Some v \<longleftrightarrow> (\<exists>j\<in>slots_in USED ?bs. j \<noteq> i \<and> bk_element (?bs ! j) = Some v \<and> key v = k)" for v
      using hs_map_iff [of hash key ?s k v] table unfolding s(1) by blast
    have 2: "(\<exists>j\<in>slots_in USED ?bs. j \<noteq> i \<and> bk_element (?bs ! j) = Some v \<and> key v = k) \<longleftrightarrow> k \<noteq> key_at key ?bs i \<and> (\<exists>j\<in>slots_in USED ?bs. bk_element (?bs ! j) = Some v \<and> key v = k)" for v
    proof -
      have "key_at key ?bs j = k" if "bk_element (?bs ! j) = Some v" "key v = k" for j using that by (simp add: key_at_def)
      then show ?thesis using inj by metis
    qed
    have 3: "((hs_map key s)(key_at key ?bs i := None)) k = Some v \<longleftrightarrow>
        k \<noteq> key_at key ?bs i \<and> (\<exists>j\<in>slots_in USED ?bs. bk_element (?bs ! j) = Some v \<and> key v = k)" for v
      using hs_map_iff [OF t(1), of k v] by simp
    have "hs_map key ?s k = Some v \<longleftrightarrow> ((hs_map key s)(key_at key ?bs i := None)) k = Some v" for v unfolding 1 2 3 ..
    then show "hs_map key ?s k = ((hs_map key s)(key_at key ?bs i := None)) k" by (metis not_None_eq)
  qed
qed

lemma hs_remove_spec:
  assumes "hs_ok hash key s"
  shows "\<exists>s'. hs_remove hash key k s = Done s' \<and> hs_ok hash key s' \<and> hs_map key s' = (hs_map key s)(k := None)"
proof -
  obtain it where it: "hs_find hash key k s = Done it" "case it of None \<Rightarrow> hs_map key s k = None
      | Some i \<Rightarrow> i \<in> slots_in USED (hs_buckets s) \<and> hs_map key s k = bk_element (hs_buckets s ! i) \<and> hs_map key s k \<noteq> None"
    using hs_find_spec [OF assms] by blast
  show ?thesis
  proof (cases it)
    case None
    then show ?thesis using it assms by (auto simp: hs_remove_def fun_upd_idem)
  next
    case (Some i)
    then have i: "i \<in> slots_in USED (hs_buckets s)" "hs_map key s k = bk_element (hs_buckets s ! i)" "hs_map key s k \<noteq> None"
      using it(2) unfolding \<open>it = Some i\<close> option.case by blast+
    then obtain v where v: "hs_map key s k = Some v" by blast
    have "hs_buckets s \<noteq> []" using i(1) by (auto simp: slots_in_def)
    then have "key v = k" using hs_map_iff [OF hs_ok_table(1) [OF assms]] v by blast
    then have "key_at key (hs_buckets s) i = k" using i(2) [symmetric] v by (simp add: key_at_def)
    then show ?thesis using hs_remove_at_spec [OF assms i(1)] it(1) Some by (simp add: hs_remove_def)
  qed
qed

lemma hs_contains_spec:
  assumes "hs_ok hash key s"
  shows "hs_contains hash key k s = Done (hs_map key s k \<noteq> None)"
proof -
  obtain it where it: "hs_find hash key k s = Done it" "case it of None \<Rightarrow> hs_map key s k = None
      | Some i \<Rightarrow> i \<in> slots_in USED (hs_buckets s) \<and> hs_map key s k = bk_element (hs_buckets s ! i) \<and> hs_map key s k \<noteq> None"
    using hs_find_spec [OF assms] by blast
  have "it \<noteq> None \<longleftrightarrow> hs_map key s k \<noteq> None"
  proof (cases it)
    case (Some i)
    with it(2) have "hs_map key s k \<noteq> None" unfolding Some option.case by blast
    with Some show ?thesis by simp
  qed (use it(2) in simp)
  then show ?thesis by (simp add: hs_contains_def it(1))
qed

lemma hs_clear_spec: "hs_ok hash key s \<Longrightarrow> hs_clear s = hs_empty"
  by (auto simp: hs_clear_def hs_ok_def table_ok_def)

lemma hs_empty_ok: "hs_ok hash key hs_empty"
  by (simp add: hs_ok_def)

lemma hs_reserve_spec:
  assumes "hs_ok hash key s" "\<forall>n. alloc n \<longrightarrow> n \<le> 2 ^ 32 + 1" "n \<le> 2 ^ 62"
  shows "hs_reserve alloc key n s = Done (Inl ENOMEM) \<or>
    (\<exists>s'. hs_reserve alloc key n s = Done (Inr s') \<and> hs_ok hash key s' \<and> hs_map key s' = hs_map key s)"
proof (cases "should_rehash_with_size n s")
  case True
  have "hs_size s \<le> n"
  proof (cases "hs_capacity s < 16")
    case False
    then have "s \<noteq> hs_empty" by (auto simp: hs_capacity_def hs_empty_def)
    then show ?thesis using assms(1) True False by (auto simp: hs_ok_def should_rehash_with_size_def split: if_splits)
  qed (use hs_size_bound(2) [OF assms(1)] in \<open>simp add: hs_empty_def\<close>)
  then show ?thesis using rehash_spec [OF assms(1,2), of "n * 2"] assms(3) True by (auto simp: hs_reserve_def)
qed (use assms(1) in \<open>simp add: hs_reserve_def\<close>)

lemma hs_insert_all_spec:
  assumes "hs_ok hash key s" "16 \<le> hs_capacity s" "hs_size s + length vs + hs_removed s \<le> hs_capacity s div 4 * 3"
  shows "\<exists>s'. hs_insert_all alloc hash key vs s = Done s' \<and> hs_ok hash key s' \<and>
    hs_map key s' = foldl (\<lambda>m v. m(key v \<mapsto> v)) (hs_map key s) vs"
  using assms
proof (induction vs arbitrary: s)
  case (Cons v vs)
  have room: "\<not> should_rehash_with_size (hs_size s + 1) s" using Cons.prems(2,3) by (simp add: should_rehash_with_size_def)
  obtain s1 t where s1: "insert_impl key v (hash (key v)) s = Done (s1, t)" "hs_ok hash key s1" "hs_map key s1 = (hs_map key s)(key v \<mapsto> v)"
      "hs_size s1 \<le> hs_size s + 1" "hs_removed s1 \<le> hs_removed s" "hs_capacity s1 = hs_capacity s"
    using insert_impl_spec [OF Cons.prems(1) room] by blast
  then obtain s' where "hs_insert_all alloc hash key vs s1 = Done s'" "hs_ok hash key s'"
      "hs_map key s' = foldl (\<lambda>m v. m(key v \<mapsto> v)) (hs_map key s1) vs"
    using Cons.IH [of s1] Cons.prems(2,3) by fastforce
  then show ?case using s1(1,3) room by (simp add: hs_insert_def del: fun_upd_apply)
qed simp

lemma hs_elements_ok:
  assumes "hs_ok hash key s"
  shows "distinct (map key (hs_elements s))" "length (hs_elements s) = hs_size s"
  using assms hs_elements_facts [of hash key s] by (auto simp: hs_ok_def hs_empty_def hs_elements_def)

lemma hs_size_map: "hs_ok hash key s \<Longrightarrow> card (dom (hs_map key s)) = hs_size s"
  using hs_elements_ok [of hash key s] distinct_card [of "map key (hs_elements s)"]
  by (simp add: hs_map_def dom_map_of_conv_image_fst image_image)

text \<open>
  The copy of a set for which there is memory: every insertion finds room in the table that was reserved.
\<close>

lemma hs_copy_spec:
  assumes other: "hs_ok hash key other" and s: "hs_ok hash key s" and alloc: "\<forall>n. alloc n \<longrightarrow> n \<le> 2 ^ 32 + 1"
    and memory: "alloc (rehash_capacity (hs_size other * 2) 0 + 1)"
  shows "\<exists>s'. hs_copy alloc hash key other s = Done s' \<and> hs_ok hash key s' \<and> hs_map key s' = hs_map key other"
proof -
  have empty: "2 * hs_size (hs_empty :: 'b hash_set) \<le> hs_size other * 2" "hs_size other * 2 \<le> 2 ^ 63" "hs_size (hs_empty :: 'b hash_set) = 0"
    using hs_size_bound(1) [OF other] by (simp_all add: hs_empty_def)
  then consider "rehash alloc key (hs_size other * 2) hs_empty = Done (Inl ENOMEM)"
    | s1 where "rehash alloc key (hs_size other * 2) hs_empty = Done (Inr s1)" "hs_ok hash key s1" "hs_map key s1 = Map.empty"
        "hs_size s1 = 0" "hs_removed s1 = 0" "hs_size other * 2 \<le> hs_capacity s1" "16 \<le> hs_capacity s1"
    using rehash_spec [OF hs_empty_ok alloc, of "hs_size other * 2" key hash] empty(1,2) unfolding empty(3) hs_map_empty le_0_eq by blast
  then show ?thesis
  proof cases
    case 1
    moreover have "rbind m (\<lambda>x. Done (Inr x)) \<noteq> Done (Inl ENOMEM)" for m :: "'b hash_set run" by (cases m) simp_all
    ultimately show ?thesis using memory by (simp add: rehash_def hs_empty_def Let_def)
  next
    case (2 s1)
    have "should_rehash_with_size (hs_size other) (hs_empty :: 'b hash_set)"
      by (simp add: should_rehash_with_size_def hs_capacity_def hs_empty_def)
    then have "hs_reserve alloc key (hs_size other) (hs_clear s) = Done (Inr s1)"
      using 2(1) hs_clear_spec [OF s] by (simp add: hs_reserve_def)
    moreover have "hs_size other \<le> hs_capacity s1 div 4 * 3" using 2(6,7) by linarith
    then obtain s' where "hs_insert_all alloc hash key (hs_elements other) s1 = Done s'" "hs_ok hash key s'"
        "hs_map key s' = foldl (\<lambda>m v. m(key v \<mapsto> v)) Map.empty (hs_elements other)"
      using hs_insert_all_spec [OF 2(2,7), of "hs_elements other" alloc] 2(3-5) hs_elements_ok(2) [OF other] by auto
    ultimately show ?thesis
      using foldl_map_upd [OF hs_elements_ok(1) [OF other], of Map.empty] by (simp add: hs_copy_def hs_map_def)
  qed
qed

section \<open>Iteration\<close>

text \<open>A range-based \<^verbatim>\<open>for\<close> over the set, from an iterator on, with the elements it visits.\<close>

fun hs_walk :: "nat \<Rightarrow> 'a hash_set \<Rightarrow> nat option \<Rightarrow> 'a list run" where
  "hs_walk 0 s it = Halt"
| "hs_walk (Suc fuel) s it =
     (if it = None then Done []
      else rbind (hs_deref s it) (\<lambda>v. rbind (hs_next s it) (\<lambda>it'. rbind (hs_walk fuel s it') (\<lambda>vs. Done (v # vs)))))"

lemma hs_walk_spec:
  assumes "length (hs_buckets s) - i < fuel"
  shows "hs_walk fuel s (skip_to_valid_bucket (hs_buckets s) i) = Done (used_elements (drop i (hs_buckets s)))"
  using assms
proof (induction "length (hs_buckets s) - i" arbitrary: i fuel)
  case 0
  then obtain f where "fuel = Suc f" by (cases fuel) auto
  with 0 show ?case by (simp add: skip_to_valid_bucket.simps)
next
  case (Suc n)
  then have lt: "i < length (hs_buckets s)" and n: "n = length (hs_buckets s) - Suc i" by auto
  have drop: "drop i (hs_buckets s) = hs_buckets s ! i # drop (Suc i) (hs_buckets s)" using lt by (rule Cons_nth_drop_Suc [symmetric])
  obtain f where f: "fuel = Suc f" using Suc.prems by (cases fuel) auto
  show ?case
  proof (cases "bk_state (hs_buckets s ! i) = USED")
    case True
    then have "skip_to_valid_bucket (hs_buckets s) i = Some i" using lt by (simp add: skip_to_valid_bucket.simps)
    moreover have "hs_walk f s (skip_to_valid_bucket (hs_buckets s) (Suc i)) = Done (used_elements (drop (Suc i) (hs_buckets s)))"
      using Suc.hyps(1) [OF n] Suc.prems f lt by simp
    ultimately show ?thesis using True by (simp add: f hs_deref_def hs_next_def drop)
  next
    case False
    then have "skip_to_valid_bucket (hs_buckets s) i = skip_to_valid_bucket (hs_buckets s) (Suc i)"
      using lt by (subst skip_to_valid_bucket.simps) simp
    then show ?thesis using Suc.hyps(1) [OF n, of fuel] Suc.prems False by (simp add: drop)
  qed
qed

lemma hs_walk_elements: "hs_walk (hs_capacity s + 1) s (hs_begin s) = Done (hs_elements s)"
  using hs_walk_spec [of s 0 "hs_capacity s + 1"] by (auto simp: hs_begin_def hs_elements_def hs_capacity_def)

section \<open>The interface of a table of elements with keys\<close>

datatype ('k, 'a) table_op = TInsert 'a | TRemove 'k | TContains 'k

text \<open>
  A sequence of operations on a table. Each gives a flag: whether the insertion succeeded (it fails when
  memory runs out), true for a removal, and the answer of a look-up.
\<close>

fun table_run ::
  "('a \<Rightarrow> 's \<Rightarrow> ('s \<times> 'i) error_or run) \<Rightarrow> ('k \<Rightarrow> 's \<Rightarrow> 's run) \<Rightarrow> ('k \<Rightarrow> 's \<Rightarrow> bool run) \<Rightarrow>
   ('k, 'a) table_op list \<Rightarrow> 's \<Rightarrow> ('s \<times> bool list) run" where
  "table_run ins del mem [] s = Done (s, [])"
| "table_run ins del mem (op # ops) s =
     rbind (case op of
         TInsert v \<Rightarrow> rbind (ins v s) (\<lambda>r. Done (case r of Inl e \<Rightarrow> (s, False) | Inr (s', it) \<Rightarrow> (s', True)))
       | TRemove k \<Rightarrow> rbind (del k s) (\<lambda>s'. Done (s', True))
       | TContains k \<Rightarrow> rbind (mem k s) (\<lambda>b. Done (s, b))) (\<lambda>(s', b).
       rbind (table_run ins del mem ops s') (\<lambda>(s'', bs). Done (s'', b # bs)))"

text \<open>
  What the operations do to the finite map that the table stands for. \<open>None\<close> means that an answer
  contradicts it. An insertion may fail only when \<open>no_room\<close> holds for the number of elements of the map.
\<close>

fun table_spec :: "(nat \<Rightarrow> bool) \<Rightarrow> ('a \<Rightarrow> 'k) \<Rightarrow> ('k, 'a) table_op list \<Rightarrow> bool list \<Rightarrow> ('k \<rightharpoonup> 'a) \<Rightarrow> ('k \<rightharpoonup> 'a) option" where
  "table_spec no_room key [] [] m = Some m"
| "table_spec no_room key (TInsert v # ops) (b # bs) m =
     (if b then table_spec no_room key ops bs (m(key v \<mapsto> v))
      else if no_room (card (dom m)) then table_spec no_room key ops bs m else None)"
| "table_spec no_room key (TRemove k # ops) (b # bs) m = table_spec no_room key ops bs (m(k := None))"
| "table_spec no_room key (TContains k # ops) (b # bs) m = (if b = (m k \<noteq> None) then table_spec no_room key ops bs m else None)"
| "table_spec no_room key ops bs m = None"

text \<open>Every insertion of the sequence has succeeded.\<close>

definition insertions_succeed :: "('k, 'a) table_op list \<Rightarrow> bool list \<Rightarrow> bool" where
  "insertions_succeed = list_all2 (\<lambda>op b. case op of TInsert v \<Rightarrow> b | _ \<Rightarrow> True)"

lemma table_spec_insertions_succeed:
  assumes "table_spec no_room key ops bs m = Some m'" "finite (dom m)" "card (dom m) + length ops \<le> N" "\<forall>n\<le>N. \<not> no_room n"
  shows "insertions_succeed ops bs"
  using assms unfolding insertions_succeed_def
proof (induction no_room key ops bs m rule: table_spec.induct)
  case (2 no_room key v ops b bs m)
  have b: b using 2(3,5,6) by (auto split: if_splits)
  have "card (insert (key v) (dom m)) \<le> Suc (card (dom m))" by (rule card_insert_le_m1) simp_all
  then have "list_all2 (\<lambda>op b. case op of TInsert v \<Rightarrow> b | _ \<Rightarrow> True) ops bs"
    using 2(1) [OF b] 2(3-6) b by (simp del: fun_upd_apply)
  then show ?case using b by simp
next
  case (3 no_room key k ops b bs m)
  have "card (dom m - {k}) \<le> card (dom m)" using 3(3) by (rule card_mono) auto
  then show ?case using 3 by (simp del: fun_upd_apply)
qed (auto split: if_splits)

locale keyed_table =
  fixes no_room :: "nat \<Rightarrow> bool" and invar :: "'s \<Rightarrow> bool" and lookup :: "'s \<Rightarrow> 'k \<rightharpoonup> 'a" and key :: "'a \<Rightarrow> 'k"
    and ins :: "'a \<Rightarrow> 's \<Rightarrow> ('s \<times> 'i) error_or run" and del :: "'k \<Rightarrow> 's \<Rightarrow> 's run" and mem :: "'k \<Rightarrow> 's \<Rightarrow> bool run"
  assumes ins_law: "invar s \<Longrightarrow> ins v s = Done (Inl ENOMEM) \<and> no_room (card (dom (lookup s))) \<or>
      (\<exists>s' it. ins v s = Done (Inr (s', it)) \<and> invar s' \<and> lookup s' = (lookup s)(key v \<mapsto> v))"
    and del_law: "invar s \<Longrightarrow> \<exists>s'. del k s = Done s' \<and> invar s' \<and> lookup s' = (lookup s)(k := None)"
    and mem_law: "invar s \<Longrightarrow> mem k s = Done (lookup s k \<noteq> None)"
begin

lemma run_refines:
  "invar s \<Longrightarrow> \<exists>s' bs. table_run ins del mem ops s = Done (s', bs) \<and> invar s' \<and> table_spec no_room key ops bs (lookup s) = Some (lookup s')"
proof (induction ops arbitrary: s)
  case (Cons op ops)
  show ?case
  proof (cases op)
    case (TInsert v)
    show ?thesis
    proof (cases "ins v s = Done (Inl ENOMEM)")
      case True
      then have "no_room (card (dom (lookup s)))" using ins_law [OF Cons.prems, of v] by auto
      then show ?thesis using True Cons.IH [OF Cons.prems] TInsert by force
    next
      case False
      then obtain s1 it where "ins v s = Done (Inr (s1, it))" "invar s1" "lookup s1 = (lookup s)(key v \<mapsto> v)"
        using ins_law [OF Cons.prems] by blast
      then show ?thesis using Cons.IH [of s1] TInsert by (auto simp del: fun_upd_apply)
    qed
  next
    case (TRemove k)
    obtain s1 where "del k s = Done s1" "invar s1" "lookup s1 = (lookup s)(k := None)" using del_law [OF Cons.prems] by blast
    then show ?thesis using Cons.IH [of s1] TRemove by (auto simp del: fun_upd_apply)
  next
    case (TContains k)
    then show ?thesis using Cons.IH [OF Cons.prems] mem_law [OF Cons.prems] by auto
  qed
qed simp

end

text \<open>An allocator that never hands out more than \<open>2 ^ 32\<close> buckets and the one that ends the iterations.\<close>

definition bounded_alloc :: "(nat \<Rightarrow> bool) \<Rightarrow> nat \<Rightarrow> bool" where
  "bounded_alloc alloc n \<longleftrightarrow> alloc n \<and> n \<le> 2 ^ 32 + 1"

text \<open>The allocator has no room for the table to which a set of \<open>n\<close> elements grows.\<close>

definition no_table_memory :: "(nat \<Rightarrow> bool) \<Rightarrow> nat \<Rightarrow> bool" where
  "no_table_memory alloc n \<longleftrightarrow> \<not> bounded_alloc alloc (rehash_capacity (n * 2) n + 1)"

interpretation hs_table: keyed_table "no_table_memory alloc" "hs_ok hash key" "hs_map key" key "hs_insert (bounded_alloc alloc) hash key"
    "hs_remove hash key" "hs_contains hash key" for alloc hash key
proof
  show "hs_insert (bounded_alloc alloc) hash key v s = Done (Inl ENOMEM) \<and> no_table_memory alloc (card (dom (hs_map key s))) \<or>
      (\<exists>s' it. hs_insert (bounded_alloc alloc) hash key v s = Done (Inr (s', it)) \<and> hs_ok hash key s' \<and> hs_map key s' = (hs_map key s)(key v \<mapsto> v))"
    if "hs_ok hash key s" for s v
    using hs_insert_spec [OF that, of "bounded_alloc alloc" v] hs_insert_fails [of "bounded_alloc alloc" hash key v s ENOMEM] hs_size_map [OF that]
    by (auto simp: bounded_alloc_def no_table_memory_def)
qed (rule hs_remove_spec hs_contains_spec, assumption)+

section \<open>Properties\<close>

text \<open>
  C18: Whatever sequence of insertions, removals and look-ups is made on an empty hash set, every probe loop
  ends and no assertion fails, and the set behaves as the finite map from keys to elements: every look-up gives the
  answer of the map, and the elements at the end are those of the map. An insertion fails only when the
  allocator refuses the table to which a set of the current number of elements grows; so when it grants these tables for all
  sizes up to the length of the sequence, every insertion succeeds. (It never grants a table of more than \<open>2 ^ 32\<close> buckets.)
\<close>

theorem hash_set_refines_finite_map:
  "\<exists>s bs. table_run (hs_insert (bounded_alloc alloc) hash key) (hs_remove hash key) (hs_contains hash key) ops hs_empty = Done (s, bs) \<and>
     table_spec (no_table_memory alloc) key ops bs Map.empty = Some (hs_map key s) \<and>
     ((\<forall>n\<le>length ops. bounded_alloc alloc (rehash_capacity (n * 2) n + 1)) \<longrightarrow> insertions_succeed ops bs)"
proof -
  obtain s bs where s: "table_run (hs_insert (bounded_alloc alloc) hash key) (hs_remove hash key) (hs_contains hash key) ops hs_empty = Done (s, bs)"
      "table_spec (no_table_memory alloc) key ops bs Map.empty = Some (hs_map key s)"
    using hs_table.run_refines [OF hs_empty_ok, of alloc hash key ops] by auto
  then show ?thesis
    using table_spec_insertions_succeed [OF s(2), of "length ops"] by (auto simp: no_table_memory_def)
qed

lemma rehash_capacity_small:
  assumes "n \<le> 16" "cnt < 16"
  shows "rehash_capacity n cnt = 16"
proof -
  have "round_up_to_power_of_two (16 :: 64 word) = 16" by (simp add: round_up_to_power_of_two_def)
  moreover have "max 16 (max (n mod 2 ^ 64) (cnt + 1)) = 16" using assms by simp
  ultimately show ?thesis by (simp add: rehash_capacity_def)
qed

theorem hash_set_refines_finite_map_witness:
  "\<exists>s removed. table_run (hs_insert (bounded_alloc (\<lambda>n. n \<le> 100)) u32_hash id) (hs_remove u32_hash id) (hs_contains u32_hash id)
      [TInsert 7, TInsert 9, TRemove 7, TContains 7, TContains 9] hs_empty = Done (s, [True, True, removed, False, True]) \<and>
     hs_map id s = [9 \<mapsto> 9]"
proof -
  let ?ops = "[TInsert 7, TInsert 9, TRemove 7, TContains 7, TContains 9] :: (32 word, 32 word) table_op list"
  have granted: "\<forall>n\<le>length ?ops. bounded_alloc (\<lambda>n. n \<le> 100) (rehash_capacity (n * 2) n + 1)"
    by (auto simp: rehash_capacity_small bounded_alloc_def)
  obtain s bs where s: "table_run (hs_insert (bounded_alloc (\<lambda>n. n \<le> 100)) u32_hash id) (hs_remove u32_hash id) (hs_contains u32_hash id)
      ?ops hs_empty = Done (s, bs)" "table_spec (no_table_memory (\<lambda>n. n \<le> 100)) id ?ops bs Map.empty = Some (hs_map id s)" "insertions_succeed ?ops bs"
    using hash_set_refines_finite_map [of "\<lambda>n. n \<le> 100" u32_hash id ?ops] granted by blast
  obtain b3 b4 b5 where bs: "bs = [True, True, b3, b4, b5]" using s(3) by (auto simp: insertions_succeed_def list_all2_Cons1)
  have "bs = [True, True, b3, False, True]" "hs_map id s = [9 \<mapsto> 9]" using s(2) unfolding bs by (auto split: if_splits)
  then show ?thesis using s(1) by blast
qed

text \<open>
  C27: the probe sequence of a hash visits every bucket of a table exactly once before it repeats, whatever the
  hash is, as long as the table has a power of two of buckets and at most \<open>2 ^ 32\<close> of them.
\<close>

theorem probe_sequence_full_period:
  assumes "K \<le> 32" "length bs = 2 ^ K"
  shows "bij_betw (\<lambda>n. bucket_index bs (((\<lambda>h. get_next_hash_in_chain h orig_hash) ^^ n) orig_hash)) {..<length bs} {..<length bs}"
proof -
  have eq: "bucket_index bs (((\<lambda>h. get_next_hash_in_chain h orig_hash) ^^ n) orig_hash) = slot (2 ^ K) orig_hash n" for n
    using bucket_index_slot [OF assms(2), of orig_hash n] unfolding probe_def .
  have "slot (2 ^ K) orig_hash ` {..<2 ^ K} = {..<2 ^ K}"
  proof
    show "slot (2 ^ K) orig_hash ` {..<2 ^ K} \<subseteq> {..<2 ^ K}" by (auto simp: slot_def)
    show "{..<2 ^ K} \<subseteq> slot (2 ^ K) orig_hash ` {..<2 ^ K}" by (metis image_eqI lessThan_iff slot_onto [OF assms(1)] subsetI)
  qed
  then show ?thesis unfolding eq assms(2) using slot_inj [OF assms(1)] by (simp add: bij_betw_def)
qed

theorem probe_sequence_full_period_witness:
  "bij_betw (\<lambda>n. bucket_index (replicate 16 (unused_bucket :: nat bucket)) (((\<lambda>h. get_next_hash_in_chain h 0xFFFFFFFE) ^^ n) 0xFFFFFFFE)) {..<16} {..<16}"
  using probe_sequence_full_period [where K = 4 and bs = "replicate 16 (unused_bucket :: nat bucket)" and orig_hash = "0xFFFFFFFE"] unfolding length_replicate by simp

text \<open>
  C28: a range-based for loop over a hash set ends and visits every element of the set exactly once:
  the keys of the visited elements are distinct, and they are the elements of the finite map.
\<close>

theorem iteration_visits_each_element:
  assumes "hs_ok hash key s"
  shows "\<exists>vs. hs_walk (hs_capacity s + 1) s (hs_begin s) = Done vs \<and> distinct (map key vs) \<and> length vs = hs_size s \<and>
    (\<forall>k v. hs_map key s k = Some v \<longleftrightarrow> v \<in> set vs \<and> key v = k)"
proof (intro exI conjI allI)
  show "hs_walk (hs_capacity s + 1) s (hs_begin s) = Done (hs_elements s)" by (rule hs_walk_elements)
  show d: "distinct (map key (hs_elements s))" and "length (hs_elements s) = hs_size s" using hs_elements_ok [OF assms] by simp_all
  show "hs_map key s k = Some v \<longleftrightarrow> v \<in> set (hs_elements s) \<and> key v = k" for k v
    using d by (auto simp: hs_map_def map_of_eq_Some_iff o_def)
qed

text \<open>The set after the insertion of one number.\<close>

definition one_element_set :: "32 word hash_set" where
  "one_element_set = (case hs_insert (\<lambda>n. n \<le> 2 ^ 32 + 1) u32_hash id 7 hs_empty of Done (Inr (s, it)) \<Rightarrow> s | _ \<Rightarrow> hs_empty)"

lemma one_element_set_ok: "hs_ok u32_hash id one_element_set"
  using hs_insert_spec [OF hs_empty_ok, of "\<lambda>n. n \<le> 2 ^ 32 + 1" u32_hash id 7] by (auto simp: one_element_set_def hs_empty_ok)

theorem iteration_visits_each_element_witness:
  "hs_walk (hs_capacity one_element_set + 1) one_element_set (hs_begin one_element_set) = Done [7] \<and>
   (\<exists>vs. hs_walk (hs_capacity one_element_set + 1) one_element_set (hs_begin one_element_set) = Done vs \<and> distinct (map id vs) \<and>
      length vs = hs_size one_element_set \<and> (\<forall>k v. hs_map id one_element_set k = Some v \<longleftrightarrow> v \<in> set vs \<and> id v = k))"
proof
  show "hs_walk (hs_capacity one_element_set + 1) one_element_set (hs_begin one_element_set) = Done [7]" by code_simp
qed (rule iteration_visits_each_element [OF one_element_set_ok])

end
