(* ===== verification/HashMap.thy ===== *)
theory HashMap
  imports HashSet
begin

text \<open>
  The hash map of \<^verbatim>\<open>BAN/HashMap.h\<close>: a hash set of entries, which are pairs of a key and a value. The
  comparison looks at the keys only. The hash of an entry is declared to return a \<^verbatim>\<open>bool\<close>, so
  every hash is 0 or 1 when it reaches the set.
\<close>

section \<open>Model\<close>

type_synonym ('k, 'v) hash_map = "('k \<times> 'v) hash_set"

definition entry_hash :: "('k \<Rightarrow> 32 word) \<Rightarrow> 'k \<Rightarrow> 32 word" where
  "entry_hash hash k = of_bool (hash k \<noteq> 0)"

definition hm_find :: "('k \<Rightarrow> 32 word) \<Rightarrow> 'k \<Rightarrow> ('k, 'v) hash_map \<Rightarrow> nat option run" where
  "hm_find hash k m = hs_find (entry_hash hash) fst k m"

definition hm_contains :: "('k \<Rightarrow> 32 word) \<Rightarrow> 'k \<Rightarrow> ('k, 'v) hash_map \<Rightarrow> bool run" where
  "hm_contains hash k m = rbind (hm_find hash k m) (\<lambda>it. Done (it \<noteq> None))"

definition emplace :: "(nat \<Rightarrow> bool) \<Rightarrow> ('k \<Rightarrow> 32 word) \<Rightarrow> 'k \<Rightarrow> 'v \<Rightarrow> ('k, 'v) hash_map \<Rightarrow> (('k, 'v) hash_map \<times> nat) error_or run" where
  "emplace alloc hash k v m =
     rbind (hm_contains hash k m) (\<lambda>c. asserting (\<not> c) (hs_insert alloc (entry_hash hash) fst (k, v) m))"

definition emplace_or_assign ::
  "(nat \<Rightarrow> bool) \<Rightarrow> ('k \<Rightarrow> 32 word) \<Rightarrow> 'k \<Rightarrow> 'v \<Rightarrow> ('k, 'v) hash_map \<Rightarrow> (('k, 'v) hash_map \<times> nat) error_or run" where
  "emplace_or_assign alloc hash k v m =
     rbind (hs_find (entry_hash hash) fst k m) (\<lambda>it. case it of
       Some i \<Rightarrow>
         (let bucket = hs_buckets m ! i; e = the (bk_element bucket)
          in Done (Inr (m\<lparr>hs_buckets := (hs_buckets m)[i := bucket\<lparr>bk_element := Some (fst e, v)\<rparr>]\<rparr>, i)))
     | None \<Rightarrow> hs_insert alloc (entry_hash hash) fst (k, v) m)"

definition hm_remove :: "('k \<Rightarrow> 32 word) \<Rightarrow> 'k \<Rightarrow> ('k, 'v) hash_map \<Rightarrow> ('k, 'v) hash_map run" where
  "hm_remove hash k m =
     rbind (hm_find hash k m) (\<lambda>it. case it of None \<Rightarrow> Done m | Some i \<Rightarrow> Done (fst (hs_remove_at i m)))"

definition hm_clear :: "('k, 'v) hash_map \<Rightarrow> ('k, 'v) hash_map" where
  "hm_clear m = hs_clear m"

definition hm_reserve :: "(nat \<Rightarrow> bool) \<Rightarrow> nat \<Rightarrow> ('k, 'v) hash_map \<Rightarrow> ('k, 'v) hash_map error_or run" where
  "hm_reserve alloc n m = hs_reserve alloc fst n m"

text \<open>The subscript, which asserts through the iterator that there is an entry.\<close>

definition hm_subscript :: "('k \<Rightarrow> 32 word) \<Rightarrow> 'k \<Rightarrow> ('k, 'v) hash_map \<Rightarrow> 'v run" where
  "hm_subscript hash k m = rbind (hm_find hash k m) (\<lambda>it. rbind (hs_deref m it) (\<lambda>e. Done (snd e)))"

definition hm_copy :: "(nat \<Rightarrow> bool) \<Rightarrow> ('k \<Rightarrow> 32 word) \<Rightarrow> ('k, 'v) hash_map \<Rightarrow> ('k, 'v) hash_map \<Rightarrow> ('k, 'v) hash_map run" where
  "hm_copy alloc hash other m = hs_copy alloc (entry_hash hash) fst other m"

definition hm_move :: "('k, 'v) hash_map \<Rightarrow> ('k, 'v) hash_map \<Rightarrow> ('k, 'v) hash_map \<times> ('k, 'v) hash_map" where
  "hm_move other m = hs_move other m"

section \<open>The map that an object stands for\<close>

abbreviation hm_ok :: "('k \<Rightarrow> 32 word) \<Rightarrow> ('k, 'v) hash_map \<Rightarrow> bool" where
  "hm_ok hash \<equiv> hs_ok (entry_hash hash) fst"

definition hm_map :: "('k, 'v) hash_map \<Rightarrow> 'k \<rightharpoonup> 'v" where
  "hm_map m k = map_option snd (hs_map fst m k)"

lemma hm_find_spec:
  assumes "hm_ok hash m"
  obtains it where "hm_find hash k m = Done it" "it \<noteq> None \<longleftrightarrow> hm_map m k \<noteq> None"
    "\<And>i. it = Some i \<Longrightarrow> i \<in> slots_in USED (hs_buckets m) \<and> hs_map fst m k = bk_element (hs_buckets m ! i)"
proof -
  obtain it where it: "hs_find (entry_hash hash) fst k m = Done it" "case it of None \<Rightarrow> hs_map fst m k = None
      | Some i \<Rightarrow> i \<in> slots_in USED (hs_buckets m) \<and> hs_map fst m k = bk_element (hs_buckets m ! i) \<and> hs_map fst m k \<noteq> None"
    using hs_find_spec [OF assms] by blast
  have "it \<noteq> None \<longleftrightarrow> hs_map fst m k \<noteq> None"
  proof (cases it)
    case (Some i)
    with it(2) have "hs_map fst m k \<noteq> None" unfolding Some option.case by blast
    with Some show ?thesis by simp
  qed (use it(2) in simp)
  then show ?thesis using that [of it] it by (auto simp: hm_find_def hm_map_def)
qed

lemma hm_contains_eq: "hm_contains hash k m = hs_contains (entry_hash hash) fst k m"
  by (simp add: hm_contains_def hs_contains_def hm_find_def)

lemma hm_remove_eq: "hm_remove hash k m = hs_remove (entry_hash hash) fst k m"
  by (simp add: hm_remove_def hs_remove_def hm_find_def)

text \<open>The key of an entry never changes when its value is assigned.\<close>

lemma assign_entry:
  assumes ok: "hm_ok hash m" and i: "i \<in> slots_in USED (hs_buckets m)" and e: "bk_element (hs_buckets m ! i) = Some (k, v0)"
    and m'_def: "m' = m\<lparr>hs_buckets := (hs_buckets m)[i := (hs_buckets m ! i)\<lparr>bk_element := Some (k, v)\<rparr>]\<rparr>"
  shows "hm_ok hash m'" "hs_map fst m' = (hs_map fst m)(k \<mapsto> (k, v))"
proof -
  let ?bs = "hs_buckets m"
  define bs where "bs = hs_buckets m'"
  have bs: "bs = ?bs[i := (?bs ! i)\<lparr>bk_element := Some (k, v)\<rparr>]" by (simp add: bs_def m'_def)
  have lt: "i < length ?bs" using i by (simp add: slots_in_def)
  then have ne: "?bs \<noteq> []" by auto
  note t = hs_ok_table [OF ok ne]
  have len: "length bs = length ?bs" by (simp add: bs)
  have nth: "bk_state (bs ! j) = bk_state (?bs ! j)" "bk_hash (bs ! j) = bk_hash (?bs ! j)"
      "bk_chain_start (bs ! j) = bk_chain_start (?bs ! j)" "bk_element (bs ! j) = (if j = i then Some (k, v) else bk_element (?bs ! j))"
      if "j < length ?bs" for j
    using that by (cases "j = i"; simp add: bs)+
  have slots: "slots_in st bs = slots_in st ?bs" for st using nth(1) len by (auto simp: slots_in_def)
  have key: "key_at fst bs j = key_at fst ?bs j" if "j \<in> slots_in USED ?bs" for j
    using that nth(4) [of j] e by (auto simp: key_at_def slots_in_def)
  have path: "path_ok bs h n = path_ok ?bs h n" for h n
    using nth(1,3) [OF table_ok_slots(1) [OF t(1)]] len by (auto simp: path_ok_def)
  have entry: "bk_element (bs ! j) \<noteq> None \<and> bk_hash (bs ! j) = entry_hash hash (key_at fst bs j) \<and>
      (\<exists>n < length bs. slot (length bs) (bk_hash (bs ! j)) n = j \<and> path_ok bs (bk_hash (bs ! j)) n)" if j: "j \<in> slots_in USED bs" for j
  proof -
    have j': "j \<in> slots_in USED ?bs" "j < length ?bs" using j slots by (auto simp: slots_in_def)
    then have "bk_element (?bs ! j) \<noteq> None \<and> bk_hash (?bs ! j) = entry_hash hash (key_at fst ?bs j) \<and>
        (\<exists>n < length ?bs. slot (length ?bs) (bk_hash (?bs ! j)) n = j \<and> path_ok ?bs (bk_hash (?bs ! j)) n)"
      using t(1) unfolding table_ok_def by blast
    moreover have "bk_element (?bs ! j) \<noteq> None \<Longrightarrow> bk_element (bs ! j) \<noteq> None" using nth(4) [OF j'(2)] by simp
    ultimately show ?thesis unfolding nth(2) [OF j'(2)] key [OF j'(1)] len path by blast
  qed
  moreover have "inj_on (key_at fst bs) (slots_in USED bs)"
    using t(1) key unfolding slots table_ok_def inj_on_def by metis
  moreover have "\<exists>K. 4 \<le> K \<and> K \<le> 32 \<and> length bs = 2 ^ K" using t(1) len by (auto simp: table_ok_def)
  ultimately have table: "table_ok (entry_hash hash) fst bs" unfolding table_ok_def by blast
  have other: "hs_size m' = hs_size m" "hs_removed m' = hs_removed m" by (simp_all add: m'_def)
  show "hm_ok hash m'"
    using table t(2-4) slots len unfolding hs_ok_def bs_def [symmetric] other by (simp add: hs_capacity_def bs_def)
  have ki: "key_at fst ?bs i = k" using e by (simp add: key_at_def)
  have inj: "j = i" if "j \<in> slots_in USED ?bs" "key_at fst ?bs j = k" for j
    using t(1) i that ki by (auto simp: table_ok_def inj_on_def)
  show "hs_map fst m' = (hs_map fst m)(k \<mapsto> (k, v))"
  proof
    fix k'
    have 1: "hs_map fst m' k' = Some w \<longleftrightarrow> (\<exists>j\<in>slots_in USED ?bs. bk_element (bs ! j) = Some w \<and> fst w = k')" for w
      using hs_map_iff [of "entry_hash hash" fst m' k' w] table slots unfolding bs_def by simp
    have 2: "hs_map fst m k' = Some w \<longleftrightarrow> (\<exists>j\<in>slots_in USED ?bs. bk_element (?bs ! j) = Some w \<and> fst w = k')" for w
      by (rule hs_map_iff [OF t(1)])
    have el: "bk_element (bs ! j) = (if j = i then Some (k, v) else bk_element (?bs ! j))" if "j \<in> slots_in USED ?bs" for j
      using nth(4) that by (simp add: slots_in_def)
    have kj: "key_at fst ?bs j = fst w" if "bk_element (?bs ! j) = Some w" for j w using that by (simp add: key_at_def)
    have "hs_map fst m' k' = Some w \<longleftrightarrow> ((hs_map fst m)(k \<mapsto> (k, v))) k' = Some w" for w
    proof (cases "k' = k")
      case True
      have "(\<exists>j\<in>slots_in USED ?bs. bk_element (bs ! j) = Some w \<and> fst w = k) \<longleftrightarrow> w = (k, v)"
        using el i inj kj by (metis fst_conv option.inject)
      then show ?thesis using 1 True by auto
    next
      case False
      have "(\<exists>j\<in>slots_in USED ?bs. bk_element (bs ! j) = Some w \<and> fst w = k') \<longleftrightarrow>
          (\<exists>j\<in>slots_in USED ?bs. bk_element (?bs ! j) = Some w \<and> fst w = k')"
        using el e False by (metis fst_conv option.inject)
      then show ?thesis using 1 2 False by simp
    qed
    then show "hs_map fst m' k' = ((hs_map fst m)(k \<mapsto> (k, v))) k'" by (metis not_None_eq)
  qed
qed

lemma emplace_or_assign_spec:
  assumes ok: "hm_ok hash m" and alloc: "\<forall>n. alloc n \<longrightarrow> n \<le> 2 ^ 32 + 1"
  shows "emplace_or_assign alloc hash k v m = Done (Inl ENOMEM) \<or>
    (\<exists>m' it. emplace_or_assign alloc hash k v m = Done (Inr (m', it)) \<and> hm_ok hash m' \<and> hs_map fst m' = (hs_map fst m)(k \<mapsto> (k, v)))"
proof -
  obtain it where it: "hm_find hash k m = Done it" "it \<noteq> None \<longleftrightarrow> hm_map m k \<noteq> None"
      "\<And>i. it = Some i \<Longrightarrow> i \<in> slots_in USED (hs_buckets m) \<and> hs_map fst m k = bk_element (hs_buckets m ! i)"
    by (rule hm_find_spec [OF ok, of k]) blast
  show ?thesis
  proof (cases it)
    case None
    then show ?thesis using it(1) hs_insert_spec [OF ok alloc, of "(k, v)"] by (auto simp: emplace_or_assign_def hm_find_def)
  next
    case (Some i)
    obtain e where e: "hs_map fst m k = Some e" using it(2) Some by (auto simp: hm_map_def)
    have i: "i \<in> slots_in USED (hs_buckets m)" "bk_element (hs_buckets m ! i) = Some e" using it(3) [OF Some] e by auto
    have ne: "hs_buckets m \<noteq> []" using i(1) by (auto simp: slots_in_def)
    have "fst e = k" using hs_map_iff [OF hs_ok_table(1) [OF ok ne], of k e] e by blast
    then have e': "bk_element (hs_buckets m ! i) = Some (k, snd e)" using i(2) by (metis prod.collapse)
    show ?thesis using assign_entry [OF ok i(1) e' refl, of v] it(1) e' Some by (simp add: emplace_or_assign_def hm_find_def Let_def)
  qed
qed

lemma emplace_or_assign_fails:
  assumes "emplace_or_assign alloc hash k v m = Done (Inl e)"
  shows "\<not> alloc (rehash_capacity (hs_size m * 2) (hs_size m) + 1)"
  using assms hs_insert_fails [of alloc "entry_hash hash" fst "(k, v)" m e]
  by (auto simp: emplace_or_assign_def rbind_eq_Done_iff Let_def split: option.splits)

interpretation hm_table: keyed_table "no_table_memory alloc" "hm_ok hash" "hs_map fst" fst "\<lambda>e. emplace_or_assign (bounded_alloc alloc) hash (fst e) (snd e)"
    "hm_remove hash" "hm_contains hash" for alloc hash
proof
  show "emplace_or_assign (bounded_alloc alloc) hash (fst e) (snd e) m = Done (Inl ENOMEM) \<and> no_table_memory alloc (card (dom (hs_map fst m))) \<or>
      (\<exists>m' it. emplace_or_assign (bounded_alloc alloc) hash (fst e) (snd e) m = Done (Inr (m', it)) \<and> hm_ok hash m' \<and>
         hs_map fst m' = (hs_map fst m)(fst e \<mapsto> e))" if "hm_ok hash m" for m e
    using emplace_or_assign_spec [OF that, of "bounded_alloc alloc" "fst e" "snd e"] hs_size_map [OF that]
      emplace_or_assign_fails [of "bounded_alloc alloc" hash "fst e" "snd e" m ENOMEM]
    by (auto simp: bounded_alloc_def no_table_memory_def)
qed (simp_all add: hm_remove_eq hm_contains_eq hs_remove_spec hs_contains_spec)

section \<open>Properties\<close>

text \<open>
  C20: whatever sequence of \<open>insert_or_assign\<close>, \<open>remove\<close> and \<open>contains\<close> is made on an empty hash map, the
  calls return, an assignment fails only when the allocator refuses the table to which the map would grow, every \<open>contains\<close> answers as the finite map of the
  calls so far, and at the end the subscript returns the value last assigned to each key that is in the
  map, and halts at its assertion for every other key.
\<close>

theorem hash_map_refines_finite_map:
  "\<exists>m bs. table_run (\<lambda>e. emplace_or_assign (bounded_alloc alloc) hash (fst e) (snd e)) (hm_remove hash) (hm_contains hash) ops hs_empty = Done (m, bs) \<and>
     (\<exists>mp. table_spec (no_table_memory alloc) fst ops bs Map.empty = Some mp \<and>
        (\<forall>k. hm_subscript hash k m = (case mp k of None \<Rightarrow> Halt | Some e \<Rightarrow> Done (snd e))))"
proof -
  obtain m bs where m: "table_run (\<lambda>e. emplace_or_assign (bounded_alloc alloc) hash (fst e) (snd e)) (hm_remove hash) (hm_contains hash) ops hs_empty = Done (m, bs)"
      "hm_ok hash m" "table_spec (no_table_memory alloc) fst ops bs Map.empty = Some (hs_map fst m)"
    using hm_table.run_refines [OF hs_empty_ok, of alloc hash ops] by auto
  have "hm_subscript hash k m = (case hs_map fst m k of None \<Rightarrow> Halt | Some e \<Rightarrow> Done (snd e))" for k
  proof (rule hm_find_spec [OF m(2), of k])
    fix it
    assume it: "hm_find hash k m = Done it" "it \<noteq> None \<longleftrightarrow> hm_map m k \<noteq> None"
      "\<And>i. it = Some i \<Longrightarrow> i \<in> slots_in USED (hs_buckets m) \<and> hs_map fst m k = bk_element (hs_buckets m ! i)"
    show ?thesis
    proof (cases "hs_map fst m k")
      case None
      then show ?thesis using it(1,2) by (simp add: hm_subscript_def hs_deref_def hm_map_def)
    next
      case (Some e)
      then obtain i where "it = Some i" "bk_element (hs_buckets m ! i) = Some e" using it(2,3) by (auto simp: hm_map_def)
      then show ?thesis using it(1) Some by (simp add: hm_subscript_def hs_deref_def)
    qed
  qed
  then show ?thesis using m(1,3) by blast
qed

end
