(* ===== verification/SchedulerThreadNode.thy ===== *)
theory SchedulerThreadNode
  imports BAN_Sort
begin

text \<open>
  \<^verbatim>\<open>kernel/kernel/SchedulerThreadNode.cpp\<close>: the run queue of a processor, a doubly linked list, and its
  list of blocked threads, a binary heap of nodes linked by pointers and ordered by wake time. A node
  is an address; the store has one function per field. The links of the queue and of the heap
  are the members of a union: \<^verbatim>\<open>queue.next\<close> shares its storage with \<^verbatim>\<open>heap.parent\<close>, and \<^verbatim>\<open>queue.prev\<close> with
  \<^verbatim>\<open>heap.lchild\<close>. \<open>None\<close> is the null pointer. An operation gives \<open>None\<close> when it fails an assertion,
  follows a null pointer or never returns.
\<close>

section \<open>Model: nodes\<close>

type_synonym node_ptr = "nat option"

record node_store =
  n_link0 :: "nat \<Rightarrow> node_ptr"
  n_link1 :: "nat \<Rightarrow> node_ptr"
  n_link2 :: "nat \<Rightarrow> node_ptr"
  n_wake_time_ns :: "nat \<Rightarrow> 64 word"
  n_blocker :: "nat \<Rightarrow> nat option"
  n_block_chain_prev :: "nat \<Rightarrow> node_ptr"
  n_block_chain_next :: "nat \<Rightarrow> node_ptr"
  n_processor_id :: "nat \<Rightarrow> nat option"
  n_blocked :: "nat \<Rightarrow> bool"
  n_last_start_ns :: "nat \<Rightarrow> 64 word"
  n_time_used_ns :: "nat \<Rightarrow> 64 word"

definition set_next :: "nat \<Rightarrow> node_ptr \<Rightarrow> node_store \<Rightarrow> node_store" where
  "set_next x p st = st\<lparr>n_link0 := (n_link0 st)(x := p)\<rparr>"

definition set_prev :: "nat \<Rightarrow> node_ptr \<Rightarrow> node_store \<Rightarrow> node_store" where
  "set_prev x p st = st\<lparr>n_link1 := (n_link1 st)(x := p)\<rparr>"

definition set_rchild :: "nat \<Rightarrow> node_ptr \<Rightarrow> node_store \<Rightarrow> node_store" where
  "set_rchild x p st = st\<lparr>n_link2 := (n_link2 st)(x := p)\<rparr>"

abbreviation set_parent :: "nat \<Rightarrow> node_ptr \<Rightarrow> node_store \<Rightarrow> node_store" where
  "set_parent \<equiv> set_next"

abbreviation set_lchild :: "nat \<Rightarrow> node_ptr \<Rightarrow> node_store \<Rightarrow> node_store" where
  "set_lchild \<equiv> set_prev"

lemma set_link_simps [simp]:
  "n_link0 (set_next x p st) = (n_link0 st)(x := p)"
  "n_link1 (set_next x p st) = n_link1 st"
  "n_link2 (set_next x p st) = n_link2 st"
  "n_link0 (set_prev x p st) = n_link0 st"
  "n_link1 (set_prev x p st) = (n_link1 st)(x := p)"
  "n_link2 (set_prev x p st) = n_link2 st"
  "n_link0 (set_rchild x p st) = n_link0 st"
  "n_link1 (set_rchild x p st) = n_link1 st"
  "n_link2 (set_rchild x p st) = (n_link2 st)(x := p)"
  by (simp_all add: set_next_def set_prev_def set_rchild_def)

section \<open>Model: the queue\<close>

record sched_queue =
  q_head :: node_ptr
  q_tail :: node_ptr

definition queue_init :: sched_queue where
  "queue_init = \<lparr>q_head = None, q_tail = None\<rparr>"

definition queue_empty :: "sched_queue \<Rightarrow> bool" where
  "queue_empty q = (q_head q = None)"

definition queue_front :: "sched_queue \<Rightarrow> node_ptr" where
  "queue_front q = q_head q"

definition queue_pop_front :: "sched_queue \<Rightarrow> node_store \<Rightarrow> node_ptr \<times> sched_queue \<times> node_store" where
  "queue_pop_front q st =
     (case q_head q of
        None \<Rightarrow> (None, q, st)
      | Some result \<Rightarrow>
          (let head = n_link0 st result;
               (q, st) = (case head of
                   None \<Rightarrow> (\<lparr>q_head = None, q_tail = None\<rparr>, st)
                 | Some h \<Rightarrow> (q\<lparr>q_head := Some h\<rparr>, set_prev h None st))
           in (Some result, q, set_next result None (set_prev result None st))))"

definition queue_push :: "nat \<Rightarrow> sched_queue \<Rightarrow> node_store \<Rightarrow> (sched_queue \<times> node_store) option" where
  "queue_push node q st =
     (if n_link1 st node \<noteq> None \<or> n_link0 st node \<noteq> None then None
      else let st = set_next node None (set_prev node (q_tail q) st)
           in Some (case q_tail q of
                None \<Rightarrow> (\<lparr>q_head = Some node, q_tail = Some node\<rparr>, st)
              | Some t \<Rightarrow> (q\<lparr>q_tail := Some node\<rparr>, set_next t (Some node) st)))"

definition queue_pop :: "nat \<Rightarrow> sched_queue \<Rightarrow> node_store \<Rightarrow> sched_queue \<times> node_store" where
  "queue_pop node q st =
     (let (q, st) = (case n_link1 st node of
            None \<Rightarrow> (q\<lparr>q_head := n_link0 st node\<rparr>, st)
          | Some p \<Rightarrow> (q, set_next p (n_link0 st node) st));
          (q, st) = (case n_link0 st node of
            None \<Rightarrow> (q\<lparr>q_tail := n_link1 st node\<rparr>, st)
          | Some n \<Rightarrow> (q, set_prev n (n_link1 st node) st))
      in (q, set_next node None (set_prev node None st)))"

section \<open>Model: the heap\<close>

record sched_heap =
  h_root :: node_ptr
  h_last :: node_ptr

definition heap_init :: sched_heap where
  "heap_init = \<lparr>h_root = None, h_last = None\<rparr>"

definition heap_empty :: "sched_heap \<Rightarrow> bool" where
  "heap_empty h = (h_root h = None)"

definition heap_front :: "sched_heap \<Rightarrow> node_ptr" where
  "heap_front h = h_root h"

text \<open>Replacing the child of a node: the left link if it points to the node \<open>old\<close>, otherwise the right one.\<close>

definition replace_child :: "nat \<Rightarrow> nat \<Rightarrow> node_ptr \<Rightarrow> node_store \<Rightarrow> node_store" where
  "replace_child p old new st = (if n_link1 st p = Some old then set_lchild p new st else set_rchild p new st)"

definition set_parent_of :: "node_ptr \<Rightarrow> nat \<Rightarrow> node_store \<Rightarrow> node_store" where
  "set_parent_of c p st = (case c of None \<Rightarrow> st | Some x \<Rightarrow> set_parent x (Some p) st)"

definition swap_links :: "nat \<Rightarrow> nat \<Rightarrow> node_store \<Rightarrow> node_store" where
  "swap_links node1 node2 st =
     (let p1 = n_link0 st node1; l1 = n_link1 st node1; r1 = n_link2 st node1;
          p2 = n_link0 st node2; l2 = n_link1 st node2; r2 = n_link2 st node2
      in if n_link0 st node2 = Some node1 then
           (let st = set_rchild node1 r2 (set_lchild node1 l2 (set_parent node1 (Some node2) st));
                st = set_parent node2 p1 st;
                st = (if l1 = Some node2
                      then set_parent_of r1 node2 (set_rchild node2 r1 (set_lchild node2 (Some node1) st))
                      else set_parent_of l1 node2 (set_rchild node2 (Some node1) (set_lchild node2 l1 st)));
                st = (case p1 of None \<Rightarrow> st | Some p \<Rightarrow> replace_child p node1 (Some node2) st)
            in set_parent_of r2 node1 (set_parent_of l2 node1 st))
         else
           (let st = set_rchild node1 r2 (set_lchild node1 l2 (set_parent node1 p2 st));
                st = set_rchild node2 r1 (set_lchild node2 l1 (set_parent node2 p1 st));
                st = set_parent_of r1 node2 (set_parent_of l1 node2 st);
                st = set_parent_of r2 node1 (set_parent_of l2 node1 st)
            in if p1 = None \<and> p2 = None then st
               else if p1 = p2 then
                 (let p = the p1; l = n_link1 st p; r = n_link2 st p in set_rchild p l (set_lchild p r st))
               else
                 (let st = (case p1 of None \<Rightarrow> st | Some p \<Rightarrow> replace_child p node1 (Some node2) st)
                  in case p2 of None \<Rightarrow> st | Some p \<Rightarrow> replace_child p node2 (Some node1) st)))"

definition swap_ends :: "nat \<Rightarrow> nat \<Rightarrow> sched_heap \<Rightarrow> sched_heap" where
  "swap_ends node1 node2 h =
     (let root = h_root h; lst = h_last h;
          h = (if Some node1 = root then h\<lparr>h_root := Some node2\<rparr>
               else if Some node1 = lst then h\<lparr>h_last := Some node2\<rparr> else h)
      in if Some node2 = root then h\<lparr>h_root := Some node1\<rparr>
         else if Some node2 = lst then h\<lparr>h_last := Some node1\<rparr> else h)"

definition swap_nodes :: "nat \<Rightarrow> nat \<Rightarrow> sched_heap \<times> node_store \<Rightarrow> sched_heap \<times> node_store" where
  "swap_nodes node1 node2 = (\<lambda>(h, st).
     if node1 = node2 then (h, st)
     else let (node1, node2) = (if n_link0 st node1 = Some node2 then (node2, node1) else (node1, node2))
          in (swap_ends node1 node2 h, swap_links node1 node2 st))"

text \<open>The loops that follow the links. The result is the last node and its parent \<open>temp\<close> where the loop stops.\<close>

partial_function (option) climb_right :: "node_store \<Rightarrow> nat \<Rightarrow> (nat \<times> node_ptr) option" where
  "climb_right st x =
     (case n_link0 st x of
        None \<Rightarrow> Some (x, None)
      | Some temp \<Rightarrow> if n_link2 st temp = Some x then climb_right st temp else Some (x, Some temp))"

partial_function (option) climb_left :: "node_store \<Rightarrow> nat \<Rightarrow> (nat \<times> node_ptr) option" where
  "climb_left st x =
     (case n_link0 st x of
        None \<Rightarrow> Some (x, None)
      | Some temp \<Rightarrow> if n_link1 st temp = Some x then climb_left st temp else Some (x, Some temp))"

partial_function (option) descend_left :: "node_store \<Rightarrow> nat \<Rightarrow> nat option" where
  "descend_left st x = (case n_link1 st x of None \<Rightarrow> Some x | Some temp \<Rightarrow> descend_left st temp)"

partial_function (option) descend_right :: "node_store \<Rightarrow> nat \<Rightarrow> nat option" where
  "descend_right st x = (case n_link2 st x of None \<Rightarrow> Some x | Some temp \<Rightarrow> descend_right st temp)"

partial_function (option) sift_up :: "nat \<Rightarrow> sched_heap \<times> node_store \<Rightarrow> (sched_heap \<times> node_store) option" where
  "sift_up node hs =
     (case n_link0 (snd hs) node of
        None \<Rightarrow> Some hs
      | Some parent \<Rightarrow>
          if n_wake_time_ns (snd hs) node < n_wake_time_ns (snd hs) parent
          then sift_up node (swap_nodes node parent hs) else Some hs)"

definition link_ok :: "node_store \<Rightarrow> nat \<Rightarrow> node_ptr \<Rightarrow> bool" where
  "link_ok st node c = (case c of None \<Rightarrow> True | Some x \<Rightarrow> n_wake_time_ns st node \<le> n_wake_time_ns st x)"

definition sift_child :: "node_store \<Rightarrow> nat \<Rightarrow> nat" where
  "sift_child st node =
     (let l = the (n_link1 st node); r = the (n_link2 st node);
          l_ok = link_ok st node (n_link1 st node); r_ok = link_ok st node (n_link2 st node)
      in if \<not> l_ok \<and> \<not> r_ok then (if n_wake_time_ns st l < n_wake_time_ns st r then l else r)
         else if r_ok then l else r)"

partial_function (option) sift_down :: "nat \<Rightarrow> sched_heap \<times> node_store \<Rightarrow> (sched_heap \<times> node_store) option" where
  "sift_down node hs =
     (if link_ok (snd hs) node (n_link1 (snd hs) node) \<and> link_ok (snd hs) node (n_link2 (snd hs) node)
      then Some hs
      else sift_down node (swap_nodes node (sift_child (snd hs) node) hs))"

declare climb_right.simps [code] climb_left.simps [code] descend_left.simps [code] descend_right.simps [code]
  sift_up.simps [code] sift_down.simps [code]

definition push_parent :: "node_store \<Rightarrow> nat \<Rightarrow> nat option" where
  "push_parent st lst =
     Option.bind (climb_right st lst) (\<lambda>(parent, temp).
       case temp of
         None \<Rightarrow> descend_left st parent
       | Some t \<Rightarrow> (case n_link2 st t of None \<Rightarrow> Some t | Some s \<Rightarrow> descend_left st s))"

definition heap_push :: "nat \<Rightarrow> sched_heap \<times> node_store \<Rightarrow> (sched_heap \<times> node_store) option" where
  "heap_push node = (\<lambda>(h, st).
     if n_link0 st node \<noteq> None \<or> n_link1 st node \<noteq> None \<or> n_link2 st node \<noteq> None then None
     else if h_root h = None then
       Some (\<lparr>h_root = Some node, h_last = Some node\<rparr>, set_rchild node None (set_lchild node None (set_parent node None st)))
     else
       Option.bind (h_last h) (\<lambda>lst.
       Option.bind (push_parent st lst) (\<lambda>parent.
         let st = (if n_link1 st parent \<noteq> None then set_rchild parent (Some node) st else set_lchild parent (Some node) st);
             st = set_rchild node None (set_lchild node None (set_parent node (Some parent) st))
         in sift_up node (h\<lparr>h_last := Some node\<rparr>, st))))"

definition previous_last :: "node_store \<Rightarrow> nat \<Rightarrow> nat option" where
  "previous_last st lst =
     Option.bind (climb_left st lst) (\<lambda>(x, temp).
     Option.bind (case temp of None \<Rightarrow> Some x | Some t \<Rightarrow> n_link1 st t) (\<lambda>x. descend_right st x))"

definition unlink_leaf :: "nat \<Rightarrow> node_store \<Rightarrow> node_store" where
  "unlink_leaf node st =
     (let st = (case n_link0 st node of
            None \<Rightarrow> st
          | Some p \<Rightarrow> if n_link2 st p = Some node then set_rchild p None st else set_lchild p None st)
      in set_rchild node None (set_lchild node None (set_parent node None st)))"

definition fix_heap :: "nat \<Rightarrow> nat \<Rightarrow> sched_heap \<times> node_store \<Rightarrow> (sched_heap \<times> node_store) option" where
  "fix_heap fix_node old_node hs =
     (let wf = n_wake_time_ns (snd hs) fix_node; wo = n_wake_time_ns (snd hs) old_node
      in if wf = wo then Some hs
         else if wf < wo then sift_up fix_node hs
         else sift_down fix_node hs)"

definition heap_pop :: "nat \<Rightarrow> sched_heap \<times> node_store \<Rightarrow> (sched_heap \<times> node_store) option" where
  "heap_pop old_node = (\<lambda>(h, st).
     if h_root h = h_last h then
       Some (heap_init, set_rchild old_node None (set_lchild old_node None (set_parent old_node None st)))
     else
       Option.bind (h_last h) (\<lambda>fix_node.
         let (h, st) = swap_nodes old_node fix_node (h, st)
         in Option.bind (h_last h) (\<lambda>lst.
            Option.bind (previous_last st lst) (\<lambda>lst.
              fix_heap fix_node old_node (h\<lparr>h_last := Some lst\<rparr>, unlink_leaf old_node st)))))"

definition heap_pop_front :: "sched_heap \<times> node_store \<Rightarrow> (node_ptr \<times> sched_heap \<times> node_store) option" where
  "heap_pop_front hs =
     (case h_root (fst hs) of
        None \<Rightarrow> Some (None, hs)
      | Some result \<Rightarrow> Option.bind (heap_pop result hs) (\<lambda>hs. Some (Some result, hs)))"

text \<open>The nodes in the order in which the walks of the two lists visit them, at most \<open>fuel\<close> links deep.\<close>

fun queue_walk :: "nat \<Rightarrow> node_store \<Rightarrow> node_ptr \<Rightarrow> nat list" where
  "queue_walk (Suc fuel) st (Some x) = x # queue_walk fuel st (n_link0 st x)"
| "queue_walk fuel st p = []"

fun heap_walk_impl :: "nat \<Rightarrow> node_store \<Rightarrow> node_ptr \<Rightarrow> nat list" where
  "heap_walk_impl (Suc fuel) st (Some x) =
     x # heap_walk_impl fuel st (n_link1 st x) @ heap_walk_impl fuel st (n_link2 st x)"
| "heap_walk_impl fuel st p = []"

section \<open>Frames\<close>

text \<open>\<open>ptr xs i\<close> is the pointer to the element with index \<open>i\<close>, or null past the end.\<close>

definition ptr :: "nat list \<Rightarrow> nat \<Rightarrow> node_ptr" where
  "ptr xs i = (if i < length xs then Some (xs ! i) else None)"

text \<open>An operation changes links only, and only those of the nodes in \<open>A\<close>.\<close>

definition frame :: "nat set \<Rightarrow> node_store \<Rightarrow> node_store \<Rightarrow> bool" where
  "frame A st st' \<longleftrightarrow> st' = st\<lparr>n_link0 := n_link0 st', n_link1 := n_link1 st', n_link2 := n_link2 st'\<rparr> \<and>
     (\<forall>x. x \<notin> A \<longrightarrow> n_link0 st' x = n_link0 st x \<and> n_link1 st' x = n_link1 st x \<and> n_link2 st' x = n_link2 st x)"

lemma frame_refl [simp]: "frame A st st"
  by (simp add: frame_def)

lemma frame_trans: "frame A st st' \<Longrightarrow> frame A st' st'' \<Longrightarrow> frame A st st''"
  unfolding frame_def by (cases st; cases st'; cases st'') auto

lemma frame_mono: "frame A st st' \<Longrightarrow> A \<subseteq> B \<Longrightarrow> frame B st st'"
  unfolding frame_def by auto

lemma frame_set [simp, intro!]:
  "x \<in> A \<Longrightarrow> frame A st st' \<Longrightarrow> frame A st (set_next x p st')"
  "x \<in> A \<Longrightarrow> frame A st st' \<Longrightarrow> frame A st (set_prev x p st')"
  "x \<in> A \<Longrightarrow> frame A st st' \<Longrightarrow> frame A st (set_rchild x p st')"
  unfolding frame_def by (cases st; cases st'; auto simp: set_next_def set_prev_def set_rchild_def)+

lemma frame_fields:
  assumes "frame A st st'"
  shows "n_wake_time_ns st' = n_wake_time_ns st" "n_blocker st' = n_blocker st"
    "n_block_chain_prev st' = n_block_chain_prev st" "n_block_chain_next st' = n_block_chain_next st"
    "n_processor_id st' = n_processor_id st" "n_blocked st' = n_blocked st"
    "n_last_start_ns st' = n_last_start_ns st" "n_time_used_ns st' = n_time_used_ns st"
  using assms unfolding frame_def by (cases st; cases st'; auto)+

lemma frame_links:
  assumes "frame A st st'" "x \<notin> A"
  shows "n_link0 st' x = n_link0 st x" "n_link1 st' x = n_link1 st x" "n_link2 st' x = n_link2 st x"
  using assms unfolding frame_def by auto

section \<open>The queue is a list\<close>

definition queue_ok :: "node_store \<Rightarrow> sched_queue \<Rightarrow> nat list \<Rightarrow> bool" where
  "queue_ok st q xs \<longleftrightarrow> distinct xs \<and> q_head q = ptr xs 0 \<and> q_tail q = (if xs = [] then None else Some (last xs)) \<and>
     (\<forall>i < length xs. n_link0 st (xs ! i) = ptr xs (Suc i) \<and> n_link1 st (xs ! i) = (if i = 0 then None else Some (xs ! (i - 1))))"

lemma nth_eq_last: "distinct xs \<Longrightarrow> i < length xs \<Longrightarrow> xs ! i = last xs \<longleftrightarrow> Suc i = length xs"
  by (cases xs rule: rev_cases) (auto simp: nth_append)

lemma nth_eq_hd: "distinct xs \<Longrightarrow> i < length xs \<Longrightarrow> xs ! i = hd xs \<longleftrightarrow> i = 0"
  by (cases xs) (auto simp: nth_Cons split: nat.splits)

lemma queue_push_spec:
  assumes ok: "queue_ok st q xs" and x: "x \<notin> set xs" "n_link0 st x = None" "n_link1 st x = None"
  shows "\<exists>q' st'. queue_push x q st = Some (q', st') \<and> queue_ok st' q' (xs @ [x]) \<and> frame (insert x (set xs)) st st' \<and>
    n_link2 st' = n_link2 st"
proof (cases "xs = []")
  case True
  then have "q_tail q = None" using ok by (simp add: queue_ok_def)
  then show ?thesis using x True by (auto simp: queue_push_def queue_ok_def ptr_def)
next
  case False
  then have t: "q_tail q = Some (last xs)" and lst: "last xs = xs ! (length xs - 1)" "last xs \<noteq> x" "0 < length xs"
    using ok x(1) by (auto simp: queue_ok_def last_conv_nth)
  define st1 where "st1 = set_next (last xs) (Some x) (set_next x None (set_prev x (Some (last xs)) st))"
  have push: "queue_push x q st = Some (q\<lparr>q_tail := Some x\<rparr>, st1)" using x(2,3) t by (simp add: queue_push_def st1_def)
  have fr: "frame (insert x (set xs)) st st1" using False by (auto simp: st1_def)
  have d: "distinct xs" using ok by (simp add: queue_ok_def)
  note eq_last = nth_eq_last [OF d]
  have "n_link0 st1 ((xs @ [x]) ! i) = ptr (xs @ [x]) (Suc i) \<and>
      n_link1 st1 ((xs @ [x]) ! i) = (if i = 0 then None else Some ((xs @ [x]) ! (i - 1)))" if i: "i < length (xs @ [x])" for i
  proof (cases "i = length xs")
    case True
    then show ?thesis using False lst by (simp add: st1_def ptr_def nth_append)
  next
    case False
    then have il: "i < length xs" using i by simp
    then have "xs ! i \<noteq> x" "xs ! i \<in> set xs" using x(1) by auto
    moreover have "n_link0 st (xs ! i) = ptr xs (Suc i)" "n_link1 st (xs ! i) = (if i = 0 then None else Some (xs ! (i - 1)))"
      using ok il by (auto simp: queue_ok_def)
    moreover have "i - Suc 0 < length xs" "Suc i = length xs \<or> Suc i < length xs" using il by auto
    ultimately show ?thesis using il eq_last [OF il] by (cases "i = 0") (auto simp: st1_def ptr_def nth_append)
  qed
  then have "queue_ok st1 (q\<lparr>q_tail := Some x\<rparr>) (xs @ [x])"
    using ok x(1) False by (auto simp: queue_ok_def ptr_def nth_append)
  then show ?thesis using push fr by (auto simp: st1_def)
qed

lemma queue_pop_spec:
  assumes ok: "queue_ok st q (xs @ x # ys)"
  shows "\<exists>q' st'. queue_pop x q st = (q', st') \<and> queue_ok st' q' (xs @ ys) \<and> frame (set (xs @ x # ys)) st st' \<and>
    n_link0 st' x = None \<and> n_link1 st' x = None \<and> n_link2 st' = n_link2 st"
proof -
  let ?zs = "xs @ x # ys" and ?n = "length xs"
  have d: "distinct ?zs" and head: "q_head q = ptr ?zs 0" and tail: "q_tail q = Some (last ?zs)"
    and link: "\<And>i. i < length ?zs \<Longrightarrow> n_link0 st (?zs ! i) = ptr ?zs (Suc i)"
      "\<And>i. i < length ?zs \<Longrightarrow> n_link1 st (?zs ! i) = (if i = 0 then None else Some (?zs ! (i - 1)))"
    using ok by (auto simp: queue_ok_def)
  have p: "n_link1 st x = (if xs = [] then None else Some (last xs))"
    using link(2) [of ?n] by (cases xs rule: rev_cases) (auto simp: nth_append)
  have n: "n_link0 st x = ptr ys 0" using link(1) [of ?n] by (auto simp: ptr_def nth_append)
  define st1 where "st1 = (if xs = [] then st else set_next (last xs) (ptr ys 0) st)"
  define st2 where "st2 = (if ys = [] then st1 else set_prev (hd ys) (if xs = [] then None else Some (last xs)) st1)"
  define st3 where "st3 = set_next x None (set_prev x None st2)"
  define q1 where "q1 = (if xs = [] then q\<lparr>q_head := ptr ys 0\<rparr> else q)"
  define q2 where "q2 = (if ys = [] then q1\<lparr>q_tail := if xs = [] then None else Some (last xs)\<rparr> else q1)"
  have x1: "n_link0 st1 x = ptr ys 0" "n_link1 st1 x = (if xs = [] then None else Some (last xs))"
    using n p d by (auto simp: st1_def)
  have pop: "queue_pop x q st = (q2, st3)"
    using n p x1 by (cases "xs = []"; cases ys) (simp_all add: queue_pop_def st3_def st2_def st1_def q2_def q1_def ptr_def Let_def)
  have fr: "frame (set ?zs) st st3" by (auto simp: st3_def st2_def st1_def)
  have l0: "n_link0 st3 y = (if xs \<noteq> [] \<and> y = last xs then ptr ys 0 else n_link0 st y)"
    and l1: "n_link1 st3 y = (if ys \<noteq> [] \<and> y = hd ys then (if xs = [] then None else Some (last xs)) else n_link1 st y)"
    if "y \<noteq> x" for y using that by (auto simp: st3_def st2_def st1_def)
  have "n_link0 st3 ((xs @ ys) ! i) = ptr (xs @ ys) (Suc i) \<and>
      n_link1 st3 ((xs @ ys) ! i) = (if i = 0 then None else Some ((xs @ ys) ! (i - 1)))" if i: "i < length (xs @ ys)" for i
  proof (cases "i < ?n")
    case True
    then have y: "xs ! i \<in> set xs" "(xs @ ys) ! i = xs ! i" "?zs ! i = xs ! i" "xs \<noteq> []" by (auto simp: nth_append)
    then have ne: "xs ! i \<noteq> x" "ys \<noteq> [] \<Longrightarrow> xs ! i \<noteq> hd ys" using d by auto
    have "n_link0 st3 (xs ! i) = (if Suc i = ?n then ptr ys 0 else ptr ?zs (Suc i))"
      using l0 [OF ne(1)] y(3,4) link(1) [of i] nth_eq_last [of xs i] True d by simp
    moreover have "n_link1 st3 (xs ! i) = (if i = 0 then None else Some (?zs ! (i - 1)))"
      using l1 [OF ne(1)] ne(2) y(3) link(2) [of i] True by (cases "ys = []") simp_all
    moreover have "ptr ?zs (Suc i) = ptr (xs @ ys) (Suc i)" if "Suc i \<noteq> ?n" using that True by (simp add: ptr_def nth_append)
    moreover have "ptr ys 0 = ptr (xs @ ys) ?n" by (simp add: ptr_def nth_append)
    moreover have "?zs ! (i - 1) = (xs @ ys) ! (i - 1)" using less_imp_diff_less [OF True, of 1] by (simp only: nth_append if_True)
    ultimately show ?thesis unfolding y(2) by (metis One_nat_def)
  next
    case False
    define j where "j = i - ?n"
    have j: "i = ?n + j" "j < length ys" "ys \<noteq> []" using False i by (auto simp: j_def)
    have y: "ys ! j \<in> set ys" "(xs @ ys) ! i = ys ! j" "?zs ! Suc i = ys ! j" using j by (auto simp: nth_append)
    have "last xs \<notin> set ys" if "xs \<noteq> []" using d that by (metis disjoint_iff distinct_append last_in_set list.set_intros(2))
    then have ne: "ys ! j \<noteq> x" "xs \<noteq> [] \<Longrightarrow> ys ! j \<noteq> last xs" using y(1) d by auto
    have "n_link0 st3 (ys ! j) = ptr ?zs (Suc (Suc i))"
      using l0 [OF ne(1)] ne(2) y(3) link(1) [of "Suc i"] j by auto
    moreover have "n_link1 st3 (ys ! j) = (if j = 0 then if xs = [] then None else Some (last xs) else Some (?zs ! i))"
      using l1 [OF ne(1)] j y(3) link(2) [of "Suc i"] nth_eq_hd [of ys j] d by simp
    moreover have "ptr ?zs (Suc (Suc i)) = ptr (xs @ ys) (Suc i)" using j by (simp add: ptr_def nth_append)
    moreover have "?zs ! i = (xs @ ys) ! (i - 1)" if "0 < j" using that j by (cases j) (auto simp: nth_append)
    moreover have "last xs = (xs @ ys) ! (?n - 1)" if "xs \<noteq> []" using that by (simp add: last_conv_nth nth_append)
    ultimately show ?thesis using j(1) unfolding y(2) by auto
  qed
  then have "queue_ok st3 q2 (xs @ ys)"
    using d head tail unfolding queue_ok_def by (auto simp: q2_def q1_def ptr_def nth_append)
  then show ?thesis using pop fr by (auto simp: st3_def st2_def st1_def)
qed

lemma queue_pop_front_spec:
  "queue_ok st q [] \<Longrightarrow> queue_pop_front q st = (None, q, st)"
  "queue_ok st q (x # xs) \<Longrightarrow> queue_pop_front q st = (Some x, queue_pop x q st)"
proof -
  show "queue_pop_front q st = (None, q, st)" if "queue_ok st q []"
    using that by (simp add: queue_ok_def queue_pop_front_def ptr_def)
  assume ok: "queue_ok st q (x # xs)"
  have "n_link1 st x = None" "n_link0 st x = ptr xs 0" "q_head q = Some x" "q_tail q = Some (last (x # xs))"
    using ok by (auto simp: queue_ok_def ptr_def)
  then show "queue_pop_front q st = (Some x, queue_pop x q st)"
    by (cases xs) (auto simp: queue_pop_front_def queue_pop_def ptr_def)
qed

lemma queue_walk_take:
  assumes ok: "queue_ok st q xs"
  shows "queue_walk n st (q_head q) = take n xs"
proof -
  have "queue_walk n st (ptr xs i) = take n (drop i xs)" for i
  proof (induction n arbitrary: i)
    case (Suc n)
    show ?case
    proof (cases "i < length xs")
      case True
      then have "drop i xs = xs ! i # drop (Suc i) xs" by (simp add: Cons_nth_drop_Suc)
      then show ?thesis using ok Suc.IH [of "Suc i"] True by (simp add: ptr_def queue_ok_def)
    qed (simp add: ptr_def)
  qed (simp add: ptr_def)
  from this [of 0] show ?thesis using ok by (simp add: queue_ok_def)
qed

section \<open>Swapping two nodes of a linked tree\<close>

text \<open>
  Links that agree with each other, on a set of nodes: what a node calls its child calls it its parent.
\<close>

definition links_agree :: "nat set \<Rightarrow> node_store \<Rightarrow> bool" where
  "links_agree V st \<longleftrightarrow> (\<forall>x\<in>V.
     (\<forall>y. n_link1 st x = Some y \<longrightarrow> y \<in> V \<and> n_link0 st y = Some x \<and> n_link2 st x \<noteq> Some y) \<and>
     (\<forall>y. n_link2 st x = Some y \<longrightarrow> y \<in> V \<and> n_link0 st y = Some x) \<and>
     (\<forall>y. n_link0 st x = Some y \<longrightarrow> y \<in> V \<and> (n_link1 st y = Some x \<or> n_link2 st y = Some x) \<and> n_link0 st y \<noteq> Some x \<and> y \<noteq> x))"

definition exchange :: "nat \<Rightarrow> nat \<Rightarrow> nat \<Rightarrow> nat" where
  "exchange a b x = (if x = a then b else if x = b then a else x)"

lemma map_exchange: "map_option (exchange a b) p = (if p = Some a then Some b else if p = Some b then Some a else p)"
  by (cases p) (auto simp: exchange_def)

lemma links_agreeD:
  assumes "links_agree V st" "x \<in> V"
  shows "n_link1 st x = Some y \<Longrightarrow> y \<in> V \<and> n_link0 st y = Some x \<and> n_link2 st x \<noteq> Some y"
    "n_link2 st x = Some y \<Longrightarrow> y \<in> V \<and> n_link0 st y = Some x \<and> n_link1 st x \<noteq> Some y"
    "n_link0 st x = Some y \<Longrightarrow> y \<in> V \<and> (n_link1 st y = Some x \<or> n_link2 st y = Some x) \<and> n_link0 st y \<noteq> Some x \<and> y \<noteq> x"
  using assms unfolding links_agree_def by blast+

lemma set_parent_of_simps [simp]:
  "n_link0 (set_parent_of c p st) x = (if c = Some x then Some p else n_link0 st x)"
  "n_link1 (set_parent_of c p st) = n_link1 st"
  "n_link2 (set_parent_of c p st) = n_link2 st"
  by (auto simp: set_parent_of_def split: option.splits)

lemma replace_child_simps [simp]:
  "n_link0 (replace_child p old new st) = n_link0 st"
  "n_link1 (replace_child p old new st) x = (if x = p \<and> n_link1 st p = Some old then new else n_link1 st x)"
  "n_link2 (replace_child p old new st) x = (if x = p \<and> n_link1 st p \<noteq> Some old then new else n_link2 st x)"
  by (auto simp: replace_child_def)

lemma swap_links_child:
  assumes agree: "links_agree V st" and V: "a \<in> V" "b \<in> V" and ab: "a \<noteq> b" "n_link0 st b = Some a" and x: "x \<in> V"
  shows "n_link0 (swap_links a b st) x = map_option (exchange a b) (n_link0 st (exchange a b x))"
    "n_link1 (swap_links a b st) x = map_option (exchange a b) (n_link1 st (exchange a b x))"
    "n_link2 (swap_links a b st) x = map_option (exchange a b) (n_link2 st (exchange a b x))"
proof -
  note D = links_agreeD [OF agree]
  let ?P = "n_link0 st" and ?L = "n_link1 st" and ?R = "n_link2 st"
  have b: "?L a = Some b \<and> ?R a \<noteq> Some b \<or> ?R a = Some b \<and> ?L a \<noteq> Some b" "?P a \<noteq> Some b" using D [OF V(2)] D [OF V(1)] ab(2) by blast+
  have P: "?P x = Some a \<longleftrightarrow> ?L a = Some x \<or> ?R a = Some x" "?P x = Some b \<longleftrightarrow> ?L b = Some x \<or> ?R b = Some x"
    using D [OF x] D [OF V(1)] D [OF V(2)] by blast+
  have self: "?P a \<noteq> Some a" "?P b \<noteq> Some b" "?L a \<noteq> Some a" "?R a \<noteq> Some a" "?L b \<noteq> Some b" "?R b \<noteq> Some b"
      "?L b \<noteq> Some a" "?R b \<noteq> Some a"
    using D [OF V(1)] D [OF V(2)] ab by blast+
  have "n_link0 (swap_links a b st) x =
      (if x = a then Some b else if x = b then ?P a else if ?P x = Some a then Some b else if ?P x = Some b then Some a else ?P x)"
    using ab b self P D(3) [OF x]
    by (auto simp: swap_links_def Let_def split: option.splits)
  then show "n_link0 (swap_links a b st) x = map_option (exchange a b) (n_link0 st (exchange a b x))"
    using self b ab by (auto simp: map_exchange exchange_def)
  have "n_link1 (swap_links a b st) x =
      (if x = a then ?L b else if x = b then (if ?L a = Some b then Some a else ?L a) else if ?L x = Some a then Some b else ?L x)"
    using ab b self P D(1,2) [OF x] D(3) [OF V(1)]
    by (auto simp: swap_links_def Let_def split: option.splits)
  then show "n_link1 (swap_links a b st) x = map_option (exchange a b) (n_link1 st (exchange a b x))"
    using self b ab D(1) [OF x] by (auto simp: map_exchange exchange_def)
  have "n_link2 (swap_links a b st) x =
      (if x = a then ?R b else if x = b then (if ?L a = Some b then ?R a else Some a) else if ?R x = Some a then Some b else ?R x)"
    using ab b self P D(1,2) [OF x] D(3) [OF V(1)]
    by (auto simp: swap_links_def Let_def split: option.splits)
  then show "n_link2 (swap_links a b st) x = map_option (exchange a b) (n_link2 st (exchange a b x))"
    using self b ab D(2) [OF x] by (auto simp: map_exchange exchange_def)
qed

lemma swap_links_apart:
  assumes agree: "links_agree V st" and V: "a \<in> V" "b \<in> V" and ab: "a \<noteq> b" "n_link0 st b \<noteq> Some a" "n_link0 st a \<noteq> Some b" and x: "x \<in> V"
  shows "n_link0 (swap_links a b st) x = map_option (exchange a b) (n_link0 st (exchange a b x))"
    "n_link1 (swap_links a b st) x = map_option (exchange a b) (n_link1 st (exchange a b x))"
    "n_link2 (swap_links a b st) x = map_option (exchange a b) (n_link2 st (exchange a b x))"
proof -
  note D = links_agreeD [OF agree]
  let ?P = "n_link0 st" and ?L = "n_link1 st" and ?R = "n_link2 st"
  have P: "?P x = Some a \<longleftrightarrow> ?L a = Some x \<or> ?R a = Some x" "?P x = Some b \<longleftrightarrow> ?L b = Some x \<or> ?R b = Some x"
    using D [OF x] D [OF V(1)] D [OF V(2)] by blast+
  have self: "?P a \<noteq> Some a" "?P b \<noteq> Some b" "?L a \<noteq> Some a" "?R a \<noteq> Some a" "?L b \<noteq> Some b" "?R b \<noteq> Some b"
      "?L b \<noteq> Some a" "?R b \<noteq> Some a" "?L a \<noteq> Some b" "?R a \<noteq> Some b"
    using D [OF V(1)] D [OF V(2)] ab by blast+
  have C: "?P a = Some x \<longleftrightarrow> ?L x = Some a \<or> ?R x = Some a" "\<not> (?L x = Some a \<and> ?R x = Some a)"
      "?P b = Some x \<longleftrightarrow> ?L x = Some b \<or> ?R x = Some b" "\<not> (?L x = Some b \<and> ?R x = Some b)"
    using D [OF x] D [OF V(1)] D [OF V(2)] by blast+
  have "n_link0 (swap_links a b st) x =
      (if x = a then ?P b else if x = b then ?P a else if ?P x = Some a then Some b else if ?P x = Some b then Some a else ?P x)"
    using ab self P D(3) [OF x]
    by (auto simp: swap_links_def Let_def split: option.splits)
  then show "n_link0 (swap_links a b st) x = map_option (exchange a b) (n_link0 st (exchange a b x))"
    using self ab by (auto simp: map_exchange exchange_def)
  have "n_link1 (swap_links a b st) x =
      (if x = a then ?L b else if x = b then ?L a else if ?L x = Some a then Some b else if ?L x = Some b then Some a else ?L x)"
    using ab self C
    by (cases "n_link0 st a"; cases "n_link0 st b") (auto simp: swap_links_def Let_def)
  then show "n_link1 (swap_links a b st) x = map_option (exchange a b) (n_link1 st (exchange a b x))"
    using self ab by (auto simp: map_exchange exchange_def)
  have "n_link2 (swap_links a b st) x =
      (if x = a then ?R b else if x = b then ?R a else if ?R x = Some a then Some b else if ?R x = Some b then Some a else ?R x)"
    using ab self C
    by (cases "n_link0 st a"; cases "n_link0 st b") (auto simp: swap_links_def Let_def)
  then show "n_link2 (swap_links a b st) x = map_option (exchange a b) (n_link2 st (exchange a b x))"
    using self ab by (auto simp: map_exchange exchange_def)
qed

lemma frame_child [simp, intro!]:
  "frame A st st' \<Longrightarrow> c \<in> A \<or> c' = None \<Longrightarrow> (c' \<noteq> None \<Longrightarrow> the c' \<in> A) \<Longrightarrow> frame A st (set_parent_of c' p st')"
  "frame A st st' \<Longrightarrow> p \<in> A \<Longrightarrow> frame A st (replace_child p old new st')"
  by (auto simp: set_parent_of_def replace_child_def split: option.splits)

lemma swap_links_frame:
  assumes agree: "links_agree V st" and V: "a \<in> V" "b \<in> V"
  shows "frame V st (swap_links a b st)"
proof -
  note D = links_agreeD [OF agree]
  have "n_link0 st a \<noteq> None \<Longrightarrow> the (n_link0 st a) \<in> V" "n_link1 st a \<noteq> None \<Longrightarrow> the (n_link1 st a) \<in> V"
      "n_link2 st a \<noteq> None \<Longrightarrow> the (n_link2 st a) \<in> V" "n_link0 st b \<noteq> None \<Longrightarrow> the (n_link0 st b) \<in> V"
      "n_link1 st b \<noteq> None \<Longrightarrow> the (n_link1 st b) \<in> V" "n_link2 st b \<noteq> None \<Longrightarrow> the (n_link2 st b) \<in> V"
    using D [OF V(1)] D [OF V(2)] by auto
  then show ?thesis using V by (auto simp: swap_links_def Let_def split: option.splits)
qed

text \<open>A complete binary tree: the nodes in level order, with the indices of an array heap.\<close>

definition tree_ok :: "node_store \<Rightarrow> nat list \<Rightarrow> bool" where
  "tree_ok st ns \<longleftrightarrow> distinct ns \<and> (\<forall>i < length ns.
     n_link0 st (ns ! i) = (if i = 0 then None else Some (ns ! hpar i)) \<and>
     n_link1 st (ns ! i) = ptr ns (2 * i + 1) \<and> n_link2 st (ns ! i) = ptr ns (2 * i + 2))"

definition heap_ends :: "sched_heap \<Rightarrow> nat list \<Rightarrow> bool" where
  "heap_ends h ns \<longleftrightarrow> h_root h = ptr ns 0 \<and> h_last h = (if ns = [] then None else Some (last ns))"

lemma tree_okD:
  assumes "tree_ok st ns" "i < length ns"
  shows "n_link0 st (ns ! i) = (if i = 0 then None else Some (ns ! hpar i))"
    "n_link1 st (ns ! i) = ptr ns (2 * i + 1)" "n_link2 st (ns ! i) = ptr ns (2 * i + 2)"
  using assms by (auto simp: tree_ok_def)

lemma ptr_eq_Some: "ptr ns i = Some x \<longleftrightarrow> i < length ns \<and> ns ! i = x"
  by (simp add: ptr_def)

lemma tree_ok_agree:
  assumes t: "tree_ok st ns"
  shows "links_agree (set ns) st"
  unfolding links_agree_def
proof (intro ballI)
  fix x assume "x \<in> set ns"
  then obtain i where i: "i < length ns" "x = ns ! i" by (auto simp: in_set_conv_nth)
  have d: "distinct ns" using t by (simp add: tree_ok_def)
  note T = tree_okD [OF t]
  have eq: "ns ! j = ns ! k \<longleftrightarrow> j = k" if "j < length ns" "k < length ns" for j k using d that by (rule nth_eq_iff_index_eq)
  have "y \<in> set ns \<and> n_link0 st y = Some x \<and> n_link2 st x \<noteq> Some y" if "n_link1 st x = Some y" for y
  proof -
    have j: "2 * i + 1 < length ns" "y = ns ! (2 * i + 1)" using that T(2) [OF i(1)] i(2) by (auto simp: ptr_eq_Some)
    moreover have "n_link0 st y = Some (ns ! hpar (2 * i + 1))" using T(1) [OF j(1)] j(2) by simp
    ultimately show ?thesis using T(3) [OF i(1)] i eq by (auto simp: ptr_eq_Some)
  qed
  moreover have "y \<in> set ns \<and> n_link0 st y = Some x" if "n_link2 st x = Some y" for y
  proof -
    have j: "2 * i + 2 < length ns" "y = ns ! (2 * i + 2)" using that T(3) [OF i(1)] i(2) by (auto simp: ptr_eq_Some)
    moreover have "n_link0 st y = Some (ns ! hpar (2 * i + 2))" using T(1) [OF j(1)] j(2) by simp
    ultimately show ?thesis using i by auto
  qed
  moreover have "y \<in> set ns \<and> (n_link1 st y = Some x \<or> n_link2 st y = Some x) \<and> n_link0 st y \<noteq> Some x \<and> y \<noteq> x"
    if "n_link0 st x = Some y" for y
  proof -
    have y: "0 < i" "y = ns ! hpar i" using that T(1) [OF i(1)] i(2) by (auto split: if_splits)
    have p: "hpar i < i" "hpar i < length ns" using hpar_less [OF y(1)] i(1) by auto
    have "i = 2 * hpar i + 1 \<or> i = 2 * hpar i + 2" using hpar_child [of i "hpar i"] y(1) by simp
    then have "n_link1 st y = Some x \<or> n_link2 st y = Some x"
      using T(2,3) [OF p(2)] y(2) i by (metis ptr_def)
    moreover have "n_link0 st y \<noteq> Some x"
    proof
      assume "n_link0 st y = Some x"
      then have "0 < hpar i" "ns ! hpar (hpar i) = ns ! i" using T(1) [OF p(2)] y(2) i(2) by (auto split: if_splits)
      then show False using eq [of "hpar (hpar i)" i] hpar_less [of "hpar i"] p i(1) by simp
    qed
    ultimately show ?thesis using y p i eq [OF p(2) i(1)] by auto
  qed
  ultimately show "(\<forall>y. n_link1 st x = Some y \<longrightarrow> y \<in> set ns \<and> n_link0 st y = Some x \<and> n_link2 st x \<noteq> Some y) \<and>
     (\<forall>y. n_link2 st x = Some y \<longrightarrow> y \<in> set ns \<and> n_link0 st y = Some x) \<and>
     (\<forall>y. n_link0 st x = Some y \<longrightarrow> y \<in> set ns \<and> (n_link1 st y = Some x \<or> n_link2 st y = Some x) \<and> n_link0 st y \<noteq> Some x \<and> y \<noteq> x)"
    by blast
qed

lemma exchange_exchange [simp]: "exchange a b (exchange a b x) = x"
  by (simp add: exchange_def)

lemma exchange_commute: "exchange a b = exchange b a"
  by (auto simp: exchange_def fun_eq_iff)

lemma swap_at_exchange:
  assumes "distinct ns" "i < length ns" "j < length ns"
  shows "swap_at ns i j = map (exchange (ns ! i) (ns ! j)) ns"
  using assms by (intro nth_equalityI) (auto simp: nth_swap_at exchange_def nth_eq_iff_index_eq)

lemma tree_ok_exchange:
  assumes t: "tree_ok st ns" and a: "a \<in> set ns" "b \<in> set ns"
    and links: "\<And>x. x \<in> set ns \<Longrightarrow> n_link0 st' x = map_option (exchange a b) (n_link0 st (exchange a b x))"
      "\<And>x. x \<in> set ns \<Longrightarrow> n_link1 st' x = map_option (exchange a b) (n_link1 st (exchange a b x))"
      "\<And>x. x \<in> set ns \<Longrightarrow> n_link2 st' x = map_option (exchange a b) (n_link2 st (exchange a b x))"
  shows "tree_ok st' (map (exchange a b) ns)"
proof -
  have in_ns: "exchange a b x \<in> set ns" if "x \<in> set ns" for x using that a by (auto simp: exchange_def)
  have "inj_on (exchange a b) (set ns)" by (rule inj_onI) (metis exchange_exchange)
  then have "distinct (map (exchange a b) ns)" using t by (simp add: tree_ok_def distinct_map)
  moreover have "map_option (exchange a b) (ptr ns k) = ptr (map (exchange a b) ns) k" for k by (simp add: ptr_def)
  ultimately show ?thesis using t links [OF in_ns] hpar_less unfolding tree_ok_def by (auto intro: less_trans)
qed

lemma swap_ends_spec:
  assumes "heap_ends h ns" "distinct ns" "a \<in> set ns" "b \<in> set ns" "a \<noteq> b"
  shows "heap_ends (swap_ends a b h) (map (exchange a b) ns)"
proof -
  have n: "1 < length ns" using assms(3-5) by (cases ns; cases "tl ns") auto
  then have "ns \<noteq> []" by auto
  then have ne: "ns \<noteq> []" "last ns \<noteq> ns ! 0" using assms(2) nth_eq_last [of ns 0] n by fastforce+
  then show ?thesis using assms(1,5) n by (auto simp: heap_ends_def swap_ends_def exchange_def ptr_def Let_def last_map)
qed

lemma swap_nodes_spec:
  assumes t: "tree_ok st ns" and e: "heap_ends h ns" and i: "i < length ns" "j < length ns" "i \<noteq> j"
  shows "\<exists>h' st'. swap_nodes (ns ! i) (ns ! j) (h, st) = (h', st') \<and> tree_ok st' (swap_at ns i j) \<and> heap_ends h' (swap_at ns i j) \<and>
    frame (set ns) st st'"
proof -
  have d: "distinct ns" using t by (simp add: tree_ok_def)
  note agree = tree_ok_agree [OF t]
  let ?a = "ns ! i" and ?b = "ns ! j"
  have ab: "?a \<noteq> ?b" "?a \<in> set ns" "?b \<in> set ns" using d i by (auto simp: nth_eq_iff_index_eq)
  have swapped: "tree_ok (swap_links a b st) (map (exchange a b) ns)" "heap_ends (swap_ends a b h) (map (exchange a b) ns)"
      "frame (set ns) st (swap_links a b st)"
    if "a \<in> set ns" "b \<in> set ns" "a \<noteq> b" "n_link0 st a \<noteq> Some b" for a b
  proof -
    show "tree_ok (swap_links a b st) (map (exchange a b) ns)"
      using that swap_links_child [OF agree that(1-3)] swap_links_apart [OF agree that(1-3)]
      by (cases "n_link0 st b = Some a") (auto intro!: tree_ok_exchange [OF t])
  qed (use that e d agree in \<open>auto intro: swap_ends_spec swap_links_frame\<close>)
  show ?thesis
  proof (cases "n_link0 st ?a = Some ?b")
    case True
    then have "n_link0 st ?b \<noteq> Some ?a" using links_agreeD(3) [OF agree ab(2)] by blast
    then show ?thesis
      using swapped [OF ab(3,2) ab(1) [symmetric]] True ab(1) swap_at_exchange [OF d i(1,2)] exchange_commute [of ?a ?b]
      by (simp add: swap_nodes_def)
  next
    case False
    then show ?thesis using swapped [OF ab(2,3,1)] ab(1) swap_at_exchange [OF d i(1,2)] by (simp add: swap_nodes_def)
  qed
qed

section \<open>Walking between the last places\<close>

text \<open>
  The climbs follow the right (left) edge up to the node \<open>k\<close> where it starts; the descents follow
  the other edge down to a leaf. The index at the end is determined by the number of nodes.
\<close>

lemma climb_right_spec:
  assumes t: "tree_ok st ns" and "i < length ns"
  shows "\<exists>k d. climb_right st (ns ! i) = Some (ns ! k, if k = 0 then None else Some (ns ! hpar k)) \<and>
    i + 2 = 2 ^ d * (k + 2) \<and> (k = 0 \<or> odd k)"
  using assms(2)
proof (induction i rule: less_induct)
  case (less i)
  show ?case
  proof (cases "0 < i \<and> even i")
    case True
    then have p: "hpar i < i" "i = 2 * hpar i + 2" by presburger+
    have "n_link0 st (ns ! i) = Some (ns ! hpar i)" "n_link2 st (ns ! hpar i) = Some (ns ! i)"
      using tree_okD(1) [OF t less.prems] tree_okD(3) [OF t, of "hpar i"] True p less.prems by (simp_all add: ptr_def)
    then have step: "climb_right st (ns ! i) = climb_right st (ns ! hpar i)" by (simp add: climb_right.simps [of st "ns ! i"])
    obtain k d where k: "climb_right st (ns ! hpar i) = Some (ns ! k, if k = 0 then None else Some (ns ! hpar k))"
        "hpar i + 2 = 2 ^ d * (k + 2)" "k = 0 \<or> odd k"
      using less.IH [OF p(1)] p less.prems by auto
    have "i + 2 = 2 ^ Suc d * (k + 2)" using k(2) p(2) by simp
    then show ?thesis using k step by metis
  next
    case False
    have "climb_right st (ns ! i) = Some (ns ! i, if i = 0 then None else Some (ns ! hpar i))"
    proof (cases "i = 0")
      case True
      then show ?thesis using tree_okD(1) [OF t less.prems] by (simp add: climb_right.simps [of st "ns ! 0"])
    next
      case pos: False
      have "2 * hpar i + 2 \<noteq> i" "hpar i < length ns" using False pos less.prems by presburger+
      then have "n_link2 st (ns ! hpar i) \<noteq> Some (ns ! i)"
        using tree_okD(3) [OF t] t less.prems by (auto simp: ptr_def tree_ok_def nth_eq_iff_index_eq)
      then show ?thesis using pos tree_okD(1) [OF t less.prems] by (simp add: climb_right.simps [of st "ns ! i"])
    qed
    then show ?thesis using False by (intro exI [of _ i] exI [of _ 0]) auto
  qed
qed

lemma climb_left_spec:
  assumes t: "tree_ok st ns" and "i < length ns"
  shows "\<exists>k d. climb_left st (ns ! i) = Some (ns ! k, if k = 0 then None else Some (ns ! hpar k)) \<and>
    i + 1 = 2 ^ d * (k + 1) \<and> even k \<and> k \<le> i"
  using assms(2)
proof (induction i rule: less_induct)
  case (less i)
  show ?case
  proof (cases "odd i")
    case True
    then have p: "hpar i < i" "i = 2 * hpar i + 1" "0 < i" by presburger+
    have "n_link0 st (ns ! i) = Some (ns ! hpar i)" "n_link1 st (ns ! hpar i) = Some (ns ! i)"
      using tree_okD(1) [OF t less.prems] tree_okD(2) [OF t, of "hpar i"] p less.prems by (simp_all add: ptr_def)
    then have step: "climb_left st (ns ! i) = climb_left st (ns ! hpar i)" by (simp add: climb_left.simps [of st "ns ! i"])
    obtain k d where k: "climb_left st (ns ! hpar i) = Some (ns ! k, if k = 0 then None else Some (ns ! hpar k))"
        "hpar i + 1 = 2 ^ d * (k + 1)" "even k" "k \<le> hpar i"
      using less.IH [OF p(1)] p less.prems by auto
    have "i + 1 = 2 ^ Suc d * (k + 1)" "k \<le> i" using k(2,4) p by simp_all
    then show ?thesis using k(1,3) step by metis
  next
    case False
    have "climb_left st (ns ! i) = Some (ns ! i, if i = 0 then None else Some (ns ! hpar i))"
    proof (cases "i = 0")
      case True
      then show ?thesis using tree_okD(1) [OF t less.prems] by (simp add: climb_left.simps [of st "ns ! 0"])
    next
      case pos: False
      have "2 * hpar i + 1 \<noteq> i" "hpar i < length ns" using False pos less.prems by presburger+
      then have "n_link1 st (ns ! hpar i) \<noteq> Some (ns ! i)"
        using tree_okD(2) [OF t] t less.prems by (auto simp: ptr_def tree_ok_def nth_eq_iff_index_eq)
      then show ?thesis using pos tree_okD(1) [OF t less.prems] by (simp add: climb_left.simps [of st "ns ! i"])
    qed
    then show ?thesis using False by (intro exI [of _ i] exI [of _ 0]) auto
  qed
qed

lemma descend_left_spec:
  assumes t: "tree_ok st ns" and "s < length ns"
  shows "\<exists>m e. descend_left st (ns ! s) = Some (ns ! m) \<and> m < length ns \<and> length ns \<le> 2 * m + 1 \<and> m + 1 = 2 ^ e * (s + 1)"
  using assms(2)
proof (induction "length ns - s" arbitrary: s rule: less_induct)
  case less
  show ?case
  proof (cases "2 * s + 1 < length ns")
    case True
    then have "n_link1 st (ns ! s) = Some (ns ! (2 * s + 1))" using tree_okD(2) [OF t less.prems] by (simp add: ptr_def)
    then have step: "descend_left st (ns ! s) = descend_left st (ns ! (2 * s + 1))" by (simp add: descend_left.simps [of st "ns ! s"])
    have lt: "length ns - (2 * s + 1) < length ns - s" using True by linarith
    obtain m e where m: "descend_left st (ns ! (2 * s + 1)) = Some (ns ! m)" "m < length ns" "length ns \<le> 2 * m + 1"
        "m + 1 = 2 ^ e * (2 * s + 1 + 1)"
      using less.hyps [OF lt True] by blast
    then have "m + 1 = 2 ^ Suc e * (s + 1)" by simp
    then show ?thesis using step m(1-3) by metis
  next
    case False
    then have "n_link1 st (ns ! s) = None" using tree_okD(2) [OF t less.prems] by (simp add: ptr_def)
    then show ?thesis using False less.prems by (intro exI [of _ s] exI [of _ 0]) (simp add: descend_left.simps [of st "ns ! s"])
  qed
qed

lemma descend_right_spec:
  assumes t: "tree_ok st ns" and "s < length ns"
  shows "\<exists>m e. descend_right st (ns ! s) = Some (ns ! m) \<and> m < length ns \<and> length ns \<le> 2 * m + 2 \<and> m + 2 = 2 ^ e * (s + 2)"
  using assms(2)
proof (induction "length ns - s" arbitrary: s rule: less_induct)
  case less
  show ?case
  proof (cases "2 * s + 2 < length ns")
    case True
    then have "n_link2 st (ns ! s) = Some (ns ! (2 * s + 2))" using tree_okD(3) [OF t less.prems] by (simp add: ptr_def)
    then have step: "descend_right st (ns ! s) = descend_right st (ns ! (2 * s + 2))" by (simp add: descend_right.simps [of st "ns ! s"])
    have lt: "length ns - (2 * s + 2) < length ns - s" using True by linarith
    obtain m e where m: "descend_right st (ns ! (2 * s + 2)) = Some (ns ! m)" "m < length ns" "length ns \<le> 2 * m + 2"
        "m + 2 = 2 ^ e * (2 * s + 2 + 2)"
      using less.hyps [OF lt True] by blast
    then have "m + 2 = 2 ^ Suc e * (s + 2)" by simp
    then show ?thesis using step m(1-3) by metis
  next
    case False
    then have "n_link2 st (ns ! s) = None" using tree_okD(3) [OF t less.prems] by (simp add: ptr_def)
    then show ?thesis using False less.prems by (intro exI [of _ s] exI [of _ 0]) (simp add: descend_right.simps [of st "ns ! s"])
  qed
qed

lemma power_two_less:
  fixes c :: nat
  assumes "2 ^ e * c < 2 ^ d * c"
  shows "e < d"
proof -
  have "(2::nat) ^ e < 2 ^ d" using assms by (simp only: mult_less_cancel2)
  then show ?thesis by (rule power_less_imp_less_exp [rotated]) simp
qed

lemma power_two_gap:
  fixes c :: nat
  assumes "2 ^ e * c < 2 ^ d * c" "2 ^ d * c \<le> 2 * (2 ^ e * c)"
  shows "d = Suc e"
proof -
  have "e < d" using assms(1) by (rule power_two_less)
  moreover have "0 < c" using assms(1) by (cases c) auto
  then have "(2::nat) ^ d \<le> 2 ^ Suc e" using assms(2) by (simp add: mult.assoc [symmetric])
  then have "d \<le> Suc e" by (rule power_le_imp_le_exp [rotated]) simp
  ultimately show ?thesis by simp
qed

lemma push_parent_spec:
  assumes t: "tree_ok st ns" and ne: "ns \<noteq> []"
  shows "push_parent st (last ns) = Some (ns ! hpar (length ns))"
proof -
  let ?n = "length ns"
  have n: "0 < ?n" "last ns = ns ! (?n - 1)" using ne by (simp_all add: last_conv_nth)
  obtain k d where k: "climb_right st (ns ! (?n - 1)) = Some (ns ! k, if k = 0 then None else Some (ns ! hpar k))"
      "?n - 1 + 2 = 2 ^ d * (k + 2)" "k = 0 \<or> odd k"
    using climb_right_spec [OF t, of "?n - 1"] n(1) by auto
  have nk: "?n + 1 = 2 ^ d * (k + 2)" using k(2) n(1) by simp
  have down: "descend_left st (ns ! s) = Some (ns ! hpar ?n)" if s: "s < ?n" "?n + 1 = 2 ^ c * (s + 1)" for s c
  proof -
    obtain m e where m: "descend_left st (ns ! s) = Some (ns ! m)" "m < ?n" "?n \<le> 2 * m + 1" "m + 1 = 2 ^ e * (s + 1)"
      using descend_left_spec [OF t s(1)] by blast
    have "c = Suc e" by (rule power_two_gap [of e "s + 1"]) (use m(2-4) s(2) in linarith)+
    then have "?n = 2 * m + 1" using m(4) s(2) by simp
    then show ?thesis using m(1) by simp
  qed
  show ?thesis
  proof (cases "k = 0")
    case True
    have "push_parent st (last ns) = descend_left st (ns ! 0)" using k(1) n(2) True by (simp add: push_parent_def)
    also have "\<dots> = Some (ns ! hpar ?n)" by (rule down [of 0 "Suc d"]) (use nk n(1) True in simp_all)
    finally show ?thesis .
  next
    case False
    then have odd: "odd k" using k(3) by simp
    then have kp: "hpar k < ?n" "k + 1 = 2 * hpar k + 2" "k < ?n"
    proof -
      have "k + 2 \<le> 2 ^ d * (k + 2)" by (metis mult_le_mono1 nat_mult_1 one_le_power one_le_numeral)
      then show "k < ?n" using nk by linarith
      then show "hpar k < ?n" by linarith
      show "k + 1 = 2 * hpar k + 2" using odd by presburger
    qed
    have step: "push_parent st (last ns) = (case ptr ns (k + 1) of None \<Rightarrow> Some (ns ! hpar k) | Some s \<Rightarrow> descend_left st s)"
      using k(1) n(2) False tree_okD(3) [OF t kp(1)] kp(2) by (simp add: push_parent_def split: option.splits)
    show ?thesis
    proof (cases "k + 1 < ?n")
      case True
      have "push_parent st (last ns) = descend_left st (ns ! (k + 1))" using step True by (simp add: ptr_def)
      also have "\<dots> = Some (ns ! hpar ?n)" by (rule down [of "k + 1" d]) (use nk True in simp_all)
      finally show ?thesis .
    next
      case f: False
      then have "?n = k + 1" using kp(3) by simp
      moreover have "hpar (k + 1) = hpar k" using odd by presburger
      ultimately show ?thesis using step by (simp add: ptr_def)
    qed
  qed
qed

lemma previous_last_spec:
  assumes t: "tree_ok st ns" and n: "2 \<le> length ns"
  shows "previous_last st (last ns) = Some (ns ! (length ns - 2))"
proof -
  let ?n = "length ns"
  have l: "last ns = ns ! (?n - 1)" using n by (cases ns) (simp_all add: last_conv_nth)
  have lt: "?n - 1 < ?n" using n by linarith
  obtain k d where k: "climb_left st (ns ! (?n - 1)) = Some (ns ! k, if k = 0 then None else Some (ns ! hpar k))"
      "?n - 1 + 1 = 2 ^ d * (k + 1)" "even k" "k \<le> ?n - 1"
    using climb_left_spec [OF t lt] by blast
  have nk: "?n = 2 ^ d * (k + 1)" using k(2) n by simp
  have down: "descend_right st (ns ! s) = Some (ns ! (?n - 2))" if s: "s < ?n" "?n = 2 ^ c * (s + 2)" for s c
  proof -
    obtain m e where m: "descend_right st (ns ! s) = Some (ns ! m)" "m < ?n" "?n \<le> 2 * m + 2" "m + 2 = 2 ^ e * (s + 2)"
      using descend_right_spec [OF t s(1)] by blast
    have "2 ^ c * (s + 2) < 2 * (2 ^ e * (s + 2))" "2 ^ e * (s + 2) < 2 * (2 ^ c * (s + 2))"
      using m(2-4) s(2) n by linarith+
    then have "c < Suc e" "e < Suc c" using power_two_less [of c "s + 2" "Suc e"] power_two_less [of e "s + 2" "Suc c"]
      by (simp_all only: power_Suc mult.assoc)
    then have "c = e" by simp
    then have "?n = m + 2" using m(4) s(2) by simp
    then show ?thesis using m(1) by simp
  qed
  show ?thesis
  proof (cases "k = 0")
    case True
    then have "d \<noteq> 0" using nk n by (cases d) auto
    then obtain c where "d = Suc c" using not0_implies_Suc by blast
    then have "descend_right st (ns ! 0) = Some (ns ! (?n - 2))" using nk True n by (intro down [of 0 c]) auto
    then show ?thesis using k(1) l True by (simp add: previous_last_def)
  next
    case False
    have kp: "hpar k < ?n" "k - 1 = 2 * hpar k + 1" "k - 1 < ?n" using False k(3,4) n by presburger+
    have "n_link1 st (ns ! hpar k) = Some (ns ! (k - 1))" using tree_okD(2) [OF t kp(1)] kp(2,3) by (simp add: ptr_def)
    moreover have "descend_right st (ns ! (k - 1)) = Some (ns ! (?n - 2))" by (rule down [of "k - 1" d]) (use nk False kp(3) in simp_all)
    ultimately show ?thesis using k(1) l False by (simp add: previous_last_def)
  qed
qed

section \<open>The heap order\<close>

text \<open>The order of the heap routines in which the first element is the one with the earliest wake time.\<close>

definition wakes_after :: "(nat \<Rightarrow> 64 word) \<Rightarrow> nat \<Rightarrow> nat \<Rightarrow> bool" where
  "wakes_after w x y \<longleftrightarrow> w y < w x"

interpretation wake_order: strict_weak_order "wakes_after w" for w
  by unfold_locales (auto simp: wakes_after_def)

abbreviation heap_ordered :: "node_store \<Rightarrow> nat list \<Rightarrow> bool" where
  "heap_ordered st ns \<equiv> heap_from (wakes_after (n_wake_time_ns st)) ns 0 (length ns) 0"

definition heap_ok :: "node_store \<Rightarrow> sched_heap \<Rightarrow> nat list \<Rightarrow> bool" where
  "heap_ok st h ns \<longleftrightarrow> tree_ok st ns \<and> heap_ends h ns \<and> heap_ordered st ns"

lemma mset_swap_at: "i < length xs \<Longrightarrow> j < length xs \<Longrightarrow> mset (swap_at xs i j) = mset xs"
  by (simp add: swap_at_def mset_swap)

lemma set_swap_at: "i < length xs \<Longrightarrow> j < length xs \<Longrightarrow> set (swap_at xs i j) = set xs"
  by (rule mset_eq_setD) (rule mset_swap_at)

lemma swap_at_commute: "swap_at xs i j = swap_at xs j i"
  by (cases "i = j") (simp_all add: swap_at_def list_update_swap)

lemma sift_up_spec:
  assumes "tree_ok st ns" "heap_ends h ns" "up_inv (wakes_after (n_wake_time_ns st)) ns 0 (length ns) c"
  shows "\<exists>h' st' ns'. sift_up (ns ! c) (h, st) = Some (h', st') \<and> heap_ok st' h' ns' \<and> mset ns' = mset ns \<and> frame (set ns) st st'"
  using assms
proof (induction c arbitrary: h st ns rule: less_induct)
  case (less c)
  let ?w = "n_wake_time_ns st"
  note inv = less.prems(3)
  have c: "c < length ns" using inv by (simp add: up_inv_def)
  show ?case
  proof (cases "0 < c \<and> ?w (ns ! c) < ?w (ns ! hpar c)")
    case True
    then have p: "hpar c < c" "hpar c < length ns" using hpar_less [of c] c by auto
    obtain h1 st1 where s1: "swap_nodes (ns ! c) (ns ! hpar c) (h, st) = (h1, st1)" "tree_ok st1 (swap_at ns c (hpar c))"
        "heap_ends h1 (swap_at ns c (hpar c))" "frame (set ns) st st1"
      using swap_nodes_spec [OF less.prems(1,2) c p(2)] p(1) by auto
    note comm = swap_at_commute [of ns c "hpar c"]
    let ?ns = "swap_at ns (hpar c) c"
    have "\<not> wakes_after ?w (ns ! (0 + c)) (ns ! (0 + hpar c))" using True by (auto simp: wakes_after_def)
    then have inv1: "up_inv (wakes_after (n_wake_time_ns st1)) ?ns 0 (length ?ns) (hpar c)"
      using wake_order.up_inv_step [OF inv] True frame_fields(1) [OF s1(4)] by simp
    have nth: "?ns ! hpar c = ns ! c" "set ?ns = set ns" using p c by (simp_all add: nth_swap_at set_swap_at)
    obtain h' st' ns' where r: "sift_up (?ns ! hpar c) (h1, st1) = Some (h', st')" "heap_ok st' h' ns'" "mset ns' = mset ?ns"
        "frame (set ?ns) st1 st'"
      using less.IH [OF p(1) s1(2) [unfolded comm] s1(3) [unfolded comm] inv1] by blast
    have "sift_up (ns ! c) (h, st) = sift_up (ns ! c) (h1, st1)"
      using True s1(1) tree_okD(1) [OF less.prems(1) c] by (simp add: sift_up.simps [of "ns ! c" "(h, st)"])
    then show ?thesis using r s1(4) nth mset_swap_at [OF p(2) c] by (metis frame_trans)
  next
    case False
    have "sift_up (ns ! c) (h, st) = Some (h, st)"
      using False tree_okD(1) [OF less.prems(1) c] by (auto simp: sift_up.simps [of "ns ! c" "(h, st)"])
    moreover have "heap_ordered st ns"
      using inv False unfolding up_inv_def heap_from_def wakes_after_def by (auto simp: not_less)
    ultimately show ?thesis using less.prems(1,2) by (auto simp: heap_ok_def)
  qed
qed

lemma sift_child_spec:
  assumes t: "tree_ok st ns" and c: "c < length ns"
    and bad: "\<not> (link_ok st (ns ! c) (n_link1 st (ns ! c)) \<and> link_ok st (ns ! c) (n_link2 st (ns ! c)))"
  obtains ch where "sift_child st (ns ! c) = ns ! ch" "ch = 2 * c + 1 \<or> ch = 2 * c + 2" "ch < length ns"
    "n_wake_time_ns st (ns ! ch) < n_wake_time_ns st (ns ! c)"
    "\<And>i. hpar i = c \<Longrightarrow> 0 < i \<Longrightarrow> i < length ns \<Longrightarrow> n_wake_time_ns st (ns ! ch) \<le> n_wake_time_ns st (ns ! i)"
proof -
  let ?w = "n_wake_time_ns st" and ?l = "2 * c + 1" and ?r = "2 * c + 2"
  note L = tree_okD(2,3) [OF t c]
  have ok: "link_ok st (ns ! c) (ptr ns j) \<longleftrightarrow> j < length ns \<longrightarrow> ?w (ns ! c) \<le> ?w (ns ! j)" for j
    by (simp add: link_ok_def ptr_def)
  define ch where "ch = (if ?r < length ns \<and> ?w (ns ! ?r) < ?w (ns ! c) \<and> (?w (ns ! c) \<le> ?w (ns ! ?l) \<or> \<not> ?w (ns ! ?l) < ?w (ns ! ?r)) then ?r else ?l)"
  have b: "\<not> ((?l < length ns \<longrightarrow> ?w (ns ! c) \<le> ?w (ns ! ?l)) \<and> (?r < length ns \<longrightarrow> ?w (ns ! c) \<le> ?w (ns ! ?r)))"
    using bad unfolding L ok .
  have lt: "ch < length ns" "?w (ns ! ch) < ?w (ns ! c)" using b by (auto simp: ch_def not_le)
  have child: "sift_child st (ns ! c) = ns ! ch"
    using b unfolding sift_child_def L ok by (auto simp: ch_def ptr_def Let_def not_le)
  have "?w (ns ! ch) \<le> ?w (ns ! i)" if i: "hpar i = c" "0 < i" "i < length ns" for i
  proof -
    have "i = ?l \<or> i = ?r" using hpar_child [OF i(1,2)] .
    then show ?thesis using i(3) lt b by (auto simp: ch_def split: if_splits)
  qed
  then show ?thesis using that [OF child _ lt] by (auto simp: ch_def)
qed

lemma sift_down_spec:
  assumes "tree_ok st ns" "heap_ends h ns" "down_inv (wakes_after (n_wake_time_ns st)) ns 0 (length ns) 0 c" "c < length ns"
  shows "\<exists>h' st' ns'. sift_down (ns ! c) (h, st) = Some (h', st') \<and> heap_ok st' h' ns' \<and> mset ns' = mset ns \<and> frame (set ns) st st'"
  using assms
proof (induction "length ns - c" arbitrary: h st ns c rule: less_induct)
  case less
  let ?w = "n_wake_time_ns st"
  note inv = less.prems(3) and c = less.prems(4)
  show ?case
  proof (cases "link_ok st (ns ! c) (n_link1 st (ns ! c)) \<and> link_ok st (ns ! c) (n_link2 st (ns ! c))")
    case True
    then have "?w (ns ! c) \<le> ?w (ns ! i)" if "hpar i = c" "0 < i" "i < length ns" for i
      using hpar_child [OF that(1,2)] that(3) tree_okD(2,3) [OF less.prems(1) c] by (auto simp: link_ok_def ptr_def)
    then have "heap_ordered st ns"
      using inv unfolding down_inv_def heap_from_def wakes_after_def by (auto simp: not_less)
    moreover have "sift_down (ns ! c) (h, st) = Some (h, st)" using True by (simp add: sift_down.simps [of "ns ! c" "(h, st)"])
    ultimately show ?thesis using less.prems(1,2) by (auto simp: heap_ok_def)
  next
    case False
    obtain ch where ch: "sift_child st (ns ! c) = ns ! ch" "ch = 2 * c + 1 \<or> ch = 2 * c + 2" "ch < length ns"
        "?w (ns ! ch) < ?w (ns ! c)" "\<And>i. hpar i = c \<Longrightarrow> 0 < i \<Longrightarrow> i < length ns \<Longrightarrow> ?w (ns ! ch) \<le> ?w (ns ! i)"
      using sift_child_spec [OF less.prems(1) c False] by blast
    have cc: "c \<noteq> ch" "length ns - ch < length ns - c" using ch(2,3) by auto
    obtain h1 st1 where s1: "swap_nodes (ns ! c) (ns ! ch) (h, st) = (h1, st1)" "tree_ok st1 (swap_at ns c ch)"
        "heap_ends h1 (swap_at ns c ch)" "frame (set ns) st st1"
      using swap_nodes_spec [OF less.prems(1,2) c ch(3) cc(1)] by blast
    note comm = swap_at_commute [of ns c ch]
    let ?ns = "swap_at ns ch c"
    have inv1: "down_inv (wakes_after (n_wake_time_ns st1)) ?ns 0 (length ?ns) 0 ch"
      using wake_order.down_inv_swap [OF inv ch(2,3)] ch(4,5) frame_fields(1) [OF s1(4)] by (simp add: wakes_after_def not_less)
    have nth: "?ns ! ch = ns ! c" "set ?ns = set ns" using ch(3) c cc(1) by (simp_all add: nth_swap_at set_swap_at)
    obtain h' st' ns' where r: "sift_down (?ns ! ch) (h1, st1) = Some (h', st')" "heap_ok st' h' ns'" "mset ns' = mset ?ns"
        "frame (set ?ns) st1 st'"
      using less.hyps [of ?ns ch st1 h1] cc(2) s1(2,3) inv1 ch(3) unfolding comm by auto
    have "sift_down (ns ! c) (h, st) = sift_down (ns ! c) (h1, st1)"
      using False s1(1) ch(1) by (subst sift_down.simps) auto
    then show ?thesis using r s1(4) nth mset_swap_at [OF ch(3) c] by (metis frame_trans)
  qed
qed

section \<open>Adding and removing the last node\<close>

lemma ptr_append: "ptr (ns @ [x]) i = (if i = length ns then Some x else ptr ns i)"
  by (auto simp: ptr_def nth_append)

lemma last_slot:
  assumes "i < n"
  shows "2 * i + 1 = n \<longleftrightarrow> i = hpar n \<and> odd n" "2 * i + 2 = n \<longleftrightarrow> i = hpar n \<and> even n"
  using assms by presburger+

lemma add_last_node:
  assumes t: "tree_ok st ns" and ne: "ns \<noteq> []" and x: "x \<notin> set ns" and p: "p = ns ! hpar (length ns)"
    and st1: "st1 = (if n_link1 st p \<noteq> None then set_rchild p (Some x) st else set_lchild p (Some x) st)"
    and st2: "st2 = set_rchild x None (set_lchild x None (set_parent x (Some p) st1))"
  shows "tree_ok st2 (ns @ [x])" "frame (insert x (set ns)) st st2"
proof -
  let ?n = "length ns"
  have n: "0 < ?n" "hpar ?n < ?n" using ne hpar_less [of ?n] by auto
  have d: "distinct ns" using t by (simp add: tree_ok_def)
  have px: "p \<in> set ns" "p \<noteq> x" using n(2) x p by auto
  have slot: "n_link1 st p \<noteq> None \<longleftrightarrow> even ?n" using tree_okD(2) [OF t n(2)] n p by (auto simp: ptr_def) presburger+
  have eq: "ns ! i = p \<longleftrightarrow> i = hpar ?n" if "i < ?n" for i using d n(2) that p by (simp add: nth_eq_iff_index_eq)
  have "n_link0 st2 ((ns @ [x]) ! i) = (if i = 0 then None else Some ((ns @ [x]) ! hpar i)) \<and>
      n_link1 st2 ((ns @ [x]) ! i) = ptr (ns @ [x]) (2 * i + 1) \<and> n_link2 st2 ((ns @ [x]) ! i) = ptr (ns @ [x]) (2 * i + 2)"
    if i: "i < length (ns @ [x])" for i
  proof (cases "i = ?n")
    case True
    then show ?thesis using n p by (simp add: st2 nth_append ptr_def)
  next
    case False
    then have il: "i < ?n" "hpar i < ?n" using i by auto
    then have ix: "ns ! i \<noteq> x" using x by auto
    have "n_link1 st2 (ns ! i) = (if 2 * i + 1 = ?n then Some x else n_link1 st (ns ! i))"
        "n_link2 st2 (ns ! i) = (if 2 * i + 2 = ?n then Some x else n_link2 st (ns ! i))"
        "n_link0 st2 (ns ! i) = n_link0 st (ns ! i)"
      using ix eq [OF il(1)] slot unfolding last_slot [OF il(1)] by (cases "ns ! i = p"; simp add: st2 st1)+
    then show ?thesis using il tree_okD [OF t il(1)] unfolding ptr_append by (cases "i = 0") (simp_all add: nth_append)
  qed
  then show "tree_ok st2 (ns @ [x])" using d x by (simp add: tree_ok_def)
  show "frame (insert x (set ns)) st st2" using px by (auto simp: st2 st1)
qed

lemma unlink_leaf_spec:
  assumes t: "tree_ok st (ns @ [x])" and ne: "ns \<noteq> []"
  shows "tree_ok (unlink_leaf x st) ns" "frame (insert x (set ns)) st (unlink_leaf x st)"
    "n_link0 (unlink_leaf x st) x = None" "n_link1 (unlink_leaf x st) x = None" "n_link2 (unlink_leaf x st) x = None"
proof -
  let ?n = "length ns" and ?st = "unlink_leaf x st"
  have n: "0 < ?n" "hpar ?n < ?n" using ne hpar_less [of ?n] by auto
  have d: "distinct ns" "x \<notin> set ns" using t by (auto simp: tree_ok_def)
  define p where "p = ns ! hpar ?n"
  have px: "p \<in> set ns" "p \<noteq> x" using n(2) d by (auto simp: p_def)
  have par: "n_link0 st x = Some p" using tree_okD(1) [OF t, of ?n] n by (simp add: nth_append p_def)
  have T: "n_link0 st (ns ! i) = (if i = 0 then None else Some (ns ! hpar i))" "n_link1 st (ns ! i) = ptr (ns @ [x]) (2 * i + 1)"
      "n_link2 st (ns ! i) = ptr (ns @ [x]) (2 * i + 2)" if "i < ?n" for i
    using tree_okD [OF t, of i] that by (auto simp: nth_append)
  have slot: "n_link2 st p = Some x \<longleftrightarrow> even ?n"
    using T(3) [OF n(2)] last_slot(2) [OF n(2)] d(2) by (auto simp: p_def ptr_append ptr_def)
  have eq: "ns ! i = p \<longleftrightarrow> i = hpar ?n" if "i < ?n" for i using d n(2) that by (simp add: p_def nth_eq_iff_index_eq)
  have un: "?st = set_rchild x None (set_lchild x None (set_parent x None
      (if even ?n then set_rchild p None st else set_lchild p None st)))"
    using par slot by (simp add: unlink_leaf_def)
  have "n_link0 ?st (ns ! i) = (if i = 0 then None else Some (ns ! hpar i)) \<and> n_link1 ?st (ns ! i) = ptr ns (2 * i + 1) \<and>
      n_link2 ?st (ns ! i) = ptr ns (2 * i + 2)" if i: "i < ?n" for i
  proof -
    have ix: "ns ! i \<noteq> x" using d(2) i by auto
    have "n_link1 ?st (ns ! i) = (if 2 * i + 1 = ?n then None else n_link1 st (ns ! i))"
        "n_link2 ?st (ns ! i) = (if 2 * i + 2 = ?n then None else n_link2 st (ns ! i))"
        "n_link0 ?st (ns ! i) = n_link0 st (ns ! i)"
      using ix eq [OF i] unfolding last_slot [OF i] by (cases "ns ! i = p"; simp add: un)+
    moreover have "ptr ns ?n = None" by (simp add: ptr_def)
    ultimately show ?thesis using T [OF i] by (auto simp: ptr_append)
  qed
  then show "tree_ok ?st ns" using d by (simp add: tree_ok_def)
  show "frame (insert x (set ns)) st ?st" using px by (auto simp: un)
  show "n_link0 ?st x = None" "n_link1 ?st x = None" "n_link2 ?st x = None" by (simp_all add: un)
qed

section \<open>The operations of the heap\<close>

lemma heap_push_spec:
  assumes ok: "heap_ok st h ns" and x: "x \<notin> set ns" "n_link0 st x = None" "n_link1 st x = None" "n_link2 st x = None"
  shows "\<exists>h' st' ns'. heap_push x (h, st) = Some (h', st') \<and> heap_ok st' h' ns' \<and> mset ns' = add_mset x (mset ns) \<and>
    frame (insert x (set ns)) st st'"
proof (cases "ns = []")
  case True
  then have "h_root h = None" using ok by (simp add: heap_ok_def heap_ends_def ptr_def)
  then have "heap_push x (h, st) = Some (\<lparr>h_root = Some x, h_last = Some x\<rparr>, set_rchild x None (set_lchild x None (set_parent x None st)))"
    using x by (simp add: heap_push_def)
  moreover have "heap_ok (set_rchild x None (set_lchild x None (set_parent x None st))) \<lparr>h_root = Some x, h_last = Some x\<rparr> [x]"
    by (simp add: heap_ok_def heap_ends_def tree_ok_def heap_from_def ptr_def)
  ultimately show ?thesis using True by (intro exI [of _ "[x]"] exI conjI) auto
next
  case False
  have t: "tree_ok st ns" "heap_ends h ns" "heap_ordered st ns" using ok by (simp_all add: heap_ok_def)
  have ends: "h_root h \<noteq> None" "h_last h = Some (last ns)" using t(2) False by (auto simp: heap_ends_def ptr_def)
  define p where "p = ns ! hpar (length ns)"
  define st1 where "st1 = (if n_link1 st p \<noteq> None then set_rchild p (Some x) st else set_lchild p (Some x) st)"
  define st2 where "st2 = set_rchild x None (set_lchild x None (set_parent x (Some p) st1))"
  note add = add_last_node [OF t(1) False x(1) p_def st1_def st2_def]
  have push: "heap_push x (h, st) = sift_up x (h\<lparr>h_last := Some x\<rparr>, st2)"
    using x(2-4) ends push_parent_spec [OF t(1) False] unfolding p_def [symmetric] by (auto simp: heap_push_def st2_def st1_def)
  have ends2: "heap_ends (h\<lparr>h_last := Some x\<rparr>) (ns @ [x])" using t(2) False by (simp add: heap_ends_def ptr_def nth_append)
  have w: "n_wake_time_ns st2 = n_wake_time_ns st" using frame_fields(1) [OF add(2)] .
  have "up_inv (wakes_after (n_wake_time_ns st2)) (ns @ [x]) 0 (length (ns @ [x])) (length ns)"
    unfolding up_inv_def w
  proof (intro conjI allI impI)
    fix i assume i: "0 < i" "i < length (ns @ [x])"
    show "\<not> wakes_after (n_wake_time_ns st) ((ns @ [x]) ! (0 + hpar i)) ((ns @ [x]) ! (0 + i))" if "i \<noteq> length ns"
      using t(3) i that hpar_less [OF i(1)] by (simp add: heap_from_def nth_append)
    assume "hpar i = length ns"
    then show "\<not> wakes_after (n_wake_time_ns st) ((ns @ [x]) ! (0 + hpar (length ns))) ((ns @ [x]) ! (0 + i))"
      using i hpar_less [OF i(1)] by simp
  qed simp_all
  with sift_up_spec [OF add(1) ends2] obtain h' st' ns' where r: "sift_up ((ns @ [x]) ! length ns) (h\<lparr>h_last := Some x\<rparr>, st2) = Some (h', st')"
      "heap_ok st' h' ns'" "mset ns' = mset (ns @ [x])" "frame (set (ns @ [x])) st2 st'"
    by blast
  have "frame (insert x (set ns)) st st'" using frame_trans [OF add(2)] r(4) by simp
  then show ?thesis using r(1-3) unfolding push by auto
qed

lemma fix_heap_spec:
  assumes t: "tree_ok st ns" "heap_ends h ns" and i: "i < length ns"
    and order: "\<And>j. 0 < j \<Longrightarrow> j < length ns \<Longrightarrow> \<not> wakes_after (n_wake_time_ns st) ((ns[i := old]) ! hpar j) ((ns[i := old]) ! j)"
  shows "\<exists>h' st' ns'. fix_heap (ns ! i) old (h, st) = Some (h', st') \<and> heap_ok st' h' ns' \<and> mset ns' = mset ns \<and> frame (set ns) st st'"
proof -
  let ?w = "n_wake_time_ns st" and ?n = "length ns"
  have o: "?w ((ns[i := old]) ! hpar j) \<le> ?w ((ns[i := old]) ! j)" if "0 < j" "j < ?n" for j
    using order [OF that] by (simp add: wakes_after_def not_less)
  have A: "?w (ns ! hpar j) \<le> ?w (ns ! j)" if "0 < j" "j < ?n" "j \<noteq> i" "hpar j \<noteq> i" for j
    using o [OF that(1,2)] that by simp
  have C: "?w old \<le> ?w (ns ! j)" if "0 < j" "j < ?n" "hpar j = i" for j
    using o [OF that(1,2)] that hpar_less [OF that(1)] i by simp
  have P: "?w (ns ! hpar i) \<le> ?w old" if "0 < i" using o [OF that i] hpar_less [OF that] i by simp
  consider "?w (ns ! i) = ?w old" | "?w (ns ! i) < ?w old" | "?w old < ?w (ns ! i)" by fastforce
  then show ?thesis
  proof cases
    case 1
    have "?w (ns ! hpar j) \<le> ?w (ns ! j)" if j: "0 < j" "j < ?n" for j
      using A [OF j] C [OF j] P 1 j by (cases "j = i"; cases "hpar j = i") auto
    then have "heap_ordered st ns" by (simp add: heap_from_def wakes_after_def not_less)
    then show ?thesis using 1 t by (auto simp: fix_heap_def heap_ok_def)
  next
    case 2
    have "?w (ns ! hpar j) \<le> ?w (ns ! j)" if j: "0 < j" "j < ?n" "j \<noteq> i" for j
      using A [OF j] C [OF j(1,2)] 2 by (cases "hpar j = i") auto
    moreover have "?w (ns ! hpar i) \<le> ?w (ns ! j)" if "0 < j" "j < ?n" "hpar j = i" "0 < i" for j
      using C [OF that(1-3)] P [OF that(4)] by (rule order_trans [rotated])
    ultimately have "up_inv (wakes_after ?w) ns 0 ?n i" using i by (auto simp: up_inv_def wakes_after_def not_less)
    moreover have "fix_heap (ns ! i) old (h, st) = sift_up (ns ! i) (h, st)" using 2 by (simp add: fix_heap_def Let_def less_imp_neq)
    ultimately show ?thesis using sift_up_spec [OF t] by simp
  next
    case 3
    have "?w (ns ! hpar j) \<le> ?w (ns ! j)" if j: "0 < j" "j < ?n" "hpar j \<noteq> i" for j
      using A [OF j(1,2)] P 3 j by (cases "j = i") auto
    moreover have "?w (ns ! hpar i) \<le> ?w (ns ! j)" if "0 < j" "j < ?n" "hpar j = i" "0 < i" for j
      using C [OF that(1-3)] P [OF that(4)] by (rule order_trans [rotated])
    ultimately have "down_inv (wakes_after ?w) ns 0 ?n 0 i" using i by (auto simp: down_inv_def wakes_after_def not_less)
    moreover have "fix_heap (ns ! i) old (h, st) = sift_down (ns ! i) (h, st)" using 3 by (auto simp: fix_heap_def Let_def)
    ultimately show ?thesis using sift_down_spec [OF t _ i] by simp
  qed
qed

text \<open>Moving the last node to the place of another and taking the other off the end.\<close>

lemma swap_with_last:
  assumes i: "i < length ns" and n: "2 \<le> length ns" and ne_last: "i \<noteq> length ns - 1"
  shows "swap_at ns i (length ns - 1) = (butlast ns)[i := last ns] @ [ns ! i]"
    "mset ns = add_mset (ns ! i) (mset ((butlast ns)[i := last ns]))"
proof -
  have "ns \<noteq> []" using n by auto
  note ne = this last_conv_nth [OF this]
  show eq: "swap_at ns i (length ns - 1) = (butlast ns)[i := last ns] @ [ns ! i]"
    using ne_last i n ne by (intro nth_equalityI) (auto simp: nth_swap_at nth_append nth_butlast nth_list_update less_Suc_eq)
  show "mset ns = add_mset (ns ! i) (mset ((butlast ns)[i := last ns]))"
    using mset_swap_at [of i ns "length ns - 1"] i eq n by simp
qed

lemma heap_pop_spec:
  assumes ok: "heap_ok st h ns" and x: "x \<in> set ns"
  shows "\<exists>h' st' ns'. heap_pop x (h, st) = Some (h', st') \<and> heap_ok st' h' ns' \<and> mset ns = add_mset x (mset ns') \<and>
    frame (set ns) st st' \<and> n_link0 st' x = None \<and> n_link1 st' x = None \<and> n_link2 st' x = None"
proof -
  let ?n = "length ns"
  have t: "tree_ok st ns" "heap_ends h ns" "heap_ordered st ns" "distinct ns" using ok by (simp_all add: heap_ok_def tree_ok_def)
  obtain i where i: "i < ?n" "x = ns ! i" using x by (auto simp: in_set_conv_nth)
  have ends: "h_root h = Some (ns ! 0)" "h_last h = Some (last ns)" using t(2) i by (auto simp: heap_ends_def ptr_def)
  have eq_last: "ns ! j = last ns \<longleftrightarrow> Suc j = ?n" if "j < ?n" for j using that t(4) by (rule nth_eq_last [rotated])
  show ?thesis
  proof (cases "?n = 1")
    case True
    then have ns: "ns = [x]" using i by (cases ns) auto
    have "heap_pop x (h, st) = Some (heap_init, set_rchild x None (set_lchild x None (set_parent x None st)))"
      using ends ns by (simp add: heap_pop_def)
    moreover have "heap_ok (set_rchild x None (set_lchild x None (set_parent x None st))) heap_init []"
      by (simp add: heap_ok_def tree_ok_def heap_ends_def heap_init_def ptr_def heap_from_def)
    ultimately show ?thesis using ns by (intro exI [of _ "[]"] exI conjI) auto
  next
    case False
    then have n: "2 \<le> ?n" using i by linarith
    define ns1 where "ns1 = (if i = ?n - 1 then butlast ns else (butlast ns)[i := last ns])"
    have "length ns1 = ?n - 1" by (simp add: ns1_def)
    then have l1: "length ns1 = ?n - 1" "ns1 \<noteq> []" using n by auto
    have ne: "ns \<noteq> []" using n by auto
    note lst = last_conv_nth [OF ne]
    have set1: "mset ns = add_mset x (mset ns1)"
    proof (cases "i = ?n - 1")
      case True
      then have "ns = butlast ns @ [x]" using i lst append_butlast_last_id [OF ne] by metis
      then have "mset ns = mset (butlast ns @ [x])" by simp
      then show ?thesis using True by (simp add: ns1_def)
    qed (use swap_with_last(2) [OF i(1) n] i(2) in \<open>simp add: ns1_def\<close>)
    obtain h1 st1 where s1: "swap_nodes x (last ns) (h, st) = (h1, st1)" "tree_ok st1 (ns1 @ [x])" "heap_ends h1 (ns1 @ [x])" "frame (set ns) st st1"
    proof (cases "i = ?n - 1")
      case True
      then have "x = last ns" "ns1 @ [x] = ns" using i lst append_butlast_last_id [OF ne] by (simp_all add: ns1_def)
      then show ?thesis using that [of h st] t by (simp add: swap_nodes_def)
    next
      case f: False
      have "swap_at ns i (?n - 1) = ns1 @ [x]" using swap_with_last(1) [OF i(1) n f] f i(2) by (simp add: ns1_def)
      moreover have "?n - 1 < ?n" using n by linarith
      ultimately show ?thesis using that swap_nodes_spec [OF t(1,2) i(1), of "?n - 1"] f i(2) lst by auto
    qed
    define st2 where "st2 = unlink_leaf x st1"
    define h2 where "h2 = h1\<lparr>h_last := Some (last ns1)\<rparr>"
    note u = unlink_leaf_spec [OF s1(2) l1(2), folded st2_def]
    have "previous_last st1 (last (ns1 @ [x])) = Some ((ns1 @ [x]) ! (length (ns1 @ [x]) - 2))"
      using l1 n by (intro previous_last_spec [OF s1(2)]) simp
    moreover have "(ns1 @ [x]) ! (length (ns1 @ [x]) - 2) = last ns1" using l1(2) by (cases ns1 rule: rev_cases) (simp_all add: nth_append)
    ultimately have prev: "previous_last st1 x = Some (last ns1)" by simp
    have "0 < ?n" using n by linarith
    then have root: "h_root h \<noteq> h_last h" using ends eq_last n by simp
    have pop: "heap_pop x (h, st) = fix_heap (last ns) x (h2, st2)"
      using root ends s1(1,3) prev by (simp add: heap_pop_def h2_def st2_def heap_ends_def)
    have e2: "heap_ends h2 ns1" using s1(3) l1(2) by (cases ns1) (simp_all add: h2_def heap_ends_def ptr_def)
    have "mset ns = mset (x # ns1)" using set1 by simp
    then have "set ns = set (x # ns1)" by (rule mset_eq_setD)
    moreover have "distinct (ns1 @ [x])" using s1(2) unfolding tree_ok_def by blast
    ultimately have xs: "set ns = insert x (set ns1)" "x \<notin> set ns1" by simp_all
    have w: "n_wake_time_ns st2 = n_wake_time_ns st" using frame_fields(1) [OF s1(4)] frame_fields(1) [OF u(2)] by simp
    have fr: "frame (set ns) st st2" using frame_trans [OF s1(4)] u(2) xs(1) by simp
    have "\<exists>h' st' ns'. fix_heap (last ns) x (h2, st2) = Some (h', st') \<and> heap_ok st' h' ns' \<and> mset ns' = mset ns1 \<and> frame (set ns1) st2 st'"
    proof (cases "i = ?n - 1")
      case True
      then have "x = last ns" using i lst by simp
      moreover have "heap_ordered st2 ns1" using t(3) l1 hpar_less True unfolding heap_from_def w
        by (auto simp: ns1_def nth_butlast less_imp_diff_less)
      ultimately show ?thesis using u(1) e2 by (auto simp: fix_heap_def heap_ok_def)
    next
      case f: False
      have il: "i < length ns1" "ns1 ! i = last ns" using f i(1) l1 by (auto simp: ns1_def)
      have restored: "ns1[i := x] = butlast ns" using f i l1 by (auto simp: ns1_def nth_butlast intro!: list_update_same_conv [THEN iffD2])
      have "\<not> wakes_after (n_wake_time_ns st2) ((ns1[i := x]) ! hpar j) ((ns1[i := x]) ! j)" if "0 < j" "j < length ns1" for j
        using t(3) that l1 hpar_less [OF that(1)] unfolding restored w heap_from_def by (simp add: nth_butlast)
      from fix_heap_spec [OF u(1) e2 il(1) this] show ?thesis unfolding il(2) .
    qed
    then obtain h' st' ns' where r: "fix_heap (last ns) x (h2, st2) = Some (h', st')" "heap_ok st' h' ns'" "mset ns' = mset ns1" "frame (set ns1) st2 st'"
      by blast
    have "frame (set ns) st st'" using frame_trans [OF fr] frame_mono [OF r(4)] xs(1) by blast
    then show ?thesis using r pop set1 frame_links [OF r(4) xs(2)] u(3-5) by auto
  qed
qed

text \<open>The front of the heap has the earliest wake time.\<close>

lemma heap_front_min:
  assumes ok: "heap_ok st h ns" and x: "x \<in> set ns"
  shows "\<exists>r. heap_front h = Some r \<and> r \<in> set ns \<and> n_wake_time_ns st r \<le> n_wake_time_ns st x"
proof -
  obtain i where i: "i < length ns" "x = ns ! i" using x by (auto simp: in_set_conv_nth)
  have "n_wake_time_ns st (ns ! 0) \<le> n_wake_time_ns st (ns ! i)"
    using ok i(1) wake_order.heap_root_max [of "n_wake_time_ns st" ns 0 "length ns" i] by (auto simp: heap_ok_def wakes_after_def not_less)
  then show ?thesis using ok i by (auto simp: heap_ok_def heap_ends_def heap_front_def ptr_def)
qed

lemma heap_pop_front_spec:
  assumes ok: "heap_ok st h ns"
  shows "ns = [] \<Longrightarrow> heap_pop_front (h, st) = Some (None, h, st)"
    "ns \<noteq> [] \<Longrightarrow> \<exists>x h' st' ns'. heap_pop_front (h, st) = Some (Some x, h', st') \<and> heap_ok st' h' ns' \<and> mset ns = add_mset x (mset ns') \<and>
      frame (set ns) st st' \<and> (\<forall>y\<in>set ns'. n_wake_time_ns st x \<le> n_wake_time_ns st y)"
proof -
  show "heap_pop_front (h, st) = Some (None, h, st)" if "ns = []"
    using ok that by (simp add: heap_pop_front_def heap_ok_def heap_ends_def ptr_def)
  assume "ns \<noteq> []"
  then obtain y where "y \<in> set ns" by (meson list.set_sel(1))
  then obtain x where x: "h_root h = Some x" "x \<in> set ns" using heap_front_min [OF ok] by (auto simp: heap_front_def)
  have least: "n_wake_time_ns st x \<le> n_wake_time_ns st y" if "y \<in> set ns" for y
    using heap_front_min [OF ok that] x(1) by (auto simp: heap_front_def)
  obtain h' st' ns' where r: "heap_pop x (h, st) = Some (h', st')" "heap_ok st' h' ns'" "mset ns = add_mset x (mset ns')" "frame (set ns) st st'"
    using heap_pop_spec [OF ok x(2)] by blast
  have "mset ns = mset (x # ns')" using r(3) by simp
  then have "set ns = set (x # ns')" by (rule mset_eq_setD)
  then show "\<exists>x h' st' ns'. heap_pop_front (h, st) = Some (Some x, h', st') \<and> heap_ok st' h' ns' \<and> mset ns = add_mset x (mset ns') \<and>
      frame (set ns) st st' \<and> (\<forall>y\<in>set ns'. n_wake_time_ns st x \<le> n_wake_time_ns st y)"
    using r x(1) least by (auto simp: heap_pop_front_def)
qed

lemma heap_walk_child:
  "x \<in> set (heap_walk_impl n st p) \<Longrightarrow> n_link1 st x = Some y \<or> n_link2 st x = Some y \<Longrightarrow> y \<in> set (heap_walk_impl (Suc n) st p)"
proof (induction n arbitrary: p)
  case (Suc n)
  then obtain z where "p = Some z" by (cases p) auto
  then show ?case using Suc by auto
qed auto

text \<open>The walk over the heap visits every node.\<close>

lemma heap_walk_spec:
  assumes ok: "heap_ok st h ns"
  shows "set (heap_walk_impl (length ns) st (h_root h)) = set ns"
proof
  have t: "tree_ok st ns" "h_root h = ptr ns 0" using ok by (simp_all add: heap_ok_def heap_ends_def)
  show "set (heap_walk_impl (length ns) st (h_root h)) \<subseteq> set ns"
  proof -
    have "set (heap_walk_impl n st (ptr ns i)) \<subseteq> set ns" for n i
    proof (induction n arbitrary: i)
      case (Suc n)
      show ?case using Suc [of "2 * i + 1"] Suc [of "2 * i + 2"] tree_okD(2,3) [OF t(1), of i]
        by (cases "i < length ns") (auto simp: ptr_def split: if_splits)
    qed simp
    then show ?thesis using t(2) by simp
  qed
  have "ns ! j \<in> set (heap_walk_impl (Suc j + d) st (ptr ns 0))" if "j < length ns" for j d
    using that
  proof (induction j arbitrary: d rule: less_induct)
    case (less j)
    show ?case
    proof (cases "j = 0")
      case False
      then have p: "hpar j < j" "j = 2 * hpar j + 1 \<or> j = 2 * hpar j + 2" using hpar_less [of j] hpar_child [of j "hpar j"] by auto
      then have "n_link1 st (ns ! hpar j) = Some (ns ! j) \<or> n_link2 st (ns ! hpar j) = Some (ns ! j)"
        using tree_okD(2,3) [OF t(1), of "hpar j"] less.prems by (metis ptr_def less_trans)
      moreover have "ns ! hpar j \<in> set (heap_walk_impl (j + d) st (ptr ns 0))"
        using less.IH [OF p(1), of "j - Suc (hpar j) + d"] p(1) less.prems by simp
      ultimately show ?thesis using heap_walk_child by fastforce
    qed (use less.prems in \<open>simp add: ptr_def\<close>)
  qed
  from this [of _ "length ns - Suc _"] show "set ns \<subseteq> set (heap_walk_impl (length ns) st (h_root h))"
    unfolding t(2) by (metis in_set_conv_nth le_add_diff_inverse less_eq_Suc_le subsetI)
qed

section \<open>Properties\<close>

fun heap_push_all :: "nat list \<Rightarrow> sched_heap \<times> node_store \<Rightarrow> (sched_heap \<times> node_store) option" where
  "heap_push_all [] hs = Some hs"
| "heap_push_all (x # xs) hs = Option.bind (heap_push x hs) (heap_push_all xs)"

fun heap_pop_all :: "nat \<Rightarrow> sched_heap \<times> node_store \<Rightarrow> (node_ptr list \<times> sched_heap \<times> node_store) option" where
  "heap_pop_all 0 hs = Some ([], hs)"
| "heap_pop_all (Suc n) hs =
     Option.bind (heap_pop_front hs) (\<lambda>(x, hs). Option.bind (heap_pop_all n hs) (\<lambda>(xs, hs). Some (x # xs, hs)))"

lemma heap_push_all_spec:
  assumes "heap_ok st h ns" "distinct xs" "set xs \<inter> set ns = {}"
    "\<forall>x\<in>set xs. n_link0 st x = None \<and> n_link1 st x = None \<and> n_link2 st x = None"
  shows "\<exists>h' st' ns'. heap_push_all xs (h, st) = Some (h', st') \<and> heap_ok st' h' ns' \<and> mset ns' = mset ns + mset xs \<and>
    n_wake_time_ns st' = n_wake_time_ns st"
  using assms
proof (induction xs arbitrary: h st ns)
  case (Cons x xs)
  obtain h1 st1 ns1 where s1: "heap_push x (h, st) = Some (h1, st1)" "heap_ok st1 h1 ns1" "mset ns1 = add_mset x (mset ns)"
      "frame (insert x (set ns)) st st1"
    using heap_push_spec [OF Cons.prems(1), of x] Cons.prems(3,4) by auto
  have "mset ns1 = mset (x # ns)" using s1(3) by simp
  then have set1: "set ns1 = set (x # ns)" by (rule mset_eq_setD)
  have "n_link0 st1 y = None \<and> n_link1 st1 y = None \<and> n_link2 st1 y = None" if y: "y \<in> set xs" for y
  proof -
    have "y \<notin> insert x (set ns)" using y Cons.prems(2,3) by auto
    then show ?thesis using frame_links [OF s1(4)] Cons.prems(4) y by simp
  qed
  moreover have "set xs \<inter> set ns1 = {}" using set1 Cons.prems(2,3) by auto
  ultimately obtain h' st' ns' where "heap_push_all xs (h1, st1) = Some (h', st')" "heap_ok st' h' ns'" "mset ns' = mset ns1 + mset xs"
      "n_wake_time_ns st' = n_wake_time_ns st1"
    using Cons.IH [OF s1(2)] Cons.prems(2) by auto
  then show ?case using s1(1,3) frame_fields(1) [OF s1(4)] by auto
qed auto

lemma heap_pop_all_spec:
  assumes "heap_ok st h ns" "length ns = n"
  shows "\<exists>ys hs'. heap_pop_all n (h, st) = Some (map Some ys, hs') \<and> mset ys = mset ns \<and> sorted (map (n_wake_time_ns st) ys) \<and>
    heap_front (fst hs') = None"
  using assms
proof (induction n arbitrary: h st ns)
  case 0
  then show ?case by (auto simp: heap_ok_def heap_ends_def heap_front_def ptr_def)
next
  case (Suc n)
  then have "ns \<noteq> []" by auto
  then obtain x h1 st1 ns1 where s1: "heap_pop_front (h, st) = Some (Some x, h1, st1)" "heap_ok st1 h1 ns1" "mset ns = add_mset x (mset ns1)"
      "frame (set ns) st st1" "\<forall>y\<in>set ns1. n_wake_time_ns st x \<le> n_wake_time_ns st y"
    using heap_pop_front_spec(2) [OF Suc.prems(1)] by blast
  have "length ns1 = n" using s1(3) Suc.prems(2) by (metis size_add_mset size_mset Suc_inject)
  then obtain ys hs' where ys: "heap_pop_all n (h1, st1) = Some (map Some ys, hs')" "mset ys = mset ns1"
      "sorted (map (n_wake_time_ns st1) ys)" "heap_front (fst hs') = None"
    using Suc.IH [OF s1(2)] by blast
  have "set ys = set ns1" using ys(2) by (rule mset_eq_setD)
  then have "sorted (map (n_wake_time_ns st) (x # ys))" using s1(5) ys(3) frame_fields(1) [OF s1(4)] by simp
  then show ?case using s1(1,3) ys(1,2,4) by (intro exI [of _ "x # ys"] exI [of _ hs']) simp
qed

text \<open>
  C5: the list of blocked threads delivers them by wake time: when nodes whose links are null are pushed onto the empty
  heap one after the other and then taken off the front as often, every call returns, exactly the pushed nodes come
  out, the one with the earliest wake time first, and the heap is empty again.
\<close>

theorem scheduler_heap_sorts:
  assumes "distinct xs" "\<forall>x\<in>set xs. n_link0 st x = None \<and> n_link1 st x = None \<and> n_link2 st x = None"
  shows "\<exists>hs ys hs'. heap_push_all xs (heap_init, st) = Some hs \<and> heap_pop_all (length xs) hs = Some (map Some ys, hs') \<and>
    mset ys = mset xs \<and> sorted (map (n_wake_time_ns st) ys) \<and> heap_empty (fst hs')"
proof -
  have "heap_ok st heap_init []" by (simp add: heap_ok_def tree_ok_def heap_ends_def heap_init_def ptr_def heap_from_def)
  then obtain h1 st1 ns1 where s1: "heap_push_all xs (heap_init, st) = Some (h1, st1)" "heap_ok st1 h1 ns1" "mset ns1 = mset xs"
      "n_wake_time_ns st1 = n_wake_time_ns st"
    using heap_push_all_spec [of st heap_init "[]" xs] assms by auto
  have "length ns1 = length xs" using s1(3) by (rule mset_eq_length)
  with heap_pop_all_spec [OF s1(2)] show ?thesis using s1 by (auto simp: heap_empty_def heap_front_def)
qed

definition blank_store :: "(nat \<Rightarrow> 64 word) \<Rightarrow> node_store" where
  "blank_store w =
     \<lparr>n_link0 = (\<lambda>_. None), n_link1 = (\<lambda>_. None), n_link2 = (\<lambda>_. None), n_wake_time_ns = w, n_blocker = (\<lambda>_. None),
      n_block_chain_prev = (\<lambda>_. None), n_block_chain_next = (\<lambda>_. None), n_processor_id = (\<lambda>_. None),
      n_blocked = (\<lambda>_. False), n_last_start_ns = (\<lambda>_. 0), n_time_used_ns = (\<lambda>_. 0)\<rparr>"

theorem scheduler_heap_sorts_witness:
  "\<exists>hs ys hs'. heap_push_all [0, 1, 2, 3] (heap_init, blank_store (\<lambda>x. [30, 10, 40, 20] ! x)) = Some hs \<and>
     heap_pop_all (length [0, 1, 2, 3::nat]) hs = Some (map Some ys, hs') \<and> mset ys = mset [0, 1, 2, 3] \<and>
     sorted (map (n_wake_time_ns (blank_store (\<lambda>x. [30, 10, 40, 20] ! x))) ys) \<and> heap_empty (fst hs')"
  by (rule scheduler_heap_sorts) (simp_all add: blank_store_def)

end
