(* ===== verification/Scheduler.thy ===== *)
theory Scheduler
  imports SchedulerThreadNode
begin

text \<open>
  \<^verbatim>\<open>kernel/kernel/Scheduler.cpp\<close> and \<^verbatim>\<open>kernel/kernel/ThreadBlocker.cpp\<close>: the scheduler of one processor and the
  blockers that threads wait on. Threads and blockers are numbered; the scheduler node of a thread has
  the number of the thread. The operations run with interrupts disabled, so each is one step of
  the processor, and the clock \<open>now\<close> does not advance in it. Messages to other processors are
  collected in \<open>sc_sent\<close>. Page tables, segments, floating point state, registers and the programming of
  the timer have no effect on this state.
\<close>

section \<open>Model: state\<close>

datatype thread_state = NotStarted | Executing | Terminated

datatype smp_message = NewThread nat | UnblockThread nat

record sched =
  sc_processor :: nat
  sc_nodes :: node_store
  sc_state :: "nat \<Rightarrow> thread_state"
  sc_chains :: "nat \<Rightarrow> node_ptr"
  sc_run :: sched_queue
  sc_block :: sched_heap
  sc_current :: node_ptr
  sc_thread_count :: "32 word"
  sc_most_loaded :: "node_ptr list"
  sc_idle_state :: thread_state
  sc_idle_start_ns :: "64 word"
  sc_idle_ns :: "64 word"
  sc_next_reschedule_ns :: "64 word"
  sc_has_pending_reschedule :: bool
  sc_sent :: "(nat \<times> smp_message) list"

definition s_reschedule_interval_ns :: "64 word" where
  "s_reschedule_interval_ns = 10000000"

abbreviation blocked_at :: "sched \<Rightarrow> nat \<Rightarrow> bool" where
  "blocked_at s \<equiv> n_blocked (sc_nodes s)"

abbreviation blocker_at :: "sched \<Rightarrow> nat \<Rightarrow> nat option" where
  "blocker_at s \<equiv> n_blocker (sc_nodes s)"

definition set_blocked :: "nat \<Rightarrow> bool \<Rightarrow> sched \<Rightarrow> sched" where
  "set_blocked x b s = s\<lparr>sc_nodes := (sc_nodes s)\<lparr>n_blocked := (n_blocked (sc_nodes s))(x := b)\<rparr>\<rparr>"

definition set_wake_time :: "nat \<Rightarrow> 64 word \<Rightarrow> sched \<Rightarrow> sched" where
  "set_wake_time x t s = s\<lparr>sc_nodes := (sc_nodes s)\<lparr>n_wake_time_ns := (n_wake_time_ns (sc_nodes s))(x := t)\<rparr>\<rparr>"

definition set_time_used :: "nat \<Rightarrow> 64 word \<Rightarrow> sched \<Rightarrow> sched" where
  "set_time_used x t s = s\<lparr>sc_nodes := (sc_nodes s)\<lparr>n_time_used_ns := (n_time_used_ns (sc_nodes s))(x := t)\<rparr>\<rparr>"

definition set_last_start :: "nat \<Rightarrow> 64 word \<Rightarrow> sched \<Rightarrow> sched" where
  "set_last_start x t s = s\<lparr>sc_nodes := (sc_nodes s)\<lparr>n_last_start_ns := (n_last_start_ns (sc_nodes s))(x := t)\<rparr>\<rparr>"

definition set_state :: "nat \<Rightarrow> thread_state \<Rightarrow> sched \<Rightarrow> sched" where
  "set_state x t s = s\<lparr>sc_state := (sc_state s)(x := t)\<rparr>"

text \<open>The members of a new scheduler; \<open>load_balance_ns\<close> is the offset that \<^verbatim>\<open>initialize\<close> gives its processor.\<close>

definition sched_init :: "nat \<Rightarrow> 64 word \<Rightarrow> node_store \<Rightarrow> sched" where
  "sched_init pid load_balance_ns st =
     \<lparr>sc_processor = pid, sc_nodes = st, sc_state = (\<lambda>_. NotStarted), sc_chains = (\<lambda>_. None),
      sc_run = queue_init, sc_block = heap_init, sc_current = None, sc_thread_count = 0,
      sc_most_loaded = replicate 8 None, sc_idle_state = NotStarted, sc_idle_start_ns = 0, sc_idle_ns = load_balance_ns,
      sc_next_reschedule_ns = 0, sc_has_pending_reschedule = False, sc_sent = []\<rparr>"

section \<open>Model: thread blockers\<close>

text \<open>The three members that link a node into the chain of a blocker, and the head of the chain.\<close>

definition set_chain :: "nat \<Rightarrow> nat option \<Rightarrow> node_ptr \<Rightarrow> node_ptr \<Rightarrow> node_store \<Rightarrow> node_store" where
  "set_chain x b prv nxt st =
     st\<lparr>n_blocker := (n_blocker st)(x := b), n_block_chain_prev := (n_block_chain_prev st)(x := prv),
        n_block_chain_next := (n_block_chain_next st)(x := nxt)\<rparr>"

definition set_chain_prev :: "node_ptr \<Rightarrow> node_ptr \<Rightarrow> node_store \<Rightarrow> node_store" where
  "set_chain_prev p v st =
     (case p of None \<Rightarrow> st | Some x \<Rightarrow> st\<lparr>n_block_chain_prev := (n_block_chain_prev st)(x := v)\<rparr>)"

definition set_chain_next :: "node_ptr \<Rightarrow> node_ptr \<Rightarrow> node_store \<Rightarrow> node_store" where
  "set_chain_next p v st =
     (case p of None \<Rightarrow> st | Some x \<Rightarrow> st\<lparr>n_block_chain_next := (n_block_chain_next st)(x := v)\<rparr>)"

definition add_thread_to_block_queue :: "nat \<Rightarrow> nat \<Rightarrow> sched \<Rightarrow> sched option" where
  "add_thread_to_block_queue b x s =
     (if \<not> blocked_at s x \<or> blocker_at s x \<noteq> None then None
      else let head = sc_chains s b
           in Some (s\<lparr>sc_nodes := set_chain_prev head (Some x) (set_chain x (Some b) None head (sc_nodes s)),
                      sc_chains := (sc_chains s)(b := Some x)\<rparr>))"

definition remove_thread_from_block_queue :: "nat \<Rightarrow> nat \<Rightarrow> sched \<Rightarrow> sched option" where
  "remove_thread_from_block_queue b x s =
     (if blocker_at s x \<noteq> Some b then Some s
      else if \<not> blocked_at s x then None
      else let prv = n_block_chain_prev (sc_nodes s) x; nxt = n_block_chain_next (sc_nodes s) x;
               st = set_chain_next prv nxt (sc_nodes s);
               st = set_chain_prev (n_block_chain_next st x) (n_block_chain_prev st x) st
           in Some (s\<lparr>sc_nodes := set_chain x None None None st,
                      sc_chains := (if sc_chains s b = Some x then (sc_chains s)(b := n_block_chain_next st x) else sc_chains s)\<rparr>))"

section \<open>Model: the scheduler\<close>

text \<open>A message to \<^verbatim>\<open>PROCESSOR_NONE\<close> is an index outside the array of processors.\<close>

definition unblock_thread :: "nat \<Rightarrow> sched \<Rightarrow> sched option" where
  "unblock_thread x s =
     (case n_processor_id (sc_nodes s) x of
        Some p \<Rightarrow>
          if p \<noteq> sc_processor s then Some (s\<lparr>sc_sent := sc_sent s @ [(p, UnblockThread x)]\<rparr>)
          else if \<not> blocked_at s x then Some s
          else
            Option.bind (heap_pop x (sc_block s, sc_nodes s)) (\<lambda>(h, st).
              let s = s\<lparr>sc_block := h, sc_nodes := st\<rparr>
              in Option.bind (case blocker_at s x of None \<Rightarrow> Some s | Some b \<Rightarrow> remove_thread_from_block_queue b x s) (\<lambda>s.
                 let s = set_blocked x False s
                 in Option.bind (queue_push x (sc_run s) (sc_nodes s)) (\<lambda>(q, st). Some (s\<lparr>sc_run := q, sc_nodes := st\<rparr>))))
      | None \<Rightarrow> None)"

text \<open>\<^verbatim>\<open>ThreadBlocker::unblock\<close>. The head of the chain gets its null predecessor only behind the loop.\<close>

fun blocker_unblock_loop :: "nat \<Rightarrow> nat \<Rightarrow> sched \<Rightarrow> sched option" where
  "blocker_unblock_loop 0 b s = Some s"
| "blocker_unblock_loop (Suc n) b s =
     (case sc_chains s b of
        None \<Rightarrow> Some s
      | Some x \<Rightarrow>
          if \<not> blocked_at s x \<or> blocker_at s x \<noteq> Some b then None
          else let s = s\<lparr>sc_chains := (sc_chains s)(b := n_block_chain_next (sc_nodes s) x),
                         sc_nodes := set_chain x None None None (sc_nodes s)\<rparr>
               in Option.bind (unblock_thread x s) (blocker_unblock_loop n b))"

definition blocker_unblock :: "nat \<Rightarrow> nat \<Rightarrow> sched \<Rightarrow> sched option" where
  "blocker_unblock n b s =
     Option.bind (blocker_unblock_loop n b s) (\<lambda>s. Some (s\<lparr>sc_nodes := set_chain_prev (sc_chains s b) None (sc_nodes s)\<rparr>))"

fun replace_first :: "'a \<Rightarrow> 'a \<Rightarrow> 'a list \<Rightarrow> 'a list" where
  "replace_first old new [] = []"
| "replace_first old new (x # xs) = (if x = old then new # xs else x # replace_first old new xs)"

definition min_index :: "(nat \<Rightarrow> 64 word) \<Rightarrow> node_ptr list \<Rightarrow> nat" where
  "min_index used ml = foldl (\<lambda>m i. if used (the (ml ! i)) < used (the (ml ! m)) then i else m) 0 [1..<length ml]"

definition add_current_to_most_loaded :: "nat \<Rightarrow> sched \<Rightarrow> sched" where
  "add_current_to_most_loaded c s =
     (let ml = sc_most_loaded s; used = n_time_used_ns (sc_nodes s)
      in if Some c \<in> set ml then s
         else if None \<in> set ml then s\<lparr>sc_most_loaded := replace_first None (Some c) ml\<rparr>
         else let i = min_index used ml
              in if used (the (ml ! i)) < used c then s\<lparr>sc_most_loaded := ml[i := Some c]\<rparr> else s)"

definition remove_current_from_most_loaded :: "nat \<Rightarrow> sched \<Rightarrow> sched" where
  "remove_current_from_most_loaded c s = s\<lparr>sc_most_loaded := replace_first (Some c) None (sc_most_loaded s)\<rparr>"

definition push_run :: "nat \<Rightarrow> sched \<Rightarrow> sched option" where
  "push_run x s =
     Option.bind (queue_push x (sc_run s) (sc_nodes s)) (\<lambda>(q, st). Some (s\<lparr>sc_run := q, sc_nodes := st\<rparr>))"

definition push_block :: "nat \<Rightarrow> sched \<Rightarrow> sched option" where
  "push_block x s =
     Option.bind (heap_push x (sc_block s, sc_nodes s)) (\<lambda>(h, st). Some (s\<lparr>sc_block := h, sc_nodes := st\<rparr>))"

text \<open>The first half of \<^verbatim>\<open>reschedule\<close>: the current thread goes back to a list, or ends.\<close>

definition put_current_back :: "64 word \<Rightarrow> sched \<Rightarrow> sched option" where
  "put_current_back now s =
     (case sc_current s of
        None \<Rightarrow> Some (s\<lparr>sc_idle_ns := sc_idle_ns s + (now - sc_idle_start_ns s)\<rparr>)
      | Some c \<Rightarrow>
          (case sc_state s c of
             Terminated \<Rightarrow>
               Some ((remove_current_from_most_loaded c s)\<lparr>sc_current := None, sc_thread_count := sc_thread_count s - 1\<rparr>)
           | Executing \<Rightarrow>
               (let s = set_time_used c (n_time_used_ns (sc_nodes s) c + (now - n_last_start_ns (sc_nodes s) c)) s;
                    s = add_current_to_most_loaded c s
                in if \<not> blocked_at s c then push_run c s else push_block c s)
           | NotStarted \<Rightarrow>
               if blocked_at s c then None
               else push_run c (remove_current_from_most_loaded c (set_time_used c 0 s))))"

definition run_next :: "64 word \<Rightarrow> sched \<Rightarrow> sched option" where
  "run_next now s =
     (let (x, q, st) = queue_pop_front (sc_run s) (sc_nodes s);
          s = s\<lparr>sc_current := x, sc_run := q, sc_nodes := st\<rparr>
      in case x of
           None \<Rightarrow> Some (s\<lparr>sc_idle_state := Executing, sc_idle_start_ns := now\<rparr>)
         | Some c \<Rightarrow>
             if sc_state s c = Terminated \<or> blocked_at s c then None
             else let s = (if sc_state s c = NotStarted then set_state c Executing s else s)
                  in Some (set_last_start c now s))"

definition current_state :: "sched \<Rightarrow> thread_state" where
  "current_state s = (case sc_current s of None \<Rightarrow> sc_idle_state s | Some c \<Rightarrow> sc_state s c)"

definition reschedule :: "64 word \<Rightarrow> sched \<Rightarrow> sched option" where
  "reschedule now s =
     (if queue_empty (sc_run s) \<and> (case sc_current s of None \<Rightarrow> True | Some c \<Rightarrow> \<not> blocked_at s c) \<and>
         current_state s = Executing
      then Some s
      else Option.bind (put_current_back now s) (run_next now))"

definition is_idle :: "sched \<Rightarrow> bool" where
  "is_idle s = (sc_current s = None)"

definition on_yield :: "64 word \<Rightarrow> sched \<Rightarrow> sched option" where
  "on_yield now s =
     Option.bind (reschedule now s) (\<lambda>s.
       Some (s\<lparr>sc_next_reschedule_ns := (if \<not> is_idle s then now + s_reschedule_interval_ns else - 1)\<rparr>))"

definition reschedule_if_needed :: "64 word \<Rightarrow> sched \<Rightarrow> sched option" where
  "reschedule_if_needed now s =
     (if is_idle s \<and> \<not> queue_empty (sc_run s) \<or> sc_has_pending_reschedule s
      then on_yield now (s\<lparr>sc_has_pending_reschedule := False\<rparr>)
      else Some s)"

partial_function (option) wake_up_sleeping_threads :: "64 word \<Rightarrow> sched \<Rightarrow> sched option" where
  "wake_up_sleeping_threads now s =
     (case heap_front (sc_block s) of
        None \<Rightarrow> Some s
      | Some x \<Rightarrow>
          if n_wake_time_ns (sc_nodes s) x \<le> now
          then Option.bind (unblock_thread x s) (\<lambda>s. wake_up_sleeping_threads now s)
          else Some s)"

declare wake_up_sleeping_threads.simps [code]

text \<open>The timer interrupt without the load balancing between processors.\<close>

definition on_timer_interrupt :: "64 word \<Rightarrow> sched \<Rightarrow> sched option" where
  "on_timer_interrupt now s =
     Option.bind (wake_up_sleeping_threads now s) (\<lambda>s.
       Some (if is_idle s \<or> sc_next_reschedule_ns s \<le> now then s\<lparr>sc_has_pending_reschedule := True\<rparr> else s))"

definition bind_thread_to_processor :: "nat \<Rightarrow> nat \<Rightarrow> sched \<Rightarrow> sched option" where
  "bind_thread_to_processor x p s =
     (if n_processor_id (sc_nodes s) x \<noteq> None then None
      else Some (s\<lparr>sc_nodes := (sc_nodes s)\<lparr>n_processor_id := (n_processor_id (sc_nodes s))(x := Some p)\<rparr>\<rparr>))"

text \<open>\<open>next_processor\<close> is the processor that the round robin over all processors chooses.\<close>

definition add_thread :: "nat \<Rightarrow> nat \<Rightarrow> sched \<Rightarrow> sched option" where
  "add_thread next_processor x s =
     Option.bind (if n_processor_id (sc_nodes s) x = None then bind_thread_to_processor x next_processor s else Some s) (\<lambda>s.
       let p = the (n_processor_id (sc_nodes s) x)
       in if p \<noteq> sc_processor s then Some (s\<lparr>sc_sent := sc_sent s @ [(p, NewThread x)]\<rparr>)
          else if blocked_at s x then None
          else Option.bind (push_run x s) (\<lambda>s. Some (s\<lparr>sc_thread_count := sc_thread_count s + 1\<rparr>)))"

text \<open>
  \<^verbatim>\<open>block_current_thread\<close> up to the end of its yield. The mutex that it releases and takes again is
  the caller's.
\<close>

definition block_current_thread :: "64 word \<Rightarrow> nat option \<Rightarrow> 64 word \<Rightarrow> sched \<Rightarrow> sched option" where
  "block_current_thread now blocker wake_time_ns s =
     (if wake_time_ns \<le> now then Some s
      else Option.bind (sc_current s) (\<lambda>c.
        if n_processor_id (sc_nodes s) c \<noteq> Some (sc_processor s) \<or> blocked_at s c then None
        else let s = set_wake_time c wake_time_ns (set_blocked c True s)
             in Option.bind (case blocker of None \<Rightarrow> Some s | Some b \<Rightarrow> add_thread_to_block_queue b c s) (on_yield now)))"

definition block_indefinite :: "64 word \<Rightarrow> nat \<Rightarrow> sched \<Rightarrow> sched option" where
  "block_indefinite now b s = block_current_thread now (Some b) (- 1) s"

definition block_with_timeout_ns :: "64 word \<Rightarrow> nat \<Rightarrow> 64 word \<Rightarrow> sched \<Rightarrow> sched option" where
  "block_with_timeout_ns now b timeout_ns s = block_current_thread now (Some b) (now + timeout_ns) s"

definition block_with_wake_time_ns :: "64 word \<Rightarrow> nat \<Rightarrow> 64 word \<Rightarrow> sched \<Rightarrow> sched option" where
  "block_with_wake_time_ns now b wake_time_ns s = block_current_thread now (Some b) wake_time_ns s"

section \<open>Model: the events of one processor\<close>

text \<open>
  What can happen to the scheduler: a thread is added, the current thread blocks, someone unblocks waiters of a
  blocker or a single thread, the timer fires, the current thread yields, the end of an interrupt yields if
  needed, the current thread is marked as terminated (before its last yield), and the last thread of a process is made to start
  again with the cleanup of the process (\<^verbatim>\<open>Thread::setup_process_cleanup\<close>, also before a yield).
\<close>

datatype sched_event =
    AddThread nat nat
  | BlockCurrent "nat option" "64 word"
  | UnblockWaiters nat nat
  | UnblockOne nat
  | TimerInterrupt
  | YieldCurrent
  | InterruptEnd
  | ExitCurrent
  | RestartCurrent

fun sched_step :: "64 word \<times> sched_event \<Rightarrow> sched \<Rightarrow> sched option" where
  "sched_step (now, AddThread p x) s = add_thread p x s"
| "sched_step (now, BlockCurrent b t) s = block_current_thread now b t s"
| "sched_step (now, UnblockWaiters n b) s = blocker_unblock n b s"
| "sched_step (now, UnblockOne x) s = unblock_thread x s"
| "sched_step (now, TimerInterrupt) s = on_timer_interrupt now s"
| "sched_step (now, YieldCurrent) s = on_yield now s"
| "sched_step (now, InterruptEnd) s = reschedule_if_needed now s"
| "sched_step (now, ExitCurrent) s = Option.bind (sc_current s) (\<lambda>c. Some (set_state c Terminated s))"
| "sched_step (now, RestartCurrent) s = Option.bind (sc_current s) (\<lambda>c. Some (set_state c NotStarted s))"

text \<open>
  What the callers keep: only a thread that no list holds is added, only a running thread blocks, only a thread that
  has a processor is unblocked, and only the current thread exits or restarts.
\<close>

fun event_ok :: "sched_event \<Rightarrow> sched \<Rightarrow> bool" where
  "event_ok (AddThread p x) s \<longleftrightarrow>
     n_link0 (sc_nodes s) x = None \<and> n_link1 (sc_nodes s) x = None \<and> n_link2 (sc_nodes s) x = None \<and>
     q_head (sc_run s) \<noteq> Some x \<and> sc_current s \<noteq> Some x \<and> \<not> blocked_at s x \<and> sc_state s x \<noteq> Terminated"
| "event_ok (BlockCurrent b t) s \<longleftrightarrow> sc_current s \<noteq> None \<and> current_state s = Executing"
| "event_ok (UnblockOne x) s \<longleftrightarrow> n_processor_id (sc_nodes s) x \<noteq> None"
| "event_ok ExitCurrent s \<longleftrightarrow> sc_current s \<noteq> None"
| "event_ok RestartCurrent s \<longleftrightarrow> sc_current s \<noteq> None"
| "event_ok e s \<longleftrightarrow> True"

fun yields :: "64 word \<times> sched_event \<Rightarrow> sched \<Rightarrow> bool" where
  "yields (now, BlockCurrent b t) s \<longleftrightarrow> now < t"
| "yields (now, YieldCurrent) s \<longleftrightarrow> True"
| "yields (now, InterruptEnd) s \<longleftrightarrow> is_idle s \<and> \<not> queue_empty (sc_run s) \<or> sc_has_pending_reschedule s"
| "yields (now, e) s \<longleftrightarrow> False"

fun sched_run :: "(64 word \<times> sched_event) list \<Rightarrow> sched \<Rightarrow> sched option" where
  "sched_run [] s = Some s"
| "sched_run (e # es) s = Option.bind (sched_step e s) (sched_run es)"

fun events_ok :: "(64 word \<times> sched_event) list \<Rightarrow> sched \<Rightarrow> bool" where
  "events_ok [] s \<longleftrightarrow> True"
| "events_ok (e # es) s \<longleftrightarrow> event_ok (snd e) s \<and> (case sched_step e s of None \<Rightarrow> True | Some s' \<Rightarrow> events_ok es s')"

fun yield_count :: "(64 word \<times> sched_event) list \<Rightarrow> sched \<Rightarrow> nat" where
  "yield_count [] s = 0"
| "yield_count (e # es) s = (if yields e s then 1 else 0) + (case sched_step e s of None \<Rightarrow> 0 | Some s' \<Rightarrow> yield_count es s')"

fun becomes_current :: "nat \<Rightarrow> (64 word \<times> sched_event) list \<Rightarrow> sched \<Rightarrow> bool" where
  "becomes_current x [] s \<longleftrightarrow> sc_current s = Some x"
| "becomes_current x (e # es) s \<longleftrightarrow>
     sc_current s = Some x \<or> (case sched_step e s of None \<Rightarrow> False | Some s' \<Rightarrow> becomes_current x es s')"

section \<open>Doubly linked chains\<close>

text \<open>\<open>dll nx pr pv h xs\<close>: from \<open>h\<close> on the links \<open>nx\<close> lead through \<open>xs\<close> to null, and \<open>pr\<close> lead back to \<open>pv\<close>.\<close>

fun dll :: "(nat \<Rightarrow> node_ptr) \<Rightarrow> (nat \<Rightarrow> node_ptr) \<Rightarrow> node_ptr \<Rightarrow> node_ptr \<Rightarrow> nat list \<Rightarrow> bool" where
  "dll nx pr pv h [] \<longleftrightarrow> h = None"
| "dll nx pr pv h (x # xs) \<longleftrightarrow> h = Some x \<and> pr x = pv \<and> dll nx pr (Some x) (nx x) xs"

lemma dll_cong: "(\<And>x. x \<in> set xs \<Longrightarrow> nx' x = nx x \<and> pr' x = pr x) \<Longrightarrow> dll nx' pr' pv h xs = dll nx pr pv h xs"
  by (induction xs arbitrary: pv h) auto

lemma dll_prev: "dll nx pr pv h (xs @ x # ys) \<Longrightarrow> pr x = (if xs = [] then pv else Some (last xs))"
  by (induction xs arbitrary: pv h) auto

lemma dll_next: "dll nx pr pv h (xs @ x # ys) \<Longrightarrow> nx x = ptr ys 0"
  by (induction xs arbitrary: pv h) (auto simp: ptr_def elim: dll.elims)

lemma dll_remove:
  assumes "dll nx pr pv h (xs @ x # ys)" "distinct (xs @ x # ys)" "\<And>p. pv = Some p \<Longrightarrow> p \<notin> set (xs @ x # ys)"
    and nx': "nx' = (case pr x of None \<Rightarrow> nx | Some p \<Rightarrow> nx(p := nx x))"
    and pr': "pr' = (case nx x of None \<Rightarrow> pr | Some n \<Rightarrow> pr(n := pr x))"
  shows "dll nx' pr' pv (if xs = [] then nx x else h) (xs @ ys)"
  using assms(1-3)
proof (induction xs arbitrary: pv h)
  case Nil
  have n: "nx x = ptr ys 0" using dll_next [of nx pr pv h "[]"] Nil.prems(1) by simp
  show ?case
  proof (cases ys)
    case (Cons y zs)
    have "nx' z = nx z \<and> pr' z = pr z" if "z \<in> set zs" for z
      using that Nil.prems Cons n by (auto simp: nx' pr' ptr_def split: option.splits)
    then have "dll nx' pr' (Some y) (nx y) zs = dll nx pr (Some y) (nx y) zs" by (rule dll_cong)
    moreover have "nx' y = nx y" "pr' y = pv" using Nil.prems Cons n by (auto simp: nx' pr' ptr_def split: option.splits)
    ultimately show ?thesis using Nil.prems(1) Cons n by (simp add: ptr_def)
  qed (use n in \<open>simp add: ptr_def\<close>)
next
  case (Cons y xs)
  have p: "pr x = Some (if xs = [] then y else last xs)" using dll_prev [OF Cons.prems(1)] by simp
  have n: "nx x = ptr ys 0" using dll_next [OF Cons.prems(1)] .
  have "dll nx' pr' (Some y) (if xs = [] then nx x else nx y) (xs @ ys)"
    using Cons.IH [of "Some y" "nx y"] Cons.prems by auto
  moreover have "nx' y = (if xs = [] then nx x else nx y)"
    using p Cons.prems(2) last_in_set [of xs] by (auto simp: nx')
  moreover have "pr' y = pv" using n Cons.prems by (cases ys) (auto simp: pr' ptr_def)
  ultimately show ?case using Cons.prems(1) by simp
qed

section \<open>The invariant\<close>

text \<open>
  The nodes in the run list are ready, those in the block list are blocked, and the current one is in no
  list. \<open>E\<close> are the nodes that are blocked but not yet in the block list.
\<close>

definition lists_ok ::
  "node_store \<Rightarrow> sched_queue \<Rightarrow> sched_heap \<Rightarrow> nat \<Rightarrow> node_ptr \<Rightarrow> (nat \<Rightarrow> thread_state) \<Rightarrow> nat list \<Rightarrow> nat list \<Rightarrow> nat set \<Rightarrow> bool" where
  "lists_ok st q h pid cur ts rs bs E \<longleftrightarrow>
     queue_ok st q rs \<and> heap_ok st h bs \<and> set rs \<inter> set bs = {} \<and>
     (\<forall>x\<in>set rs. n_link2 st x = None \<and> \<not> n_blocked st x \<and> n_processor_id st x = Some pid \<and> ts x \<noteq> Terminated) \<and>
     (\<forall>x\<in>set bs. n_blocked st x \<and> n_processor_id st x = Some pid \<and> ts x \<noteq> Terminated) \<and>
     (\<forall>x. n_blocked st x \<and> n_processor_id st x = Some pid \<longrightarrow> x \<in> set bs \<union> E) \<and>
     (\<forall>c. cur = Some c \<longrightarrow> c \<notin> set rs \<union> set bs \<and> n_link0 st c = None \<and> n_link1 st c = None \<and> n_link2 st c = None \<and>
        n_processor_id st c = Some pid)"

text \<open>
  \<open>C b\<close> are the nodes that wait on the blocker \<open>b\<close>. The head of a chain in \<open>W\<close> may have a stale predecessor.
\<close>

definition chains_ok :: "node_store \<Rightarrow> (nat \<Rightarrow> node_ptr) \<Rightarrow> (nat \<Rightarrow> nat list) \<Rightarrow> nat set \<Rightarrow> bool" where
  "chains_ok st heads C W \<longleftrightarrow> (\<forall>x. n_blocker st x \<noteq> None \<longrightarrow> n_blocked st x \<and> n_processor_id st x \<noteq> None) \<and>
     (\<forall>b. distinct (C b) \<and> set (C b) = {x. n_blocker st x = Some b} \<and>
       (\<exists>pv. dll (n_block_chain_next st) (n_block_chain_prev st) pv (heads b) (C b) \<and> (b \<notin> W \<longrightarrow> pv = None)))"

definition sched_ok :: "sched \<Rightarrow> nat list \<Rightarrow> nat list \<Rightarrow> (nat \<Rightarrow> nat list) \<Rightarrow> nat set \<Rightarrow> nat set \<Rightarrow> bool" where
  "sched_ok s rs bs C E W \<longleftrightarrow>
     lists_ok (sc_nodes s) (sc_run s) (sc_block s) (sc_processor s) (sc_current s) (sc_state s) rs bs E \<and>
     chains_ok (sc_nodes s) (sc_chains s) C W"

definition sched_inv :: "sched \<Rightarrow> bool" where
  "sched_inv s \<longleftrightarrow> (\<exists>rs bs C. sched_ok s rs bs C {} {})"

lemma queue_ok_cong:
  assumes "queue_ok st q xs" "\<And>x. x \<in> set xs \<Longrightarrow> n_link0 st' x = n_link0 st x \<and> n_link1 st' x = n_link1 st x"
  shows "queue_ok st' q xs"
  using assms by (simp add: queue_ok_def)

lemma heap_ok_cong:
  assumes "heap_ok st h xs"
    "\<And>x. x \<in> set xs \<Longrightarrow> n_link0 st' x = n_link0 st x \<and> n_link1 st' x = n_link1 st x \<and> n_link2 st' x = n_link2 st x \<and>
      n_wake_time_ns st' x = n_wake_time_ns st x"
  shows "heap_ok st' h xs"
proof -
  have "n_wake_time_ns st' (xs ! i) = n_wake_time_ns st (xs ! i)" if "i < length xs" for i using assms(2) that by simp
  then have "heap_ordered st' xs = heap_ordered st xs"
    unfolding heap_from_def wakes_after_def using hpar_less by (auto intro: less_trans)
  then show ?thesis using assms by (simp add: heap_ok_def tree_ok_def)
qed

lemma lists_ok_cong:
  assumes "lists_ok st q h pid cur ts rs bs E" "n_link0 st' = n_link0 st" "n_link1 st' = n_link1 st" "n_link2 st' = n_link2 st"
    "n_wake_time_ns st' = n_wake_time_ns st" "n_blocked st' = n_blocked st" "n_processor_id st' = n_processor_id st"
  shows "lists_ok st' q h pid cur ts rs bs E"
  using assms unfolding lists_ok_def by (auto intro: queue_ok_cong heap_ok_cong)

lemma chains_ok_cong:
  assumes "chains_ok st heads C W" "n_blocker st' = n_blocker st" "n_block_chain_prev st' = n_block_chain_prev st"
    "n_block_chain_next st' = n_block_chain_next st" "\<And>x. n_blocker st x \<noteq> None \<Longrightarrow> n_blocked st x \<Longrightarrow> n_blocked st' x"
    "\<And>x. n_processor_id st x \<noteq> None \<Longrightarrow> n_processor_id st' x \<noteq> None"
  shows "chains_ok st' heads C W"
  using assms unfolding chains_ok_def by auto

lemma lists_okD:
  assumes "lists_ok st q h pid cur ts rs bs E"
  shows "queue_ok st q rs" "heap_ok st h bs" "set rs \<inter> set bs = {}"
    "x \<in> set rs \<Longrightarrow> n_link2 st x = None \<and> \<not> n_blocked st x \<and> n_processor_id st x = Some pid \<and> ts x \<noteq> Terminated"
    "x \<in> set bs \<Longrightarrow> n_blocked st x \<and> n_processor_id st x = Some pid \<and> ts x \<noteq> Terminated"
    "n_blocked st x \<Longrightarrow> n_processor_id st x = Some pid \<Longrightarrow> x \<in> set bs \<union> E"
    "cur = Some c \<Longrightarrow> c \<notin> set rs \<union> set bs \<and> n_link0 st c = None \<and> n_link1 st c = None \<and> n_link2 st c = None \<and> n_processor_id st c = Some pid"
  using assms unfolding lists_ok_def by blast+

lemma mset_add_set: "mset xs = add_mset x (mset ys) \<Longrightarrow> set xs = insert x (set ys)"
  by (metis mset.simps(2) mset_eq_setD list.simps(15))

section \<open>Moving a node between the lists\<close>

lemma push_run_lists:
  assumes ok: "lists_ok st q h pid cur ts rs bs E" and x: "x \<notin> set rs \<union> set bs" "n_link0 st x = None" "n_link1 st x = None" "n_link2 st x = None"
    "n_processor_id st x = Some pid" "\<not> n_blocked st x" "ts x \<noteq> Terminated"
  shows "\<exists>q' st'. queue_push x q st = Some (q', st') \<and> lists_ok st' q' h pid (if cur = Some x then None else cur) ts (rs @ [x]) bs E \<and>
    frame (insert x (set rs)) st st'"
proof -
  note D = lists_okD [OF ok]
  obtain q' st' where q: "queue_push x q st = Some (q', st')" "queue_ok st' q' (rs @ [x])" "frame (insert x (set rs)) st st'" "n_link2 st' = n_link2 st"
    using queue_push_spec [OF D(1), of x] x by auto
  note F = frame_fields [OF q(3)]
  have L: "n_link0 st' y = n_link0 st y" "n_link1 st' y = n_link1 st y" if "y \<notin> insert x (set rs)" for y
    using frame_links [OF q(3) that] by simp_all
  have "heap_ok st' h bs" using D(2)
  proof (rule heap_ok_cong)
    fix y assume "y \<in> set bs"
    then have "y \<notin> insert x (set rs)" using x(1) D(3) by auto
    then show "n_link0 st' y = n_link0 st y \<and> n_link1 st' y = n_link1 st y \<and> n_link2 st' y = n_link2 st y \<and> n_wake_time_ns st' y = n_wake_time_ns st y"
      using L q(4) F(1) by simp
  qed
  moreover have "c \<notin> set (rs @ [x]) \<union> set bs \<and> n_link0 st' c = None \<and> n_link1 st' c = None \<and> n_link2 st' c = None \<and> n_processor_id st' c = Some pid"
    if "(if cur = Some x then None else cur) = Some c" for c
  proof -
    have c: "cur = Some c" "c \<noteq> x" using that by (auto split: if_splits)
    then show ?thesis using D(7) [OF c(1)] L [of c] q(4) F(5) by auto
  qed
  ultimately have "lists_ok st' q' h pid (if cur = Some x then None else cur) ts (rs @ [x]) bs E"
    using q(2,4) x F(5,6) D(3-6) unfolding lists_ok_def by auto
  then show ?thesis using q by blast
qed

lemma pop_run_lists:
  assumes ok: "lists_ok st q h pid None ts (x # rs) bs E"
  shows "\<exists>q' st'. queue_pop_front q st = (Some x, q', st') \<and> lists_ok st' q' h pid (Some x) ts rs bs E \<and> frame (set (x # rs)) st st'"
proof -
  note D = lists_okD [OF ok]
  obtain q' st' where q: "queue_pop x q st = (q', st')" "queue_ok st' q' rs" "frame (set (x # rs)) st st'"
      "n_link0 st' x = None" "n_link1 st' x = None" "n_link2 st' = n_link2 st"
    using queue_pop_spec [of st q "[]" x rs] D(1) by auto
  note F = frame_fields [OF q(3)]
  have "heap_ok st' h bs" using D(2)
  proof (rule heap_ok_cong)
    fix y assume "y \<in> set bs"
    then have "y \<notin> set (x # rs)" using D(3) by auto
    then show "n_link0 st' y = n_link0 st y \<and> n_link1 st' y = n_link1 st y \<and> n_link2 st' y = n_link2 st y \<and> n_wake_time_ns st' y = n_wake_time_ns st y"
      using frame_links [OF q(3)] F(1) by simp
  qed
  moreover have "x \<notin> set rs" using D(1) by (simp add: queue_ok_def)
  ultimately have "lists_ok st' q' h pid (Some x) ts rs bs E" using q F(5,6) D(3-6) unfolding lists_ok_def by auto
  then show ?thesis using q queue_pop_front_spec(2) [OF D(1)] by auto
qed

lemma push_block_lists:
  assumes ok: "lists_ok st q h pid (Some c) ts rs bs {c}" and c: "n_blocked st c" "ts c \<noteq> Terminated"
  shows "\<exists>h' st' bs'. heap_push c (h, st) = Some (h', st') \<and> lists_ok st' q h' pid None ts rs bs' {} \<and> mset bs' = add_mset c (mset bs) \<and>
    frame (insert c (set bs)) st st'"
proof -
  note D = lists_okD [OF ok]
  have l: "c \<notin> set rs" "c \<notin> set bs" "n_link0 st c = None" "n_link1 st c = None" "n_link2 st c = None" "n_processor_id st c = Some pid"
    using D(7) [OF refl] by auto
  obtain h' st' bs' where h: "heap_push c (h, st) = Some (h', st')" "heap_ok st' h' bs'" "mset bs' = add_mset c (mset bs)" "frame (insert c (set bs)) st st'"
    using heap_push_spec [OF D(2) l(2-5)] by blast
  note F = frame_fields [OF h(4)]
  have bs: "set bs' = insert c (set bs)" using h(3) by (rule mset_add_set)
  have same: "n_link0 st' y = n_link0 st y \<and> n_link1 st' y = n_link1 st y \<and> n_link2 st' y = n_link2 st y" if "y \<in> set rs" for y
  proof -
    have "y \<notin> insert c (set bs)" using that D(3) l(1) by auto
    then show ?thesis using frame_links [OF h(4)] by simp
  qed
  have "queue_ok st' q rs" using D(1) by (rule queue_ok_cong) (use same in blast)
  then have "lists_ok st' q h' pid None ts rs bs' {}" using h(2) bs l c same F(5,6) D(3-6) unfolding lists_ok_def by auto
  then show ?thesis using h by blast
qed

lemma wake_lists:
  assumes ok: "lists_ok st q h pid cur ts rs bs E" and x: "x \<in> set bs"
  obtains h1 st1 bs' where "heap_pop x (h, st) = Some (h1, st1)" "mset bs = add_mset x (mset bs')" "frame (set bs) st st1"
    "\<And>st2. n_link0 st2 = n_link0 st1 \<Longrightarrow> n_link1 st2 = n_link1 st1 \<Longrightarrow> n_link2 st2 = n_link2 st1 \<Longrightarrow>
       n_wake_time_ns st2 = n_wake_time_ns st \<Longrightarrow> n_blocked st2 = (n_blocked st)(x := False) \<Longrightarrow> n_processor_id st2 = n_processor_id st \<Longrightarrow>
       \<exists>q' st'. queue_push x q st2 = Some (q', st') \<and> lists_ok st' q' h1 pid cur ts (rs @ [x]) bs' E \<and> frame (insert x (set rs)) st2 st'"
proof -
  note D = lists_okD [OF ok]
  obtain h1 st1 bs' where pop: "heap_pop x (h, st) = Some (h1, st1)" "heap_ok st1 h1 bs'" "mset bs = add_mset x (mset bs')"
      "frame (set bs) st st1" "n_link0 st1 x = None" "n_link1 st1 x = None" "n_link2 st1 x = None"
    using heap_pop_spec [OF D(2) x] by blast
  have bs: "set bs = insert x (set bs')" using pop(3) by (rule mset_add_set)
  have "distinct bs" using D(2) by (simp add: heap_ok_def tree_ok_def)
  then have "distinct (x # bs')" using pop(3) by (metis mset.simps(2) mset_eq_imp_distinct_iff)
  then have x': "x \<notin> set bs'" by simp
  have same: "n_link0 st1 y = n_link0 st y" "n_link1 st1 y = n_link1 st y" "n_link2 st1 y = n_link2 st y" if "y \<notin> set bs" for y
    using frame_links [OF pop(4) that] by simp_all
  have push: "\<exists>q' st'. queue_push x q st2 = Some (q', st') \<and> lists_ok st' q' h1 pid cur ts (rs @ [x]) bs' E \<and> frame (insert x (set rs)) st2 st'"
    if st2: "n_link0 st2 = n_link0 st1" "n_link1 st2 = n_link1 st1" "n_link2 st2 = n_link2 st1" "n_wake_time_ns st2 = n_wake_time_ns st"
      "n_blocked st2 = (n_blocked st)(x := False)" "n_processor_id st2 = n_processor_id st" for st2
  proof -
    have xr: "x \<notin> set rs" and rb: "y \<in> set rs \<Longrightarrow> y \<notin> set bs" for y using x D(3) by blast+
    have cb: "c \<notin> set bs" "c \<noteq> x" if "cur = Some c" for c using D(7) [OF that] x by auto
    have "queue_ok st2 q rs" using D(1) by (rule queue_ok_cong) (use same rb st2 in auto)
    moreover have "heap_ok st2 h1 bs'" using pop(2) by (rule heap_ok_cong) (use st2 frame_fields(1) [OF pop(4)] in simp)
    moreover have "n_blocked st2 y \<and> n_processor_id st2 y = Some pid \<longrightarrow> y \<in> set bs' \<union> E" for y
      using D(6) [of y] bs st2(5,6) by (auto split: if_splits)
    moreover have "\<forall>y\<in>set rs. n_link2 st2 y = None \<and> \<not> n_blocked st2 y \<and> n_processor_id st2 y = Some pid \<and> ts y \<noteq> Terminated"
      using D(4) rb same(3) st2(3,5,6) by simp
    moreover have "\<forall>y\<in>set bs'. n_blocked st2 y \<and> n_processor_id st2 y = Some pid \<and> ts y \<noteq> Terminated" using D(5) bs x' st2(5,6) by auto
    moreover have "\<forall>c. cur = Some c \<longrightarrow> c \<notin> set rs \<union> set bs' \<and> n_link0 st2 c = None \<and> n_link1 st2 c = None \<and> n_link2 st2 c = None \<and> n_processor_id st2 c = Some pid"
      using D(7) cb(1) same bs st2(1-3,6) by simp
    moreover have "set rs \<inter> set bs' = {}" using D(3) bs by auto
    ultimately have "lists_ok st2 q h1 pid cur ts rs bs' E" unfolding lists_ok_def by blast
    moreover have "(if cur = Some x then None else cur) = cur" using cb(2) by auto
    ultimately show ?thesis using push_run_lists [of st2 q h1 pid cur ts rs bs' E x] xr x' pop(5-7) D(5) [OF x] st2 by auto
  qed
  show ?thesis using that [OF pop(1,3,4) push] .
qed

section \<open>The chains of the blockers\<close>

text \<open>An operation on a chain changes only the members that link the nodes into chains.\<close>

definition chain_frame :: "node_store \<Rightarrow> node_store \<Rightarrow> bool" where
  "chain_frame st st' \<longleftrightarrow> st' = st\<lparr>n_blocker := n_blocker st', n_block_chain_prev := n_block_chain_prev st', n_block_chain_next := n_block_chain_next st'\<rparr>"

lemma chain_frame_fields:
  assumes "chain_frame st st'"
  shows "n_link0 st' = n_link0 st" "n_link1 st' = n_link1 st" "n_link2 st' = n_link2 st" "n_wake_time_ns st' = n_wake_time_ns st"
    "n_blocked st' = n_blocked st" "n_processor_id st' = n_processor_id st" "n_last_start_ns st' = n_last_start_ns st"
    "n_time_used_ns st' = n_time_used_ns st"
  using assms unfolding chain_frame_def by (cases st; cases st'; auto)+

lemma set_chain_frame [simp]:
  "chain_frame st (set_chain x b pv nx st)" "chain_frame st (set_chain_prev p v st)" "chain_frame st (set_chain_next p v st)"
  by (simp_all add: chain_frame_def set_chain_def set_chain_prev_def set_chain_next_def split: option.splits)

lemma chain_frame_trans: "chain_frame st st' \<Longrightarrow> chain_frame st' st'' \<Longrightarrow> chain_frame st st''"
  unfolding chain_frame_def by (cases st; cases st'; cases st'') auto

lemma set_chain_simps [simp]:
  "n_blocker (set_chain x b pv nx st) = (n_blocker st)(x := b)"
  "n_block_chain_prev (set_chain x b pv nx st) = (n_block_chain_prev st)(x := pv)"
  "n_block_chain_next (set_chain x b pv nx st) = (n_block_chain_next st)(x := nx)"
  "n_blocked (set_chain x b pv nx st) = n_blocked st"
  "n_processor_id (set_chain x b pv nx st) = n_processor_id st"
  "n_processor_id (set_chain_prev p v st) = n_processor_id st"
  "n_processor_id (set_chain_next p v st) = n_processor_id st"
  "n_blocker (set_chain_prev p v st) = n_blocker st"
  "n_blocker (set_chain_next p v st) = n_blocker st"
  "n_blocked (set_chain_prev p v st) = n_blocked st"
  "n_blocked (set_chain_next p v st) = n_blocked st"
  "n_block_chain_next (set_chain_prev p v st) = n_block_chain_next st"
  "n_block_chain_prev (set_chain_next p v st) = n_block_chain_prev st"
  "n_block_chain_prev (set_chain_prev p v st) = (case p of None \<Rightarrow> n_block_chain_prev st | Some y \<Rightarrow> (n_block_chain_prev st)(y := v))"
  "n_block_chain_next (set_chain_next p v st) = (case p of None \<Rightarrow> n_block_chain_next st | Some y \<Rightarrow> (n_block_chain_next st)(y := v))"
  by (auto simp: set_chain_def set_chain_prev_def set_chain_next_def split: option.splits)

lemma chains_okD:
  assumes "chains_ok st heads C W"
  shows "n_blocker st x \<noteq> None \<Longrightarrow> n_blocked st x \<and> n_processor_id st x \<noteq> None" "distinct (C b)" "x \<in> set (C b) \<longleftrightarrow> n_blocker st x = Some b"
    "\<exists>pv. dll (n_block_chain_next st) (n_block_chain_prev st) pv (heads b) (C b) \<and> (b \<notin> W \<longrightarrow> pv = None)"
  using assms unfolding chains_ok_def by blast+

lemma add_chain:
  assumes ok: "chains_ok (sc_nodes s) (sc_chains s) C W" and x: "blocked_at s x" "blocker_at s x = None" "n_processor_id (sc_nodes s) x \<noteq> None" and b: "b \<notin> W"
  shows "\<exists>st'. add_thread_to_block_queue b x s = Some (s\<lparr>sc_nodes := st', sc_chains := (sc_chains s)(b := Some x)\<rparr>) \<and>
    chains_ok st' ((sc_chains s)(b := Some x)) (C(b := x # C b)) W \<and> chain_frame (sc_nodes s) st'"
proof -
  let ?st = "sc_nodes s" and ?h = "sc_chains s b"
  note D = chains_okD [OF ok]
  define st' where "st' = set_chain_prev ?h (Some x) (set_chain x (Some b) None ?h ?st)"
  have d: "dll (n_block_chain_next ?st) (n_block_chain_prev ?st) None ?h (C b)" using D(4) [of b] b by blast
  have xC: "x \<notin> set (C c)" for c using D(3) x(2) by simp
  have h: "?h = ptr (C b) 0" using d by (cases "C b") (auto simp: ptr_def)
  have "dll (n_block_chain_next st') (n_block_chain_prev st') None (Some x) (x # C b)"
  proof (cases "C b")
    case Nil
    then show ?thesis using d by (simp add: st'_def)
  next
    case (Cons y ys)
    have hy: "?h = Some y" using h Cons by (simp add: ptr_def)
    have "dll (n_block_chain_next st') (n_block_chain_prev st') (Some y) (n_block_chain_next ?st y) ys"
    proof (rule dll_cong [THEN iffD2])
      show "n_block_chain_next st' z = n_block_chain_next ?st z \<and> n_block_chain_prev st' z = n_block_chain_prev ?st z" if "z \<in> set ys" for z
        using that xC [of b] Cons D(2) [of b] hy by (auto simp: st'_def)
      show "dll (n_block_chain_next ?st) (n_block_chain_prev ?st) (Some y) (n_block_chain_next ?st y) ys" using d Cons by simp
    qed
    then show ?thesis using Cons hy xC [of b] by (auto simp: st'_def)
  qed
  moreover have "\<exists>pv. dll (n_block_chain_next st') (n_block_chain_prev st') pv (sc_chains s c) (C c) \<and> (c \<notin> W \<longrightarrow> pv = None)" if "c \<noteq> b" for c
  proof -
    have "n_block_chain_next st' z = n_block_chain_next ?st z \<and> n_block_chain_prev st' z = n_block_chain_prev ?st z" if "z \<in> set (C c)" for z
    proof -
      have "z \<noteq> x" "z \<notin> set (C b)" using that xC D(3) \<open>c \<noteq> b\<close> by auto
      then show ?thesis using h by (auto simp: st'_def ptr_def split: if_splits)
    qed
    then show ?thesis using D(4) [of c] dll_cong by metis
  qed
  ultimately have "chains_ok st' ((sc_chains s)(b := Some x)) (C(b := x # C b)) W"
    using D(1-3) xC x unfolding chains_ok_def by (auto simp: st'_def)
  moreover have "chain_frame ?st st'" unfolding st'_def by (rule chain_frame_trans [OF set_chain_frame(1) set_chain_frame(2)])
  moreover have "add_thread_to_block_queue b x s = Some (s\<lparr>sc_nodes := st', sc_chains := (sc_chains s)(b := Some x)\<rparr>)"
    using x by (simp add: add_thread_to_block_queue_def st'_def Let_def)
  ultimately show ?thesis by blast
qed

lemma remove_chain:
  assumes ok: "chains_ok (sc_nodes s) (sc_chains s) C W" and x: "blocker_at s x = Some b" and b: "b \<notin> W"
  shows "\<exists>st' heads'. remove_thread_from_block_queue b x s = Some (s\<lparr>sc_nodes := st', sc_chains := heads'\<rparr>) \<and>
    chains_ok st' heads' (\<lambda>c. remove1 x (C c)) W \<and> chain_frame (sc_nodes s) st' \<and> n_blocker st' x = None"
proof -
  let ?st = "sc_nodes s"
  note D = chains_okD [OF ok]
  have blk: "blocked_at s x" using D(1) x by simp
  obtain xs ys where C: "C b = xs @ x # ys" using D(3) x split_list by metis
  have d: "dll (n_block_chain_next ?st) (n_block_chain_prev ?st) None (sc_chains s b) (xs @ x # ys)" using D(4) [of b] b C by auto
  have dis: "distinct (xs @ x # ys)" using D(2) [of b] C by simp
  let ?p = "n_block_chain_prev ?st x" and ?n = "n_block_chain_next ?st x"
  have p: "?p = (if xs = [] then None else Some (last xs))" and n: "?n = ptr ys 0" using dll_prev [OF d] dll_next [OF d] by simp_all
  define st1 where "st1 = set_chain_next ?p ?n ?st"
  have st1x: "n_block_chain_next st1 x = ?n" "n_block_chain_prev st1 x = ?p" using p dis by (auto simp: st1_def)
  define st' where "st' = set_chain x None None None (set_chain_prev ?n ?p st1)"
  define heads' where "heads' = (if sc_chains s b = Some x then (sc_chains s)(b := ?n) else sc_chains s)"
  have eq: "remove_thread_from_block_queue b x s = Some (s\<lparr>sc_nodes := st', sc_chains := heads'\<rparr>)"
    using x blk st1x unfolding st1_def by (simp add: remove_thread_from_block_queue_def st'_def heads'_def st1_def Let_def)
  have "sc_chains s b = Some x \<longleftrightarrow> xs = []" using d dis by (cases xs) auto
  then have hb: "heads' b = (if xs = [] then ?n else sc_chains s b)" and hc: "c \<noteq> b \<Longrightarrow> heads' c = sc_chains s c" for c by (auto simp: heads'_def)
  have fields: "n_block_chain_next st' z = (case ?p of None \<Rightarrow> n_block_chain_next ?st | Some q \<Rightarrow> (n_block_chain_next ?st)(q := ?n)) z"
      "n_block_chain_prev st' z = (case ?n of None \<Rightarrow> n_block_chain_prev ?st | Some q \<Rightarrow> (n_block_chain_prev ?st)(q := ?p)) z" if "z \<noteq> x" for z
    using that by (auto simp: st'_def st1_def split: option.splits)
  have at_b: "dll (n_block_chain_next st') (n_block_chain_prev st') None (heads' b) (xs @ ys)"
  proof (rule dll_cong [THEN iffD2])
    show "dll (case ?p of None \<Rightarrow> n_block_chain_next ?st | Some q \<Rightarrow> (n_block_chain_next ?st)(q := ?n))
        (case ?n of None \<Rightarrow> n_block_chain_prev ?st | Some q \<Rightarrow> (n_block_chain_prev ?st)(q := ?p)) None (heads' b) (xs @ ys)"
      unfolding hb by (rule dll_remove [OF d dis]) simp_all
    fix z assume "z \<in> set (xs @ ys)"
    then have "z \<noteq> x" using dis by auto
    then show "n_block_chain_next st' z = (case ?p of None \<Rightarrow> n_block_chain_next ?st | Some q \<Rightarrow> (n_block_chain_next ?st)(q := ?n)) z \<and>
        n_block_chain_prev st' z = (case ?n of None \<Rightarrow> n_block_chain_prev ?st | Some q \<Rightarrow> (n_block_chain_prev ?st)(q := ?p)) z"
      using fields by blast
  qed
  have at_c: "\<exists>pv. dll (n_block_chain_next st') (n_block_chain_prev st') pv (heads' c) (C c) \<and> (c \<notin> W \<longrightarrow> pv = None)" if c: "c \<noteq> b" for c
  proof -
    have "n_block_chain_next st' z = n_block_chain_next ?st z \<and> n_block_chain_prev st' z = n_block_chain_prev ?st z" if z: "z \<in> set (C c)" for z
    proof -
      have "z \<notin> set (C b)" using z D(3) c by auto
      then have "z \<noteq> x" "?p \<noteq> Some z" "?n \<noteq> Some z" using p n C by (auto simp: ptr_def)
      then show ?thesis using fields [of z] by (auto split: option.splits)
    qed
    then show ?thesis using D(4) [of c] hc [OF c] dll_cong by metis
  qed
  have "x \<notin> set (C c)" if "c \<noteq> b" for c using D(3) x that by simp
  then have rem: "remove1 x (C c) = (if c = b then xs @ ys else C c)" for c using C dis by (auto simp: remove1_append remove1_idem)
  have bl: "n_blocker st' = (n_blocker ?st)(x := None)" "n_blocked st' = n_blocked ?st" "n_processor_id st' = n_processor_id ?st" by (simp_all add: st'_def st1_def)
  have "distinct (remove1 x (C c)) \<and> set (remove1 x (C c)) = {z. n_blocker st' z = Some c} \<and>
      (\<exists>pv. dll (n_block_chain_next st') (n_block_chain_prev st') pv (heads' c) (remove1 x (C c)) \<and> (c \<notin> W \<longrightarrow> pv = None))" for c
  proof (cases "c = b")
    case True
    have "set (xs @ ys) = {z. n_blocker st' z = Some b}" using D(3) [of _ b] C dis bl(1) by auto
    then show ?thesis using True at_b dis unfolding rem by auto
  next
    case False
    have "set (C c) = {z. n_blocker st' z = Some c}" using D(3) [of _ c] x False bl(1) by auto
    then show ?thesis using False at_c [OF False] D(2) [of c] unfolding rem by auto
  qed
  then have "chains_ok st' heads' (\<lambda>c. remove1 x (C c)) W" using D(1) bl unfolding chains_ok_def by auto
  moreover have "chain_frame ?st st'" unfolding st'_def st1_def
    by (rule chain_frame_trans [OF chain_frame_trans [OF set_chain_frame(3) set_chain_frame(2)] set_chain_frame(1)])
  moreover have "n_blocker st' x = None" by (simp add: st'_def)
  ultimately show ?thesis using eq by blast
qed

lemma pop_chain:
  assumes ok: "chains_ok st heads C W" and x: "heads b = Some x"
  obtains ys where "C b = x # ys" "n_blocker st x = Some b" "n_blocked st x"
    "chains_ok (set_chain x None None None st) (heads(b := n_block_chain_next st x)) (C(b := ys)) (insert b W)"
proof -
  note D = chains_okD [OF ok]
  obtain pv where pv: "dll (n_block_chain_next st) (n_block_chain_prev st) pv (heads b) (C b)" using D(4) [of b] by blast
  then obtain ys where C: "C b = x # ys" using x by (cases "C b") auto
  have bx: "n_blocker st x = Some b" using D(3) C by (metis list.set_intros(1))
  let ?st = "set_chain x None None None st" and ?heads = "heads(b := n_block_chain_next st x)" and ?C = "C(b := ys)"
  have dis: "x \<notin> set ys" "distinct ys" using D(2) [of b] C by auto
  have other: "dll (n_block_chain_next ?st) (n_block_chain_prev ?st) p h zs = dll (n_block_chain_next st) (n_block_chain_prev st) p h zs"
    if "x \<notin> set zs" for p h zs using that by (intro dll_cong) auto
  have "distinct (?C c) \<and> set (?C c) = {z. n_blocker ?st z = Some c} \<and>
      (\<exists>p. dll (n_block_chain_next ?st) (n_block_chain_prev ?st) p (?heads c) (?C c) \<and> (c \<notin> insert b W \<longrightarrow> p = None))" for c
  proof (cases "c = b")
    case True
    have "set ys = {z. n_blocker ?st z = Some b}" using D(3) [of _ b] C dis by auto
    then show ?thesis using True dis pv C x other [OF dis(1)] by auto
  next
    case False
    have "set (C c) = {z. n_blocker ?st z = Some c}" "x \<notin> set (C c)" using D(3) [of _ c] bx False by auto
    then show ?thesis using False D(2,4) [of c] other by auto
  qed
  then have "chains_ok ?st ?heads ?C (insert b W)" using D(1) unfolding chains_ok_def by auto
  then show ?thesis using that C bx D(1) by simp
qed

lemma finish_chain:
  assumes ok: "chains_ok st heads C (insert b W)"
  shows "chains_ok (set_chain_prev (heads b) None st) heads C W"
proof -
  note D = chains_okD [OF ok]
  let ?st = "set_chain_prev (heads b) None st"
  obtain pv where pv: "dll (n_block_chain_next st) (n_block_chain_prev st) pv (heads b) (C b)" using D(4) [of b] by blast
  have hd: "heads b = ptr (C b) 0" using pv by (cases "C b") (auto simp: ptr_def)
  have "\<exists>p. dll (n_block_chain_next ?st) (n_block_chain_prev ?st) p (heads c) (C c) \<and> (c \<notin> W \<longrightarrow> p = None)" for c
  proof (cases "c = b")
    case True
    have "dll (n_block_chain_next ?st) (n_block_chain_prev ?st) None (heads b) (C b)"
    proof (cases "C b")
      case (Cons y ys)
      have "dll (n_block_chain_next ?st) (n_block_chain_prev ?st) (Some y) (n_block_chain_next st y) ys =
          dll (n_block_chain_next st) (n_block_chain_prev st) (Some y) (n_block_chain_next st y) ys"
        using D(2) [of b] Cons hd by (intro dll_cong) (auto simp: ptr_def)
      then show ?thesis using pv Cons hd by (simp add: ptr_def)
    qed (use pv in simp)
    then show ?thesis using True by blast
  next
    case False
    have "heads b \<noteq> Some z" if "z \<in> set (C c)" for z using that D(3) False hd nth_mem [of 0 "C b"] by (auto simp: ptr_def split: if_splits)
    then have "dll (n_block_chain_next ?st) (n_block_chain_prev ?st) p h (C c) = dll (n_block_chain_next st) (n_block_chain_prev st) p h (C c)" for p h
      by (intro dll_cong) (auto split: option.splits)
    then show ?thesis using D(4) [of c] False by auto
  qed
  then show ?thesis using D(1,2,3) unfolding chains_ok_def by auto
qed

section \<open>Unblocking\<close>

text \<open>What moving threads between the lists leaves alone.\<close>

definition sched_same :: "sched \<Rightarrow> sched \<Rightarrow> bool" where
  "sched_same s s' \<longleftrightarrow>
     s' = s\<lparr>sc_nodes := sc_nodes s', sc_run := sc_run s', sc_block := sc_block s', sc_chains := sc_chains s', sc_sent := sc_sent s'\<rparr> \<and>
     n_wake_time_ns (sc_nodes s') = n_wake_time_ns (sc_nodes s) \<and> n_processor_id (sc_nodes s') = n_processor_id (sc_nodes s) \<and>
     n_last_start_ns (sc_nodes s') = n_last_start_ns (sc_nodes s) \<and> n_time_used_ns (sc_nodes s') = n_time_used_ns (sc_nodes s)"

lemma sched_same_refl [simp]: "sched_same s s"
  by (simp add: sched_same_def)

lemma sched_same_trans: "sched_same s s' \<Longrightarrow> sched_same s' s'' \<Longrightarrow> sched_same s s''"
  unfolding sched_same_def by (cases s; cases s'; cases s'') auto

lemma sched_same_fields:
  assumes "sched_same s s'"
  shows "sc_processor s' = sc_processor s" "sc_current s' = sc_current s" "sc_state s' = sc_state s"
    "n_wake_time_ns (sc_nodes s') = n_wake_time_ns (sc_nodes s)" "n_processor_id (sc_nodes s') = n_processor_id (sc_nodes s)"
    "sc_next_reschedule_ns s' = sc_next_reschedule_ns s" "sc_idle_state s' = sc_idle_state s"
  using assms unfolding sched_same_def by (cases s; cases s'; simp)+

lemma unblock_thread_local:
  assumes ok: "sched_ok s rs bs C E W" and x: "x \<in> set bs" and W: "\<And>b. blocker_at s x = Some b \<Longrightarrow> b \<notin> W"
  shows "\<exists>s' bs'. unblock_thread x s = Some s' \<and> sched_ok s' (rs @ [x]) bs' (\<lambda>c. remove1 x (C c)) E W \<and> mset bs = add_mset x (mset bs') \<and>
    sched_same s s' \<and> sc_sent s' = sc_sent s"
proof -
  let ?st = "sc_nodes s"
  have l: "lists_ok ?st (sc_run s) (sc_block s) (sc_processor s) (sc_current s) (sc_state s) rs bs E" and c: "chains_ok ?st (sc_chains s) C W"
    using ok by (simp_all add: sched_ok_def)
  have xb: "n_blocked ?st x" "n_processor_id ?st x = Some (sc_processor s)" using lists_okD(5) [OF l x] by auto
  obtain h1 st1 bs' where pop: "heap_pop x (sc_block s, ?st) = Some (h1, st1)" "mset bs = add_mset x (mset bs')" "frame (set bs) ?st st1"
    and push: "\<And>st2. n_link0 st2 = n_link0 st1 \<Longrightarrow> n_link1 st2 = n_link1 st1 \<Longrightarrow> n_link2 st2 = n_link2 st1 \<Longrightarrow>
       n_wake_time_ns st2 = n_wake_time_ns ?st \<Longrightarrow> n_blocked st2 = (n_blocked ?st)(x := False) \<Longrightarrow> n_processor_id st2 = n_processor_id ?st \<Longrightarrow>
       \<exists>q' st'. queue_push x (sc_run s) st2 = Some (q', st') \<and>
         lists_ok st' q' h1 (sc_processor s) (sc_current s) (sc_state s) (rs @ [x]) bs' E \<and> frame (insert x (set rs)) st2 st'"
    using wake_lists [OF l x] by metis
  note F1 = frame_fields [OF pop(3)]
  define s1 where "s1 = s\<lparr>sc_block := h1, sc_nodes := st1\<rparr>"
  have c1: "chains_ok (sc_nodes s1) (sc_chains s1) C W" using chains_ok_cong [OF c, of st1] F1 by (simp add: s1_def)
  obtain s2 where s2: "(case blocker_at s1 x of None \<Rightarrow> Some s1 | Some b \<Rightarrow> remove_thread_from_block_queue b x s1) = Some s2"
      "s2 = s1\<lparr>sc_nodes := sc_nodes s2, sc_chains := sc_chains s2\<rparr>" "chains_ok (sc_nodes s2) (sc_chains s2) (\<lambda>c. remove1 x (C c)) W"
      "chain_frame st1 (sc_nodes s2)" "n_blocker (sc_nodes s2) x = None"
  proof (cases "blocker_at s1 x")
    case None
    then have "x \<notin> set (C b)" for b using chains_okD(3) [OF c1] by simp
    then have "(\<lambda>c. remove1 x (C c)) = C" by (simp add: remove1_idem fun_eq_iff)
    then show ?thesis using that [of s1] None c1 by (simp add: chain_frame_def s1_def)
  next
    case (Some b)
    then have "b \<notin> W" using W F1(2) by (simp add: s1_def)
    from remove_chain [OF c1 Some this] Some show ?thesis using that by (auto simp: s1_def)
  qed
  note F2 = chain_frame_fields [OF s2(4)]
  define s3 where "s3 = set_blocked x False s2"
  have st3: "sc_nodes s3 = (sc_nodes s2)\<lparr>n_blocked := (n_blocked (sc_nodes s2))(x := False)\<rparr>" by (simp add: s3_def set_blocked_def)
  obtain q' st' where q: "queue_push x (sc_run s) (sc_nodes s3) = Some (q', st')"
      "lists_ok st' q' h1 (sc_processor s) (sc_current s) (sc_state s) (rs @ [x]) bs' E" "frame (insert x (set rs)) (sc_nodes s3) st'"
    using push [of "sc_nodes s3"] F1 F2 st3 by auto
  note F3 = frame_fields [OF q(3)]
  have c3: "chains_ok st' (sc_chains s2) (\<lambda>c. remove1 x (C c)) W"
  proof (rule chains_ok_cong [OF s2(3)])
    show "n_blocked st' y" if "n_blocker (sc_nodes s2) y \<noteq> None" "n_blocked (sc_nodes s2) y" for y
      using that s2(5) F3(6) st3 by auto
  qed (use F3 st3 in simp_all)
  define s' where "s' = s3\<lparr>sc_run := q', sc_nodes := st'\<rparr>"
  have run3: "sc_run s3 = sc_run s" using s2(2) by (metis s1_def s3_def set_blocked_def sched.select_convs(5) sched.surjective sched.update_convs)
  have "unblock_thread x s = Some s'"
    using xb pop(1) s2(1) [unfolded s1_def] q(1) run3 unfolding unblock_thread_def by (simp add: s3_def Let_def s'_def)
  moreover have "s' = s\<lparr>sc_nodes := st', sc_run := q', sc_block := h1, sc_chains := sc_chains s2\<rparr>"
    using s2(2) unfolding s'_def s3_def s1_def set_blocked_def by (cases s; cases s2) simp
  ultimately show ?thesis using q(2) c3 pop(2) F1 F2 F3 st3
    by (intro exI [of _ s'] exI [of _ bs']) (simp add: sched_ok_def sched_same_def)
qed

abbreviation local_of :: "sched \<Rightarrow> nat \<Rightarrow> bool" where
  "local_of s x \<equiv> n_processor_id (sc_nodes s) x = Some (sc_processor s)"

definition unblock_messages :: "sched \<Rightarrow> nat list \<Rightarrow> (nat \<times> smp_message) list" where
  "unblock_messages s xs = map (\<lambda>x. (the (n_processor_id (sc_nodes s) x), UnblockThread x)) (filter (\<lambda>x. \<not> local_of s x) xs)"

lemma sched_okD:
  assumes "sched_ok s rs bs C E W"
  shows "lists_ok (sc_nodes s) (sc_run s) (sc_block s) (sc_processor s) (sc_current s) (sc_state s) rs bs E"
    "chains_ok (sc_nodes s) (sc_chains s) C W"
  using assms by (simp_all add: sched_ok_def)

lemma chains_ok_mono: "chains_ok st heads C W \<Longrightarrow> W \<subseteq> W' \<Longrightarrow> chains_ok st heads C W'"
  unfolding chains_ok_def by blast

text \<open>The thread that the loop has taken off the chain goes to the run list, or a message goes to its processor.\<close>

lemma unblock_popped:
  assumes ok: "sched_ok s rs bs C {} W" and x: "blocked_at s x" "blocker_at s x = None" "n_processor_id (sc_nodes s) x \<noteq> None"
  shows "\<exists>s' bs'. unblock_thread x s = Some s' \<and> sched_ok s' (rs @ filter (local_of s) [x]) bs' C {} W \<and>
    mset bs = mset (filter (local_of s) [x]) + mset bs' \<and> sc_sent s' = sc_sent s @ unblock_messages s [x] \<and> sched_same s s'"
proof (cases "local_of s x")
  case True
  have "x \<in> set bs" using lists_okD(6) [OF sched_okD(1) [OF ok] x(1) True] by simp
  moreover have "x \<notin> set (C c)" for c using chains_okD(3) [OF sched_okD(2) [OF ok]] x(2) by simp
  then have "(\<lambda>c. remove1 x (C c)) = C" by (simp add: remove1_idem fun_eq_iff)
  ultimately show ?thesis using unblock_thread_local [OF ok, of x] x(2) True by (auto simp: unblock_messages_def)
next
  case False
  then obtain p where "n_processor_id (sc_nodes s) x = Some p" "p \<noteq> sc_processor s" using x(3) by auto
  then show ?thesis using ok by (auto simp: unblock_thread_def unblock_messages_def sched_ok_def sched_same_def)
qed

lemma blocker_unblock_loop_spec:
  assumes "sched_ok s rs bs C {} W" "W \<subseteq> {b}"
  shows "\<exists>s' bs'. blocker_unblock_loop n b s = Some s' \<and>
    sched_ok s' (rs @ filter (local_of s) (take n (C b))) bs' (C(b := drop n (C b))) {} {b} \<and>
    mset bs = mset (filter (local_of s) (take n (C b))) + mset bs' \<and> sc_sent s' = sc_sent s @ unblock_messages s (take n (C b)) \<and> sched_same s s'"
  using assms
proof (induction n arbitrary: s rs bs C W)
  case 0
  then show ?case using chains_ok_mono by (auto simp: sched_ok_def unblock_messages_def)
next
  case (Suc n)
  note l = sched_okD(1) [OF Suc.prems(1)] and c = sched_okD(2) [OF Suc.prems(1)]
  show ?case
  proof (cases "sc_chains s b")
    case None
    then have "C b = []" using chains_okD(4) [OF c, of b] by (cases "C b") auto
    moreover from this have "C(b := []) = C" by (auto simp: fun_eq_iff)
    ultimately show ?thesis using None Suc.prems chains_ok_mono by (auto simp: sched_ok_def unblock_messages_def)
  next
    case (Some x)
    obtain ys where C: "C b = x # ys" and bx: "n_blocker (sc_nodes s) x = Some b" "n_blocked (sc_nodes s) x"
      and c1: "chains_ok (set_chain x None None None (sc_nodes s)) ((sc_chains s)(b := n_block_chain_next (sc_nodes s) x)) (C(b := ys)) (insert b W)"
      using pop_chain [OF c Some] by metis
    define s1 where "s1 = s\<lparr>sc_chains := (sc_chains s)(b := n_block_chain_next (sc_nodes s) x), sc_nodes := set_chain x None None None (sc_nodes s)\<rparr>"
    have W: "insert b W = {b}" using Suc.prems(2) by auto
    note F = chain_frame_fields [OF set_chain_frame(1)]
    have ok1: "sched_ok s1 rs bs (C(b := ys)) {} {b}"
      using c1 W lists_ok_cong [OF l, of "sc_nodes s1"] F unfolding sched_ok_def s1_def by simp
    have same1: "sched_same s s1" "sc_sent s1 = sc_sent s" by (simp_all add: sched_same_def s1_def F)
    obtain s2 bs2 where s2: "unblock_thread x s1 = Some s2" "sched_ok s2 (rs @ filter (local_of s1) [x]) bs2 (C(b := ys)) {} {b}"
        "mset bs = mset (filter (local_of s1) [x]) + mset bs2" "sc_sent s2 = sc_sent s1 @ unblock_messages s1 [x]" "sched_same s1 s2"
      using unblock_popped [OF ok1, of x] bx chains_okD(1) [OF c, of x] by (auto simp: s1_def)
    have same: "sched_same s s2" using sched_same_trans same1(1) s2(5) by blast
    have L: "local_of s2 = local_of s" "local_of s1 = local_of s" "unblock_messages s2 = unblock_messages s" "unblock_messages s1 = unblock_messages s"
      using sched_same_fields(1,5) [OF same] sched_same_fields(1,5) [OF same1(1)] by (simp_all add: fun_eq_iff unblock_messages_def)
    have m: "unblock_messages s (x # zs) = unblock_messages s [x] @ unblock_messages s zs" for zs by (simp add: unblock_messages_def)
    obtain s' bs' where s': "blocker_unblock_loop n b s2 = Some s'"
        "sched_ok s' ((rs @ filter (local_of s) [x]) @ filter (local_of s) (take n ys)) bs' ((C(b := ys))(b := drop n ys)) {} {b}"
        "mset bs2 = mset (filter (local_of s) (take n ys)) + mset bs'" "sc_sent s' = sc_sent s2 @ unblock_messages s (take n ys)" "sched_same s2 s'"
      using Suc.IH [OF s2(2) subset_refl] unfolding L fun_upd_same by blast
    have "blocker_unblock_loop (Suc n) b s = Some s'" using Some bx s2(1) s'(1) by (simp add: s1_def)
    moreover have "sched_ok s' (rs @ filter (local_of s) (take (Suc n) (C b))) bs' (C(b := drop (Suc n) (C b))) {} {b}"
      using s'(2) C by (simp split: if_splits)
    moreover have "mset bs = mset (filter (local_of s) (take (Suc n) (C b))) + mset bs'" using s2(3) s'(3) L C by simp
    moreover have "sc_sent s' = sc_sent s @ unblock_messages s (take (Suc n) (C b))"
      using s2(4) s'(4) L same1 C m [of "take n ys"] by simp
    ultimately show ?thesis using sched_same_trans [OF same s'(5)] by blast
  qed
qed

lemma blocker_unblock_spec:
  assumes "sched_ok s rs bs C {} {}"
  shows "\<exists>s' bs'. blocker_unblock n b s = Some s' \<and>
    sched_ok s' (rs @ filter (local_of s) (take n (C b))) bs' (C(b := drop n (C b))) {} {} \<and>
    mset bs = mset (filter (local_of s) (take n (C b))) + mset bs' \<and> sc_sent s' = sc_sent s @ unblock_messages s (take n (C b)) \<and> sched_same s s'"
proof -
  let ?rs = "rs @ filter (local_of s) (take n (C b))" and ?C = "C(b := drop n (C b))"
  obtain s1 bs' where s1: "blocker_unblock_loop n b s = Some s1" "sched_ok s1 ?rs bs' ?C {} {b}"
      "mset bs = mset (filter (local_of s) (take n (C b))) + mset bs'" "sc_sent s1 = sc_sent s @ unblock_messages s (take n (C b))" "sched_same s s1"
    using blocker_unblock_loop_spec [OF assms, of b n] by blast
  define s' where "s' = s1\<lparr>sc_nodes := set_chain_prev (sc_chains s1 b) None (sc_nodes s1)\<rparr>"
  note F = chain_frame_fields [OF set_chain_frame(2)]
  have "sched_ok s' ?rs bs' ?C {} {}"
    using finish_chain [OF sched_okD(2) [OF s1(2)]] lists_ok_cong [OF sched_okD(1) [OF s1(2)], of "sc_nodes s'"] F unfolding sched_ok_def s'_def by simp
  moreover have "sched_same s1 s'" by (simp add: sched_same_def s'_def F)
  ultimately show ?thesis using s1 sched_same_trans [OF s1(5), of s'] by (auto simp: blocker_unblock_def s'_def)
qed

lemma wake_up_sleeping_threads_spec:
  assumes "sched_ok s rs bs C {} {}"
  shows "\<exists>s' ws bs' C'. wake_up_sleeping_threads now s = Some s' \<and> sched_ok s' (rs @ ws) bs' C' {} {} \<and> mset bs = mset ws + mset bs' \<and>
    (\<forall>x\<in>set ws. n_wake_time_ns (sc_nodes s) x \<le> now) \<and> (\<forall>x\<in>set bs'. now < n_wake_time_ns (sc_nodes s) x) \<and>
    sorted (map (n_wake_time_ns (sc_nodes s)) ws) \<and> sched_same s s' \<and> sc_sent s' = sc_sent s"
  using assms
proof (induction "length bs" arbitrary: s rs bs C rule: less_induct)
  case less
  note l = sched_okD(1) [OF less.prems] and c = sched_okD(2) [OF less.prems]
  note h = lists_okD(2) [OF l]
  show ?case
  proof (cases "heap_front (sc_block s)")
    case None
    then have "bs = []" using heap_front_min [OF h, of "hd bs"] by (cases bs) auto
    then show ?thesis using None less.prems by (subst wake_up_sleeping_threads.simps) auto
  next
    case (Some x)
    have x: "x \<in> set bs" "\<And>y. y \<in> set bs \<Longrightarrow> n_wake_time_ns (sc_nodes s) x \<le> n_wake_time_ns (sc_nodes s) y"
    proof -
      have "bs \<noteq> []" using h Some by (auto simp: heap_ok_def heap_ends_def heap_front_def ptr_def)
      then show "x \<in> set bs" using heap_front_min [OF h, of "hd bs"] Some by auto
      show "n_wake_time_ns (sc_nodes s) x \<le> n_wake_time_ns (sc_nodes s) y" if "y \<in> set bs" for y using heap_front_min [OF h that] Some by auto
    qed
    show ?thesis
    proof (cases "n_wake_time_ns (sc_nodes s) x \<le> now")
      case False
      then have "now < n_wake_time_ns (sc_nodes s) y" if "y \<in> set bs" for y using x(2) [OF that] by (simp add: not_le less_le_trans)
      then show ?thesis using Some False less.prems 
        by (intro exI [of _ s] exI [of _ "[]"] exI [of _ bs] exI [of _ C]) (simp add: wake_up_sleeping_threads.simps [of now s])
    next
      case True
      obtain s1 bs1 where s1: "unblock_thread x s = Some s1" "sched_ok s1 (rs @ [x]) bs1 (\<lambda>c. remove1 x (C c)) {} {}"
          "mset bs = add_mset x (mset bs1)" "sched_same s s1" "sc_sent s1 = sc_sent s"
        using unblock_thread_local [OF less.prems x(1)] by auto
      note w = sched_same_fields(4) [OF s1(4)]
      have "length bs1 < length bs" using s1(3) by (metis size_mset size_add_mset lessI)
      from less.hyps [OF this s1(2)] obtain s' ws bs' C' where s': "wake_up_sleeping_threads now s1 = Some s'" "sched_ok s' ((rs @ [x]) @ ws) bs' C' {} {}"
          "mset bs1 = mset ws + mset bs'" "\<forall>y\<in>set ws. n_wake_time_ns (sc_nodes s) y \<le> now" "\<forall>y\<in>set bs'. now < n_wake_time_ns (sc_nodes s) y"
          "sorted (map (n_wake_time_ns (sc_nodes s)) ws)" "sched_same s1 s'" "sc_sent s' = sc_sent s1"
        unfolding w by blast
      have "wake_up_sleeping_threads now s = Some s'" using Some True s1(1) s'(1) by (subst wake_up_sleeping_threads.simps) simp
      moreover have "sched_ok s' (rs @ x # ws) bs' C' {} {}" "mset bs = mset (x # ws) + mset bs'" using s'(2,3) s1(3) by simp_all
      moreover have "sorted (map (n_wake_time_ns (sc_nodes s)) (x # ws))"
      proof -
        have "set ws \<subseteq> set bs" using mset_add_set [OF s1(3)] arg_cong [OF s'(3), of set_mset] by auto
        then show ?thesis using s'(6) x(2) by auto
      qed
      moreover have "sched_same s s'" "sc_sent s' = sc_sent s" using sched_same_trans [OF s1(4) s'(7)] s1(5) s'(8) by simp_all
      ultimately show ?thesis using s'(4,5) True by (intro exI [of _ s'] exI [of _ "x # ws"] exI [of _ bs'] exI [of _ C']) simp
    qed
  qed
qed

section \<open>Rescheduling\<close>

lemma sched_ok_cong:
  assumes "sched_ok s rs bs C E W" "sc_run s' = sc_run s" "sc_block s' = sc_block s" "sc_processor s' = sc_processor s" "sc_chains s' = sc_chains s"
    "sc_current s' = sc_current s \<or> sc_current s' = None" "\<And>x. sc_state s' x = Terminated \<Longrightarrow> x \<notin> set rs \<union> set bs \<or> sc_state s x = Terminated"
    "sc_nodes s' = (sc_nodes s)\<lparr>n_last_start_ns := n_last_start_ns (sc_nodes s'), n_time_used_ns := n_time_used_ns (sc_nodes s')\<rparr>"
  shows "sched_ok s' rs bs C E W"
proof -
  have f: "n_link0 (sc_nodes s') = n_link0 (sc_nodes s)" "n_link1 (sc_nodes s') = n_link1 (sc_nodes s)" "n_link2 (sc_nodes s') = n_link2 (sc_nodes s)"
      "n_wake_time_ns (sc_nodes s') = n_wake_time_ns (sc_nodes s)" "blocked_at s' = blocked_at s"
      "n_processor_id (sc_nodes s') = n_processor_id (sc_nodes s)" "blocker_at s' = blocker_at s"
      "n_block_chain_prev (sc_nodes s') = n_block_chain_prev (sc_nodes s)" "n_block_chain_next (sc_nodes s') = n_block_chain_next (sc_nodes s)"
    using assms(8) by (cases "sc_nodes s"; cases "sc_nodes s'"; simp)+
  note l = lists_ok_cong [OF sched_okD(1) [OF assms(1)] f(1-6)]
  have "lists_ok (sc_nodes s') (sc_run s) (sc_block s) (sc_processor s) (sc_current s') (sc_state s') rs bs E"
    using l assms(6,7) unfolding lists_ok_def by auto
  then show ?thesis using chains_ok_cong [OF sched_okD(2) [OF assms(1)] f(7-9)] f(5,6) assms(2-5) unfolding sched_ok_def by simp
qed

text \<open>The part of the state that rescheduling leaves alone.\<close>

definition resched_same :: "sched \<Rightarrow> sched \<Rightarrow> bool" where
  "resched_same s s' \<longleftrightarrow>
     sc_processor s' = sc_processor s \<and> sc_chains s' = sc_chains s \<and> sc_sent s' = sc_sent s \<and>
     blocked_at s' = blocked_at s \<and> n_processor_id (sc_nodes s') = n_processor_id (sc_nodes s) \<and>
     n_wake_time_ns (sc_nodes s') = n_wake_time_ns (sc_nodes s) \<and> (\<forall>x. sc_state s' x = Terminated \<longleftrightarrow> sc_state s x = Terminated)"

lemma resched_same_refl [simp]: "resched_same s s"
  by (simp add: resched_same_def)

lemma resched_same_trans: "resched_same s s' \<Longrightarrow> resched_same s' s'' \<Longrightarrow> resched_same s s''"
  by (simp add: resched_same_def)

definition requeue :: "sched \<Rightarrow> nat list" where
  "requeue s = (case sc_current s of None \<Rightarrow> [] | Some c \<Rightarrow> if sc_state s c = Terminated \<or> blocked_at s c then [] else [c])"

definition going_to_block :: "sched \<Rightarrow> nat set" where
  "going_to_block s = {c. sc_current s = Some c \<and> blocked_at s c}"

lemma push_run_spec:
  assumes ok: "sched_ok s rs bs C E W" and x: "x \<notin> set rs \<union> set bs" "n_link0 (sc_nodes s) x = None" "n_link1 (sc_nodes s) x = None"
    "n_link2 (sc_nodes s) x = None" "local_of s x" "\<not> blocked_at s x" "sc_state s x \<noteq> Terminated"
  shows "\<exists>s'. push_run x s = Some s' \<and> sched_ok (s'\<lparr>sc_current := if sc_current s = Some x then None else sc_current s\<rparr>) (rs @ [x]) bs C E W \<and>
    resched_same s s' \<and> sc_state s' = sc_state s \<and> sc_current s' = sc_current s"
proof -
  obtain q' st' where q: "queue_push x (sc_run s) (sc_nodes s) = Some (q', st')" "frame (insert x (set rs)) (sc_nodes s) st'"
      "lists_ok st' q' (sc_block s) (sc_processor s) (if sc_current s = Some x then None else sc_current s) (sc_state s) (rs @ [x]) bs E"
    using push_run_lists [OF sched_okD(1) [OF ok] x] by blast
  note F = frame_fields [OF q(2)]
  have "chains_ok st' (sc_chains s) C W" using chains_ok_cong [OF sched_okD(2) [OF ok], of st'] F by simp
  then show ?thesis using q F by (simp add: push_run_def sched_ok_def resched_same_def)
qed

lemma most_loaded_only:
  "\<exists>m. remove_current_from_most_loaded c s = s\<lparr>sc_most_loaded := m\<rparr>" "\<exists>m. add_current_to_most_loaded c s = s\<lparr>sc_most_loaded := m\<rparr>"
  by (auto simp: remove_current_from_most_loaded_def add_current_to_most_loaded_def Let_def intro: exI [of _ "sc_most_loaded s"])

lemma time_used_ok:
  assumes "sched_ok s rs bs C E W"
  shows "sched_ok (set_time_used c t s\<lparr>sc_most_loaded := m\<rparr>) rs bs C E W" "resched_same s (set_time_used c t s\<lparr>sc_most_loaded := m\<rparr>)"
  by (rule sched_ok_cong [OF assms]; simp add: set_time_used_def) (simp add: resched_same_def set_time_used_def)

lemma put_back_blocked:
  assumes ok: "sched_ok s rs bs C {c} {}" and c: "sc_current s = Some c" "blocked_at s c" "sc_state s c = Executing"
  shows "\<exists>s' bs'. put_current_back now s = Some s' \<and> sched_ok (s'\<lparr>sc_current := None\<rparr>) rs bs' C {} {} \<and> set bs' = insert c (set bs) \<and>
    resched_same s s' \<and> sc_state s' = sc_state s"
proof -
  obtain m where m: "add_current_to_most_loaded c (set_time_used c (n_time_used_ns (sc_nodes s) c + (now - n_last_start_ns (sc_nodes s) c)) s) =
      set_time_used c (n_time_used_ns (sc_nodes s) c + (now - n_last_start_ns (sc_nodes s) c)) s\<lparr>sc_most_loaded := m\<rparr>"
    using most_loaded_only(2) by metis
  define s1 where "s1 = set_time_used c (n_time_used_ns (sc_nodes s) c + (now - n_last_start_ns (sc_nodes s) c)) s\<lparr>sc_most_loaded := m\<rparr>"
  have s1: "sched_ok s1 rs bs C {c} {}" "resched_same s s1" "sc_state s1 = sc_state s" "sc_current s1 = Some c" "blocked_at s1 c"
    using time_used_ok [OF ok] c unfolding s1_def by (simp_all add: set_time_used_def)
  obtain h' st' bs' where h: "heap_push c (sc_block s1, sc_nodes s1) = Some (h', st')" "mset bs' = add_mset c (mset bs)"
      "lists_ok st' (sc_run s1) h' (sc_processor s1) None (sc_state s1) rs bs' {}" "frame (insert c (set bs)) (sc_nodes s1) st'"
    using push_block_lists [of "sc_nodes s1" "sc_run s1" "sc_block s1" "sc_processor s1" c "sc_state s1" rs bs] sched_okD(1) [OF s1(1)] s1(3-5) c by auto
  note F = frame_fields [OF h(4)]
  have "chains_ok st' (sc_chains s1) C {}" using chains_ok_cong [OF sched_okD(2) [OF s1(1)], of st'] F by simp
  moreover have "put_current_back now s = push_block c s1" using c m s1(5) by (simp add: put_current_back_def s1_def Let_def set_time_used_def)
  ultimately show ?thesis using h(1,3) s1(2,3) F mset_add_set [OF h(2)]
    by (intro exI [of _ "s1\<lparr>sc_block := h', sc_nodes := st'\<rparr>"] exI [of _ bs']) (simp add: push_block_def sched_ok_def resched_same_def)
qed

lemma put_back_ready:
  assumes ok: "sched_ok s rs bs C {} {}" and c: "sc_current s = Some c" "\<not> blocked_at s c" "sc_state s c \<noteq> Terminated"
  shows "\<exists>s'. put_current_back now s = Some s' \<and> sched_ok (s'\<lparr>sc_current := None\<rparr>) (rs @ [c]) bs C {} {} \<and> resched_same s s' \<and> sc_state s' = sc_state s"
proof -
  have ready: "local_of s c" "c \<notin> set rs \<union> set bs" "n_link0 (sc_nodes s) c = None" "n_link1 (sc_nodes s) c = None" "n_link2 (sc_nodes s) c = None"
    using lists_okD(7) [OF sched_okD(1) [OF ok] c(1)] by auto
  obtain t m where p: "put_current_back now s = push_run c (set_time_used c t s\<lparr>sc_most_loaded := m\<rparr>)"
  proof (cases "sc_state s c")
    case NotStarted
    then show ?thesis using that most_loaded_only(1) [of c "set_time_used c 0 s"] c by (auto simp: put_current_back_def)
  next
    case Executing
    then show ?thesis using that c
        most_loaded_only(2) [of c "set_time_used c (n_time_used_ns (sc_nodes s) c + (now - n_last_start_ns (sc_nodes s) c)) s"]
      by (auto simp: put_current_back_def Let_def set_time_used_def)
  qed (use c in simp)
  let ?s = "set_time_used c t s\<lparr>sc_most_loaded := m\<rparr>"
  obtain s' where s': "push_run c ?s = Some s'" "resched_same ?s s'" "sc_state s' = sc_state s"
      "sched_ok (s'\<lparr>sc_current := if sc_current ?s = Some c then None else sc_current ?s\<rparr>) (rs @ [c]) bs C {} {}"
    using push_run_spec [OF time_used_ok(1) [OF ok, where c = c and t = t and m = m], of c] ready c by (auto simp: set_time_used_def)
  then show ?thesis using p c resched_same_trans [OF time_used_ok(2) [OF ok, where c = c and t = t and m = m] s'(2)]
    by (intro exI [of _ s']) (simp add: set_time_used_def)
qed

lemma put_current_back_spec:
  assumes ok: "sched_ok s rs bs C (going_to_block s) {}"
    and run: "\<And>c. sc_current s = Some c \<Longrightarrow> blocked_at s c \<Longrightarrow> sc_state s c = Executing"
  shows "\<exists>s' bs'. put_current_back now s = Some s' \<and> sched_ok (s'\<lparr>sc_current := None\<rparr>) (rs @ requeue s) bs' C {} {} \<and>
    set bs' = set bs \<union> going_to_block s \<and> resched_same s s' \<and> sc_state s' = sc_state s"
proof (cases "sc_current s")
  case None
  then show ?thesis using ok sched_ok_cong [OF ok, of "s\<lparr>sc_idle_ns := n, sc_current := None\<rparr>" for n]
    by (auto simp: put_current_back_def requeue_def going_to_block_def resched_same_def intro!: exI [of _ bs])
next
  case (Some c)
  consider "blocked_at s c" | "\<not> blocked_at s c" "sc_state s c = Terminated" | "\<not> blocked_at s c" "sc_state s c \<noteq> Terminated" by blast
  then show ?thesis
  proof cases
    case 1
    then have "going_to_block s = {c}" using Some by (auto simp: going_to_block_def)
    then show ?thesis using put_back_blocked [of s rs bs C c now] ok Some 1 run by (simp add: requeue_def)
  next
    case 2
    obtain m where m: "remove_current_from_most_loaded c s = s\<lparr>sc_most_loaded := m\<rparr>" using most_loaded_only(1) by metis
    have e: "going_to_block s = {}" using 2 Some by (auto simp: going_to_block_def)
    show ?thesis using Some 2 e m ok sched_ok_cong [OF ok, of "s\<lparr>sc_most_loaded := m, sc_thread_count := t, sc_current := None\<rparr>" for t]
      by (auto simp: put_current_back_def requeue_def resched_same_def intro!: exI [of _ bs])
  next
    case 3
    then have "going_to_block s = {}" using Some by (auto simp: going_to_block_def)
    then show ?thesis using put_back_ready [of s rs bs C c now] ok Some 3 by (auto simp: requeue_def intro!: exI [of _ bs])
  qed
qed

lemma run_next_spec:
  assumes ok: "sched_ok (s\<lparr>sc_current := None\<rparr>) rs bs C {} {}"
  shows "\<exists>s'. run_next now s = Some s' \<and> sched_ok s' (tl rs) bs C {} {} \<and> sc_current s' = (case rs of [] \<Rightarrow> None | x # xs \<Rightarrow> Some x) \<and>
    (\<forall>x. sc_current s' = Some x \<longrightarrow> sc_state s' x = Executing) \<and> resched_same s s'"
proof -
  note l = sched_okD(1) [OF ok, simplified] and c = sched_okD(2) [OF ok, simplified]
  show ?thesis
  proof (cases rs)
    case Nil
    then have "queue_pop_front (sc_run s) (sc_nodes s) = (None, sc_run s, sc_nodes s)" using queue_pop_front_spec(1) lists_okD(1) [OF l] by blast
    then show ?thesis using Nil l c by (simp add: run_next_def sched_ok_def resched_same_def)
  next
    case (Cons x xs)
    obtain q' st' where q: "queue_pop_front (sc_run s) (sc_nodes s) = (Some x, q', st')" "frame (set (x # xs)) (sc_nodes s) st'"
        "lists_ok st' q' (sc_block s) (sc_processor s) (Some x) (sc_state s) xs bs {}"
      using pop_run_lists l Cons by blast
    note F = frame_fields [OF q(2)]
    define s1 where "s1 = s\<lparr>sc_current := Some x, sc_run := q', sc_nodes := st'\<rparr>"
    have "chains_ok st' (sc_chains s) C {}" using chains_ok_cong [OF c, of st'] F by simp
    then have ok1: "sched_ok s1 xs bs C {} {}" using q(3) by (simp add: sched_ok_def s1_def)
    define s' where "s' = set_last_start x now (if sc_state s1 x = NotStarted then set_state x Executing s1 else s1)"
    have ready: "sc_state s x \<noteq> Terminated" "\<not> n_blocked st' x" using lists_okD(4) [OF l, of x] F(6) Cons by auto
    have "sched_ok s' xs bs C {} {}" by (rule sched_ok_cong [OF ok1]) (auto simp: s'_def set_last_start_def set_state_def split: if_splits)
    moreover have "run_next now s = Some s'" using q(1) ready by (simp add: run_next_def s1_def s'_def)
    moreover have "sc_state s' x = Executing" using ready by (cases "sc_state s x") (auto simp: s'_def s1_def set_last_start_def set_state_def)
    moreover have "resched_same s s'" using F ready by (simp add: s'_def s1_def resched_same_def set_last_start_def set_state_def)
    moreover have "sc_current s' = Some x" by (simp add: s'_def s1_def set_last_start_def set_state_def)
    ultimately show ?thesis using Cons by auto
  qed
qed

text \<open>The current thread goes behind the ready ones if it can go on, and the first of them runs.\<close>

lemma reschedule_spec:
  assumes ok: "sched_ok s rs bs C (going_to_block s) {}"
    and run: "\<And>c. sc_current s = Some c \<Longrightarrow> blocked_at s c \<Longrightarrow> sc_state s c = Executing"
  shows "\<exists>s' bs'. reschedule now s = Some s' \<and> sched_ok s' (tl (rs @ requeue s)) bs' C {} {} \<and> set bs' = set bs \<union> going_to_block s \<and>
    sc_current s' = (case rs @ requeue s of [] \<Rightarrow> None | x # xs \<Rightarrow> Some x) \<and> (\<forall>x. sc_current s' = Some x \<longrightarrow> sc_state s' x = Executing) \<and>
    resched_same s s'"
proof (cases "queue_empty (sc_run s) \<and> (case sc_current s of None \<Rightarrow> True | Some c \<Rightarrow> \<not> blocked_at s c) \<and> current_state s = Executing")
  case True
  then have "rs = []" using lists_okD(1) [OF sched_okD(1) [OF ok]] by (auto simp: queue_empty_def queue_ok_def ptr_def split: if_splits)
  moreover have "going_to_block s = {}" using True by (auto simp: going_to_block_def)
  ultimately show ?thesis using True ok
    by (cases "sc_current s") (auto simp: reschedule_def requeue_def current_state_def intro!: exI [of _ bs])
next
  case False
  obtain s1 bs' where s1: "put_current_back now s = Some s1" "sched_ok (s1\<lparr>sc_current := None\<rparr>) (rs @ requeue s) bs' C {} {}"
      "set bs' = set bs \<union> going_to_block s" "resched_same s s1"
    using put_current_back_spec [OF ok run, of now] by auto
  obtain s' where "run_next now s1 = Some s'" "sched_ok s' (tl (rs @ requeue s)) bs' C {} {}" "resched_same s1 s'"
      "sc_current s' = (case rs @ requeue s of [] \<Rightarrow> None | x # xs \<Rightarrow> Some x)" "\<forall>x. sc_current s' = Some x \<longrightarrow> sc_state s' x = Executing"
    using run_next_spec [OF s1(2)] by blast
  moreover have "reschedule now s = Option.bind (put_current_back now s) (run_next now)" using False unfolding reschedule_def by (rule if_not_P)
  ultimately show ?thesis using s1 resched_same_trans [OF s1(4), of s'] by (intro exI [of _ s'] exI [of _ bs']) simp
qed

section \<open>The operations keep the invariant\<close>

lemma current_not_blocked: "sched_ok s rs bs C {} W \<Longrightarrow> sc_current s = Some c \<Longrightarrow> \<not> blocked_at s c"
  using lists_okD(6,7) [OF sched_okD(1)] by (metis UnCI Un_empty_right)

lemma going_to_block_empty: "sched_ok s rs bs C {} W \<Longrightarrow> going_to_block s = {}"
  using current_not_blocked by (auto simp: going_to_block_def)

lemma on_yield_spec:
  assumes "sched_ok s rs bs C (going_to_block s) {}" "\<And>c. sc_current s = Some c \<Longrightarrow> blocked_at s c \<Longrightarrow> sc_state s c = Executing"
  shows "\<exists>s' bs'. on_yield now s = Some s' \<and> sched_ok s' (tl (rs @ requeue s)) bs' C {} {} \<and> set bs' = set bs \<union> going_to_block s \<and>
    sc_current s' = (case rs @ requeue s of [] \<Rightarrow> None | x # xs \<Rightarrow> Some x) \<and> resched_same s s'"
proof -
  obtain s1 bs' where s1: "reschedule now s = Some s1" "sched_ok s1 (tl (rs @ requeue s)) bs' C {} {}" "set bs' = set bs \<union> going_to_block s"
      "sc_current s1 = (case rs @ requeue s of [] \<Rightarrow> None | x # xs \<Rightarrow> Some x)" "resched_same s s1"
    using reschedule_spec [OF assms, of now] by blast
  define s' where "s' = s1\<lparr>sc_next_reschedule_ns := (if \<not> is_idle s1 then now + s_reschedule_interval_ns else - 1)\<rparr>"
  have "sched_ok s' (tl (rs @ requeue s)) bs' C {} {}" by (rule sched_ok_cong [OF s1(2)]) (simp_all add: s'_def)
  then show ?thesis using s1 by (intro exI [of _ s'] exI [of _ bs']) (simp add: on_yield_def s'_def resched_same_def)
qed

lemma add_thread_spec:
  assumes ok: "sched_ok s rs bs C {} {}" and x: "event_ok (AddThread p x) s"
  shows "\<exists>s' zs. add_thread p x s = Some s' \<and> sched_ok s' (rs @ zs) bs C {} {} \<and> sc_current s' = sc_current s"
proof -
  note l = sched_okD(1) [OF ok] and c = sched_okD(2) [OF ok]
  define st where "st = (if n_processor_id (sc_nodes s) x = None then (sc_nodes s)\<lparr>n_processor_id := (n_processor_id (sc_nodes s))(x := Some p)\<rparr> else sc_nodes s)"
  define s1 where "s1 = s\<lparr>sc_nodes := st\<rparr>"
  have xs: "x \<notin> set rs" "x \<notin> set bs"
  proof -
    show "x \<notin> set bs" using lists_okD(5) [OF l] x by auto
    show "x \<notin> set rs"
    proof
      assume "x \<in> set rs"
      then obtain i where i: "i < length rs" "x = rs ! i" by (auto simp: in_set_conv_nth)
      have q: "q_head (sc_run s) = ptr rs 0" "n_link1 (sc_nodes s) (rs ! i) = (if i = 0 then None else Some (rs ! (i - 1)))"
        using lists_okD(1) [OF l] i(1) by (auto simp: queue_ok_def)
      then have "i = 0" using x i(2) by (auto split: if_splits)
      then show False using q(1) i x by (auto simp: ptr_def)
    qed
  qed
  have f: "n_link0 st = n_link0 (sc_nodes s)" "n_link1 st = n_link1 (sc_nodes s)" "n_link2 st = n_link2 (sc_nodes s)" "n_blocked st = blocked_at s"
    "n_wake_time_ns st = n_wake_time_ns (sc_nodes s)" "\<And>y. y \<noteq> x \<Longrightarrow> n_processor_id st y = n_processor_id (sc_nodes s) y"
    "\<And>y. n_processor_id (sc_nodes s) y \<noteq> None \<Longrightarrow> n_processor_id st y = n_processor_id (sc_nodes s) y"
    "n_blocker st = blocker_at s" "n_block_chain_prev st = n_block_chain_prev (sc_nodes s)" "n_block_chain_next st = n_block_chain_next (sc_nodes s)"
    by (auto simp: st_def)
  have "queue_ok st (sc_run s) rs" "heap_ok st (sc_block s) bs"
    using queue_ok_cong [OF lists_okD(1) [OF l], of st] heap_ok_cong [OF lists_okD(2) [OF l], of st] f by auto
  moreover have "n_blocked st y \<and> n_processor_id st y = Some (sc_processor s) \<longrightarrow> y \<in> set bs \<union> {}" for y
    using lists_okD(6) [OF l, of y] f(4,6) x by (cases "y = x") auto
  moreover have "\<forall>y\<in>set rs. n_link2 st y = None \<and> \<not> n_blocked st y \<and> n_processor_id st y = Some (sc_processor s) \<and> sc_state s y \<noteq> Terminated"
    using lists_okD(4) [OF l] f(3,4,7) by simp
  moreover have "\<forall>y\<in>set bs. n_blocked st y \<and> n_processor_id st y = Some (sc_processor s) \<and> sc_state s y \<noteq> Terminated"
    using lists_okD(5) [OF l] f(4,7) by simp
  moreover have "\<forall>y. sc_current s = Some y \<longrightarrow> y \<notin> set rs \<union> set bs \<and> n_link0 st y = None \<and> n_link1 st y = None \<and> n_link2 st y = None \<and>
      n_processor_id st y = Some (sc_processor s)"
    using lists_okD(7) [OF l] f(1-3,7) by simp
  ultimately have "lists_ok st (sc_run s) (sc_block s) (sc_processor s) (sc_current s) (sc_state s) rs bs {}"
    using lists_okD(3) [OF l] unfolding lists_ok_def by blast
  then have ok1: "sched_ok s1 rs bs C {} {}" using chains_ok_cong [OF c, of st] f by (simp add: sched_ok_def s1_def)
  have bind: "(if n_processor_id (sc_nodes s) x = None then bind_thread_to_processor x p s else Some s) = Some s1"
    by (auto simp: bind_thread_to_processor_def s1_def st_def)
  have some: "n_processor_id st x \<noteq> None" by (simp add: st_def)
  show ?thesis
  proof (cases "local_of s1 x")
    case False
    let ?s = "s1\<lparr>sc_sent := sc_sent s1 @ [(the (n_processor_id st x), NewThread x)]\<rparr>"
    have "sched_ok ?s rs bs C {} {}" by (rule sched_ok_cong [OF ok1]) simp_all
    moreover have "add_thread p x s = Some ?s" using bind False some by (auto simp: add_thread_def s1_def)
    ultimately show ?thesis by (intro exI [of _ ?s] exI [of _ "[]"]) (simp add: s1_def)
  next
    case True
    then obtain s2 where s2: "push_run x s1 = Some s2" "sched_ok (s2\<lparr>sc_current := sc_current s\<rparr>) (rs @ [x]) bs C {} {}" "sc_current s2 = sc_current s"
      using push_run_spec [OF ok1, of x] xs f(1-4) x by (auto simp: s1_def)
    let ?s = "s2\<lparr>sc_thread_count := sc_thread_count s2 + 1\<rparr>"
    have "sched_ok ?s (rs @ [x]) bs C {} {}" using s2(3) by (intro sched_ok_cong [OF s2(2)]) simp_all
    moreover have "add_thread p x s = Some ?s" using bind True s2(1) x f(4) by (simp add: add_thread_def s1_def)
    ultimately show ?thesis using s2(3) by (intro exI [of _ ?s] exI [of _ "[x]"]) simp
  qed
qed

lemma block_current_spec:
  assumes ok: "sched_ok s rs bs C {} {}" and c: "sc_current s = Some c" "sc_state s c = Executing" and t: "now < t"
  shows "\<exists>s' bs' C'. block_current_thread now b t s = Some s' \<and> sched_ok s' (tl rs) bs' C' {} {} \<and> set bs' = insert c (set bs) \<and>
    sc_current s' = (case rs of [] \<Rightarrow> None | x # xs \<Rightarrow> Some x)"
proof -
  note l = sched_okD(1) [OF ok] and ch = sched_okD(2) [OF ok]
  have cl: "local_of s c" "c \<notin> set rs \<union> set bs" using lists_okD(7) [OF l c(1)] by auto
  have nb: "\<not> blocked_at s c" using current_not_blocked [OF ok c(1)] .
  have nc: "blocker_at s c = None" using chains_okD(1) [OF ch] nb by blast
  define s1 where "s1 = set_wake_time c t (set_blocked c True s)"
  define st where "st = (sc_nodes s)\<lparr>n_blocked := (blocked_at s)(c := True), n_wake_time_ns := (n_wake_time_ns (sc_nodes s))(c := t)\<rparr>"
  have s1: "s1 = s\<lparr>sc_nodes := st\<rparr>" by (simp add: s1_def st_def set_wake_time_def set_blocked_def)
  have "queue_ok st (sc_run s) rs" by (rule queue_ok_cong [OF lists_okD(1) [OF l]]) (simp add: st_def)
  moreover have "heap_ok st (sc_block s) bs" by (rule heap_ok_cong [OF lists_okD(2) [OF l]]) (use cl(2) in \<open>auto simp: st_def\<close>)
  moreover have "\<forall>y\<in>set rs. n_link2 st y = None \<and> \<not> n_blocked st y \<and> n_processor_id st y = Some (sc_processor s) \<and> sc_state s y \<noteq> Terminated"
    using lists_okD(4) [OF l] cl(2) by (auto simp: st_def)
  moreover have "\<forall>y\<in>set bs. n_blocked st y \<and> n_processor_id st y = Some (sc_processor s) \<and> sc_state s y \<noteq> Terminated"
    using lists_okD(5) [OF l] by (simp add: st_def)
  moreover have "\<forall>y. n_blocked st y \<and> n_processor_id st y = Some (sc_processor s) \<longrightarrow> y \<in> set bs \<union> {c}"
    using lists_okD(6) [OF l] by (auto simp: st_def)
  moreover have "\<forall>y. sc_current s = Some y \<longrightarrow> y \<notin> set rs \<union> set bs \<and> n_link0 st y = None \<and> n_link1 st y = None \<and> n_link2 st y = None \<and>
      n_processor_id st y = Some (sc_processor s)"
    using lists_okD(7) [OF l] by (simp add: st_def)
  ultimately have "lists_ok st (sc_run s) (sc_block s) (sc_processor s) (sc_current s) (sc_state s) rs bs {c}"
    using lists_okD(3) [OF l] unfolding lists_ok_def by blast
  moreover have "chains_ok st (sc_chains s) C {}" using chains_ok_cong [OF ch, of st] by (auto simp: st_def)
  ultimately have ok1: "sched_ok s1 rs bs C {c} {}" by (simp add: sched_ok_def s1)
  obtain s2 C2 where s2: "(case b of None \<Rightarrow> Some s1 | Some b \<Rightarrow> add_thread_to_block_queue b c s1) = Some s2" "sched_ok s2 rs bs C2 {c} {}"
      "sc_current s2 = Some c" "sc_state s2 = sc_state s" "blocked_at s2 c"
  proof (cases b)
    case None
    then show ?thesis using that [of s1 C] ok1 c by (simp add: s1 st_def)
  next
    case (Some b')
    obtain st' where st': "add_thread_to_block_queue b' c s1 = Some (s1\<lparr>sc_nodes := st', sc_chains := (sc_chains s1)(b' := Some c)\<rparr>)"
        "chains_ok st' ((sc_chains s1)(b' := Some c)) (C(b' := c # C b')) {}" "chain_frame (sc_nodes s1) st'"
      using add_chain [OF sched_okD(2) [OF ok1], of c b'] nc cl(1) by (auto simp: s1 st_def)
    note F = chain_frame_fields [OF st'(3)]
    have "lists_ok st' (sc_run s1) (sc_block s1) (sc_processor s1) (sc_current s1) (sc_state s1) rs bs {c}"
      by (rule lists_ok_cong [OF sched_okD(1) [OF ok1]]) (simp_all add: F)
    then show ?thesis using that [of "s1\<lparr>sc_nodes := st', sc_chains := (sc_chains s1)(b' := Some c)\<rparr>" "C(b' := c # C b')"] st' F c Some
      by (simp add: sched_ok_def s1 st_def)
  qed
  have e: "going_to_block s2 = {c}" "requeue s2 = []" using s2(3,5) by (auto simp: going_to_block_def requeue_def)
  have "\<not> t \<le> now" using t by simp
  then have "block_current_thread now b t s = on_yield now s2" using s2(1) [unfolded s1_def] c(1) cl(1) nb
    by (simp add: block_current_thread_def s1_def Let_def del: not_le)
  then show ?thesis using on_yield_spec [of s2 rs bs C2 now] s2 e c(2) by fastforce
qed

text \<open>
  Every step keeps the invariant. Without a yield the current thread stays and the run list only grows at its
  end; a yield takes the first ready thread.
\<close>

lemma sched_step_spec:
  assumes ok: "sched_ok s rs bs C {} {}" and e: "event_ok (snd e) s"
  shows "\<exists>s' zs bs' C'. sched_step e s = Some s' \<and> sched_ok s' (if yields e s then tl (rs @ zs) else rs @ zs) bs' C' {} {} \<and>
    sc_current s' = (if yields e s then (case rs @ zs of [] \<Rightarrow> None | x # xs \<Rightarrow> Some x) else sc_current s)"
proof -
  obtain now ev where ev: "e = (now, ev)" by (cases e)
  have stay: ?thesis if "sched_step e s = Some s'" "sched_ok s' (rs @ zs) bs' C' {} {}" "sc_current s' = sc_current s" "\<not> yields e s" for s' zs bs' C'
    using that by auto
  have same: ?thesis if "sched_step e s = Some s'" "sched_ok s' rs bs C {} {}" "sc_current s' = sc_current s" "\<not> yields e s" for s'
    using stay [of s' "[]"] that by simp
  have yield: "\<exists>s' zs bs' C'. on_yield now s1 = Some s' \<and> sched_ok s' (tl (rs @ zs)) bs' C' {} {} \<and>
      sc_current s' = (case rs @ zs of [] \<Rightarrow> None | x # xs \<Rightarrow> Some x)" if ok1: "sched_ok s1 rs bs C {} {}" for s1
    using on_yield_spec [of s1 rs bs C now] ok1 going_to_block_empty [OF ok1] current_not_blocked [OF ok1] by auto
  show ?thesis
  proof (cases ev)
    case (AddThread p x)
    then show ?thesis using add_thread_spec [OF ok, of p x] e ev stay by auto
  next
    case (BlockCurrent b t)
    then obtain c where c: "sc_current s = Some c" "sc_state s c = Executing" using e ev by (auto simp: current_state_def)
    show ?thesis
    proof (cases "now < t")
      case True
      then have y: "yields e s" using BlockCurrent ev by simp
      obtain s' bs' C' where "block_current_thread now b t s = Some s'" "sched_ok s' (tl (rs @ [])) bs' C' {} {}"
          "sc_current s' = (case rs @ [] of [] \<Rightarrow> None | x # xs \<Rightarrow> Some x)"
        using block_current_spec [OF ok c True, of b] by auto
      then show ?thesis using BlockCurrent ev unfolding if_P [OF y] by (intro exI [of _ s'] exI [of _ "[]"] exI [of _ bs'] exI [of _ C']) simp
    next
      case False
      then show ?thesis using ok BlockCurrent ev same by (auto simp: block_current_thread_def)
    qed
  next
    case (UnblockWaiters n b)
    then show ?thesis using blocker_unblock_spec [OF ok, of n b] sched_same_fields(2) ev stay by auto
  next
    case (UnblockOne x)
    then obtain p where p: "n_processor_id (sc_nodes s) x = Some p" using e ev by auto
    show ?thesis
    proof (cases "p = sc_processor s \<and> blocked_at s x")
      case True
      then have "x \<in> set bs" using lists_okD(6) [OF sched_okD(1) [OF ok]] p by auto
      from unblock_thread_local [OF ok this] obtain s' bs' where "unblock_thread x s = Some s'" "sched_ok s' (rs @ [x]) bs' (\<lambda>c. remove1 x (C c)) {} {}" "sched_same s s'"
        by auto
      then show ?thesis using sched_same_fields(2) [of s s'] UnblockOne ev stay by simp
    next
      case False
      have "sched_ok (s\<lparr>sc_sent := m\<rparr>) rs bs C {} {}" for m by (rule sched_ok_cong [OF ok]) simp_all
      then show ?thesis using False p ok UnblockOne ev same by (auto simp: unblock_thread_def)
    qed
  next
    case TimerInterrupt
    obtain s1 ws bs' C' where s1: "wake_up_sleeping_threads now s = Some s1" "sched_ok s1 (rs @ ws) bs' C' {} {}" "sched_same s s1"
      using wake_up_sleeping_threads_spec [OF ok, of now] by blast
    have "sched_ok (s1\<lparr>sc_has_pending_reschedule := True\<rparr>) (rs @ ws) bs' C' {} {}" by (rule sched_ok_cong [OF s1(2)]) simp_all
    then show ?thesis using s1 sched_same_fields(2) [OF s1(3)] TimerInterrupt ev stay by (auto simp: on_timer_interrupt_def)
  next
    case YieldCurrent
    then show ?thesis using yield [OF ok] ev by auto
  next
    case InterruptEnd
    have ok1: "sched_ok (s\<lparr>sc_has_pending_reschedule := False\<rparr>) rs bs C {} {}" by (rule sched_ok_cong [OF ok]) simp_all
    show ?thesis
    proof (cases "yields e s")
      case True
      then have "sched_step e s = on_yield now (s\<lparr>sc_has_pending_reschedule := False\<rparr>)" using InterruptEnd ev by (auto simp: reschedule_if_needed_def)
      then show ?thesis using yield [OF ok1] True by simp
    next
      case False
      then show ?thesis using same ok InterruptEnd ev by (auto simp: reschedule_if_needed_def)
    qed
  next
    case ExitCurrent
    then obtain c where c: "sc_current s = Some c" using e ev by auto
    have "sched_ok (set_state c Terminated s) rs bs C {} {}"
      using lists_okD(7) [OF sched_okD(1) [OF ok] c] by (intro sched_ok_cong [OF ok]) (auto simp: set_state_def split: if_splits)
    then show ?thesis using c ExitCurrent ev same by (auto simp: set_state_def)
  next
    case RestartCurrent
    then obtain c where c: "sc_current s = Some c" using e ev by auto
    have "sched_ok (set_state c NotStarted s) rs bs C {} {}"
      using lists_okD(7) [OF sched_okD(1) [OF ok] c] by (intro sched_ok_cong [OF ok]) (auto simp: set_state_def split: if_splits)
    then show ?thesis using c RestartCurrent ev same by (auto simp: set_state_def)
  qed
qed

section \<open>Properties\<close>

lemma sched_init_inv: "sched_inv (sched_init pid t (blank_store w))"
proof -
  have "sched_ok (sched_init pid t (blank_store w)) [] [] (\<lambda>_. []) {} {}"
    by (simp add: sched_ok_def sched_init_def lists_ok_def chains_ok_def blank_store_def queue_ok_def queue_init_def heap_ok_def heap_init_def
        tree_ok_def heap_ends_def heap_from_def ptr_def)
  then show ?thesis unfolding sched_inv_def by blast
qed

lemma sched_run_inv: "sched_inv s \<Longrightarrow> events_ok es s \<Longrightarrow> \<exists>s'. sched_run es s = Some s' \<and> sched_inv s'"
proof (induction es arbitrary: s)
  case (Cons e es)
  then obtain rs bs C where ok: "sched_ok s rs bs C {} {}" unfolding sched_inv_def by blast
  obtain s1 where "sched_step e s = Some s1" "sched_inv s1"
    using sched_step_spec [OF ok, of e] Cons.prems(2) unfolding sched_inv_def by auto
  then show ?case using Cons.IH [of s1] Cons.prems(2) by simp
qed simp

text \<open>
  C2: Whatever happens to the scheduler of a processor, in any order (threads added, blocked on a blocker or until a time,
  unblocked one by one or through a blocker, timer interrupts, yields, exits, restarts for the cleanup of a process), as long as the callers keep
  their part (only a thread that no list holds is added, only a running thread blocks, only a thread with a processor is unblocked),
  no assertion fails, no null node is read, every loop ends, and afterwards the scheduler is well formed again: the run list
  is a list of ready threads, the block list is a heap of exactly the blocked threads of the processor ordered by wake
  time, no thread is in both, the current thread is in neither and not blocked, and the chain of
  each blocker holds exactly the threads that wait on it.
\<close>

theorem scheduler_events_safe:
  assumes "sched_inv s" "events_ok es s"
  shows "\<exists>s'. sched_run es s = Some s' \<and> sched_inv s' \<and> (\<forall>c. sc_current s' = Some c \<longrightarrow> \<not> blocked_at s' c)"
  using sched_run_inv [OF assms] current_not_blocked unfolding sched_inv_def by blast

definition example_events :: "(64 word \<times> sched_event) list" where
  "example_events =
     [(1, AddThread 0 1), (2, AddThread 0 2), (3, AddThread 0 3), (4, InterruptEnd), (5, BlockCurrent (Some 7) 90), (6, BlockCurrent (Some 7) 20),
      (7, UnblockWaiters 1 7), (8, YieldCurrent), (30, TimerInterrupt), (31, ExitCurrent), (32, YieldCurrent),
      (33, RestartCurrent), (34, YieldCurrent)]"

theorem scheduler_events_safe_witness:
  "events_ok example_events (sched_init 0 0 (blank_store (\<lambda>_. 0))) \<and>
   (\<exists>s'. sched_run example_events (sched_init 0 0 (blank_store (\<lambda>_. 0))) = Some s' \<and> sched_inv s' \<and> (\<forall>c. sc_current s' = Some c \<longrightarrow> \<not> blocked_at s' c))"
proof -
  have "events_ok example_events (sched_init 0 0 (blank_store (\<lambda>_. 0)))" by code_simp
  then show ?thesis using scheduler_events_safe [OF sched_init_inv] by blast
qed

text \<open>
  C3: A ready thread gets to run: if it is among the first \<open>k\<close> nodes of the run list, then whatever happens (with callers as above), as soon as the
  processor has yielded \<open>k\<close> times the thread has been the current one. No other thread is ever put before it.
\<close>

theorem ready_thread_runs:
  assumes "sched_inv s" "events_ok es s" "x \<in> set (queue_walk k (sc_nodes s) (q_head (sc_run s)))" "k \<le> yield_count es s"
  shows "becomes_current x es s"
  using assms
proof (induction es arbitrary: s k)
  case Nil
  then show ?case by simp
next
  case (Cons e es)
  then obtain rs bs C where ok: "sched_ok s rs bs C {} {}" unfolding sched_inv_def by blast
  have x: "x \<in> set (take k rs)" using Cons.prems(3) queue_walk_take [OF lists_okD(1) [OF sched_okD(1) [OF ok]]] by simp
  obtain s1 zs bs1 C1 where s1: "sched_step e s = Some s1" "sched_ok s1 (if yields e s then tl (rs @ zs) else rs @ zs) bs1 C1 {} {}"
      "sc_current s1 = (if yields e s then (case rs @ zs of [] \<Rightarrow> None | y # ys \<Rightarrow> Some y) else sc_current s)"
    using sched_step_spec [OF ok, of e] Cons.prems(2) by auto
  have inv: "sched_inv s1" "events_ok es s1" using s1(1,2) Cons.prems(2) unfolding sched_inv_def by auto
  note walk = queue_walk_take [OF lists_okD(1) [OF sched_okD(1) [OF s1(2)]]]
  show ?case
  proof (cases "yields e s")
    case False
    then have "x \<in> set (queue_walk k (sc_nodes s1) (q_head (sc_run s1)))" using x unfolding walk by simp
    then show ?thesis using Cons.IH [OF inv, of k] Cons.prems(4) s1(1) False by simp
  next
    case True
    obtain j where k: "k = Suc j" using x by (cases k) auto
    obtain r rs' where rs: "rs = r # rs'" using x by (cases rs) auto
    show ?thesis
    proof (cases "x = r")
      case True
      have "becomes_current x es s1" if "sc_current s1 = Some x" using that by (cases es) auto
      then show ?thesis using True s1(1,3) \<open>yields e s\<close> rs by simp
    next
      case False
      then have "x \<in> set (queue_walk j (sc_nodes s1) (q_head (sc_run s1)))" using x True unfolding walk rs k by auto
      then show ?thesis using Cons.IH [OF inv, of j] Cons.prems(4) s1(1) True k by simp
    qed
  qed
qed

definition example_after :: "nat \<Rightarrow> sched" where
  "example_after n = the (sched_run (take n example_events) (sched_init 0 0 (blank_store (\<lambda>_. 0))))"

lemma example_after_inv:
  assumes "events_ok (take n example_events) (sched_init 0 0 (blank_store (\<lambda>_. 0)))"
  shows "sched_inv (example_after n)"
  using sched_run_inv [OF sched_init_inv assms] unfolding example_after_def by fastforce

theorem ready_thread_runs_witness: "becomes_current 3 (drop 4 example_events) (example_after 4)"
proof (rule ready_thread_runs [of _ _ _ 2])
  show "sched_inv (example_after 4)" by (rule example_after_inv) code_simp
  show "events_ok (drop 4 example_events) (example_after 4)" by code_simp
  show "3 \<in> set (queue_walk 2 (sc_nodes (example_after 4)) (q_head (sc_run (example_after 4))))" by code_simp
  show "2 \<le> yield_count (drop 4 example_events) (example_after 4)" by code_simp
qed

text \<open>
  C4: The timer interrupt wakes exactly the threads that are due. They go behind the threads that were ready before, in
  the order of their wake times; the others stay blocked. The current thread is only asked to yield: if the processor is idle or
  the time slice is over.
\<close>

theorem timer_wakes_due_threads:
  assumes "sched_inv s"
  shows "\<exists>s' rs ws. on_timer_interrupt now s = Some s' \<and> (\<forall>n. queue_walk n (sc_nodes s) (q_head (sc_run s)) = take n rs) \<and>
    (\<forall>n. queue_walk n (sc_nodes s') (q_head (sc_run s')) = take n (rs @ ws)) \<and>
    distinct ws \<and> sorted (map (n_wake_time_ns (sc_nodes s)) ws) \<and>
    set ws = {x. local_of s x \<and> blocked_at s x \<and> n_wake_time_ns (sc_nodes s) x \<le> now} \<and>
    {x. local_of s' x \<and> blocked_at s' x} = {x. local_of s x \<and> blocked_at s x \<and> now < n_wake_time_ns (sc_nodes s) x} \<and>
    sc_current s' = sc_current s \<and> sc_has_pending_reschedule s' = (sc_has_pending_reschedule s \<or> is_idle s \<or> sc_next_reschedule_ns s \<le> now)"
proof -
  obtain rs bs C where ok: "sched_ok s rs bs C {} {}" using assms unfolding sched_inv_def by blast
  note l = sched_okD(1) [OF ok]
  obtain s1 ws bs' C' where s1: "wake_up_sleeping_threads now s = Some s1" "sched_ok s1 (rs @ ws) bs' C' {} {}" "mset bs = mset ws + mset bs'"
      "\<forall>x\<in>set ws. n_wake_time_ns (sc_nodes s) x \<le> now" "\<forall>x\<in>set bs'. now < n_wake_time_ns (sc_nodes s) x"
      "sorted (map (n_wake_time_ns (sc_nodes s)) ws)" "sched_same s s1"
    using wake_up_sleeping_threads_spec [OF ok, of now] by blast
  note l1 = sched_okD(1) [OF s1(2)]
  let ?s = "if is_idle s1 \<or> sc_next_reschedule_ns s1 \<le> now then s1\<lparr>sc_has_pending_reschedule := True\<rparr> else s1"
  have blocked: "{x. local_of s x \<and> blocked_at s x} = set bs" "{x. local_of s1 x \<and> blocked_at s1 x} = set bs'"
    using lists_okD(5,6) [OF l] lists_okD(5,6) [OF l1] by auto
  have bs: "set bs = set ws \<union> set bs'" using arg_cong [OF s1(3), of set_mset] by simp
  have "set ws = {x. x \<in> set bs \<and> n_wake_time_ns (sc_nodes s) x \<le> now}" "set bs' = {x. x \<in> set bs \<and> now < n_wake_time_ns (sc_nodes s) x}"
    using bs s1(4,5) by fastforce+
  then have sets: "set ws = {x. local_of s x \<and> blocked_at s x \<and> n_wake_time_ns (sc_nodes s) x \<le> now}"
      "{x. local_of s1 x \<and> blocked_at s1 x} = {x. local_of s x \<and> blocked_at s x \<and> now < n_wake_time_ns (sc_nodes s) x}"
    using blocked by auto
  have "distinct ws" using lists_okD(1) [OF l1] by (simp add: queue_ok_def)
  moreover have "sc_has_pending_reschedule s1 = sc_has_pending_reschedule s" using s1(7) unfolding sched_same_def by (cases s; cases s1) simp
  moreover have "on_timer_interrupt now s = Some ?s" using s1(1) by (simp add: on_timer_interrupt_def)
  ultimately show ?thesis
    using queue_walk_take [OF lists_okD(1) [OF l]] queue_walk_take [OF lists_okD(1) [OF l1]] sets s1(6) sched_same_fields(2,6) [OF s1(7)]
    by - (rule exI [of _ ?s], rule exI [of _ rs], rule exI [of _ ws], auto simp: is_idle_def)
qed

theorem timer_wakes_due_threads_witness:
  "\<exists>s' rs ws. on_timer_interrupt 30 (example_after 6) = Some s' \<and>
    (\<forall>n. queue_walk n (sc_nodes (example_after 6)) (q_head (sc_run (example_after 6))) = take n rs) \<and>
    (\<forall>n. queue_walk n (sc_nodes s') (q_head (sc_run s')) = take n (rs @ ws)) \<and> 2 \<in> set ws \<and> 1 \<notin> set ws"
proof -
  have inv: "sched_inv (example_after 6)" by (rule example_after_inv) code_simp
  have "local_of (example_after 6) 2 \<and> blocked_at (example_after 6) 2 \<and> n_wake_time_ns (sc_nodes (example_after 6)) 2 \<le> 30" by code_simp
  moreover have "\<not> n_wake_time_ns (sc_nodes (example_after 6)) 1 \<le> 30" by code_simp
  moreover obtain s' rs ws where "on_timer_interrupt 30 (example_after 6) = Some s'"
      "\<forall>n. queue_walk n (sc_nodes (example_after 6)) (q_head (sc_run (example_after 6))) = take n rs"
      "\<forall>n. queue_walk n (sc_nodes s') (q_head (sc_run s')) = take n (rs @ ws)"
      "set ws = {x. local_of (example_after 6) x \<and> blocked_at (example_after 6) x \<and> n_wake_time_ns (sc_nodes (example_after 6)) x \<le> 30}"
    using timer_wakes_due_threads [OF inv, of 30] by blast
  ultimately show ?thesis by (intro exI conjI) (assumption, assumption, assumption, simp_all)
qed

end
