(* ===== verification/ExclusiveLock.thy ===== *)
theory ExclusiveLock
  imports Prelude
begin

text \<open>
  What the locks of the kernel have in common. A lock is a step function: each step is one atomic access of
  one agent (a thread or a processor), and a list of steps is an interleaving of the agents. The locale
  \<open>exclusive_lock\<close> is the contract of a lock: its steps keep an invariant in which only the owner holds the lock. The invariant of the
  locks that count how often their owner has taken them is shared, too.
\<close>

section \<open>Interleavings\<close>

fun lock_run :: "('e \<Rightarrow> 's \<Rightarrow> 's run) \<Rightarrow> 'e list \<Rightarrow> 's \<Rightarrow> 's run" where
  "lock_run step [] s = Done s"
| "lock_run step (e # es) s = rbind (step e s) (lock_run step es)"

text \<open>Every call is allowed at the moment at which it is made.\<close>

fun calls_ok :: "('e \<Rightarrow> 's \<Rightarrow> 's run) \<Rightarrow> ('e \<Rightarrow> 's \<Rightarrow> bool) \<Rightarrow> 'e list \<Rightarrow> 's \<Rightarrow> bool" where
  "calls_ok step allowed [] s \<longleftrightarrow> True"
| "calls_ok step allowed (e # es) s \<longleftrightarrow>
     allowed e s \<and> (case step e s of Done s' \<Rightarrow> calls_ok step allowed es s' | Halt \<Rightarrow> True)"

section \<open>The contract\<close>

text \<open>
  \<open>inv n s\<close> is the invariant after \<open>n\<close> steps. The counters of the locks have 32 bits and a step adds at most
  one, so the contract is for fewer than \<open>2 ^ 32\<close> steps.
\<close>

definition step_limit :: nat where
  "step_limit = 2 ^ 32"

locale exclusive_lock =
  fixes step :: "'e \<Rightarrow> 's \<Rightarrow> 's run"
    and allowed :: "'e \<Rightarrow> 's \<Rightarrow> bool"
    and inv :: "nat \<Rightarrow> 's \<Rightarrow> bool"
    and held :: "'s \<Rightarrow> 'a \<Rightarrow> nat"
    and owner :: "'s \<Rightarrow> 'a"
  assumes step_inv: "inv n s \<Longrightarrow> Suc n < step_limit \<Longrightarrow> allowed e s \<Longrightarrow> \<exists>s'. step e s = Done s' \<and> inv (Suc n) s'"
    and held_owner: "inv n s \<Longrightarrow> 0 < held s a \<Longrightarrow> owner s = a"
begin

lemma run_inv:
  "inv n s \<Longrightarrow> n + length es < step_limit \<Longrightarrow> calls_ok step allowed es s \<Longrightarrow> \<exists>s'. lock_run step es s = Done s' \<and> inv (n + length es) s'"
proof (induction es arbitrary: n s)
  case (Cons e es)
  have n: "Suc n < step_limit" "Suc n + length es < step_limit" using Cons.prems(2) by simp_all
  obtain s1 where s1: "step e s = Done s1" "inv (Suc n) s1" using step_inv [OF Cons.prems(1) n(1), of e] Cons.prems(3) by auto
  then show ?case using Cons.IH [OF s1(2) n(2)] Cons.prems(3) by auto
qed simp

lemma mutual_exclusion:
  assumes "inv 0 s" "length es < step_limit" "calls_ok step allowed es s"
  shows "\<exists>s'. lock_run step es s = Done s' \<and> inv (length es) s' \<and> (\<forall>a b. 0 < held s' a \<longrightarrow> 0 < held s' b \<longrightarrow> a = b)"
proof -
  obtain s' where s': "lock_run step es s = Done s'" "inv (length es) s'" using run_inv [OF assms(1), of es] assms(2,3) by auto
  then show ?thesis using held_owner [OF s'(2)] by blast
qed

end

section \<open>Locks that count\<close>

text \<open>
  \<open>owns a\<close>: the agent \<open>a\<close> is between taking the lock and the first increment, or between the last decrement and the
  release. \<open>out a\<close>: it is not inside the code of the lock. \<open>held a\<close>: how often it has taken the lock.
\<close>

definition counting_inv :: "'a \<Rightarrow> nat \<Rightarrow> 'a \<Rightarrow> 32 word \<Rightarrow> ('a \<Rightarrow> bool) \<Rightarrow> ('a \<Rightarrow> bool) \<Rightarrow> ('a \<Rightarrow> nat) \<Rightarrow> bool" where
  "counting_inv none n locker depth out owns held \<longleftrightarrow>
     (\<forall>a. a \<noteq> none \<longrightarrow> (owns a \<or> 0 < held a) = (locker = a)) \<and>
     (\<forall>a. \<not> out a \<longrightarrow> held a = 0) \<and> (\<forall>a. owns a \<longrightarrow> \<not> out a) \<and> (\<forall>a. held a \<le> n) \<and>
     out none \<and> held none = 0 \<and> depth = of_nat (held locker)"

lemma counting_mono: "counting_inv none n locker depth out owns held \<Longrightarrow> counting_inv none (Suc n) locker depth out owns held"
  unfolding counting_inv_def by (meson le_SucI)

lemma counting_init: "counting_inv none 0 none 0 (\<lambda>_. True) (\<lambda>_. False) (\<lambda>_. 0)"
  by (simp add: counting_inv_def)

lemma countingD:
  assumes "counting_inv none n locker depth out owns held"
  shows "0 < held a \<Longrightarrow> locker = a" "owns a \<Longrightarrow> locker = a" "locker = a \<Longrightarrow> a \<noteq> none \<Longrightarrow> out a \<Longrightarrow> 0 < held a" "held a \<le> n" "depth = of_nat (held locker)"
    "\<not> out a \<Longrightarrow> held a = 0" "owns a \<Longrightarrow> \<not> out a" "out none" "held none = 0" "0 < held a \<Longrightarrow> out a"
  using assms unfolding counting_inv_def by (metis less_irrefl)+

lemma counting_depth:
  assumes ok: "counting_inv none n locker depth out owns held" and n: "n < step_limit"
  shows "0 < held a \<Longrightarrow> locker = a \<and> 0 < depth" "owns a \<Longrightarrow> locker = a \<and> depth = 0"
    "0 < held a \<Longrightarrow> (depth - 1 = 0) = (held a = 1)"
proof -
  note D = countingD [OF ok]
  have lt: "held a < 2 ^ 32" using D(4) [of a] n unfolding step_limit_def by linarith
  show "locker = a \<and> 0 < depth" if "0 < held a" using that D(1) [OF that] D(5) of_nat_32_eq_0 [OF lt] by (simp add: word_neq_0_conv)
  show "locker = a \<and> depth = 0" if "owns a" using D(2) [OF that] D(5) D(6,7) [of a] that by simp
  show "(depth - 1 = 0) = (held a = 1)" if "0 < held a"
  proof -
    have "depth - 1 = of_nat (held a - 1)" using that D(1) [OF that] D(5) by (simp add: of_nat_diff)
    then show ?thesis using of_nat_32_eq_0 [of "held a - 1"] lt that by auto
  qed
qed

lemma counting_unat:
  assumes ok: "counting_inv none n locker depth out owns held" and n: "n < step_limit" and a: "0 < held a"
  shows "locker = a \<and> unat depth = held a"
proof -
  have "locker = a" using countingD(1) [OF ok a] .
  moreover have "held a < 2 ^ 32" using countingD(4) [OF ok, of a] n unfolding step_limit_def by linarith
  ultimately show ?thesis using countingD(5) [OF ok] by (simp add: unat_of_nat)
qed

text \<open>The atomic steps of such a lock.\<close>

lemma counting_wait:
  assumes "counting_inv none n locker depth out owns held" "a \<noteq> none" "held a = 0" "\<not> owns a"
  shows "counting_inv none n locker depth (out(a := b)) (owns(a := False)) held"
  using assms unfolding counting_inv_def by (auto simp: fun_upd_idem)

lemma counting_take:
  assumes "counting_inv none n none depth out owns held" "a \<noteq> none"
  shows "counting_inv none n a depth (out(a := False)) (owns(a := True)) held"
  using assms unfolding counting_inv_def by auto

lemma counting_enter:
  assumes "counting_inv none n locker depth out owns held" "owns a"
  shows "counting_inv none (Suc n) locker (depth + 1) (out(a := True)) (owns(a := False)) (held(a := Suc (held a)))"
proof -
  note D = countingD [OF assms(1)]
  have "locker = a" "held a = 0" "a \<noteq> none" using D assms(2) by auto
  then show ?thesis using assms unfolding counting_inv_def by (auto simp: le_SucI)
qed

lemma counting_again:
  assumes "counting_inv none n locker depth out owns held" "0 < held a"
  shows "counting_inv none (Suc n) locker (depth + 1) out owns (held(a := Suc (held a)))"
proof -
  have "locker = a" using countingD(1) [OF assms] .
  then show ?thesis using assms unfolding counting_inv_def by (auto simp: le_SucI add.commute)
qed

lemma counting_drop:
  assumes "counting_inv none n locker depth out owns held" "0 < held a"
  shows "held a = 1 \<Longrightarrow> counting_inv none n locker (depth - 1) (out(a := False)) (owns(a := True)) (held(a := held a - 1))"
    "held a \<noteq> 1 \<Longrightarrow> counting_inv none n locker (depth - 1) out owns (held(a := held a - 1))"
proof -
  have l: "locker = a" using countingD(1) [OF assms] .
  have d: "depth - 1 = of_nat (held a - 1)" using assms(2) l countingD(5) [OF assms(1)] by (simp add: of_nat_diff)
  show "counting_inv none n locker (depth - 1) (out(a := False)) (owns(a := True)) (held(a := held a - 1))" if "held a = 1"
    using assms l that unfolding counting_inv_def by auto
  show "counting_inv none n locker (depth - 1) out owns (held(a := held a - 1))" if "held a \<noteq> 1"
    unfolding d using assms l that unfolding counting_inv_def by (auto intro: le_trans [OF diff_le_self])
qed

lemma counting_free:
  assumes "counting_inv none n locker depth out owns held" "owns a"
  shows "counting_inv none n none depth (out(a := True)) (owns(a := False)) held"
proof -
  note D = countingD [OF assms(1)]
  have "locker = a" "held a = 0" "a \<noteq> none" using D assms(2) by auto
  then show ?thesis using assms unfolding counting_inv_def by auto
qed

section \<open>Counters of agents\<close>

text \<open>A 32-bit counter of the agents for which \<open>P\<close> holds.\<close>

definition counted :: "nat \<Rightarrow> 32 word \<Rightarrow> ('a \<Rightarrow> bool) \<Rightarrow> bool" where
  "counted n w P \<longleftrightarrow> finite {a. P a} \<and> card {a. P a} \<le> n \<and> w = of_nat (card {a. P a})"

lemma counted_step:
  assumes q: "counted n w P" and same: "\<And>a. a \<noteq> t \<Longrightarrow> P' a = P a"
    and len: "w' + (if P t then 1 else 0) = w + (if P' t then 1 else 0)"
  shows "counted (Suc n) w' P'"
proof -
  let ?A = "{a. P a}" and ?B = "{a. P' a}"
  have fin: "finite ?A" "card ?A \<le> n" "w = of_nat (card ?A)" using q by (simp_all add: counted_def)
  consider "P t = P' t" | "\<not> P t" "P' t" | "P t" "\<not> P' t" by blast
  then show ?thesis
  proof cases
    case 1
    then have "P' a = P a" for a using same by (cases "a = t") auto
    then have "?B = ?A" by simp
    then show ?thesis using fin len 1 by (simp add: counted_def split: if_splits)
  next
    case 2
    then have "P' a = (a = t \<or> P a)" for a using same by (cases "a = t") auto
    then have "?B = insert t ?A" "t \<notin> ?A" using 2 by auto
    then show ?thesis using fin len 2 by (simp add: counted_def add.commute)
  next
    case 3
    then have "P' a = (a \<noteq> t \<and> P a)" for a using same by (cases "a = t") auto
    then have B: "?B = ?A - {t}" "t \<in> ?A" using 3 by auto
    then have "Suc (card ?B) = card ?A" using fin(1) by (simp add: card_Suc_Diff1 del: card_Diff_insert)
    then have "(of_nat (card ?A) :: 32 word) = of_nat (card ?B) + 1" "card ?B \<le> n" using fin(2) by (metis of_nat_Suc add.commute, linarith)
    then show ?thesis using fin(1,3) len 3 B(1) unfolding counted_def by simp
  qed
qed

lemma counted_eq_0: "counted n w P \<Longrightarrow> n < step_limit \<Longrightarrow> w = 0 \<longleftrightarrow> (\<forall>a. \<not> P a)"
proof -
  assume q: "counted n w P" "n < step_limit"
  then have "card {a. P a} < 2 ^ 32" "finite {a. P a}" unfolding counted_def step_limit_def by auto
  moreover have "w = of_nat (card {a. P a})" using q(1) by (simp add: counted_def)
  ultimately have "w = 0 \<longleftrightarrow> {a. P a} = {}" using of_nat_32_eq_0 by (metis card_0_eq)
  then show ?thesis by auto
qed

end
