(* ===== verification/Mutex.thy ===== *)
theory Mutex
  imports ExclusiveLock
begin

text \<open>
  \<^verbatim>\<open>kernel/kernel/Lock/Mutex.cpp\<close>: the mutex and the mutex that prefers kernel threads. The agents are threads, named by their
  \<^verbatim>\<open>tid\<close> (0 is the context without a thread; all such contexts are one agent here, as the lock, which compares
  only the \<^verbatim>\<open>tid\<close>, cannot tell them apart). A step is at most one access to a member that other threads write; the
  phase of a thread says where in the code of the lock it is. \<open>mx_held\<close> is what the callers know: how many of its
  locks a thread has not yet given back.
\<close>

section \<open>Model: the mutex\<close>

datatype lock_call = CallLock | CallTryLock | CallUnlock

record 'p mutex_sys =
  mx_locker :: int
  mx_lock_depth :: "32 word"
  mx_mutex_count :: "int \<Rightarrow> 32 word"
  mx_spinlock_count :: "int \<Rightarrow> 32 word"
  mx_interrupts :: "int \<Rightarrow> bool"
  mx_phase :: "int \<Rightarrow> 'p"
  mx_held :: "int \<Rightarrow> nat"

definition set_phase :: "int \<Rightarrow> 'p \<Rightarrow> ('p, 'z) mutex_sys_scheme \<Rightarrow> ('p, 'z) mutex_sys_scheme" where
  "set_phase tid p s = s\<lparr>mx_phase := (mx_phase s)(tid := p)\<rparr>"

definition add_mutex :: "int \<Rightarrow> ('p, 'z) mutex_sys_scheme \<Rightarrow> ('p, 'z) mutex_sys_scheme" where
  "add_mutex tid s = s\<lparr>mx_mutex_count := (mx_mutex_count s)(tid := mx_mutex_count s tid + 1)\<rparr>"

definition remove_mutex :: "int \<Rightarrow> ('p, 'z) mutex_sys_scheme \<Rightarrow> ('p, 'z) mutex_sys_scheme" where
  "remove_mutex tid s = s\<lparr>mx_mutex_count := (mx_mutex_count s)(tid := mx_mutex_count s tid - 1)\<rparr>"

text \<open>\<^verbatim>\<open>m_lock_depth++\<close>, behind which the call returns with the lock.\<close>

definition count_up :: "int \<Rightarrow> ('p, 'z) mutex_sys_scheme \<Rightarrow> ('p, 'z) mutex_sys_scheme" where
  "count_up tid s = s\<lparr>mx_lock_depth := mx_lock_depth s + 1, mx_held := (mx_held s)(tid := Suc (mx_held s tid))\<rparr>"

definition count_down :: "int \<Rightarrow> ('p, 'z) mutex_sys_scheme \<Rightarrow> ('p, 'z) mutex_sys_scheme" where
  "count_down tid s = s\<lparr>mx_lock_depth := mx_lock_depth s - 1, mx_held := (mx_held s)(tid := mx_held s tid - 1)\<rparr>"

definition mutex_locked :: "'p \<Rightarrow> int \<Rightarrow> ('p, 'z) mutex_sys_scheme \<Rightarrow> ('p, 'z) mutex_sys_scheme run" where
  "mutex_locked outside tid s =
     asserting (mx_lock_depth s = 0) (Done (count_up tid (set_phase tid outside (if tid \<noteq> 0 then add_mutex tid s else s))))"

definition mutex_unlocked :: "'p \<Rightarrow> int \<Rightarrow> ('p, 'z) mutex_sys_scheme \<Rightarrow> ('p, 'z) mutex_sys_scheme" where
  "mutex_unlocked outside tid s =
     (let s = set_phase tid outside (s\<lparr>mx_locker := - 1\<rparr>) in if tid \<noteq> 0 then remove_mutex tid s else s)"

datatype mutex_phase = MOutside | MExchanging | MTrying | MEntered | MReleasing

definition mutex_init :: "(int \<Rightarrow> bool) \<Rightarrow> (int \<Rightarrow> 32 word) \<Rightarrow> mutex_phase mutex_sys" where
  "mutex_init interrupts spinlocks =
     \<lparr>mx_locker = - 1, mx_lock_depth = 0, mx_mutex_count = (\<lambda>_. 0), mx_spinlock_count = spinlocks, mx_interrupts = interrupts,
      mx_phase = (\<lambda>_. MOutside), mx_held = (\<lambda>_. 0)\<rparr>"

definition mutex_try_lock :: "int \<Rightarrow> mutex_phase mutex_sys \<Rightarrow> mutex_phase mutex_sys run" where
  "mutex_try_lock tid s =
     (if tid = mx_locker s then asserting (0 < mx_lock_depth s) (Done (count_up tid s))
      else Done (set_phase tid MTrying s))"

definition mutex_try_exchange :: "int \<Rightarrow> mutex_phase mutex_sys \<Rightarrow> mutex_phase mutex_sys run" where
  "mutex_try_exchange tid s =
     (if mx_locker s = - 1 then Done (set_phase tid MEntered (s\<lparr>mx_locker := tid\<rparr>))
      else Done (set_phase tid MOutside s))"

definition mutex_lock :: "int \<Rightarrow> mutex_phase mutex_sys \<Rightarrow> mutex_phase mutex_sys run" where
  "mutex_lock tid s =
     (if tid = mx_locker s then asserting (0 < mx_lock_depth s) (Done (count_up tid s))
      else asserting (tid = 0 \<or> mx_spinlock_count s tid = 0) (Done (set_phase tid MExchanging s)))"

definition mutex_lock_exchange :: "int \<Rightarrow> mutex_phase mutex_sys \<Rightarrow> mutex_phase mutex_sys run" where
  "mutex_lock_exchange tid s =
     (if mx_locker s = - 1 then Done (set_phase tid MEntered (s\<lparr>mx_locker := tid\<rparr>))
      else asserting (mx_interrupts s tid) (Done s))"

definition mutex_unlock :: "int \<Rightarrow> mutex_phase mutex_sys \<Rightarrow> mutex_phase mutex_sys run" where
  "mutex_unlock tid s =
     asserting (mx_locker s = tid) (asserting (0 < mx_lock_depth s)
       (let s = count_down tid s in Done (if mx_lock_depth s = 0 then set_phase tid MReleasing s else s)))"

fun mutex_step :: "int \<times> lock_call \<Rightarrow> mutex_phase mutex_sys \<Rightarrow> mutex_phase mutex_sys run" where
  "mutex_step (tid, call) s =
     (case mx_phase s tid of
        MOutside \<Rightarrow>
          (case call of CallLock \<Rightarrow> mutex_lock tid s | CallTryLock \<Rightarrow> mutex_try_lock tid s | CallUnlock \<Rightarrow> mutex_unlock tid s)
      | MExchanging \<Rightarrow> mutex_lock_exchange tid s
      | MTrying \<Rightarrow> mutex_try_exchange tid s
      | MEntered \<Rightarrow> mutex_locked MOutside tid s
      | MReleasing \<Rightarrow> Done (mutex_unlocked MOutside tid s))"

definition is_locked_by_current_thread :: "int \<Rightarrow> ('p, 'z) mutex_sys_scheme \<Rightarrow> bool" where
  "is_locked_by_current_thread tid s = (mx_locker s = tid)"

text \<open>
  What the callers keep: a thread that does not have the lock waits for it only with interrupts enabled and without a spin lock,
  and it gives back only what it has.
\<close>

definition call_allowed :: "int \<Rightarrow> lock_call \<Rightarrow> ('p, 'z) mutex_sys_scheme \<Rightarrow> bool" where
  "call_allowed tid call s \<longleftrightarrow>
     (case call of
        CallLock \<Rightarrow> 0 < mx_held s tid \<or> mx_interrupts s tid \<and> mx_spinlock_count s tid = 0
      | CallTryLock \<Rightarrow> True
      | CallUnlock \<Rightarrow> 0 < mx_held s tid)"

fun mutex_allowed :: "int \<times> lock_call \<Rightarrow> mutex_phase mutex_sys \<Rightarrow> bool" where
  "mutex_allowed (tid, call) s \<longleftrightarrow> tid \<noteq> - 1 \<and> (mx_phase s tid = MOutside \<longrightarrow> call_allowed tid call s)"

section \<open>Model: the mutex with priority\<close>

datatype priority_phase =
    POutside | PChecking | PExchanging | PTryChecking | PTryExchanging | PEntered | PTryEntered | PLeaving | PReleasing

record priority_sys = "priority_phase mutex_sys" +
  pm_queue_length :: "32 word"
  pm_userspace :: "int \<Rightarrow> bool"

definition pm_init :: "(int \<Rightarrow> bool) \<Rightarrow> (int \<Rightarrow> 32 word) \<Rightarrow> (int \<Rightarrow> bool) \<Rightarrow> priority_sys" where
  "pm_init interrupts spinlocks userspace =
     \<lparr>mx_locker = - 1, mx_lock_depth = 0, mx_mutex_count = (\<lambda>_. 0), mx_spinlock_count = spinlocks, mx_interrupts = interrupts,
      mx_phase = (\<lambda>_. POutside), mx_held = (\<lambda>_. 0), pm_queue_length = 0, pm_userspace = userspace\<rparr>"

definition has_priority :: "priority_sys \<Rightarrow> int \<Rightarrow> bool" where
  "has_priority s tid = (if tid \<noteq> 0 then \<not> pm_userspace s tid else True)"

definition queue_up :: "int \<Rightarrow> priority_sys \<Rightarrow> priority_sys" where
  "queue_up tid s = (if has_priority s tid then s\<lparr>pm_queue_length := pm_queue_length s + 1\<rparr> else s)"

definition queue_down :: "int \<Rightarrow> priority_sys \<Rightarrow> priority_sys" where
  "queue_down tid s = (if has_priority s tid then s\<lparr>pm_queue_length := pm_queue_length s - 1\<rparr> else s)"

definition may_enter :: "int \<Rightarrow> priority_sys \<Rightarrow> bool" where
  "may_enter tid s = (has_priority s tid \<or> pm_queue_length s = 0)"

definition pm_try_lock :: "int \<Rightarrow> priority_sys \<Rightarrow> priority_sys run" where
  "pm_try_lock tid s =
     (if tid = mx_locker s then asserting (0 < mx_lock_depth s) (Done (count_up tid s))
      else Done (set_phase tid PTryChecking s))"

definition pm_try_exchange :: "int \<Rightarrow> priority_sys \<Rightarrow> priority_sys run" where
  "pm_try_exchange tid s =
     (if mx_locker s = - 1 then Done (set_phase tid PTryEntered (s\<lparr>mx_locker := tid\<rparr>))
      else Done (set_phase tid POutside s))"

definition pm_lock :: "int \<Rightarrow> priority_sys \<Rightarrow> priority_sys run" where
  "pm_lock tid s =
     (if tid = mx_locker s then asserting (0 < mx_lock_depth s) (Done (count_up tid s))
      else asserting (tid = 0 \<or> mx_spinlock_count s tid = 0) (Done (set_phase tid PChecking (queue_up tid s))))"

definition pm_lock_exchange :: "int \<Rightarrow> priority_sys \<Rightarrow> priority_sys run" where
  "pm_lock_exchange tid s =
     (if mx_locker s = - 1 then Done (set_phase tid PEntered (s\<lparr>mx_locker := tid\<rparr>))
      else asserting (mx_interrupts s tid) (Done (set_phase tid PChecking s)))"

definition pm_unlock :: "int \<Rightarrow> priority_sys \<Rightarrow> priority_sys run" where
  "pm_unlock tid s =
     asserting (mx_locker s = tid) (asserting (0 < mx_lock_depth s)
       (let s = count_down tid s in Done (if mx_lock_depth s = 0 then set_phase tid PLeaving s else s)))"

fun pm_step :: "int \<times> lock_call \<Rightarrow> priority_sys \<Rightarrow> priority_sys run" where
  "pm_step (tid, call) s =
     (case mx_phase s tid of
        POutside \<Rightarrow> (case call of CallLock \<Rightarrow> pm_lock tid s | CallTryLock \<Rightarrow> pm_try_lock tid s | CallUnlock \<Rightarrow> pm_unlock tid s)
      | PChecking \<Rightarrow> if may_enter tid s then Done (set_phase tid PExchanging s) else asserting (mx_interrupts s tid) (Done s)
      | PExchanging \<Rightarrow> pm_lock_exchange tid s
      | PTryChecking \<Rightarrow> Done (set_phase tid (if may_enter tid s then PTryExchanging else POutside) s)
      | PTryExchanging \<Rightarrow> pm_try_exchange tid s
      | PEntered \<Rightarrow> mutex_locked POutside tid s
      | PTryEntered \<Rightarrow> mutex_locked POutside tid (queue_up tid s)
      | PLeaving \<Rightarrow> Done (set_phase tid PReleasing (queue_down tid s))
      | PReleasing \<Rightarrow> Done (mutex_unlocked POutside tid s))"

fun pm_allowed :: "int \<times> lock_call \<Rightarrow> priority_sys \<Rightarrow> bool" where
  "pm_allowed (tid, call) s \<longleftrightarrow> tid \<noteq> - 1 \<and> (mx_phase s tid = POutside \<longrightarrow> call_allowed tid call s)"

section \<open>The mutex excludes\<close>

lemmas mutex_ops = set_phase_def add_mutex_def remove_mutex_def count_up_def count_down_def mutex_locked_def mutex_unlocked_def Let_def

definition mutex_inv :: "nat \<Rightarrow> mutex_phase mutex_sys \<Rightarrow> bool" where
  "mutex_inv n s \<longleftrightarrow>
     counting_inv (- 1) n (mx_locker s) (mx_lock_depth s) ((=) MOutside \<circ> mx_phase s) ((\<lambda>p. p \<in> {MEntered, MReleasing}) \<circ> mx_phase s) (mx_held s) \<and>
     (\<forall>a. mx_phase s a = MExchanging \<longrightarrow> mx_interrupts s a)"

lemma mutex_step_inv:
  assumes inv: "mutex_inv n s" and n: "Suc n < step_limit" and ok: "mutex_allowed e s"
  shows "\<exists>s'. mutex_step e s = Done s' \<and> mutex_inv (Suc n) s'"
proof -
  obtain tid call where e: "e = (tid, call)" by (cases e)
  let ?out = "(=) MOutside \<circ> mx_phase s" and ?own = "(\<lambda>p. p \<in> {MEntered, MReleasing}) \<circ> mx_phase s"
  have c: "counting_inv (- 1) n (mx_locker s) (mx_lock_depth s) ?out ?own (mx_held s)"
    and irq: "\<And>a. mx_phase s a = MExchanging \<Longrightarrow> mx_interrupts s a" using inv by (auto simp: mutex_inv_def)
  have n': "n < step_limit" using n by simp
  have t: "tid \<noteq> - 1" using ok e by simp
  note D = countingD [OF c] and d = counting_depth [OF c n', of tid]
  note wait = counting_mono [OF counting_wait [OF c t]]
  note take = counting_mono [OF counting_take [of "- 1" n "mx_lock_depth s" ?out ?own "mx_held s" tid]]
  show ?thesis
  proof (cases "mx_phase s tid")
    case MOutside
    show ?thesis
    proof (cases "mx_held s tid = 0")
      case True
      then have "mx_locker s \<noteq> tid" using D(3) [of tid] t MOutside by auto
      then show ?thesis using True MOutside e ok irq wait c
        by (cases call) (auto simp: mutex_inv_def mutex_ops mutex_lock_def mutex_try_lock_def call_allowed_def fun_upd_comp)
    next
      case False
      then have l: "mx_locker s = tid" "0 < mx_lock_depth s" "(mx_lock_depth s - 1 = 0) = (mx_held s tid = 1)" using d by auto
      have again: "counting_inv (- 1) (Suc n) (mx_locker s) (mx_lock_depth s + 1) ?out ?own ((mx_held s)(tid := Suc (mx_held s tid)))"
        using counting_again [OF c] False by simp
      show ?thesis
      proof (cases call)
        case CallUnlock
        show ?thesis
        proof (cases "mx_held s tid = 1")
          case True
          then show ?thesis using CallUnlock MOutside e l irq counting_mono [OF counting_drop(1) [OF c, of tid]]
            by (simp add: mutex_inv_def mutex_ops mutex_unlock_def fun_upd_comp)
        next
          case nontrivial: False
          then show ?thesis using CallUnlock MOutside e l irq False counting_mono [OF counting_drop(2) [OF c, of tid]]
            by (simp add: mutex_inv_def mutex_ops mutex_unlock_def)
        qed
      qed (use MOutside e l irq again in \<open>simp_all add: mutex_inv_def mutex_ops mutex_lock_def mutex_try_lock_def\<close>)
    qed
  next
    case MExchanging
    then show ?thesis using e irq D(6,7) [of tid] take c t counting_mono [OF c]
      by (cases "mx_locker s = - 1") (auto simp: mutex_inv_def mutex_ops mutex_lock_exchange_def fun_upd_comp)
  next
    case MTrying
    then show ?thesis using e irq D(6,7) [of tid] take wait c t
      by (cases "mx_locker s = - 1") (auto simp: mutex_inv_def mutex_ops mutex_try_exchange_def fun_upd_comp)
  next
    case MEntered
    then show ?thesis using e irq d(2) counting_enter [OF c, of tid] by (auto simp: mutex_inv_def mutex_ops fun_upd_comp)
  next
    case MReleasing
    then show ?thesis using e irq counting_mono [OF counting_free [OF c, of tid]] by (auto simp: mutex_inv_def mutex_ops fun_upd_comp)
  qed
qed

lemma mutex_held_owner: "mutex_inv n s \<Longrightarrow> 0 < mx_held s a \<Longrightarrow> mx_locker s = a"
  unfolding mutex_inv_def by (elim conjE) (rule countingD(1))

interpretation mx: exclusive_lock mutex_step mutex_allowed mutex_inv mx_held mx_locker
  by unfold_locales (erule (2) mutex_step_inv, erule (1) mutex_held_owner)

section \<open>The mutex with priority\<close>

text \<open>The kernel threads that \<^verbatim>\<open>m_queue_length\<close> counts.\<close>

definition in_queue :: "priority_sys \<Rightarrow> int \<Rightarrow> bool" where
  "in_queue s a \<longleftrightarrow> has_priority s a \<and> (mx_phase s a \<in> {PChecking, PExchanging, PEntered, PLeaving} \<or> 0 < mx_held s a)"

definition pm_owns :: "priority_phase \<Rightarrow> bool" where
  "pm_owns p \<longleftrightarrow> p \<in> {PEntered, PTryEntered, PLeaving, PReleasing}"

definition pm_counting :: "nat \<Rightarrow> priority_sys \<Rightarrow> bool" where
  "pm_counting n s \<longleftrightarrow>
     counting_inv (- 1) n (mx_locker s) (mx_lock_depth s) ((=) POutside \<circ> mx_phase s) (pm_owns \<circ> mx_phase s) (mx_held s) \<and>
     (\<forall>a. mx_phase s a \<in> {PChecking, PExchanging} \<longrightarrow> mx_interrupts s a)"

definition pm_inv :: "nat \<Rightarrow> priority_sys \<Rightarrow> bool" where
  "pm_inv n s \<longleftrightarrow> pm_counting n s \<and> counted n (pm_queue_length s) (in_queue s)"

lemmas pm_ops = mutex_ops queue_up_def queue_down_def pm_lock_def pm_try_lock_def pm_unlock_def pm_lock_exchange_def pm_try_exchange_def

lemma pm_step_counting:
  assumes inv: "pm_counting n s" and n: "Suc n < step_limit" and ok: "pm_allowed e s"
  shows "\<exists>s'. pm_step e s = Done s' \<and> pm_counting (Suc n) s'"
proof -
  obtain tid call where e: "e = (tid, call)" by (cases e)
  let ?out = "(=) POutside \<circ> mx_phase s" and ?own = "pm_owns \<circ> mx_phase s"
  have c: "counting_inv (- 1) n (mx_locker s) (mx_lock_depth s) ?out ?own (mx_held s)"
    and irq: "\<And>a. mx_phase s a \<in> {PChecking, PExchanging} \<Longrightarrow> mx_interrupts s a" using inv by (auto simp: pm_counting_def)
  have n': "n < step_limit" using n by simp
  have t: "tid \<noteq> - 1" using ok e by simp
  note D = countingD [OF c] and d = counting_depth [OF c n', of tid]
  note wait = counting_mono [OF counting_wait [OF c t]]
  note take = counting_mono [OF counting_take [of "- 1" n "mx_lock_depth s" ?out ?own "mx_held s" tid]]
  have own: "counting_inv (- 1) (Suc n) (mx_locker s) (mx_lock_depth s) (?out(tid := False)) (?own(tid := True)) (mx_held s)" if "?own tid"
  proof -
    have "?own(tid := True) = ?own" "?out(tid := False) = ?out" using that D(7) [of tid] by (auto simp: fun_upd_idem_iff)
    then show ?thesis using counting_mono [OF c] by simp
  qed
  show ?thesis
  proof (cases "mx_phase s tid")
    case POutside
    show ?thesis
    proof (cases "mx_held s tid = 0")
      case True
      then have "mx_locker s \<noteq> tid" using D(3) [of tid] t POutside by auto
      then show ?thesis using True POutside e ok irq wait c
        by (cases call) (auto simp: pm_counting_def pm_ops call_allowed_def pm_owns_def fun_upd_comp)
    next
      case False
      then have l: "mx_locker s = tid" "0 < mx_lock_depth s" "(mx_lock_depth s - 1 = 0) = (mx_held s tid = 1)" using d by auto
      have again: "counting_inv (- 1) (Suc n) (mx_locker s) (mx_lock_depth s + 1) ?out ?own ((mx_held s)(tid := Suc (mx_held s tid)))"
        using counting_again [OF c] False by simp
      show ?thesis
      proof (cases call)
        case CallUnlock
        show ?thesis
        proof (cases "mx_held s tid = 1")
          case True
          then show ?thesis using CallUnlock POutside e l irq counting_mono [OF counting_drop(1) [OF c, of tid]]
            by (simp add: pm_counting_def pm_ops pm_owns_def fun_upd_comp)
        next
          case nontrivial: False
          then show ?thesis using CallUnlock POutside e l irq False counting_mono [OF counting_drop(2) [OF c, of tid]]
            by (simp add: pm_counting_def pm_ops)
        qed
      qed (use POutside e l irq again in \<open>simp_all add: pm_counting_def pm_ops\<close>)
    qed
  next
    case PChecking
    then show ?thesis using e irq D(6) [of tid] wait counting_mono [OF c] by (auto simp: pm_counting_def pm_ops pm_owns_def fun_upd_comp)
  next
    case PExchanging
    then show ?thesis using e irq D(6) [of tid] take wait c t
      by (cases "mx_locker s = - 1") (auto simp: pm_counting_def pm_ops pm_owns_def fun_upd_comp)
  next
    case PTryChecking
    then show ?thesis using e irq D(6) [of tid] wait by (auto simp: pm_counting_def pm_ops pm_owns_def fun_upd_comp)
  next
    case PTryExchanging
    then show ?thesis using e irq D(6) [of tid] take wait c t
      by (cases "mx_locker s = - 1") (auto simp: pm_counting_def pm_ops pm_owns_def fun_upd_comp)
  next
    case PEntered
    then show ?thesis using e irq d(2) counting_enter [OF c, of tid] by (auto simp: pm_counting_def pm_ops pm_owns_def fun_upd_comp)
  next
    case PTryEntered
    then show ?thesis using e irq d(2) counting_enter [OF c, of tid] by (auto simp: pm_counting_def pm_ops pm_owns_def fun_upd_comp)
  next
    case PLeaving
    then show ?thesis using e irq own by (auto simp: pm_counting_def pm_ops pm_owns_def fun_upd_comp)
  next
    case PReleasing
    then show ?thesis using e irq counting_mono [OF counting_free [OF c, of tid]] by (auto simp: pm_counting_def pm_ops pm_owns_def fun_upd_comp)
  qed
qed

lemma pm_step_frame:
  assumes "pm_step (tid, call) s = Done s'"
  shows "pm_userspace s' = pm_userspace s" "a \<noteq> tid \<Longrightarrow> mx_phase s' a = mx_phase s a \<and> mx_held s' a = mx_held s a"
  using assms by (auto simp: pm_ops asserting_def split: priority_phase.splits lock_call.splits if_splits)

lemma pm_step_queue:
  assumes c: "pm_counting n s" and n: "n < step_limit" and ok: "pm_allowed (tid, call) s" and s': "pm_step (tid, call) s = Done s'"
  shows "pm_queue_length s' + (if in_queue s tid then 1 else 0) = pm_queue_length s + (if in_queue s' tid then 1 else 0)"
proof -
  have ci: "counting_inv (- 1) n (mx_locker s) (mx_lock_depth s) ((=) POutside \<circ> mx_phase s) (pm_owns \<circ> mx_phase s) (mx_held s)"
    using c by (simp add: pm_counting_def)
  have t: "tid \<noteq> - 1" using ok by simp
  have out: "mx_held s tid = 0" if "mx_phase s tid \<noteq> POutside" using countingD(6) [OF ci, of tid] that by auto
  have free: "mx_held s tid = 0" if "mx_locker s \<noteq> tid" using countingD(1) [OF ci, of tid] that by auto
  have mine: "0 < mx_held s tid" if "mx_locker s = tid" "mx_phase s tid = POutside" using countingD(3) [OF ci, of tid] that t by auto
  have last: "(mx_lock_depth s - 1 = 0) = (mx_held s tid = 1)" if "0 < mx_held s tid" using counting_depth(3) [OF ci n that] .
  show ?thesis
  proof (cases "mx_phase s tid")
    case POutside
    show ?thesis
    proof (cases "mx_locker s = tid")
      case True
      note h = mine [OF True POutside]
      show ?thesis using s' POutside True h last [OF h]
        by (cases call) (auto simp: pm_ops asserting_def in_queue_def has_priority_def split: if_splits)
    next
      case False
      show ?thesis using s' POutside False free [OF False]
        by (cases call) (auto simp: pm_ops asserting_def in_queue_def has_priority_def split: if_splits)
    qed
  qed (use s' out in \<open>auto simp: pm_ops asserting_def in_queue_def has_priority_def split: if_splits\<close>)
qed

lemma pm_step_inv:
  assumes inv: "pm_inv n s" and n: "Suc n < step_limit" and ok: "pm_allowed e s"
  shows "\<exists>s'. pm_step e s = Done s' \<and> pm_inv (Suc n) s'"
proof -
  obtain tid call where e: "e = (tid, call)" by (cases e)
  have c: "pm_counting n s" "counted n (pm_queue_length s) (in_queue s)" using inv by (simp_all add: pm_inv_def)
  obtain s' where s': "pm_step e s = Done s'" "pm_counting (Suc n) s'" using pm_step_counting [OF c(1) n ok] by blast
  have same: "in_queue s' a = in_queue s a" if "a \<noteq> tid" for a
    using pm_step_frame(2) [OF s'(1) [unfolded e] that] pm_step_frame(1) [OF s'(1) [unfolded e]] by (simp add: in_queue_def has_priority_def)
  have "counted (Suc n) (pm_queue_length s') (in_queue s')"
    using counted_step [OF c(2) same pm_step_queue [OF c(1) Suc_lessD [OF n] ok [unfolded e] s'(1) [unfolded e]]] .
  then show ?thesis using s' by (auto simp: pm_inv_def)
qed

lemma pm_held_owner: "pm_inv n s \<Longrightarrow> 0 < mx_held s a \<Longrightarrow> mx_locker s = a"
  unfolding pm_inv_def pm_counting_def by (elim conjE) (rule countingD(1))

interpretation pm: exclusive_lock pm_step pm_allowed pm_inv mx_held mx_locker
  by unfold_locales (erule (2) pm_step_inv, erule (1) pm_held_owner)

section \<open>Properties\<close>

lemma mutex_init_inv: "mutex_inv 0 (mutex_init interrupts spinlocks)"
  using counting_init by (simp add: mutex_inv_def mutex_init_def comp_def)

lemma pm_init_inv: "pm_inv 0 (pm_init interrupts spinlocks userspace)"
  using counting_init by (simp add: pm_inv_def pm_counting_def pm_init_def counted_def in_queue_def pm_owns_def comp_def)

text \<open>
  C7: The mutex excludes. In every interleaving of the atomic steps of any number of threads that lock, try to lock and unlock it
  (fewer than \<open>2 ^ 32\<close> steps), if the threads only unlock what they have locked and wait only with interrupts enabled and without
  a spin lock, then no assertion fails, never do two threads have the mutex, and the thread that has it is the one the
  mutex names, with the depth it has locked it.
\<close>

theorem mutex_mutual_exclusion:
  assumes "length es < step_limit" "calls_ok mutex_step mutex_allowed es (mutex_init interrupts spinlocks)"
  shows "\<exists>s. lock_run mutex_step es (mutex_init interrupts spinlocks) = Done s \<and> (\<forall>a b. 0 < mx_held s a \<longrightarrow> 0 < mx_held s b \<longrightarrow> a = b) \<and>
    (\<forall>a. 0 < mx_held s a \<longrightarrow> is_locked_by_current_thread a s \<and> unat (mx_lock_depth s) = mx_held s a)"
proof -
  obtain s where s: "lock_run mutex_step es (mutex_init interrupts spinlocks) = Done s" "mutex_inv (length es) s"
      "\<forall>a b. 0 < mx_held s a \<longrightarrow> 0 < mx_held s b \<longrightarrow> a = b"
    using mx.mutual_exclusion [OF mutex_init_inv assms] by blast
  then have c: "counting_inv (- 1) (length es) (mx_locker s) (mx_lock_depth s) ((=) MOutside \<circ> mx_phase s)
      ((\<lambda>p. p \<in> {MEntered, MReleasing}) \<circ> mx_phase s) (mx_held s)"
    by (simp add: mutex_inv_def)
  have "is_locked_by_current_thread a s \<and> unat (mx_lock_depth s) = mx_held s a" if "0 < mx_held s a" for a
    using counting_unat [OF c assms(1) that] by (simp add: is_locked_by_current_thread_def)
  then show ?thesis using s by blast
qed

definition example_calls :: "(int \<times> lock_call) list" where
  "example_calls =
     [(1, CallLock), (2, CallTryLock), (1, CallLock), (2, CallTryLock), (1, CallLock), (2, CallLock), (2, CallLock), (1, CallLock),
      (1, CallUnlock), (1, CallUnlock), (1, CallUnlock), (2, CallLock), (2, CallLock)]"

theorem mutex_mutual_exclusion_witness:
  "\<exists>s. lock_run mutex_step example_calls (mutex_init (\<lambda>_. True) (\<lambda>_. 0)) = Done s \<and> (\<forall>a b. 0 < mx_held s a \<longrightarrow> 0 < mx_held s b \<longrightarrow> a = b) \<and>
    (\<forall>a. 0 < mx_held s a \<longrightarrow> is_locked_by_current_thread a s \<and> unat (mx_lock_depth s) = mx_held s a)"
proof (rule mutex_mutual_exclusion)
  show "length example_calls < step_limit" by (simp add: example_calls_def step_limit_def)
  show "calls_ok mutex_step mutex_allowed example_calls (mutex_init (\<lambda>_. True) (\<lambda>_. 0))" by code_simp
qed

text \<open>\<open>overtakes u k es s\<close>: in the run \<open>es\<close> the thread \<open>u\<close> gets the mutex before \<open>k\<close> does.\<close>

fun overtakes :: "int \<Rightarrow> int \<Rightarrow> (int \<times> lock_call) list \<Rightarrow> priority_sys \<Rightarrow> bool" where
  "overtakes u k [] s \<longleftrightarrow> 0 < mx_held s u"
| "overtakes u k (e # es) s \<longleftrightarrow>
     0 < mx_held s u \<or> mx_held s k = 0 \<and> (case pm_step e s of Done s' \<Rightarrow> overtakes u k es s' | Halt \<Rightarrow> False)"

definition waits_before :: "int \<Rightarrow> int \<Rightarrow> priority_sys \<Rightarrow> bool" where
  "waits_before k u s \<longleftrightarrow>
     has_priority s k \<and> mx_phase s k \<in> {PChecking, PExchanging, PEntered} \<and>
     \<not> has_priority s u \<and> mx_phase s u \<in> {POutside, PChecking, PTryChecking} \<and> mx_held s u = 0"

lemma waits_before_step:
  assumes inv: "pm_inv n s" and n: "n < step_limit" and ok: "pm_allowed e s" and w: "waits_before k u s" and s': "pm_step e s = Done s'"
  shows "waits_before k u s' \<or> 0 < mx_held s' k \<and> mx_held s' u = 0"
proof -
  obtain t call where e: "e = (t, call)" by (cases e)
  have ku: "k \<noteq> u" using w by (auto simp: waits_before_def)
  have frame: "mx_phase s' a = mx_phase s a \<and> mx_held s' a = mx_held s a" if "a \<noteq> t" for a using pm_step_frame(2) s' e that by blast
  have pri: "has_priority s' a = has_priority s a" for a using pm_step_frame(1) s' e by (simp add: has_priority_def)
  consider "t = k" | "t = u" | "t \<noteq> k" "t \<noteq> u" by blast
  then show ?thesis
  proof cases
    case 1
    have "mx_phase s' k \<in> {PChecking, PExchanging, PEntered} \<or> 0 < mx_held s' k"
      using s' e 1 w by (auto simp: waits_before_def pm_ops asserting_def may_enter_def split: if_splits)
    then show ?thesis using frame [of u] ku 1 w pri by (auto simp: waits_before_def)
  next
    case 2
    have "in_queue s k" using w by (auto simp: waits_before_def in_queue_def)
    then have closed: "\<not> may_enter u s" using counted_eq_0 [of n "pm_queue_length s" "in_queue s"] inv n w by (auto simp: pm_inv_def waits_before_def may_enter_def)
    have c: "counting_inv (- 1) n (mx_locker s) (mx_lock_depth s) ((=) POutside \<circ> mx_phase s) (pm_owns \<circ> mx_phase s) (mx_held s)"
      using inv by (simp add: pm_inv_def pm_counting_def)
    have "mx_locker s \<noteq> u" if "mx_phase s u = POutside"
    proof
      assume "mx_locker s = u"
      then have "0 < mx_held s u" using countingD(3) [OF c] that ok e 2 by auto
      then show False using w by (simp add: waits_before_def)
    qed
    then have "mx_phase s' u \<in> {POutside, PChecking, PTryChecking} \<and> mx_held s' u = 0"
      using s' e 2 w closed ok by (cases call) (auto simp: waits_before_def pm_ops asserting_def call_allowed_def split: if_splits)
    then show ?thesis using frame [of k] ku 2 w pri by (auto simp: waits_before_def)
  next
    case 3
    then show ?thesis using frame [of k] frame [of u] w pri by (simp add: waits_before_def)
  qed
qed

lemma not_overtaken:
  "pm_inv n s \<Longrightarrow> n + length es < step_limit \<Longrightarrow> calls_ok pm_step pm_allowed es s \<Longrightarrow> waits_before k u s \<Longrightarrow> \<not> overtakes u k es s"
proof (induction es arbitrary: n s)
  case Nil
  then show ?case by (simp add: waits_before_def)
next
  case (Cons e es)
  have n: "n < step_limit" "Suc n < step_limit" "Suc n + length es < step_limit" using Cons.prems(2) by simp_all
  have ok: "pm_allowed e s" using Cons.prems(3) by simp
  obtain s' where s': "pm_step e s = Done s'" "pm_inv (Suc n) s'" using pm_step_inv [OF Cons.prems(1) n(2) ok] by blast
  have "\<not> overtakes u k es s'" if "0 < mx_held s' k" "mx_held s' u = 0" using that by (cases es) auto
  moreover have "\<not> overtakes u k es s'" if "waits_before k u s'" using Cons.IH [OF s'(2) n(3) _ that] Cons.prems(3) s'(1) by simp
  ultimately show ?case
    using waits_before_step [OF Cons.prems(1) n(1) ok Cons.prems(4) s'(1)] s'(1) Cons.prems(4) by (auto simp: waits_before_def)
qed

text \<open>
  C23: Kernel threads have priority. Once a kernel thread waits for the priority mutex in \<^verbatim>\<open>lock\<close>, no user thread that has not
  passed its check of the queue length gets the mutex before the kernel thread does, in whatever order the threads go on.
\<close>

theorem priority_mutex_no_overtaking:
  assumes run: "calls_ok pm_step pm_allowed es (pm_init interrupts spinlocks userspace)"
      "lock_run pm_step es (pm_init interrupts spinlocks userspace) = Done s"
    and rest: "calls_ok pm_step pm_allowed es' s" "length es + length es' < step_limit"
    and kernel: "has_priority s k" "mx_phase s k \<in> {PChecking, PExchanging}"
    and user: "\<not> has_priority s u" "mx_phase s u \<in> {POutside, PChecking, PTryChecking}" "mx_held s u = 0"
  shows "\<not> overtakes u k es' s"
proof -
  have "pm_inv (length es) s" using pm.run_inv [OF pm_init_inv, of es] run rest(2) by fastforce
  moreover have "waits_before k u s" using kernel user by (auto simp: waits_before_def)
  ultimately show ?thesis using not_overtaken rest by blast
qed

definition priority_calls :: "(int \<times> lock_call) list" where
  "priority_calls = [(1, CallLock), (1, CallLock), (1, CallLock), (1, CallLock), (2, CallLock), (3, CallLock)]"

definition priority_calls' :: "(int \<times> lock_call) list" where
  "priority_calls' = [(1, CallUnlock), (1, CallLock), (1, CallLock), (2, CallLock), (3, CallLock), (2, CallTryLock), (3, CallLock), (3, CallLock)]"

theorem priority_mutex_no_overtaking_witness:
  "\<not> overtakes 2 3 priority_calls' (case lock_run pm_step priority_calls (pm_init (\<lambda>_. True) (\<lambda>_. 0) (\<lambda>t. t < 3)) of Done s \<Rightarrow> s)"
proof (rule priority_mutex_no_overtaking [of priority_calls "\<lambda>_. True" "\<lambda>_. 0" "\<lambda>t. t < 3"])
  show "calls_ok pm_step pm_allowed priority_calls (pm_init (\<lambda>_. True) (\<lambda>_. 0) (\<lambda>t. t < 3))" by code_simp
  have "is_done (lock_run pm_step priority_calls (pm_init (\<lambda>_. True) (\<lambda>_. 0) (\<lambda>t. t < 3)))" by code_simp
  then show "lock_run pm_step priority_calls (pm_init (\<lambda>_. True) (\<lambda>_. 0) (\<lambda>t. t < 3)) =
      Done (case lock_run pm_step priority_calls (pm_init (\<lambda>_. True) (\<lambda>_. 0) (\<lambda>t. t < 3)) of Done s \<Rightarrow> s)"
    by (auto simp: is_done_def split: run.splits)
  show "length priority_calls + length priority_calls' < step_limit" by (simp add: priority_calls_def priority_calls'_def step_limit_def)
qed code_simp+

end
