(* ===== verification/SpinLock.thy ===== *)
theory SpinLock
  imports ExclusiveLock
begin

text \<open>
  \<^verbatim>\<open>kernel/kernel/Lock/SpinLock.cpp\<close> with the guards of \<^verbatim>\<open>kernel/include/kernel/Lock/SpinLock.h\<close>. The agents are
  processors, and a step is at most one access to \<^verbatim>\<open>m_locker\<close>. \<open>sl_guards p\<close> are the interrupt states that the live
  guards of the processor \<open>p\<close> have kept for their \<^verbatim>\<open>unlock\<close>, the newest first; \<^verbatim>\<open>try_lock_interrupts_disabled\<close> counts as a guard
  of disabled interrupts. The warning of a processor that spins for a second is output only.
\<close>

section \<open>Model: the spin lock\<close>

definition processor_none :: "32 word" where
  "processor_none = - 1"

datatype spin_call = SpinCall | SpinTryCall | SpinUnlockCall

record 'p spin_sys =
  sl_locker :: "32 word"
  sl_interrupts :: "32 word \<Rightarrow> bool"
  sl_tid :: "32 word \<Rightarrow> int"
  sl_spinlock_count :: "int \<Rightarrow> 32 word"
  sl_phase :: "32 word \<Rightarrow> 'p"
  sl_guards :: "32 word \<Rightarrow> bool list"

definition set_spin_phase :: "32 word \<Rightarrow> 'p \<Rightarrow> ('p, 'z) spin_sys_scheme \<Rightarrow> ('p, 'z) spin_sys_scheme" where
  "set_spin_phase p ph s = s\<lparr>sl_phase := (sl_phase s)(p := ph)\<rparr>"

definition set_interrupts :: "32 word \<Rightarrow> bool \<Rightarrow> ('p, 'z) spin_sys_scheme \<Rightarrow> ('p, 'z) spin_sys_scheme" where
  "set_interrupts p b s = s\<lparr>sl_interrupts := (sl_interrupts s)(p := b)\<rparr>"

definition set_guards :: "32 word \<Rightarrow> bool list \<Rightarrow> ('p, 'z) spin_sys_scheme \<Rightarrow> ('p, 'z) spin_sys_scheme" where
  "set_guards p gs s = s\<lparr>sl_guards := (sl_guards s)(p := gs)\<rparr>"

definition add_spinlock :: "32 word \<Rightarrow> ('p, 'z) spin_sys_scheme \<Rightarrow> ('p, 'z) spin_sys_scheme" where
  "add_spinlock p s =
     (let t = sl_tid s p in if t \<noteq> 0 then s\<lparr>sl_spinlock_count := (sl_spinlock_count s)(t := sl_spinlock_count s t + 1)\<rparr> else s)"

definition remove_spinlock :: "32 word \<Rightarrow> ('p, 'z) spin_sys_scheme \<Rightarrow> ('p, 'z) spin_sys_scheme" where
  "remove_spinlock p s =
     (let t = sl_tid s p in if t \<noteq> 0 then s\<lparr>sl_spinlock_count := (sl_spinlock_count s)(t := sl_spinlock_count s t - 1)\<rparr> else s)"

datatype spin_phase = SOutside | SSpinning bool

definition spin_init :: "(32 word \<Rightarrow> bool) \<Rightarrow> (32 word \<Rightarrow> int) \<Rightarrow> spin_phase spin_sys" where
  "spin_init interrupts tid =
     \<lparr>sl_locker = processor_none, sl_interrupts = interrupts, sl_tid = tid, sl_spinlock_count = (\<lambda>_. 0), sl_phase = (\<lambda>_. SOutside),
      sl_guards = (\<lambda>_. [])\<rparr>"

definition spin_lock :: "32 word \<Rightarrow> spin_phase spin_sys \<Rightarrow> spin_phase spin_sys run" where
  "spin_lock p s =
     (let state = sl_interrupts s p; s = set_interrupts p False s
      in asserting (sl_locker s \<noteq> p) (Done (set_spin_phase p (SSpinning state) s)))"

definition spin_exchange :: "32 word \<Rightarrow> bool \<Rightarrow> spin_phase spin_sys \<Rightarrow> spin_phase spin_sys run" where
  "spin_exchange p state s =
     (if sl_locker s = processor_none
      then Done (set_guards p (state # sl_guards s p) (set_spin_phase p SOutside (add_spinlock p (s\<lparr>sl_locker := p\<rparr>))))
      else Done s)"

definition spin_try_lock :: "32 word \<Rightarrow> spin_phase spin_sys \<Rightarrow> spin_phase spin_sys run" where
  "spin_try_lock p s =
     asserting (\<not> sl_interrupts s p) (asserting (sl_locker s \<noteq> p)
       (if sl_locker s = processor_none
        then Done (set_guards p (False # sl_guards s p) (add_spinlock p (s\<lparr>sl_locker := p\<rparr>)))
        else Done s))"

definition spin_unlock :: "32 word \<Rightarrow> bool \<Rightarrow> spin_phase spin_sys \<Rightarrow> spin_phase spin_sys run" where
  "spin_unlock p state s =
     asserting (\<not> sl_interrupts s p) (asserting (sl_locker s = p)
       (let s = remove_spinlock p (s\<lparr>sl_locker := processor_none\<rparr>)
        in Done (if state then set_interrupts p state s else s)))"

text \<open>The destructor of a guard passes the state it has kept.\<close>

definition spin_guard_end :: "32 word \<Rightarrow> spin_phase spin_sys \<Rightarrow> spin_phase spin_sys run" where
  "spin_guard_end p s =
     (case sl_guards s p of [] \<Rightarrow> Halt | state # gs \<Rightarrow> rbind (spin_unlock p state s) (\<lambda>s. Done (set_guards p gs s)))"

fun spin_step :: "32 word \<times> spin_call \<Rightarrow> spin_phase spin_sys \<Rightarrow> spin_phase spin_sys run" where
  "spin_step (p, call) s =
     (case sl_phase s p of
        SSpinning state \<Rightarrow> spin_exchange p state s
      | SOutside \<Rightarrow>
          (case call of SpinCall \<Rightarrow> spin_lock p s | SpinTryCall \<Rightarrow> spin_try_lock p s | SpinUnlockCall \<Rightarrow> spin_guard_end p s))"

definition current_processor_has_lock :: "32 word \<Rightarrow> ('p, 'z) spin_sys_scheme \<Rightarrow> bool" where
  "current_processor_has_lock p s = (sl_locker s = p)"

definition spin_lock_depth :: "32 word \<Rightarrow> spin_phase spin_sys \<Rightarrow> nat" where
  "spin_lock_depth p s = (if current_processor_has_lock p s then 1 else 0)"

text \<open>What the callers keep: the lock is not taken twice, tried only with interrupts disabled, and only given back by its guard.\<close>

fun spin_allowed :: "32 word \<times> spin_call \<Rightarrow> spin_phase spin_sys \<Rightarrow> bool" where
  "spin_allowed (p, call) s \<longleftrightarrow>
     p \<noteq> processor_none \<and>
     (sl_phase s p = SOutside \<longrightarrow>
       (case call of
          SpinCall \<Rightarrow> sl_guards s p = []
        | SpinTryCall \<Rightarrow> sl_guards s p = [] \<and> \<not> sl_interrupts s p
        | SpinUnlockCall \<Rightarrow> sl_guards s p \<noteq> []))"

section \<open>Model: the recursive spin lock\<close>

datatype recursive_phase = ROutside | RSpinning bool | REntered bool | RTryEntered | RReleasing bool

record recursive_sys = "recursive_phase spin_sys" +
  rl_lock_depth :: "32 word"

definition recursive_init :: "(32 word \<Rightarrow> bool) \<Rightarrow> (32 word \<Rightarrow> int) \<Rightarrow> recursive_sys" where
  "recursive_init interrupts tid =
     \<lparr>sl_locker = processor_none, sl_interrupts = interrupts, sl_tid = tid, sl_spinlock_count = (\<lambda>_. 0), sl_phase = (\<lambda>_. ROutside),
      sl_guards = (\<lambda>_. []), rl_lock_depth = 0\<rparr>"

definition recursive_lock :: "32 word \<Rightarrow> recursive_sys \<Rightarrow> recursive_sys run" where
  "recursive_lock p s =
     (let state = sl_interrupts s p; s = set_interrupts p False s
      in if sl_locker s = p
         then asserting (0 < rl_lock_depth s) (Done (set_guards p (state # sl_guards s p) (s\<lparr>rl_lock_depth := rl_lock_depth s + 1\<rparr>)))
         else Done (set_spin_phase p (RSpinning state) s))"

definition recursive_exchange :: "32 word \<Rightarrow> bool \<Rightarrow> recursive_sys \<Rightarrow> recursive_sys run" where
  "recursive_exchange p state s =
     (if sl_locker s = processor_none then Done (set_spin_phase p (REntered state) (s\<lparr>sl_locker := p\<rparr>)) else Done s)"

definition recursive_locked :: "32 word \<Rightarrow> bool \<Rightarrow> recursive_sys \<Rightarrow> recursive_sys run" where
  "recursive_locked p state s =
     asserting (rl_lock_depth s = 0)
       (Done (set_guards p (state # sl_guards s p) (set_spin_phase p ROutside (add_spinlock p (s\<lparr>rl_lock_depth := 1\<rparr>)))))"

definition recursive_try_lock :: "32 word \<Rightarrow> recursive_sys \<Rightarrow> recursive_sys run" where
  "recursive_try_lock p s =
     asserting (\<not> sl_interrupts s p)
       (if sl_locker s = p
        then asserting (0 < rl_lock_depth s) (Done (set_guards p (False # sl_guards s p) (s\<lparr>rl_lock_depth := rl_lock_depth s + 1\<rparr>)))
        else if sl_locker s = processor_none then Done (set_spin_phase p RTryEntered (s\<lparr>sl_locker := p\<rparr>))
        else Done s)"

definition recursive_unlock :: "32 word \<Rightarrow> bool \<Rightarrow> recursive_sys \<Rightarrow> recursive_sys run" where
  "recursive_unlock p state s =
     asserting (\<not> sl_interrupts s p) (asserting (sl_locker s = p) (asserting (0 < rl_lock_depth s)
       (let s = s\<lparr>rl_lock_depth := rl_lock_depth s - 1\<rparr>
        in if 0 < rl_lock_depth s then Done s else Done (set_spin_phase p (RReleasing state) s))))"

definition recursive_release :: "32 word \<Rightarrow> bool \<Rightarrow> recursive_sys \<Rightarrow> recursive_sys run" where
  "recursive_release p state s =
     (let s = set_spin_phase p ROutside (remove_spinlock p (s\<lparr>sl_locker := processor_none\<rparr>))
      in Done (if state then set_interrupts p state s else s))"

definition recursive_guard_end :: "32 word \<Rightarrow> recursive_sys \<Rightarrow> recursive_sys run" where
  "recursive_guard_end p s =
     (case sl_guards s p of [] \<Rightarrow> Halt | state # gs \<Rightarrow> rbind (recursive_unlock p state s) (\<lambda>s. Done (set_guards p gs s)))"

fun recursive_step :: "32 word \<times> spin_call \<Rightarrow> recursive_sys \<Rightarrow> recursive_sys run" where
  "recursive_step (p, call) s =
     (case sl_phase s p of
        RSpinning state \<Rightarrow> recursive_exchange p state s
      | REntered state \<Rightarrow> recursive_locked p state s
      | RTryEntered \<Rightarrow> recursive_locked p False s
      | RReleasing state \<Rightarrow> recursive_release p state s
      | ROutside \<Rightarrow>
          (case call of
             SpinCall \<Rightarrow> recursive_lock p s | SpinTryCall \<Rightarrow> recursive_try_lock p s | SpinUnlockCall \<Rightarrow> recursive_guard_end p s))"

fun recursive_allowed :: "32 word \<times> spin_call \<Rightarrow> recursive_sys \<Rightarrow> bool" where
  "recursive_allowed (p, call) s \<longleftrightarrow>
     p \<noteq> processor_none \<and>
     (sl_phase s p = ROutside \<longrightarrow>
       (case call of SpinCall \<Rightarrow> True | SpinTryCall \<Rightarrow> \<not> sl_interrupts s p | SpinUnlockCall \<Rightarrow> sl_guards s p \<noteq> []))"

section \<open>The spin lock excludes\<close>

lemmas spin_ops = set_spin_phase_def set_interrupts_def set_guards_def add_spinlock_def remove_spinlock_def Let_def

abbreviation spin_held :: "('p, 'z) spin_sys_scheme \<Rightarrow> 32 word \<Rightarrow> nat" where
  "spin_held s p \<equiv> length (sl_guards s p)"

text \<open>The state of the interrupts from before the outermost use of the lock.\<close>

definition spin_outer :: "spin_phase spin_sys \<Rightarrow> 32 word \<Rightarrow> bool" where
  "spin_outer s p =
     (if sl_guards s p \<noteq> [] then last (sl_guards s p) else case sl_phase s p of SOutside \<Rightarrow> sl_interrupts s p | SSpinning state \<Rightarrow> state)"

definition spin_inv :: "(32 word \<Rightarrow> bool) \<Rightarrow> nat \<Rightarrow> spin_phase spin_sys \<Rightarrow> bool" where
  "spin_inv before n s \<longleftrightarrow>
     (\<forall>p. p \<noteq> processor_none \<longrightarrow> (sl_guards s p \<noteq> []) = (sl_locker s = p)) \<and> sl_guards s processor_none = [] \<and>
     (\<forall>p. spin_held s p \<le> 1 \<and> (sl_phase s p \<noteq> SOutside \<longrightarrow> sl_guards s p = []) \<and>
       (sl_guards s p \<noteq> [] \<or> sl_phase s p \<noteq> SOutside \<longrightarrow> \<not> sl_interrupts s p) \<and> spin_outer s p = before p)"

lemma spin_invD:
  assumes "spin_inv before n s"
  shows "p \<noteq> processor_none \<Longrightarrow> (sl_guards s p \<noteq> []) = (sl_locker s = p)" "sl_guards s processor_none = []" "spin_held s p \<le> 1"
    "sl_phase s p \<noteq> SOutside \<Longrightarrow> sl_guards s p = []" "sl_guards s p \<noteq> [] \<or> sl_phase s p \<noteq> SOutside \<Longrightarrow> \<not> sl_interrupts s p"
    "spin_outer s p = before p"
  using assms unfolding spin_inv_def by blast+

text \<open>A step of the processor \<open>p\<close> that keeps the others: only what it does to \<open>p\<close> and to the owner matters.\<close>

lemma spin_inv_at:
  assumes inv: "spin_inv before n s" and p: "p \<noteq> processor_none"
    and same: "\<And>q. q \<noteq> p \<Longrightarrow> sl_guards s' q = sl_guards s q \<and> sl_phase s' q = sl_phase s q \<and> sl_interrupts s' q = sl_interrupts s q"
    and owner: "sl_locker s' = sl_locker s \<or> sl_locker s = processor_none \<and> sl_locker s' = p \<or> sl_locker s = p \<and> sl_locker s' = processor_none"
    and at: "(sl_guards s' p \<noteq> []) = (sl_locker s' = p)" "spin_held s' p \<le> 1" "sl_phase s' p \<noteq> SOutside \<longrightarrow> sl_guards s' p = []"
      "sl_guards s' p \<noteq> [] \<or> sl_phase s' p \<noteq> SOutside \<longrightarrow> \<not> sl_interrupts s' p" "spin_outer s' p = spin_outer s p"
  shows "spin_inv before (Suc n) s'"
proof -
  note D = spin_invD [OF inv]
  have "(sl_guards s' q \<noteq> []) = (sl_locker s' = q)" if "q \<noteq> processor_none" for q
    using D(1) [OF that] same [of q] owner at(1) that p by (cases "q = p") auto
  moreover have "spin_held s' q \<le> 1 \<and> (sl_phase s' q \<noteq> SOutside \<longrightarrow> sl_guards s' q = []) \<and>
      (sl_guards s' q \<noteq> [] \<or> sl_phase s' q \<noteq> SOutside \<longrightarrow> \<not> sl_interrupts s' q) \<and> spin_outer s' q = before q" for q
  proof (cases "q = p")
    case True
    then show ?thesis using at(2-5) D(6) [of p] by simp
  next
    case False
    then have "spin_outer s' q = spin_outer s q" using same [OF False] by (simp add: spin_outer_def split: spin_phase.splits)
    then show ?thesis using same [OF False] D(3-6) [of q] by auto
  qed
  moreover have "sl_guards s' processor_none = []" using same [of processor_none] D(2) p by simp
  ultimately show ?thesis unfolding spin_inv_def by blast
qed

lemma spin_step_inv:
  assumes inv: "spin_inv before n s" and ok: "spin_allowed e s"
  shows "\<exists>s'. spin_step e s = Done s' \<and> spin_inv before (Suc n) s'"
proof -
  obtain p call where e: "e = (p, call)" by (cases e)
  have p: "p \<noteq> processor_none" using ok e by simp
  note D = spin_invD(1) [OF inv p] spin_invD(3-5) [OF inv, of p]
  note at = spin_inv_at [OF inv p]
  show ?thesis
  proof (cases "sl_phase s p")
    case SOutside
    show ?thesis
    proof (cases "sl_guards s p")
      case Nil
      then have "sl_locker s \<noteq> p" using D(1) by simp
      then show ?thesis using SOutside Nil e ok
        by (cases call) (auto simp: spin_lock_def spin_try_lock_def spin_ops spin_outer_def intro!: at)
    next
      case (Cons state gs)
      then have "sl_locker s = p" "gs = []" "\<not> sl_interrupts s p" using D by auto
      then show ?thesis using SOutside Cons e ok p
        by (cases call) (auto simp: spin_guard_end_def spin_unlock_def spin_ops spin_outer_def intro!: at)
    qed
  next
    case (SSpinning state)
    then have "sl_guards s p = []" "\<not> sl_interrupts s p" "sl_locker s \<noteq> p" using D by auto
    then show ?thesis using SSpinning e by (auto simp: spin_exchange_def spin_ops spin_outer_def intro!: at)
  qed
qed

lemma spin_held_owner: "spin_inv before n s \<Longrightarrow> 0 < spin_held s p \<Longrightarrow> sl_locker s = p"
  using spin_invD(1,2) by (metis length_greater_0_conv)

interpretation sl: exclusive_lock spin_step spin_allowed "spin_inv before" spin_held sl_locker for before
  by unfold_locales (erule (1) spin_step_inv, erule (1) spin_held_owner)

section \<open>The recursive spin lock excludes\<close>

definition recursive_owns :: "recursive_phase \<Rightarrow> bool" where
  "recursive_owns ph = (case ph of ROutside \<Rightarrow> False | RSpinning _ \<Rightarrow> False | REntered _ \<Rightarrow> True | RTryEntered \<Rightarrow> True | RReleasing _ \<Rightarrow> True)"

definition recursive_outer :: "recursive_sys \<Rightarrow> 32 word \<Rightarrow> bool" where
  "recursive_outer s p =
     (if sl_guards s p \<noteq> [] then last (sl_guards s p)
      else case sl_phase s p of
             ROutside \<Rightarrow> sl_interrupts s p | RSpinning state \<Rightarrow> state | REntered state \<Rightarrow> state | RTryEntered \<Rightarrow> False | RReleasing state \<Rightarrow> state)"

definition interrupts_ok :: "(32 word \<Rightarrow> bool) \<Rightarrow> recursive_sys \<Rightarrow> 32 word \<Rightarrow> bool" where
  "interrupts_ok before s p \<longleftrightarrow>
     (sl_guards s p \<noteq> [] \<or> sl_phase s p \<noteq> ROutside \<longrightarrow> \<not> sl_interrupts s p) \<and> recursive_outer s p = before p"

definition recursive_inv :: "(32 word \<Rightarrow> bool) \<Rightarrow> nat \<Rightarrow> recursive_sys \<Rightarrow> bool" where
  "recursive_inv before n s \<longleftrightarrow>
     counting_inv processor_none n (sl_locker s) (rl_lock_depth s) ((=) ROutside \<circ> sl_phase s) (recursive_owns \<circ> sl_phase s) (spin_held s) \<and>
     (\<forall>p. interrupts_ok before s p)"

lemma interrupts_ok_at:
  assumes "\<And>q. interrupts_ok before s q" "interrupts_ok before s' p"
    "\<And>q. q \<noteq> p \<Longrightarrow> sl_guards s' q = sl_guards s q \<and> sl_phase s' q = sl_phase s q \<and> sl_interrupts s' q = sl_interrupts s q"
  shows "interrupts_ok before s' q"
proof (cases "q = p")
  case False
  have "recursive_outer s' q = recursive_outer s q" using assms(3) [OF False] by (simp add: recursive_outer_def split: recursive_phase.splits)
  then show ?thesis using assms(1) [of q] assms(3) [OF False] by (simp add: interrupts_ok_def)
qed (use assms(2) in simp)

lemma recursive_step_frame:
  assumes "recursive_step (p, call) s = Done s'" "q \<noteq> p"
  shows "sl_guards s' q = sl_guards s q \<and> sl_phase s' q = sl_phase s q \<and> sl_interrupts s' q = sl_interrupts s q"
  using assms
  by (auto simp: spin_ops recursive_lock_def recursive_exchange_def recursive_locked_def recursive_try_lock_def recursive_guard_end_def
      recursive_unlock_def recursive_release_def asserting_def rbind_def split: recursive_phase.splits spin_call.splits if_splits list.splits)

lemmas recursive_ops = spin_ops recursive_lock_def recursive_exchange_def recursive_locked_def recursive_try_lock_def recursive_guard_end_def
  recursive_unlock_def recursive_release_def

lemma held_upd: "(\<lambda>a. length (if a = p then gs else g a)) = (\<lambda>a. length (g a))(p := length gs)"
  by auto

lemma recursive_step_counting:
  assumes inv: "recursive_inv before n s" and n: "Suc n < step_limit" and ok: "recursive_allowed e s"
  shows "\<exists>s'. recursive_step e s = Done s' \<and>
    counting_inv processor_none (Suc n) (sl_locker s') (rl_lock_depth s') ((=) ROutside \<circ> sl_phase s') (recursive_owns \<circ> sl_phase s') (spin_held s')"
proof -
  obtain p call where e: "e = (p, call)" by (cases e)
  let ?out = "(=) ROutside \<circ> sl_phase s" and ?own = "recursive_owns \<circ> sl_phase s"
  have c: "counting_inv processor_none n (sl_locker s) (rl_lock_depth s) ?out ?own (spin_held s)" using inv by (simp add: recursive_inv_def)
  have irq: "sl_guards s p \<noteq> [] \<or> sl_phase s p \<noteq> ROutside \<Longrightarrow> \<not> sl_interrupts s p" using inv by (auto simp: recursive_inv_def interrupts_ok_def)
  have p: "p \<noteq> processor_none" using ok e by simp
  note D = countingD [OF c] and d = counting_depth [OF c Suc_lessD [OF n], of p]
  note wait = counting_mono [OF counting_wait [OF c p]]
  note take = counting_mono [OF counting_take [of processor_none n "rl_lock_depth s" ?out ?own "spin_held s" p]]
  show ?thesis
  proof (cases "sl_phase s p")
    case ROutside
    show ?thesis
    proof (cases "sl_guards s p")
      case Nil
      then have l: "sl_locker s \<noteq> p" using D(3) [of p] p ROutside by auto
      show ?thesis
      proof (cases "call = SpinTryCall \<and> sl_locker s = processor_none")
        case True
        then show ?thesis using ROutside Nil e ok l take c p by (auto simp: recursive_ops recursive_owns_def fun_upd_comp)
      next
        case False
        then show ?thesis using ROutside Nil e ok l wait counting_mono [OF c]
          by (cases call) (auto simp: recursive_ops recursive_owns_def fun_upd_comp)
      qed
    next
      case (Cons state gs)
      then have l: "sl_locker s = p" "0 < rl_lock_depth s" "(rl_lock_depth s - 1 = 0) = (gs = [])" using d by auto
      have again: "counting_inv processor_none (Suc n) (sl_locker s) (rl_lock_depth s + 1) ?out ?own ((spin_held s)(p := Suc (spin_held s p)))"
        using counting_again [OF c, of p] Cons by simp
      show ?thesis
      proof (cases call)
        case SpinUnlockCall
        show ?thesis
        proof (cases "gs = []")
          case True
          then show ?thesis using SpinUnlockCall ROutside Cons e l irq counting_mono [OF counting_drop(1) [OF c, of p]]
            by (simp add: recursive_ops recursive_owns_def fun_upd_comp held_upd)
        next
          case nontrivial: False
          then have "0 < rl_lock_depth s - 1" using l(3) by (simp add: word_gt_0)
          then show ?thesis using SpinUnlockCall ROutside Cons e l(1,2) irq nontrivial counting_mono [OF counting_drop(2) [OF c, of p]]
            by (simp add: recursive_ops held_upd)
        qed
      qed (use ROutside Cons e l irq again ok in \<open>simp_all add: recursive_ops held_upd\<close>)
    qed
  next
    case (RSpinning state)
    then show ?thesis using e take c p counting_mono [OF c] by (auto simp: recursive_ops recursive_owns_def fun_upd_comp)
  next
    case (REntered state)
    then show ?thesis using e d(2) counting_enter [OF c, of p] by (simp add: recursive_ops recursive_owns_def fun_upd_comp held_upd)
  next
    case RTryEntered
    then show ?thesis using e d(2) counting_enter [OF c, of p] by (simp add: recursive_ops recursive_owns_def fun_upd_comp held_upd)
  next
    case (RReleasing state)
    then show ?thesis using e counting_mono [OF counting_free [OF c, of p]] by (simp add: recursive_ops recursive_owns_def fun_upd_comp)
  qed
qed

lemma recursive_step_interrupts:
  assumes inv: "recursive_inv before n s" and n: "n < step_limit" and ok: "recursive_allowed (p, call) s" and s': "recursive_step (p, call) s = Done s'"
  shows "interrupts_ok before s' p"
proof -
  have i: "interrupts_ok before s p" using inv by (simp add: recursive_inv_def)
  have c: "counting_inv processor_none n (sl_locker s) (rl_lock_depth s) ((=) ROutside \<circ> sl_phase s) (recursive_owns \<circ> sl_phase s) (spin_held s)"
    using inv by (simp add: recursive_inv_def)
  have h: "sl_guards s p = []" if "sl_phase s p \<noteq> ROutside" using countingD(6) [OF c, of p] that by auto
  have l: "sl_guards s p = []" if "sl_locker s \<noteq> p" using countingD(1) [OF c, of p] that by auto
  have o: "sl_guards s p \<noteq> []" if "sl_locker s = p" "sl_phase s p = ROutside" using countingD(3) [OF c, of p] that ok by auto
  show ?thesis
  proof (cases "sl_phase s p")
    case ROutside
    show ?thesis
    proof (cases "sl_locker s = p")
      case True
      have "(rl_lock_depth s - 1 = 0) = (spin_held s p = 1)" using counting_depth(3) [OF c n, of p] o [OF True ROutside] by simp
      then show ?thesis using i o [OF True ROutside] s' ok ROutside True
        by (cases call) (auto simp: interrupts_ok_def recursive_outer_def recursive_ops asserting_def rbind_def split: if_splits list.splits)
    next
      case False
      then show ?thesis using i l [OF False] s' ok ROutside
        by (cases call) (auto simp: interrupts_ok_def recursive_outer_def recursive_ops asserting_def rbind_def split: if_splits)
    qed
  qed (use i h s' in \<open>auto simp: interrupts_ok_def recursive_outer_def recursive_ops asserting_def split: if_splits\<close>)
qed

lemma recursive_step_inv:
  assumes inv: "recursive_inv before n s" and n: "Suc n < step_limit" and ok: "recursive_allowed e s"
  shows "\<exists>s'. recursive_step e s = Done s' \<and> recursive_inv before (Suc n) s'"
proof -
  obtain p call where e: "e = (p, call)" by (cases e)
  obtain s' where s': "recursive_step e s = Done s'"
      "counting_inv processor_none (Suc n) (sl_locker s') (rl_lock_depth s') ((=) ROutside \<circ> sl_phase s') (recursive_owns \<circ> sl_phase s') (spin_held s')"
    using recursive_step_counting [OF inv n ok] by blast
  have i: "interrupts_ok before s q" for q using inv by (simp add: recursive_inv_def)
  have "interrupts_ok before s' q" for q
    using interrupts_ok_at [OF i recursive_step_interrupts [OF inv Suc_lessD [OF n] ok [unfolded e] s'(1) [unfolded e]] recursive_step_frame [OF s'(1) [unfolded e]]] .
  then show ?thesis using s' by (auto simp: recursive_inv_def)
qed

lemma recursive_held_owner: "recursive_inv before n s \<Longrightarrow> 0 < spin_held s p \<Longrightarrow> sl_locker s = p"
  unfolding recursive_inv_def by (elim conjE) (rule countingD(1))

interpretation rl: exclusive_lock recursive_step recursive_allowed "recursive_inv before" spin_held sl_locker for before
  by unfold_locales (erule (2) recursive_step_inv, erule (1) recursive_held_owner)

section \<open>Properties\<close>

lemma spin_init_inv: "spin_inv interrupts 0 (spin_init interrupts tid)"
  by (simp add: spin_inv_def spin_init_def spin_outer_def)

lemma recursive_init_inv: "recursive_inv interrupts 0 (recursive_init interrupts tid)"
  using counting_init [of processor_none]
  by (simp add: recursive_inv_def recursive_init_def interrupts_ok_def recursive_outer_def recursive_owns_def comp_def)

text \<open>
  C16: Both spin locks exclude, and their guards give back the interrupts as they found them. In every interleaving of
  the processors (fewer than \<open>2 ^ 32\<close> steps), no assertion fails, never do two processors have the lock, a
  processor that has it has its interrupts disabled, and one that has given back all its guards has its interrupts as before the
  first; for the recursive lock the guards may be nested.
\<close>

theorem spin_locks_mutual_exclusion:
  assumes "length es < step_limit" "calls_ok spin_step spin_allowed es (spin_init interrupts tid)"
    and "length es' < step_limit" "calls_ok recursive_step recursive_allowed es' (recursive_init interrupts tid)"
  shows "\<exists>s s'. lock_run spin_step es (spin_init interrupts tid) = Done s \<and> lock_run recursive_step es' (recursive_init interrupts tid) = Done s' \<and>
    (\<forall>p q. 0 < spin_held s p \<longrightarrow> 0 < spin_held s q \<longrightarrow> p = q) \<and> (\<forall>p q. 0 < spin_held s' p \<longrightarrow> 0 < spin_held s' q \<longrightarrow> p = q) \<and>
    (\<forall>p. 0 < spin_held s p \<longrightarrow> current_processor_has_lock p s \<and> \<not> sl_interrupts s p) \<and>
    (\<forall>p. 0 < spin_held s' p \<longrightarrow> current_processor_has_lock p s' \<and> \<not> sl_interrupts s' p) \<and>
    (\<forall>p. spin_held s p = 0 \<longrightarrow> sl_phase s p = SOutside \<longrightarrow> sl_interrupts s p = interrupts p) \<and>
    (\<forall>p. spin_held s' p = 0 \<longrightarrow> sl_phase s' p = ROutside \<longrightarrow> sl_interrupts s' p = interrupts p)"
proof -
  obtain s where s: "lock_run spin_step es (spin_init interrupts tid) = Done s" "spin_inv interrupts (length es) s"
      "\<forall>p q. 0 < spin_held s p \<longrightarrow> 0 < spin_held s q \<longrightarrow> p = q"
    using sl.mutual_exclusion [OF spin_init_inv assms(1,2)] by blast
  obtain s' where s': "lock_run recursive_step es' (recursive_init interrupts tid) = Done s'" "recursive_inv interrupts (length es') s'"
      "\<forall>p q. 0 < spin_held s' p \<longrightarrow> 0 < spin_held s' q \<longrightarrow> p = q"
    using rl.mutual_exclusion [OF recursive_init_inv assms(3,4)] by blast
  have "current_processor_has_lock p s \<and> \<not> sl_interrupts s p" if "0 < spin_held s p" for p
    using spin_held_owner [OF s(2) that] spin_invD(5) [OF s(2), of p] that by (auto simp: current_processor_has_lock_def)
  moreover have "current_processor_has_lock p s' \<and> \<not> sl_interrupts s' p" if "0 < spin_held s' p" for p
    using recursive_held_owner [OF s'(2) that] s'(2) that by (auto simp: current_processor_has_lock_def recursive_inv_def interrupts_ok_def)
  moreover have "sl_interrupts s p = interrupts p" if "spin_held s p = 0" "sl_phase s p = SOutside" for p
    using spin_invD(6) [OF s(2), of p] that by (simp add: spin_outer_def)
  moreover have "sl_interrupts s' p = interrupts p" if "spin_held s' p = 0" "sl_phase s' p = ROutside" for p
  proof -
    have "interrupts_ok interrupts s' p" using s'(2) by (simp add: recursive_inv_def)
    then show ?thesis using that by (simp add: interrupts_ok_def recursive_outer_def)
  qed
  ultimately show ?thesis using s s' by blast
qed

definition example_spins :: "(32 word \<times> spin_call) list" where
  "example_spins =
     [(0, SpinCall), (1, SpinCall), (0, SpinCall), (1, SpinCall), (0, SpinUnlockCall), (1, SpinCall), (1, SpinUnlockCall)]"

definition example_nested_spins :: "(32 word \<times> spin_call) list" where
  "example_nested_spins =
     [(0, SpinCall), (0, SpinCall), (0, SpinCall), (0, SpinCall), (1, SpinCall), (0, SpinTryCall), (1, SpinCall), (0, SpinUnlockCall),
      (0, SpinUnlockCall), (0, SpinUnlockCall), (0, SpinUnlockCall), (1, SpinCall), (1, SpinCall)]"

theorem spin_locks_mutual_exclusion_witness:
  "\<exists>s s'. lock_run spin_step example_spins (spin_init (\<lambda>_. True) (\<lambda>_. 5)) = Done s \<and>
    lock_run recursive_step example_nested_spins (recursive_init (\<lambda>_. True) (\<lambda>_. 5)) = Done s' \<and>
    (\<forall>p q. 0 < spin_held s p \<longrightarrow> 0 < spin_held s q \<longrightarrow> p = q) \<and> (\<forall>p q. 0 < spin_held s' p \<longrightarrow> 0 < spin_held s' q \<longrightarrow> p = q)"
proof -
  have "calls_ok spin_step spin_allowed example_spins (spin_init (\<lambda>_. True) (\<lambda>_. 5))" by code_simp
  moreover have "calls_ok recursive_step recursive_allowed example_nested_spins (recursive_init (\<lambda>_. True) (\<lambda>_. 5))" by code_simp
  moreover have "length example_spins < step_limit" "length example_nested_spins < step_limit"
    by (simp_all add: example_spins_def example_nested_spins_def step_limit_def)
  ultimately show ?thesis using spin_locks_mutual_exclusion [of example_spins "\<lambda>_. True" "\<lambda>_. 5" example_nested_spins] by blast
qed

end
