(* ===== verification/RWLock.thy ===== *)
theory RWLock
  imports ExclusiveLock
begin

text \<open>
  \<^verbatim>\<open>kernel/kernel/Lock/RWLock.cpp\<close>: the lock for many readers or one writer. The agents are threads. The spin lock
  \<^verbatim>\<open>m_lock\<close> makes each pass through a loop one step; blocking gives the spin lock back in the same step in which the thread goes
  to sleep, and \<^verbatim>\<open>unblock\<close> wakes every sleeping thread, which then evaluates its condition again. A thread may also wake up
  for another reason. The accesses outside of \<^verbatim>\<open>m_lock\<close> are steps of their own. \<open>rw_reads\<close> and \<open>rw_writes\<close> are what
  the callers know: who has the lock for reading, once for every call, and how often for writing.
\<close>

section \<open>Model\<close>

datatype rw_phase = RWOutside | RWReading | RWReadWait | RWEntering | RWWriting | RWWriteWait | RWReleasing

datatype rw_call = RdLock | RdUnlock | WrLock | WrUnlock | Wakeup

record rw_sys =
  rw_readers_active :: "32 word"
  rw_writers_waiting :: "32 word"
  rw_writer :: int
  rw_writer_depth :: "32 word"
  rw_phase :: "int \<Rightarrow> rw_phase"
  rw_reads :: "int list"
  rw_writes :: "int \<Rightarrow> nat"

definition rw_init :: rw_sys where
  "rw_init =
     \<lparr>rw_readers_active = 0, rw_writers_waiting = 0, rw_writer = - 1, rw_writer_depth = 0, rw_phase = (\<lambda>_. RWOutside), rw_reads = [],
      rw_writes = (\<lambda>_. 0)\<rparr>"

definition set_rw_phase :: "int \<Rightarrow> rw_phase \<Rightarrow> rw_sys \<Rightarrow> rw_sys" where
  "set_rw_phase t ph s = s\<lparr>rw_phase := (rw_phase s)(t := ph)\<rparr>"

definition wake :: "rw_phase \<Rightarrow> rw_phase" where
  "wake ph = (case ph of RWReadWait \<Rightarrow> RWReading | RWWriteWait \<Rightarrow> RWWriting | _ \<Rightarrow> ph)"

definition unblock_all :: "rw_sys \<Rightarrow> rw_sys" where
  "unblock_all s = s\<lparr>rw_phase := wake \<circ> rw_phase s\<rparr>"

definition rd_lock :: "int \<Rightarrow> rw_sys \<Rightarrow> rw_sys" where
  "rd_lock t s =
     (if 0 < rw_writers_waiting s \<or> rw_writer s \<noteq> - 1 then set_rw_phase t RWReadWait s
      else set_rw_phase t RWOutside (s\<lparr>rw_readers_active := rw_readers_active s + 1, rw_reads := t # rw_reads s\<rparr>))"

definition rd_unlock :: "int \<Rightarrow> rw_sys \<Rightarrow> rw_sys" where
  "rd_unlock t s =
     (let s = s\<lparr>rw_readers_active := rw_readers_active s - 1, rw_reads := remove1 t (rw_reads s)\<rparr>
      in if rw_readers_active s = 0 then unblock_all s else s)"

definition wr_lock :: "int \<Rightarrow> rw_sys \<Rightarrow> rw_sys" where
  "wr_lock t s =
     (if rw_writer s = t
      then s\<lparr>rw_writer_depth := rw_writer_depth s + 1, rw_writes := (rw_writes s)(t := Suc (rw_writes s t))\<rparr>
      else set_rw_phase t RWEntering s)"

definition wr_lock_loop :: "int \<Rightarrow> rw_sys \<Rightarrow> rw_sys" where
  "wr_lock_loop t s =
     (if 0 < rw_readers_active s \<or> rw_writer s \<noteq> - 1 then set_rw_phase t RWWriteWait s
      else set_rw_phase t RWOutside
        (s\<lparr>rw_writers_waiting := rw_writers_waiting s - 1, rw_writer := t, rw_writer_depth := 1, rw_writes := (rw_writes s)(t := Suc (rw_writes s t))\<rparr>))"

definition wr_unlock :: "int \<Rightarrow> rw_sys \<Rightarrow> rw_sys" where
  "wr_unlock t s =
     (let s = s\<lparr>rw_writer_depth := rw_writer_depth s - 1, rw_writes := (rw_writes s)(t := rw_writes s t - 1)\<rparr>
      in if rw_writer_depth s \<noteq> 0 then s else set_rw_phase t RWReleasing s)"

definition wr_release :: "int \<Rightarrow> rw_sys \<Rightarrow> rw_sys" where
  "wr_release t s = unblock_all (set_rw_phase t RWOutside (s\<lparr>rw_writer := - 1\<rparr>))"

fun rw_step :: "int \<times> rw_call \<Rightarrow> rw_sys \<Rightarrow> rw_sys run" where
  "rw_step (t, call) s =
     Done (case rw_phase s t of
        RWOutside \<Rightarrow>
          (case call of
             RdLock \<Rightarrow> set_rw_phase t RWReading s | RdUnlock \<Rightarrow> rd_unlock t s
           | WrLock \<Rightarrow> wr_lock t s | WrUnlock \<Rightarrow> wr_unlock t s | Wakeup \<Rightarrow> s)
      | RWReading \<Rightarrow> rd_lock t s
      | RWReadWait \<Rightarrow> if call = Wakeup then set_rw_phase t RWReading s else s
      | RWEntering \<Rightarrow> wr_lock_loop t (s\<lparr>rw_writers_waiting := rw_writers_waiting s + 1\<rparr>)
      | RWWriting \<Rightarrow> wr_lock_loop t s
      | RWWriteWait \<Rightarrow> if call = Wakeup then set_rw_phase t RWWriting s else s
      | RWReleasing \<Rightarrow> wr_release t s)"

text \<open>What the callers keep: a writer does not lock for reading, and everyone unlocks only what it has locked.\<close>

fun rw_allowed :: "int \<times> rw_call \<Rightarrow> rw_sys \<Rightarrow> bool" where
  "rw_allowed (t, call) s \<longleftrightarrow>
     t \<noteq> - 1 \<and>
     (rw_phase s t = RWOutside \<longrightarrow>
       (case call of
          RdLock \<Rightarrow> rw_writes s t = 0 | RdUnlock \<Rightarrow> t \<in> set (rw_reads s) | WrUnlock \<Rightarrow> 0 < rw_writes s t | _ \<Rightarrow> True))"

section \<open>The invariant\<close>

abbreviation writer_queued :: "rw_sys \<Rightarrow> int \<Rightarrow> bool" where
  "writer_queued s \<equiv> (\<lambda>ph. ph = RWWriting \<or> ph = RWWriteWait) \<circ> rw_phase s"

text \<open>
  The last two conjuncts exclude lost wake-ups: a writer sleeps only while someone has the lock, and a reader only while someone has
  the lock or a writer is awake that is about to take it.
\<close>

definition rw_inv :: "nat \<Rightarrow> rw_sys \<Rightarrow> bool" where
  "rw_inv n s \<longleftrightarrow>
     counting_inv (- 1) n (rw_writer s) (rw_writer_depth s) ((=) RWOutside \<circ> rw_phase s) ((=) RWReleasing \<circ> rw_phase s) (rw_writes s) \<and>
     counted n (rw_writers_waiting s) (writer_queued s) \<and>
     length (rw_reads s) \<le> n \<and> rw_readers_active s = of_nat (length (rw_reads s)) \<and> (rw_writer s \<noteq> - 1 \<longrightarrow> rw_reads s = []) \<and>
     ((\<exists>a. rw_phase s a = RWWriteWait) \<longrightarrow> rw_reads s \<noteq> [] \<or> rw_writer s \<noteq> - 1) \<and>
     ((\<exists>a. rw_phase s a = RWReadWait) \<longrightarrow> rw_reads s \<noteq> [] \<or> rw_writer s \<noteq> - 1 \<or> (\<exists>a. rw_phase s a = RWWriting))"

lemma rw_invD:
  assumes "rw_inv n s"
  shows "counting_inv (- 1) n (rw_writer s) (rw_writer_depth s) ((=) RWOutside \<circ> rw_phase s) ((=) RWReleasing \<circ> rw_phase s) (rw_writes s)"
    "counted n (rw_writers_waiting s) (writer_queued s)" "length (rw_reads s) \<le> n" "rw_readers_active s = of_nat (length (rw_reads s))"
    "rw_writer s \<noteq> - 1 \<Longrightarrow> rw_reads s = []" "rw_phase s a = RWWriteWait \<Longrightarrow> rw_reads s \<noteq> [] \<or> rw_writer s \<noteq> - 1"
    "rw_phase s a = RWReadWait \<Longrightarrow> rw_reads s \<noteq> [] \<or> rw_writer s \<noteq> - 1 \<or> (\<exists>a. rw_phase s a = RWWriting)"
  using assms unfolding rw_inv_def by blast+

lemma no_readers: "rw_inv n s \<Longrightarrow> n < step_limit \<Longrightarrow> rw_readers_active s = 0 \<longleftrightarrow> rw_reads s = []"
proof -
  assume inv: "rw_inv n s" and n: "n < step_limit"
  have "length (rw_reads s) < 2 ^ 32" using rw_invD(3) [OF inv] n unfolding step_limit_def by linarith
  then show ?thesis using rw_invD(4) [OF inv] of_nat_32_eq_0 by (metis length_0_conv)
qed

lemma wake_eq [simp]:
  "wake ph = RWOutside \<longleftrightarrow> ph = RWOutside" "wake ph = RWReleasing \<longleftrightarrow> ph = RWReleasing" "wake ph \<noteq> RWReadWait" "wake ph \<noteq> RWWriteWait"
  "wake ph = RWWriting \<longleftrightarrow> ph = RWWriting \<or> ph = RWWriteWait"
  by (cases ph; simp add: wake_def)+

lemma wake_outside [simp]: "wake RWOutside = RWOutside"
  by (simp add: wake_def)

lemma wake_comp [simp]:
  "(=) RWOutside \<circ> (wake \<circ> f) = (=) RWOutside \<circ> f" "(=) RWReleasing \<circ> (wake \<circ> f) = (=) RWReleasing \<circ> f"
  "(\<lambda>ph. ph = RWWriting \<or> ph = RWWriteWait) \<circ> (wake \<circ> f) = (\<lambda>ph. ph = RWWriting \<or> ph = RWWriteWait) \<circ> f"
  by (auto simp: fun_eq_iff eq_commute [of RWOutside] eq_commute [of RWReleasing])

lemmas rw_ops = set_rw_phase_def unblock_all_def rd_lock_def rd_unlock_def wr_lock_def wr_lock_loop_def wr_unlock_def wr_release_def Let_def

lemma rw_step_counting:
  assumes inv: "rw_inv n s" and n: "Suc n < step_limit" and ok: "rw_allowed (t, call) s" and s': "rw_step (t, call) s = Done s'"
  shows "counting_inv (- 1) (Suc n) (rw_writer s') (rw_writer_depth s') ((=) RWOutside \<circ> rw_phase s') ((=) RWReleasing \<circ> rw_phase s') (rw_writes s')"
proof -
  let ?out = "(=) RWOutside \<circ> rw_phase s" and ?own = "(=) RWReleasing \<circ> rw_phase s"
  note c = rw_invD(1) [OF inv]
  have t: "t \<noteq> - 1" using ok by simp
  note D = countingD [OF c] and d = counting_depth [OF c Suc_lessD [OF n], of t] and same = counting_mono [OF c]
  note wait = counting_mono [OF counting_wait [OF c t]]
  have taken: "counting_inv (- 1) (Suc n) t 1 (?out(t := True)) (?own(t := False)) ((rw_writes s)(t := Suc (rw_writes s t)))"
    if "rw_writer s = - 1" "rw_phase s t \<noteq> RWOutside"
  proof -
    have "rw_writer_depth s = 0" using D(5,9) that(1) by simp
    then have "counting_inv (- 1) n t 0 (?out(t := False)) (?own(t := True)) (rw_writes s)" using counting_take [of "- 1" n _ ?out ?own _ t] c that(1) t by simp
    from counting_enter [OF this, of t] show ?thesis by simp
  qed
  show ?thesis
  proof (cases "rw_phase s t")
    case RWOutside
    show ?thesis
    proof (cases "rw_writes s t = 0")
      case True
      then have "rw_writer s \<noteq> t" using D(3) [of t] t RWOutside by auto
      then show ?thesis using True RWOutside s' ok wait [of False] same by (cases call) (auto simp: rw_ops fun_upd_comp)
    next
      case False
      then have l: "rw_writer s = t" "(rw_writer_depth s - 1 = 0) = (rw_writes s t = 1)" using d by auto
      have again: "counting_inv (- 1) (Suc n) (rw_writer s) (rw_writer_depth s + 1) ?out ?own ((rw_writes s)(t := Suc (rw_writes s t)))"
        using counting_again [OF c, of t] False by simp
      show ?thesis
      proof (cases call)
        case WrUnlock
        then show ?thesis using False RWOutside s' l counting_mono [OF counting_drop(1) [OF c, of t]] counting_mono [OF counting_drop(2) [OF c, of t]]
          by (cases "rw_writes s t = 1") (auto simp: rw_ops fun_upd_comp)
      qed (use False RWOutside s' ok l again same in \<open>auto simp: rw_ops\<close>)
    qed
  next
    case RWReleasing
    then show ?thesis using s' counting_mono [OF counting_free [OF c, of t]] by (auto simp: rw_ops fun_upd_comp)
  qed (use s' wait [of False] wait [of True] taken same D(6) [of t] t in \<open>auto simp: rw_ops fun_upd_comp\<close>)
qed

lemma rw_step_counted:
  assumes inv: "rw_inv n s" and s': "rw_step (t, call) s = Done s'"
  shows "counted (Suc n) (rw_writers_waiting s') (writer_queued s')"
proof (rule counted_step [OF rw_invD(2) [OF inv], of t])
  show "writer_queued s' a = writer_queued s a" if "a \<noteq> t" for a
    using s' that by (auto simp: rw_ops split: rw_phase.splits rw_call.splits if_splits)
  show "rw_writers_waiting s' + (if writer_queued s t then 1 else 0) = rw_writers_waiting s + (if writer_queued s' t then 1 else 0)"
    using s' by (auto simp: rw_ops split: rw_phase.splits rw_call.splits if_splits)
qed

lemma rw_step_readers:
  assumes inv: "rw_inv n s" and n: "n < step_limit" and ok: "rw_allowed (t, call) s" and s': "rw_step (t, call) s = Done s'"
  shows "length (rw_reads s') \<le> Suc n \<and> rw_readers_active s' = of_nat (length (rw_reads s')) \<and> (rw_writer s' \<noteq> - 1 \<longrightarrow> rw_reads s' = [])"
proof -
  note D = rw_invD(3-5) [OF inv] and r = no_readers [OF inv n]
  have rm: "length (remove1 t (rw_reads s)) \<le> Suc n" "(of_nat (length (rw_reads s)) :: 32 word) - 1 = of_nat (length (remove1 t (rw_reads s)))"
    if "t \<in> set (rw_reads s)"
  proof -
    have "length (rw_reads s) = Suc (length (remove1 t (rw_reads s)))" using that using length_pos_if_in_set [OF that] by (simp add: length_remove1)
    then show "length (remove1 t (rw_reads s)) \<le> Suc n" "(of_nat (length (rw_reads s)) :: 32 word) - 1 = of_nat (length (remove1 t (rw_reads s)))"
      using D(1) by simp_all
  qed
  show ?thesis
  proof (cases "rw_phase s t = RWOutside \<and> call = RdUnlock")
    case True
    then have "t \<in> set (rw_reads s)" using ok by simp
    then have "rw_writer s = - 1" using D(3) by fastforce
    then show ?thesis using True s' D(2) rm [OF \<open>t \<in> set (rw_reads s)\<close>] by (auto simp: rw_ops split: if_splits)
  next
    case False
    then show ?thesis using s' D r by (auto simp: rw_ops add.commute word_gt_0 split: rw_phase.splits rw_call.splits if_splits)
  qed
qed

text \<open>A step that ends the last use of the lock wakes everyone; no other step takes away what a sleeping thread waits for.\<close>

lemma rw_step_wakes:
  assumes inv: "rw_inv n s" and n: "Suc n < step_limit" and ok: "rw_allowed (t, call) s" and s': "rw_step (t, call) s = Done s'"
  shows "(\<exists>a. rw_phase s' a = RWWriteWait) \<longrightarrow> rw_reads s' \<noteq> [] \<or> rw_writer s' \<noteq> - 1"
    "(\<exists>a. rw_phase s' a = RWReadWait) \<longrightarrow> rw_reads s' \<noteq> [] \<or> rw_writer s' \<noteq> - 1 \<or> (\<exists>a. rw_phase s' a = RWWriting)"
proof -
  note W = rw_invD(6,7) [OF inv] and r = no_readers [OF inv Suc_lessD [OF n]]
  have t: "t \<noteq> - 1" using ok by simp
  have w0: "rw_writers_waiting s = 0 \<longleftrightarrow> (\<forall>a. \<not> writer_queued s a)" using counted_eq_0 [OF rw_invD(2) [OF inv] Suc_lessD [OF n]] .
  have rd: "rw_readers_active s' = 0 \<longleftrightarrow> rw_reads s' = []"
  proof -
    have "length (rw_reads s') \<le> Suc n" "rw_readers_active s' = of_nat (length (rw_reads s'))" using rw_step_readers [OF inv Suc_lessD [OF n] ok s'] by auto
    moreover from this have "length (rw_reads s') < 2 ^ 32" using n unfolding step_limit_def by linarith
    ultimately show ?thesis using of_nat_32_eq_0 by (metis length_0_conv)
  qed
  have others: "rw_phase s' a = rw_phase s a \<or> rw_phase s' a \<noteq> RWReadWait \<and> rw_phase s' a \<noteq> RWWriteWait" if "a \<noteq> t" for a
    using s' that by (auto simp: rw_ops split: rw_phase.splits rw_call.splits if_splits)
  have awake: "rw_phase s' a = RWWriting" if "a \<noteq> t" "rw_phase s a = RWWriting" for a
    using s' that by (auto simp: rw_ops split: rw_phase.splits rw_call.splits if_splits)
  have writer: "rw_reads s' \<noteq> [] \<or> rw_writer s' \<noteq> - 1" if "rw_phase s' t = RWWriteWait \<or> rw_phase s t = RWWriting"
    using s' that W(1) rd t by (auto simp: rw_ops word_gt_0 split: rw_phase.splits rw_call.splits if_splits)
  have reader: "rw_reads s' \<noteq> [] \<or> rw_writer s' \<noteq> - 1 \<or> (\<exists>a. rw_phase s' a = RWWriting)" if a: "rw_phase s' t = RWReadWait"
  proof (cases "rw_phase s t = RWReadWait")
    case True
    then have "s' = s" using s' a by (auto simp: rw_ops split: if_splits)
    then show ?thesis using W(2) True by simp
  next
    case False
    then have ph: "rw_phase s t = RWReading" using s' a by (auto simp: rw_ops split: rw_phase.splits rw_call.splits if_splits)
    then have st: "s' = set_rw_phase t RWReadWait s" "rw_writers_waiting s \<noteq> 0 \<or> rw_writer s \<noteq> - 1"
      using s' a by (auto simp: rw_ops word_gt_0 split: if_splits)
    consider "rw_writer s \<noteq> - 1" | b where "rw_phase s b = RWWriting" | b where "rw_phase s b = RWWriteWait" using st(2) w0 by auto
    then show ?thesis
    proof cases
      case (2 b)
      then have "b \<noteq> t" using ph by auto
      then show ?thesis using awake 2 by blast
    qed (use st(1) W(1) in \<open>auto simp: rw_ops\<close>)
  qed
  have free: "rw_reads s' \<noteq> [] \<or> rw_writer s' \<noteq> - 1 \<or> (\<forall>a. rw_phase s' a \<noteq> RWReadWait \<and> rw_phase s' a \<noteq> RWWriteWait)"
    if "rw_reads s \<noteq> [] \<or> rw_writer s \<noteq> - 1"
    using s' that t rd by (auto simp: rw_ops split: rw_phase.splits rw_call.splits if_splits)
  show "(\<exists>a. rw_phase s' a = RWWriteWait) \<longrightarrow> rw_reads s' \<noteq> [] \<or> rw_writer s' \<noteq> - 1"
    using writer others W(1) free by metis
  show "(\<exists>a. rw_phase s' a = RWReadWait) \<longrightarrow> rw_reads s' \<noteq> [] \<or> rw_writer s' \<noteq> - 1 \<or> (\<exists>a. rw_phase s' a = RWWriting)"
  proof
    assume "\<exists>a. rw_phase s' a = RWReadWait"
    then obtain a where a: "rw_phase s' a = RWReadWait" ..
    show "rw_reads s' \<noteq> [] \<or> rw_writer s' \<noteq> - 1 \<or> (\<exists>a. rw_phase s' a = RWWriting)"
    proof (cases "a = t")
      case True
      then show ?thesis using reader a by blast
    next
      case False
      then have "rw_phase s a = RWReadWait" using others a by metis
      then consider "rw_reads s \<noteq> [] \<or> rw_writer s \<noteq> - 1" | b where "rw_phase s b = RWWriting" using W(2) by blast
      then show ?thesis
      proof cases
        case 1
        then show ?thesis using free a by blast
      next
        case (2 b)
        then show ?thesis using writer awake by (cases "b = t") auto
      qed
    qed
  qed
qed

lemma rw_step_inv:
  assumes inv: "rw_inv n s" and n: "Suc n < step_limit" and ok: "rw_allowed e s"
  shows "\<exists>s'. rw_step e s = Done s' \<and> rw_inv (Suc n) s'"
proof -
  obtain t call where e: "e = (t, call)" by (cases e)
  obtain s' where s': "rw_step (t, call) s = Done s'" by simp
  have "rw_inv (Suc n) s'"
    using rw_step_counting [OF inv n ok [unfolded e] s'] rw_step_counted [OF inv s'] rw_step_readers [OF inv Suc_lessD [OF n] ok [unfolded e] s']
      rw_step_wakes [OF inv n ok [unfolded e] s'] unfolding rw_inv_def by blast
  then show ?thesis using s' e by blast
qed

lemma rw_held_owner: "rw_inv n s \<Longrightarrow> 0 < rw_writes s a \<Longrightarrow> rw_writer s = a"
  using rw_invD(1) by (rule countingD(1))

interpretation rw: exclusive_lock rw_step rw_allowed rw_inv rw_writes rw_writer
  by unfold_locales (erule (2) rw_step_inv, erule (1) rw_held_owner)

section \<open>Properties\<close>

lemma rw_init_inv: "rw_inv 0 rw_init"
  using counting_init by (simp add: rw_inv_def rw_init_def counted_def comp_def)

text \<open>
  C11: The read-write lock excludes. In every interleaving (fewer than \<open>2 ^ 32\<close> steps) of threads that keep their part, never do two threads have it
  for writing, and while one has it for writing nobody has it for reading; the counter of the readers is exact.
\<close>

theorem rwlock_exclusion:
  assumes "length es < step_limit" "calls_ok rw_step rw_allowed es rw_init"
  shows "\<exists>s. lock_run rw_step es rw_init = Done s \<and> (\<forall>a b. 0 < rw_writes s a \<longrightarrow> 0 < rw_writes s b \<longrightarrow> a = b) \<and>
    (\<forall>a. 0 < rw_writes s a \<longrightarrow> rw_writer s = a \<and> rw_reads s = []) \<and> unat (rw_readers_active s) = length (rw_reads s)"
proof -
  obtain s where s: "lock_run rw_step es rw_init = Done s" "rw_inv (length es) s" "\<forall>a b. 0 < rw_writes s a \<longrightarrow> 0 < rw_writes s b \<longrightarrow> a = b"
    using rw.mutual_exclusion [OF rw_init_inv assms] by blast
  have "rw_writer s = a \<and> rw_reads s = []" if "0 < rw_writes s a" for a
  proof -
    have "rw_writer s = a" using rw_held_owner [OF s(2) that] .
    moreover have "a \<noteq> - 1" using countingD(9) [OF rw_invD(1) [OF s(2)]] that by auto
    ultimately show ?thesis using rw_invD(5) [OF s(2)] by simp
  qed
  moreover have "length (rw_reads s) < 2 ^ 32" using rw_invD(3) [OF s(2)] assms(1) unfolding step_limit_def by linarith
  then have "unat (rw_readers_active s) = length (rw_reads s)" using rw_invD(4) [OF s(2)] by (simp add: unat_of_nat)
  ultimately show ?thesis using s by blast
qed

definition example_rw :: "(int \<times> rw_call) list" where
  "example_rw =
     [(1, RdLock), (1, RdLock), (2, WrLock), (2, WrLock), (3, RdLock), (3, RdLock), (1, RdUnlock), (3, RdLock), (2, WrLock), (2, WrLock),
      (2, WrUnlock), (2, WrUnlock), (2, WrUnlock), (3, RdLock)]"

theorem rwlock_exclusion_witness:
  "\<exists>s. lock_run rw_step example_rw rw_init = Done s \<and> (\<forall>a b. 0 < rw_writes s a \<longrightarrow> 0 < rw_writes s b \<longrightarrow> a = b) \<and>
    (\<forall>a. 0 < rw_writes s a \<longrightarrow> rw_writer s = a \<and> rw_reads s = []) \<and> unat (rw_readers_active s) = length (rw_reads s)"
proof (rule rwlock_exclusion)
  show "length example_rw < step_limit" by (simp add: example_rw_def step_limit_def)
  show "calls_ok rw_step rw_allowed example_rw rw_init" by code_simp
qed

text \<open>
  C12: No wake-up is lost. Whenever nobody has the read-write lock and some thread is inside one of its calls, asleep or not, there is a
  thread whose very next step gives it the lock: the lock is never free with everyone asleep.
\<close>

theorem rwlock_no_lost_wakeup:
  assumes "length es < step_limit" "calls_ok rw_step rw_allowed es rw_init" "lock_run rw_step es rw_init = Done s"
    and free: "rw_reads s = []" "rw_writer s = - 1" and inside: "rw_phase s a \<noteq> RWOutside"
  shows "\<exists>t call s'. rw_phase s t \<noteq> RWOutside \<and> rw_step (t, call) s = Done s' \<and> (t \<in> set (rw_reads s') \<or> 0 < rw_writes s' t)"
proof -
  have inv: "rw_inv (length es) s" using rw.run_inv [OF rw_init_inv, of es] assms(1-3) by fastforce
  have r0: "rw_readers_active s = 0" using no_readers [OF inv assms(1)] free by simp
  have w0: "rw_writers_waiting s = 0 \<longleftrightarrow> (\<forall>b. \<not> writer_queued s b)" using counted_eq_0 [OF rw_invD(2) [OF inv] assms(1)] .
  have nw: "rw_phase s b \<noteq> RWWriteWait" for b using rw_invD(6) [OF inv] free by blast
  have writes: ?thesis if "rw_phase s t = RWWriting \<or> rw_phase s t = RWEntering" for t
    using that free r0 by (intro exI [of _ t] exI [of _ WrLock]) (auto simp: rw_ops)
  show ?thesis
  proof (cases "\<exists>t. rw_phase s t = RWWriting \<or> rw_phase s t = RWEntering")
    case True
    then show ?thesis using writes by blast
  next
    case False
    then have "rw_writers_waiting s = 0" using w0 nw by auto
    moreover have "rw_phase s a = RWReading"
    proof -
      have "rw_phase s a \<noteq> RWReadWait" using rw_invD(7) [OF inv] free False by blast
      moreover have "rw_phase s a \<noteq> RWReleasing"
      proof
        assume "rw_phase s a = RWReleasing"
        then have "rw_writer s = a" "\<not> ((=) RWOutside \<circ> rw_phase s) a" using countingD(2,7) [OF rw_invD(1) [OF inv], of a] by auto
        then show False using countingD(8) [OF rw_invD(1) [OF inv]] free by auto
      qed
      ultimately show ?thesis using inside nw False by (cases "rw_phase s a") auto
    qed
    ultimately show ?thesis using free by (intro exI [of _ a] exI [of _ RdLock]) (auto simp: rw_ops)
  qed
qed

theorem rwlock_no_lost_wakeup_witness:
  "\<exists>t call s'. rw_phase (case lock_run rw_step (take 7 example_rw) rw_init of Done s \<Rightarrow> s) t \<noteq> RWOutside \<and>
    rw_step (t, call) (case lock_run rw_step (take 7 example_rw) rw_init of Done s \<Rightarrow> s) = Done s' \<and> (t \<in> set (rw_reads s') \<or> 0 < rw_writes s' t)"
proof (rule rwlock_no_lost_wakeup [of "take 7 example_rw" _ 3])
  show "length (take 7 example_rw) < step_limit" by (simp add: example_rw_def step_limit_def)
  have "is_done (lock_run rw_step (take 7 example_rw) rw_init)" by code_simp
  then show "lock_run rw_step (take 7 example_rw) rw_init = Done (case lock_run rw_step (take 7 example_rw) rw_init of Done s \<Rightarrow> s)"
    by (auto simp: is_done_def split: run.splits)
qed code_simp+

text \<open>
  C31: Locking for reading twice can stop for good. If a thread has the lock for reading, a writer begins to wait, and the thread locks for reading once more, then
  the thread sleeps behind the writer and the writer behind the thread: whatever the two do from then on, also when they are woken
  for another reason, neither call ever returns.
\<close>

theorem rwlock_reader_reentry_deadlocks:
  assumes "\<forall>e\<in>set es. fst e = 1 \<or> fst e = 2"
  shows "\<exists>s. lock_run rw_step ([(1, RdLock), (1, RdLock), (2, WrLock), (2, WrLock), (1, RdLock), (1, RdLock)] @ es) rw_init = Done s \<and>
    rw_phase s 1 \<in> {RWReading, RWReadWait} \<and> rw_phase s 2 \<in> {RWWriting, RWWriteWait} \<and> rw_reads s = [1] \<and> rw_writes s 2 = 0"
proof -
  have stuck: "\<exists>s'. lock_run rw_step es s = Done s' \<and> rw_phase s' 1 \<in> {RWReading, RWReadWait} \<and> rw_phase s' 2 \<in> {RWWriting, RWWriteWait} \<and>
      rw_reads s' = [1] \<and> rw_writes s' 2 = 0"
    if "\<forall>e\<in>set es. fst e = 1 \<or> fst e = 2" "rw_phase s 1 \<in> {RWReading, RWReadWait}" "rw_phase s 2 \<in> {RWWriting, RWWriteWait}" "rw_reads s = [1]"
      "rw_writes s 2 = 0" "rw_readers_active s = 1" "rw_writers_waiting s = 1" for s and es :: "(int \<times> rw_call) list"
    using that
  proof (induction es arbitrary: s)
    case (Cons e es)
    obtain t call where e: "e = (t, call)" by (cases e)
    obtain s1 where s1: "rw_step e s = Done s1" using e by simp
    have "rw_phase s1 1 \<in> {RWReading, RWReadWait}" "rw_phase s1 2 \<in> {RWWriting, RWWriteWait}" "rw_reads s1 = [1]"
        "rw_writes s1 2 = 0" "rw_readers_active s1 = 1" "rw_writers_waiting s1 = 1"
      using s1 e Cons.prems by (auto simp: rw_ops split: if_splits)
    then show ?case using Cons.IH [of s1] Cons.prems(1) s1 by simp
  qed simp
  show ?thesis using stuck [OF assms] by (simp add: rw_init_def rw_ops)
qed

theorem rwlock_reader_reentry_deadlocks_witness:
  "\<exists>s. lock_run rw_step ([(1, RdLock), (1, RdLock), (2, WrLock), (2, WrLock), (1, RdLock), (1, RdLock)] @ [(1, Wakeup), (2, Wakeup), (1, RdLock)]) rw_init = Done s \<and>
    rw_phase s 1 \<in> {RWReading, RWReadWait} \<and> rw_phase s 2 \<in> {RWWriting, RWWriteWait} \<and> rw_reads s = [1] \<and> rw_writes s 2 = 0"
  by (rule rwlock_reader_reentry_deadlocks) simp

end
