(* ===== verification/Spec2Isabelle.thy ===== *)
theory Spec2Isabelle
  imports Kmalloc Pipe EventFD DeflateStream HashMap Scheduler Mutex SpinLock RWLock
begin

text \<open>
  \<^bold>\<open>A verification development for banan-os.\<close>

  banan-os is an operating system written in C++: a support library (\<^verbatim>\<open>src/BAN\<close>), a kernel
  (\<^verbatim>\<open>src/kernel\<close>) and a user space (\<^verbatim>\<open>src/userspace\<close>). The library is used by both others. In the
  kernel, the boot loader's memory map becomes the physical page allocator, whose pages back the
  kernel's heap and the ring buffers of pipes and sockets; threads wait on pipes, event counters and
  locks through the blockers of the scheduler. In user space, the DEFLATE library compresses and
  decompresses byte streams for images and programs. The theories model these parts as functions on
  explicit states, in the order in which the parts rest on each other.

  \<^bold>\<open>Conventions.\<close> Theory \<open>Prelude\<close> holds the outcome type \<open>run\<close>: \<open>Done x\<close> for a call that returns \<open>x\<close> and
  \<open>Halt\<close> for a failed \<^verbatim>\<open>ASSERT\<close>, a \<^verbatim>\<open>panic\<close>, a failed \<^verbatim>\<open>MUST\<close> or an access outside mapped memory. \<^verbatim>\<open>BAN::ErrorOr\<close> is
  \<open>error_or\<close>, a sum with the error number on the left; \<open>tbind\<close> is \<^verbatim>\<open>TRY\<close> and \<open>must\<close> is \<^verbatim>\<open>MUST\<close>. Machine integers are words
  where the source relies on their width, and naturals where an invariant keeps them in range.
  Whether an allocation succeeds, the time and the answers of page tables are arguments.

  \<^bold>\<open>BAN.\<close>
  \<^item> \<open>BAN_Math\<close> models \<^verbatim>\<open>BAN/Math.h\<close> (integers).
  \<^item> \<open>BAN_Sort\<close> models \<^verbatim>\<open>BAN/Sort.h\<close>, \<^verbatim>\<open>BAN/Heap.h\<close> and \<^verbatim>\<open>BAN/PriorityQueue.h\<close> on lists with index ranges. The sorts are
    correct for every strict weak order (locale \<open>strict_weak_order\<close>, interpreted on the orders that the
    kernel and the compressor sort by); \<open>quick_sort\<close> is correct only for the default order,
    because it drops its comparison in the recursive calls.
  \<^item> \<open>HashSet\<close> and \<open>HashMap\<close> model \<^verbatim>\<open>BAN/HashSet.h\<close>, \<^verbatim>\<open>BAN/HashMap.h\<close> and the integer hashes of \<^verbatim>\<open>BAN/Hash.h\<close>. The probe sequence is
    a linear congruential generator of full period; every sequence of operations implements a
    finite map (locale \<open>keyed_table\<close>, interpreted on both containers). The fuel of the probe loops is the
    number of buckets, which suffices because there is always an unused bucket.

  \<^bold>\<open>Memory.\<close>
  \<^item> \<open>PhysicalRange\<close> models \<^verbatim>\<open>Memory/PhysicalRange.cpp\<close>: the bitmap of one range of pages, with the
    meaning of the four operations on the sets of free and used pages.
  \<^item> \<open>KernelHeap\<close> models \<^verbatim>\<open>Memory/Heap.cpp\<close>: the ranges are found from the memory map; every sequence of calls
    implements an abstract pool of pages (locale \<open>page_pool\<close>).
  \<^item> \<open>Kmalloc\<close> models \<^verbatim>\<open>Memory/kmalloc.cpp\<close>: the bitmap allocator hands out disjoint blocks, and big blocks, when there are enough free pages,
    take and give back their pages.
  \<^item> \<open>RingBuffer\<close> models \<^verbatim>\<open>Memory/ByteRingBuffer.cpp\<close> as a bounded byte queue (locale \<open>byte_fifo\<close>).

  \<^bold>\<open>Pipes and events.\<close>
  \<^item> \<open>Pipe\<close> models \<^verbatim>\<open>FS/Pipe.cpp\<close> on the ring buffer: the bytes read are the bytes written, in order.
  \<^item> \<open>EventFD\<close> models \<^verbatim>\<open>FS/EventFD.cpp\<close>: the counter loses and gains nothing.

  \<^bold>\<open>The scheduler.\<close> Threads and blockers are numbers, and the members of the nodes are functions of them, so that a
  store models the linked structures with their aliasing.
  \<^item> \<open>SchedulerThreadNode\<close> models \<^verbatim>\<open>SchedulerThreadNode.cpp\<close>: the run queue is a list and the linked tree of sleeping
    threads is a complete binary heap, through swaps of nodes that may be parent and child. The loops that follow
    links are partial functions; the lemmas show that they return.
  \<^item> \<open>Scheduler\<close> models \<^verbatim>\<open>Scheduler.cpp\<close> and \<^verbatim>\<open>ThreadBlocker.cpp\<close> on these lists. A failed assertion is \<open>None\<close>. The
    invariant \<open>sched_inv\<close> holds after every sequence of events, a ready thread gets to run, and
    the timer wakes exactly the threads that are due. The load balancing between processors is left out.

  \<^bold>\<open>The locks.\<close> A lock is a step function over any number of threads or processors; each step is one atomic access or one section under
  a spin lock, and a list of steps is an interleaving. \<open>ExclusiveLock\<close> holds the contract, the locale \<open>exclusive_lock\<close>, and the
  invariant of the locks that count. Runs have fewer than \<open>2 ^ 32\<close> steps, because the counters have 32 bits.
  \<^item> \<open>Mutex\<close> models \<^verbatim>\<open>Lock/Mutex.cpp\<close>: both mutexes exclude, and no user thread overtakes a waiting kernel thread.
  \<^item> \<open>SpinLock\<close> models \<^verbatim>\<open>Lock/SpinLock.cpp\<close>: both spin locks exclude with interrupts disabled and restore the interrupts.
  \<^item> \<open>RWLock\<close> models \<^verbatim>\<open>Lock/RWLock.cpp\<close>: readers and writers exclude each other, and no wake-up is lost. A second lock for reading behind a
    waiting writer never returns, which is a theorem as well.

  \<^bold>\<open>LibDEFLATE.\<close>
  \<^item> \<open>BitStream\<close> models the bit streams and checksums, \<open>HuffmanTree\<close> the decoding tables, \<open>HuffmanEncode\<close> the construction
    of codes, \<open>LZ77\<close> the search for repetitions, \<open>Deflate\<close> the rest of \<^verbatim>\<open>Compressor.cpp\<close>, \<open>Inflate\<close> the state machine of
    \<^verbatim>\<open>Decompressor.cpp\<close>.
  \<^item> \<open>DeflateRoundtrip\<close> and \<open>DeflateStream\<close> compose them: decompressing what the compressor wrote for an input of one block
    gives the input, when the code lengths fit the format. The fuel of the decoding loop is the
    length of the stream in bits; each round reads at least one. The cases in which the library
    fails (several blocks, one used symbol, a footer in pieces) are theorems of their own.

  \<^bold>\<open>Not modelled.\<close> Code that only talks to hardware (interrupt controllers, timers, PCI, USB, storage, audio and graphics
  drivers, page tables, the context switch), because its meaning is in the devices; ACPI and its byte
  code; processes, system calls and the file systems on disk, which compose most of the kernel over
  user memory and block devices; the network stack; most of the C library, the graphical libraries, the shell and the
  programs, whose effects are system calls and output. Memory ordering is that of sequential consistency.
  Floating point functions of \<^verbatim>\<open>BAN/Math.h\<close>, \<^verbatim>\<open>radix_sort\<close>, debug output and the \<^verbatim>\<open>stat\<close> fields of inodes are left out of the
  components that are modelled.
\<close>

end
